(* ===== verification/Prelude.thy ===== *)
theory Prelude
  imports Main "HOL-Library.Word" "HOL-Library.Finite_Map" "HOL-Library.Multiset"
begin

text \<open>
  What every component of the development shares.

  \<^item> The machine integers of the Rust sources: \<open>u64\<close>, \<open>u32\<close> and \<open>u8\<close> are words of
    their width; \<open>usize\<close> (lengths and limits of in-memory containers) is \<^typ>\<open>nat\<close>.
    \<open>checked_add\<close>, \<open>saturating_add\<close>, \<open>saturating_sub\<close> and \<open>abs_diff\<close> are the methods
    of the same name of the Rust integers.
  \<^item> Results: \<open>Result<T, E>\<close> is \<open>('e, 'a) result\<close>.  Beside the error \<open>Err e\<close> that the
    source returns, a call can end in \<open>Panic\<close> (a failed arithmetic overflow check, an
    \<open>expect\<close> on \<open>None\<close>) or \<open>Diverge\<close> (a loop that does not end).  The operator \<open>?\<close> of
    the source is \<open>and_then\<close>, a \<open>for\<close> loop whose body ends in \<open>?\<close> is \<open>for_each\<close>.
    An operation that takes \<open>&mut self\<close> returns its result together with the state it
    leaves behind, also when it fails.
  \<^item> \<open>HashMap\<close> and \<open>BTreeMap\<close> are finite maps; a \<open>BTreeMap\<close> is iterated in key order by
    \<open>sorted_list_of_fmap\<close>.
\<close>

named_theorems result_simps \<open>decomposition of results built by and_then and for_each\<close>
named_theorems word_nat \<open>machine arithmetic, read through unat\<close>
named_theorems fmap_card \<open>cardinalities of finite maps under updates\<close>

section \<open>Machine integers\<close>

type_synonym u64 = "64 word"
type_synonym u32 = "32 word"
type_synonym u8 = "8 word"
type_synonym usize = nat

definition checked_add :: "'a::len word \<Rightarrow> 'a word \<Rightarrow> 'a word option" where
  "checked_add a b = (if unat a + unat b < 2 ^ LENGTH('a) then Some (a + b) else None)"

definition checked_sub :: "'a::len word \<Rightarrow> 'a word \<Rightarrow> 'a word option" where
  "checked_sub a b = (if b \<le> a then Some (a - b) else None)"

definition saturating_add :: "'a::len word \<Rightarrow> 'a word \<Rightarrow> 'a word" where
  "saturating_add a b = (if unat a + unat b < 2 ^ LENGTH('a) then a + b else - 1)"

definition saturating_sub :: "'a::len word \<Rightarrow> 'a word \<Rightarrow> 'a word" where
  "saturating_sub a b = (if a < b then 0 else a - b)"

definition abs_diff :: "'a::len word \<Rightarrow> 'a word \<Rightarrow> 'a word" where
  "abs_diff a b = (if a < b then b - a else a - b)"

lemma checked_add_Some [word_nat]:
  "checked_add a b = Some c \<longleftrightarrow> c = a + b \<and> unat a + unat b < 2 ^ LENGTH('a)"
  for a b c :: "'a::len word"
  by (auto simp: checked_add_def)

lemma checked_add_None [word_nat]:
  "checked_add a b = None \<longleftrightarrow> 2 ^ LENGTH('a) \<le> unat a + unat b" for a b :: "'a::len word"
  by (auto simp: checked_add_def)

lemma unat_plus_no_overflow [word_nat]:
  "unat a + unat b < 2 ^ LENGTH('a) \<Longrightarrow> unat (a + b) = unat a + unat b" for a b :: "'a::len word"
  by (simp add: unat_word_ariths)

lemma checked_sub_Some [word_nat]:
  "checked_sub a b = Some c \<longleftrightarrow> c = a - b \<and> b \<le> a"
  by (auto simp: checked_sub_def)

lemma unat_add_less_iff:
  "unat a + unat b < 2 ^ LENGTH('a) \<longleftrightarrow> uint a + uint b < 2 ^ LENGTH('a)" for a b :: "'a::len word"
  using of_nat_less_iff [of "unat a + unat b" "2 ^ LENGTH('a)", where 'a = int] by simp

lemma checked_add_uint:
  "checked_add a b = Some c \<longleftrightarrow> uint c = uint a + uint b" for a b c :: "'a::len word"
proof
  assume "uint c = uint a + uint b"
  moreover from this have "uint a + uint b < 2 ^ LENGTH('a)" by (metis uint_lt2p)
  ultimately show "checked_add a b = Some c"
    by (simp add: checked_add_Some unat_add_less_iff word_uint_eq_iff uint_word_ariths)
qed (auto simp: checked_add_Some unat_add_less_iff uint_word_ariths)

lemma checked_sub_uint:
  "checked_sub a b = Some c \<longleftrightarrow> uint c = uint a - uint b" for a b c :: "'a::len word"
proof
  assume c: "uint c = uint a - uint b"
  then have "0 \<le> uint a - uint b" "uint a - uint b < 2 ^ LENGTH('a)" by (metis uint_ge_0, metis uint_lt2p)
  with c show "checked_sub a b = Some c"
    by (simp add: checked_sub_Some word_le_def word_uint_eq_iff uint_word_ariths)
qed (auto simp: checked_sub_Some word_le_def uint_sub_lem [symmetric])

lemma unat_u64_bound [simp]: "unat (a :: u64) < 18446744073709551616"
proof -
  have "unat a < 2 ^ LENGTH(64)" by (rule unsigned_less)
  then show ?thesis by simp
qed

lemma unat_of_nat_u64: "i < 2 ^ 64 \<Longrightarrow> unat (of_nat i :: u64) = i"
  by (simp add: unsigned_of_nat take_bit_nat_eq_self)

lemma checked_add_of_nat:
  assumes "i < 2 ^ 64"
  shows "checked_add (a :: u64) (of_nat i) = Some t \<longleftrightarrow> unat t = unat a + i"
    and "checked_add (a :: u64) (of_nat i) = None \<longleftrightarrow> 2 ^ 64 \<le> unat a + i"
proof -
  show "checked_add a (of_nat i) = Some t \<longleftrightarrow> unat t = unat a + i"
  proof
    assume "unat t = unat a + i"
    moreover from this have "unat a + i < 2 ^ 64" using unat_u64_bound [of t] by simp
    ultimately show "checked_add a (of_nat i) = Some t"
      using assms unat_plus_no_overflow [of a "of_nat i"]
      by (simp add: checked_add_Some unat_of_nat_u64 word_unat_eq_iff)
  qed (use assms in \<open>simp add: checked_add_Some unat_of_nat_u64 unat_plus_no_overflow\<close>)
  show "checked_add a (of_nat i) = None \<longleftrightarrow> 2 ^ 64 \<le> unat a + i"
    using assms by (simp add: checked_add_None unat_of_nat_u64)
qed

lemma unat_saturating_add:
  "unat (saturating_add a b) = min (unat a + unat b) (2 ^ LENGTH('a) - 1)" for a b :: "'a::len word"
  by (auto simp: saturating_add_def unat_plus_no_overflow unsigned_minus_1_eq_mask mask_eq_exp_minus_1)

lemma unat_saturating_sub: "unat (saturating_sub a b) = unat a - unat b"
  by (auto simp: saturating_sub_def word_less_nat_alt unat_sub word_le_nat_alt)

lemma unat_abs_diff: "unat (abs_diff a b) = (unat a - unat b) + (unat b - unat a)"
  by (auto simp: abs_diff_def word_less_nat_alt unat_sub word_le_nat_alt)

section \<open>Results\<close>

datatype 'e fault = Err 'e | Panic | Diverge

type_synonym ('e, 'a) result = "'e fault + 'a"

abbreviation Ok :: "'a \<Rightarrow> ('e, 'a) result" where
  "Ok \<equiv> Inr"

abbreviation Error :: "'e \<Rightarrow> ('e, 'a) result" where
  "Error e \<equiv> Inl (Err e)"

definition and_then :: "('e, 'a) result \<Rightarrow> ('a \<Rightarrow> ('e, 'b) result) \<Rightarrow> ('e, 'b) result" where
  "and_then r f = (case r of Inl e \<Rightarrow> Inl e | Inr x \<Rightarrow> f x)"

lemma and_then_simps [simp]:
  "and_then (Inl e) f = Inl e"
  "and_then (Inr x) f = f x"
  by (simp_all add: and_then_def)

lemma and_then_Ok_iff [result_simps]:
  "and_then r f = Inr y \<longleftrightarrow> (\<exists>x. r = Inr x \<and> f x = Inr y)"
  by (cases r) auto

lemma and_then_Inl_iff [result_simps]:
  "and_then r f = Inl e \<longleftrightarrow> r = Inl e \<or> (\<exists>x. r = Inr x \<and> f x = Inl e)"
  by (cases r) auto

fun for_each :: "('a \<Rightarrow> ('e, unit) result) \<Rightarrow> 'a list \<Rightarrow> ('e, unit) result" where
  "for_each f [] = Ok ()"
| "for_each f (x # xs) = and_then (f x) (\<lambda>_. for_each f xs)"

lemma for_each_Ok_iff [result_simps]:
  "for_each f xs = Inr u \<longleftrightarrow> (\<forall>x \<in> set xs. f x = Inr ())"
  by (induction xs) (auto simp: result_simps)

lemma for_each_cong [fundef_cong]:
  "xs = ys \<Longrightarrow> (\<And>x. x \<in> set ys \<Longrightarrow> f x = g x) \<Longrightarrow> for_each f xs = for_each g ys"
  by (induction xs arbitrary: ys) auto

lemma for_each_fault:
  "for_each f xs = Inl e \<Longrightarrow> \<exists>x \<in> set xs. f x = Inl e"
  by (induction xs) (auto simp: result_simps)

text \<open>A loop that pushes \<open>f(x)?\<close> for every element.\<close>

fun traverse :: "('a \<Rightarrow> ('e, 'b) result) \<Rightarrow> 'a list \<Rightarrow> ('e, 'b list) result" where
  "traverse f [] = Ok []"
| "traverse f (x # xs) = and_then (f x) (\<lambda>y. and_then (traverse f xs) (\<lambda>ys. Ok (y # ys)))"

lemma traverse_cong [fundef_cong]:
  "xs = ys \<Longrightarrow> (\<And>x. x \<in> set ys \<Longrightarrow> f x = g x) \<Longrightarrow> traverse f xs = traverse g ys"
  by (induction xs arbitrary: ys) auto

lemma traverse_map:
  "(\<And>x. x \<in> set xs \<Longrightarrow> f (g x) = Ok (h x)) \<Longrightarrow> traverse f (map g xs) = Ok (map h xs)"
  by (induction xs) auto

text \<open>\<open>map_err\<close>.\<close>

fun map_err :: "('e \<Rightarrow> 'f) \<Rightarrow> ('e, 'a) result \<Rightarrow> ('f, 'a) result" where
  "map_err f (Inl (Err e)) = Error (f e)"
| "map_err f (Inl Panic) = Inl Panic"
| "map_err f (Inl Diverge) = Inl Diverge"
| "map_err f (Inr a) = Ok a"

text \<open>\<open>ok_or\<close> turns an \<open>Option\<close> into a \<open>Result\<close>; \<open>expect\<close> panics on \<open>None\<close>.\<close>

definition ok_or :: "'e \<Rightarrow> 'a option \<Rightarrow> ('e, 'a) result" where
  "ok_or e x = (case x of None \<Rightarrow> Error e | Some a \<Rightarrow> Ok a)"

definition expect :: "'a option \<Rightarrow> ('e, 'a) result" where
  "expect x = (case x of None \<Rightarrow> Inl Panic | Some a \<Rightarrow> Ok a)"

lemma ok_or_Inr_iff [result_simps]: "ok_or e x = Inr a \<longleftrightarrow> x = Some a"
  by (cases x) (auto simp: ok_or_def)

lemma ok_or_Inl_iff [result_simps]: "ok_or e x = Inl f \<longleftrightarrow> x = None \<and> f = Err e"
  by (cases x) (auto simp: ok_or_def)

lemma ok_or_simps [simp]: "ok_or e None = Error e" "ok_or e (Some a) = Ok a"
  by (simp_all add: ok_or_def)

lemma expect_Inr_iff [result_simps]: "expect x = Inr a \<longleftrightarrow> x = Some a"
  by (cases x) (auto simp: expect_def)

lemma expect_Inl_iff [result_simps]: "expect x = Inl f \<longleftrightarrow> x = None \<and> f = Panic"
  by (cases x) (auto simp: expect_def)

lemma expect_simps [simp]: "expect None = Inl Panic" "expect (Some a) = Ok a"
  by (simp_all add: expect_def)

text \<open>Sequencing of calls on \<open>&mut self\<close>: the second call starts from the state the first left.\<close>

definition and_then_st ::
  "('e, 'a) result \<times> 's \<Rightarrow> ('a \<Rightarrow> 's \<Rightarrow> ('e, 'b) result \<times> 's) \<Rightarrow> ('e, 'b) result \<times> 's" where
  "and_then_st rs f = (case rs of (Inl e, s) \<Rightarrow> (Inl e, s) | (Inr x, s) \<Rightarrow> f x s)"

lemma and_then_st_simps [simp]:
  "and_then_st (Inl e, s) f = (Inl e, s)"
  "and_then_st (Inr x, s) f = f x s"
  by (simp_all add: and_then_st_def)

lemma and_then_st_Ok_iff [result_simps]:
  "and_then_st rs f = (Inr y, s') \<longleftrightarrow> (\<exists>x s. rs = (Inr x, s) \<and> f x s = (Inr y, s'))"
  by (cases rs; cases "fst rs") auto

lemma and_then_st_Inl_iff [result_simps]:
  "and_then_st rs f = (Inl e, s') \<longleftrightarrow>
     rs = (Inl e, s') \<or> (\<exists>x s. rs = (Inr x, s) \<and> f x s = (Inl e, s'))"
  by (cases rs; cases "fst rs") auto

section \<open>Vectors and finite maps\<close>

text \<open>\<open>Vec::insert\<close>; every call of the sources has checked \<open>i \<le> len\<close> before.\<close>

definition vec_insert :: "nat \<Rightarrow> 'a \<Rightarrow> 'a list \<Rightarrow> 'a list" where
  "vec_insert i x xs = take i xs @ x # drop i xs"

lemma set_vec_insert [simp]: "set (vec_insert i x xs) = insert x (set xs)"
proof -
  have "set (take i xs) \<union> set (drop i xs) = set xs"
    by (metis append_take_drop_id set_append)
  then show ?thesis by (auto simp: vec_insert_def)
qed

lemma length_vec_insert [simp]: "length (vec_insert i x xs) = Suc (length xs)"
  by (simp add: vec_insert_def)

lemma distinct_vec_insert [simp]:
  "distinct (vec_insert i x xs) \<longleftrightarrow> x \<notin> set xs \<and> distinct xs"
proof -
  have "mset (vec_insert i x xs) = mset (x # xs)"
    using mset_append [of "take i xs" "drop i xs"] by (simp add: vec_insert_def)
  then have "distinct (vec_insert i x xs) \<longleftrightarrow> distinct (x # xs)"
    by (rule mset_eq_imp_distinct_iff)
  then show ?thesis by simp
qed

abbreviation len_map :: "('k, 'v) fmap \<Rightarrow> nat" where
  "len_map m \<equiv> fcard (fmdom m)"

lemma len_map_fmupd_new [fmap_card]:
  "fmlookup m k = None \<Longrightarrow> len_map (fmupd k v m) = Suc (len_map m)"
  by (simp add: fmdom_notI fcard_finsert_disjoint)

lemma len_map_fmupd_old [fmap_card]:
  "fmlookup m k = Some w \<Longrightarrow> len_map (fmupd k v m) = len_map m"
  by (simp add: fmdomI finsert_absorb)

lemma len_map_fmdrop [fmap_card]:
  "fmlookup m k = Some w \<Longrightarrow> Suc (len_map (fmdrop k m)) = len_map m"
  by (metis fmdomI fmdom_drop fcard_Suc_fminus1)

lemma len_map_fmdrop_le [fmap_card]: "len_map (fmdrop k m) \<le> len_map m"
  by (rule fcard_mono) auto

lemma len_map_alt: "len_map m = card (fmdom' m)"
  by (simp add: fcard.rep_eq fmdom'_alt_def)

text \<open>A loop that inserts one binding per element.\<close>

lemma fold_fmupd_out:
  "k \<notin> key ` set xs \<Longrightarrow>
   fmlookup (fold (\<lambda>x. fmupd (key x) (val x)) xs m) k = fmlookup m k"
  by (induction xs arbitrary: m) auto

lemma fold_fmupd_in:
  assumes "distinct (map key xs)" and "x \<in> set xs"
  shows "fmlookup (fold (\<lambda>x. fmupd (key x) (val x)) xs m) (key x) = Some (val x)"
  using assms
proof (induction xs arbitrary: m)
  case (Cons y ys)
  then show ?case
    by (cases "x = y") (auto simp: fold_fmupd_out)
qed simp

lemma set_sorted_list_of_fmap:
  "(k, v) \<in> set (sorted_list_of_fmap m) \<longleftrightarrow> fmlookup m k = Some v"
  for m :: "('k::linorder, 'v) fmap"
  by (auto simp: sorted_list_of_fmap_def fmlookup_dom_iff)

lemma ball_sorted_list_of_fmap:
  "(\<forall>x \<in> set (sorted_list_of_fmap m). P x) \<longleftrightarrow> (\<forall>k v. fmlookup m k = Some v \<longrightarrow> P (k, v))"
  for m :: "('k::linorder, 'v) fmap"
  using set_sorted_list_of_fmap [of _ _ m] by (metis surj_pair)

lemma map_fst_sorted_list_of_fmap:
  "map fst (sorted_list_of_fmap m) = sorted_list_of_fset (fmdom m)"
  for m :: "('k::linorder, 'v) fmap"
  by (simp add: sorted_list_of_fmap_def comp_def)

lemma distinct_fst_sorted_list_of_fmap [simp]:
  "distinct (map fst (sorted_list_of_fmap m))" for m :: "('k::linorder, 'v) fmap"
  by (simp add: map_fst_sorted_list_of_fmap sorted_list_of_fset.rep_eq)

lemma distinct_map_via:
  assumes "distinct (map f xs)"
    and "\<And>x y. x \<in> set xs \<Longrightarrow> y \<in> set xs \<Longrightarrow> g x = g y \<Longrightarrow> f x = f y"
  shows "distinct (map g xs)"
proof -
  have "distinct xs" "inj_on f (set xs)" using assms(1) by (simp_all add: distinct_map)
  moreover have "inj_on g (set xs)"
    by (rule inj_onI) (use assms(2) \<open>inj_on f (set xs)\<close> in \<open>blast dest: inj_onD\<close>)
  ultimately show ?thesis by (simp add: distinct_map)
qed

end
