(* ===== verification/Values.thy ===== *)
theory Values
  imports Prelude "HOL-Library.Char_ord"
begin

text \<open>
  Identifiers and values of the semantic graph:
  \<^verbatim>\<open>server-rust/semantic-tree/src/ids\<close> and \<^verbatim>\<open>server-rust/semantic-tree/src/value\<close>.

  \<^item> \<open>NodeId\<close>, \<open>ItemId\<close> and \<open>ModelId\<close> are newtypes over \<open>u64\<close>; they are type synonyms here.
  \<^item> \<open>TypeRef\<close> and \<open>PropertyRef\<close> are pairs of \<open>u32\<close>, with the derived lexicographic order.
  \<^item> \<open>ResourceHash\<close> is an array of 32 bytes, here a list of bytes with \<open>resource_hash_wf\<close>
    for its length, with the hexadecimal codec of \<^verbatim>\<open>node_id.rs\<close>.  A Rust string is its list
    of UTF-8 bytes.
  \<^item> \<open>Value\<close>, here \<open>value_t\<close>, is the seventeen-way sum of \<^verbatim>\<open>value/mod.rs\<close>.  An \<open>f64\<close> is its 64 bit pattern:
    the code only stores and copies floats.
\<close>

section \<open>Identifiers\<close>

type_synonym node_id = u64
type_synonym item_id = u64
type_synonym model_id = u64
type_synonym f64 = "64 word"

datatype type_ref = TypeRef (tr_namespace_id: u32) (tr_local_id: u32)

datatype property_ref = PropertyRef (namespace_id: u32) (local_id: u32)

instantiation property_ref :: linorder
begin

definition less_eq_property_ref :: "property_ref \<Rightarrow> property_ref \<Rightarrow> bool" where
  "less_eq_property_ref p q \<longleftrightarrow>
     namespace_id p < namespace_id q \<or>
     namespace_id p = namespace_id q \<and> local_id p \<le> local_id q"

definition less_property_ref :: "property_ref \<Rightarrow> property_ref \<Rightarrow> bool" where
  "less_property_ref p q \<longleftrightarrow>
     namespace_id p < namespace_id q \<or>
     namespace_id p = namespace_id q \<and> local_id p < local_id q"

instance
  by standard (auto simp: less_eq_property_ref_def less_property_ref_def property_ref.expand)

end

instantiation type_ref :: linorder
begin

definition less_eq_type_ref :: "type_ref \<Rightarrow> type_ref \<Rightarrow> bool" where
  "less_eq_type_ref p q \<longleftrightarrow>
     tr_namespace_id p < tr_namespace_id q \<or>
     tr_namespace_id p = tr_namespace_id q \<and> tr_local_id p \<le> tr_local_id q"

definition less_type_ref :: "type_ref \<Rightarrow> type_ref \<Rightarrow> bool" where
  "less_type_ref p q \<longleftrightarrow>
     tr_namespace_id p < tr_namespace_id q \<or>
     tr_namespace_id p = tr_namespace_id q \<and> tr_local_id p < tr_local_id q"

instance
  by standard (auto simp: less_eq_type_ref_def less_type_ref_def type_ref.expand)

end

definition standard_property :: "u32 \<Rightarrow> property_ref" where
  "standard_property l = PropertyRef 0 l"

definition standard_type :: "u32 \<Rightarrow> type_ref" where
  "standard_type l = TypeRef 0 l"

text \<open>The registry entry \<^verbatim>\<open>model_ref\<close> (id 17 of \<^verbatim>\<open>protocol/registry.yaml\<close>).\<close>

definition MODEL_REF :: property_ref where
  "MODEL_REF = standard_property 17"

section \<open>Resource hashes\<close>

type_synonym resource_hash = "u8 list"

definition resource_hash_wf :: "resource_hash \<Rightarrow> bool" where
  "resource_hash_wf h \<longleftrightarrow> length h = 32"

datatype parse_resource_hash_error = InvalidLength usize | InvalidHexCharacter

definition byte_of_char :: "char \<Rightarrow> u8" where
  "byte_of_char c = of_nat (of_char c)"

definition str_bytes :: "string \<Rightarrow> u8 list" where
  "str_bytes s = map byte_of_char s"

definition hex_digit :: "u8 \<Rightarrow> u8" where
  "hex_digit d = str_bytes ''0123456789abcdef'' ! unat d"

fun to_hex :: "resource_hash \<Rightarrow> u8 list" where
  "to_hex [] = []"
| "to_hex (b # bs) = hex_digit (b div 16) # hex_digit (b mod 16) # to_hex bs"

definition hash_display :: "resource_hash \<Rightarrow> u8 list" where
  "hash_display h = str_bytes ''sha256:'' @ to_hex h"

definition strip_prefix :: "u8 list \<Rightarrow> u8 list \<Rightarrow> u8 list option" where
  "strip_prefix p s = (if take (length p) s = p then Some (drop (length p) s) else None)"

text \<open>
  \<open>str\<close> slicing panics when an end of the slice is not on a character boundary: a byte
  \<open>0b10xxxxxx\<close> continues a character.
\<close>

definition is_char_boundary :: "u8 list \<Rightarrow> nat \<Rightarrow> bool" where
  "is_char_boundary s i \<longleftrightarrow>
     i = length s \<or> i < length s \<and> \<not> (128 \<le> s ! i \<and> s ! i < 192)"

definition str_slice :: "u8 list \<Rightarrow> nat \<Rightarrow> nat \<Rightarrow> ('e, u8 list) result" where
  "str_slice s i j =
     (if i \<le> j \<and> j \<le> length s \<and> is_char_boundary s i \<and> is_char_boundary s j
      then Ok (take (j - i) (drop i s)) else Inl Panic)"

text \<open>\<open>char::to_digit(16)\<close>: both cases of the letters are digits.\<close>

definition to_digit16 :: "u8 \<Rightarrow> u8 option" where
  "to_digit16 c =
     (if 48 \<le> c \<and> c \<le> 57 then Some (c - 48)
      else if 97 \<le> c \<and> c \<le> 102 then Some (c - 87)
      else if 65 \<le> c \<and> c \<le> 70 then Some (c - 55)
      else None)"

text \<open>
  \<open>u8::from_str_radix(s, 16)\<close> on a two byte string: a leading \<open>+\<close> (43) is taken as a sign
  when a digit follows.
\<close>

definition u8_from_str_radix16 :: "u8 list \<Rightarrow> u8 option" where
  "u8_from_str_radix16 s =
     (case s of
        [a, b] \<Rightarrow>
          if a = 43 then to_digit16 b
          else (case (to_digit16 a, to_digit16 b) of
                  (Some x, Some y) \<Rightarrow> Some (16 * x + y)
                | _ \<Rightarrow> None)
      | _ \<Rightarrow> None)"

fun from_hex_loop :: "u8 list \<Rightarrow> nat list \<Rightarrow> (parse_resource_hash_error, u8 list) result" where
  "from_hex_loop clean [] = Ok []"
| "from_hex_loop clean (i # is) =
     and_then (str_slice clean (i * 2) (i * 2 + 2)) (\<lambda>byte_hex.
     and_then (ok_or InvalidHexCharacter (u8_from_str_radix16 byte_hex)) (\<lambda>b.
     and_then (from_hex_loop clean is) (\<lambda>bs. Ok (b # bs))))"

definition from_hex :: "u8 list \<Rightarrow> (parse_resource_hash_error, resource_hash) result" where
  "from_hex s =
     (let clean = (case strip_prefix (str_bytes ''sha256:'') s of Some c \<Rightarrow> c | None \<Rightarrow> s)
      in if length clean \<noteq> 64 then Error (InvalidLength (length clean))
         else from_hex_loop clean [0..<32])"

section \<open>Values\<close>

datatype value_t =
    VNull
  | VBool bool
  | VSignedInt u64
  | VUnsignedInt u64
  | VFloat64 f64
  | VString "u8 list"
  | VNodeId node_id
  | VItemId item_id
  | VResourceHash resource_hash
  | VEnumToken u32 u32
  | VSize f64 f64
  | VPoint f64 f64
  | VRange u64 u64
  | VRect f64 f64 f64 f64
  | VEdgeInsets f64 f64 f64 f64
  | VList "value_t list"
  | VRecord type_ref "(property_ref \<times> value_t) list"

fun is_scalar :: "value_t \<Rightarrow> bool" where
  "is_scalar (VList _) = False"
| "is_scalar (VRecord _ _) = False"
| "is_scalar _ = True"

lemma value_size_record [termination_simp]:
  "p \<in> set ps \<Longrightarrow> size (snd p) < Suc (size_list (size_prod (\<lambda>_. 0) size) ps)"
  by (induction ps) (auto split: prod.splits)

fun collect_resource_hashes :: "value_t \<Rightarrow> resource_hash set \<Rightarrow> resource_hash set" where
  "collect_resource_hashes (VResourceHash h) out = insert h out"
| "collect_resource_hashes (VList items) out =
     fold (\<lambda>item o1. collect_resource_hashes item o1) items out"
| "collect_resource_hashes (VRecord _ props) out =
     fold (\<lambda>p o1. collect_resource_hashes (snd p) o1) props out"
| "collect_resource_hashes _ out = out"

section \<open>Properties of the hexadecimal codec\<close>

lemma hex_digit_cases:
  assumes "d < (16 :: u8)"
  shows "to_digit16 (hex_digit d) = Some d \<and> hex_digit d \<noteq> 43 \<and> hex_digit d \<noteq> 115
    \<and> \<not> 128 \<le> hex_digit d"
proof -
  have "unat d < 16" using assms by (simp add: word_less_nat_alt)
  then have "unat d \<in> set [0..<16]" by simp
  moreover have "d = of_nat (unat d)" by simp
  ultimately have "d \<in> set (map of_nat [0..<16])"
    by (metis image_eqI list.set_map)
  then show ?thesis
    by (simp add: upt_rec numeral_eq_Suc [symmetric])
       (elim disjE; simp add: hex_digit_def to_digit16_def str_bytes_def byte_of_char_def)
qed

lemma hex_digits_of_byte:
  "b div 16 < (16 :: u8)" "b mod 16 < (16 :: u8)" "16 * (b div 16) + b mod 16 = (b :: u8)"
proof -
  have "unat b < 256" using unsigned_less [of b] by simp
  then show "b div 16 < 16" by (simp add: word_less_nat_alt unat_div)
  show "b mod 16 < 16" by (simp add: word_less_nat_alt unat_mod)
  show "16 * (b div 16) + b mod 16 = b" by (metis mult_div_mod_eq)
qed

lemma length_to_hex [simp]: "length (to_hex h) = 2 * length h"
  by (induction h rule: to_hex.induct) auto

lemma drop_to_hex: "i \<le> length h \<Longrightarrow> drop (i * 2) (to_hex h) = to_hex (drop i h)"
proof (induction i arbitrary: h)
  case (Suc i)
  then show ?case by (cases h) auto
qed simp

lemma to_hex_ascii: "c \<in> set (to_hex h) \<Longrightarrow> \<not> 128 \<le> c \<and> c \<noteq> 115"
  by (induction h rule: to_hex.induct)
     (auto simp: hex_digit_cases [THEN conjunct2, THEN conjunct2] hex_digits_of_byte)

lemma to_hex_char_boundary: "i \<le> length (to_hex h) \<Longrightarrow> is_char_boundary (to_hex h) i"
  using to_hex_ascii [of "to_hex h ! i" h] by (auto simp: is_char_boundary_def)

lemma str_slice_to_hex:
  assumes "i < length h"
  shows "str_slice (to_hex h) (i * 2) (Suc (Suc (i * 2)))
    = Ok [hex_digit (h ! i div 16), hex_digit (h ! i mod 16)]"
proof -
  have "drop (i * 2) (to_hex h) = to_hex (h ! i # drop (Suc i) h)"
    using assms by (simp add: drop_to_hex Cons_nth_drop_Suc)
  then show ?thesis
    using assms by (simp add: str_slice_def to_hex_char_boundary)
qed

lemma from_hex_loop_to_hex:
  "\<forall>i \<in> set is. i < length h \<Longrightarrow> from_hex_loop (to_hex h) is = Ok (map (\<lambda>i. h ! i) is)"
  by (induction "is")
     (auto simp: str_slice_to_hex u8_from_str_radix16_def hex_digit_cases hex_digits_of_byte)

lemma strip_prefix_to_hex: "strip_prefix (str_bytes ''sha256:'') (to_hex h) = None"
proof (cases h)
  case (Cons b bs)
  have "hex_digit (b div 16) \<noteq> 115" by (simp add: hex_digit_cases hex_digits_of_byte)
  then show ?thesis by (simp add: Cons strip_prefix_def str_bytes_def byte_of_char_def)
qed (simp add: strip_prefix_def str_bytes_def)

lemma from_hex_to_hex:
  assumes "resource_hash_wf h"
  shows "from_hex (to_hex h) = Ok h"
  using assms map_nth [of h]
  by (simp add: from_hex_def strip_prefix_to_hex resource_hash_wf_def from_hex_loop_to_hex)

lemma from_hex_display:
  assumes "resource_hash_wf h"
  shows "from_hex (hash_display h) = Ok h"
  using assms map_nth [of h]
  by (simp add: from_hex_def hash_display_def strip_prefix_def resource_hash_wf_def
      from_hex_loop_to_hex)

lemma from_hex_loop_length: "from_hex_loop s is = Ok h \<Longrightarrow> length h = length is"
  by (induction "is" arbitrary: h) (auto simp: result_simps)

lemma from_hex_wf: "from_hex s = Ok h \<Longrightarrow> resource_hash_wf h"
  by (auto simp: from_hex_def resource_hash_wf_def Let_def dest: from_hex_loop_length split: if_splits)

section \<open>Hashes nested in a value\<close>

inductive nested_hash :: "resource_hash \<Rightarrow> value_t \<Rightarrow> bool" for h where
  here: "nested_hash h (VResourceHash h)"
| in_list: "v \<in> set vs \<Longrightarrow> nested_hash h v \<Longrightarrow> nested_hash h (VList vs)"
| in_record: "(p, v) \<in> set ps \<Longrightarrow> nested_hash h v \<Longrightarrow> nested_hash h (VRecord t ps)"

inductive_simps nested_hash_simps [simp]:
  "nested_hash h VNull" "nested_hash h (VBool b)" "nested_hash h (VSignedInt i)"
  "nested_hash h (VUnsignedInt i)" "nested_hash h (VFloat64 f)" "nested_hash h (VString s)"
  "nested_hash h (VNodeId i)" "nested_hash h (VItemId i)" "nested_hash h (VResourceHash r)"
  "nested_hash h (VEnumToken a b)" "nested_hash h (VSize a b)" "nested_hash h (VPoint a b)"
  "nested_hash h (VRange a b)" "nested_hash h (VRect a b c d)" "nested_hash h (VEdgeInsets a b c d)"
  "nested_hash h (VList vs)" "nested_hash h (VRecord t ps)"

lemma fold_collect_iff:
  assumes "\<And>x out. x \<in> set xs \<Longrightarrow> h \<in> f x out \<longleftrightarrow> h \<in> out \<or> P x"
  shows "h \<in> fold f xs out \<longleftrightarrow> h \<in> out \<or> (\<exists>x \<in> set xs. P x)"
  using assms by (induction xs arbitrary: out) auto

lemma collect_resource_hashes_iff:
  "h \<in> collect_resource_hashes v out \<longleftrightarrow> h \<in> out \<or> nested_hash h v"
proof (induction v out rule: collect_resource_hashes.induct)
  case (2 items out)
  then show ?case
    by (simp add: fold_collect_iff [where P = "nested_hash h"]) blast
next
  case (3 t props out)
  then show ?case
    by (simp add: fold_collect_iff [where P = "\<lambda>p. nested_hash h (snd p)"]) force
qed auto

section \<open>Properties\<close>

text \<open>
  A hash survives its two printed forms: parsing the 64 digits, or the digits behind the
  prefix \<open>sha256:\<close>, gives the hash back.
\<close>

theorem resource_hash_round_trip:
  assumes "resource_hash_wf h"
  shows "from_hex (to_hex h) = Ok h \<and> from_hex (hash_display h) = Ok h"
  using assms by (simp add: from_hex_to_hex from_hex_display)

theorem resource_hash_round_trip_witness:
  "from_hex (hash_display (replicate 32 171)) = Ok (replicate 32 171)"
  using resource_hash_round_trip [of "replicate 32 171"] by (simp add: resource_hash_wf_def)

text \<open>
  A string of 64 bytes whose second and third byte are one character: slicing it into pairs
  of bytes panics.
\<close>

theorem from_hex_panics:
  "from_hex (48 # 195 # 169 # replicate 61 48) = Inl Panic"
  by (simp add: from_hex_def strip_prefix_def str_bytes_def byte_of_char_def upt_rec str_slice_def
      is_char_boundary_def)

text \<open>A sign is taken for a hexadecimal digit.\<close>

theorem from_hex_accepts_sign:
  "from_hex (concat (replicate 32 [43, 102])) = Ok (replicate 32 15)"
  by code_simp

end
