(* ===== verification/Store_Limits.thy ===== *)
theory Store_Limits
  imports Values
begin

text \<open>
  The errors of the store (\<^verbatim>\<open>semantic-tree/src/store/error.rs\<close>) and the mandatory limits
  with the validation of values against them (\<^verbatim>\<open>semantic-tree/src/store/limits.rs\<close>).
  The \<open>reason\<close> strings carried by some errors are diagnostics; the model keeps which of the
  messages it is as a constructor.
\<close>

section \<open>Errors\<close>

datatype reorder_reason =
    ExpectedChildren usize usize
  | NotAChild node_id
  | DuplicateChild node_id

datatype operation_error_reason =
    ModelRefNotNonNegativeInteger
  | WireConversionFailed
  | TransactionOperationsExceeded usize usize

datatype model_delete_reason = CombinedSelectors

datatype store_error =
    NodeIdAlreadyUsed node_id
  | NodeNotFound node_id
  | ParentNotFound node_id
  | InvalidChildrenReorder node_id reorder_reason
  | CycleDetected node_id node_id
  | MaxTreeDepthExceeded usize usize
  | MaxNodeCountExceeded usize usize
  | MaxStringLengthExceeded usize usize
  | MaxValueDepthExceeded usize usize
  | MaxListLengthExceeded usize usize
  | MaxRecordPropertiesExceeded usize usize
  | MaxModelCountExceeded usize usize
  | MaxCachedItemsPerModelExceeded usize usize usize
  | MaxItemsPerModelOperationExceeded usize usize
  | InvalidModelDelete model_delete_reason
  | ChildIndexOutOfBounds usize usize
  | ModelIdAlreadyUsed model_id
  | ModelNotFound model_id
  | ItemNotFound item_id
  | ModelIndexOutOfBounds u64 u64
  | DuplicateItemId model_id item_id
  | OperationError operation_error_reason

fun store_conformance_code :: "store_error \<Rightarrow> string" where
  "store_conformance_code (NodeIdAlreadyUsed _) = ''node_id_already_used''"
| "store_conformance_code (NodeNotFound _) = ''node_not_found''"
| "store_conformance_code (ParentNotFound _) = ''parent_not_found''"
| "store_conformance_code (InvalidChildrenReorder _ _) = ''invalid_children_reorder''"
| "store_conformance_code (CycleDetected _ _) = ''cycle_detected''"
| "store_conformance_code (MaxTreeDepthExceeded _ _) = ''max_tree_depth_exceeded''"
| "store_conformance_code (MaxNodeCountExceeded _ _) = ''max_node_count_exceeded''"
| "store_conformance_code (MaxStringLengthExceeded _ _) = ''max_string_length_exceeded''"
| "store_conformance_code (MaxValueDepthExceeded _ _) = ''max_value_depth_exceeded''"
| "store_conformance_code (MaxListLengthExceeded _ _) = ''max_list_length_exceeded''"
| "store_conformance_code (MaxRecordPropertiesExceeded _ _) = ''max_record_properties_exceeded''"
| "store_conformance_code (MaxModelCountExceeded _ _) = ''max_model_count_exceeded''"
| "store_conformance_code (MaxCachedItemsPerModelExceeded _ _ _) =
     ''max_cached_items_per_model_exceeded''"
| "store_conformance_code (MaxItemsPerModelOperationExceeded _ _) =
     ''max_items_per_model_operation_exceeded''"
| "store_conformance_code (InvalidModelDelete _) = ''invalid_model_delete''"
| "store_conformance_code (ChildIndexOutOfBounds _ _) = ''child_index_out_of_bounds''"
| "store_conformance_code (ModelIdAlreadyUsed _) = ''model_id_already_used''"
| "store_conformance_code (ModelNotFound _) = ''model_not_found''"
| "store_conformance_code (ItemNotFound _) = ''item_not_found''"
| "store_conformance_code (ModelIndexOutOfBounds _ _) = ''model_index_out_of_bounds''"
| "store_conformance_code (DuplicateItemId _ _) = ''duplicate_item_id''"
| "store_conformance_code (OperationError _) = ''operation_error''"

section \<open>Limits\<close>

record store_limits =
  max_tree_depth :: usize
  max_node_count :: usize
  max_string_length :: usize
  max_value_depth :: usize
  max_list_elements :: usize
  max_record_properties :: usize
  max_transaction_operations :: usize
  max_model_count :: usize
  max_cached_items_per_model :: usize
  max_items_per_model_operation :: usize

definition DEFAULT_MAX_TRANSACTION_OPERATIONS :: usize where
  "DEFAULT_MAX_TRANSACTION_OPERATIONS = 10000"

definition DEFAULT_MAX_MODEL_COUNT :: usize where
  "DEFAULT_MAX_MODEL_COUNT = 1000"

definition DEFAULT_MAX_CACHED_ITEMS_PER_MODEL :: usize where
  "DEFAULT_MAX_CACHED_ITEMS_PER_MODEL = 100000"

definition DEFAULT_MAX_ITEMS_PER_MODEL_OPERATION :: usize where
  "DEFAULT_MAX_ITEMS_PER_MODEL_OPERATION = 10000"

definition default_limits :: store_limits where
  "default_limits =
     \<lparr>max_tree_depth = 64, max_node_count = 100000, max_string_length = 1024 * 1024,
      max_value_depth = 16, max_list_elements = 10000, max_record_properties = 1000,
      max_transaction_operations = DEFAULT_MAX_TRANSACTION_OPERATIONS,
      max_model_count = DEFAULT_MAX_MODEL_COUNT,
      max_cached_items_per_model = DEFAULT_MAX_CACHED_ITEMS_PER_MODEL,
      max_items_per_model_operation = DEFAULT_MAX_ITEMS_PER_MODEL_OPERATION\<rparr>"

definition with_tree_and_value_limits ::
  "usize \<Rightarrow> usize \<Rightarrow> usize \<Rightarrow> usize \<Rightarrow> usize \<Rightarrow> usize \<Rightarrow> store_limits" where
  "with_tree_and_value_limits depth nodes str vdepth elems props =
     default_limits\<lparr>max_tree_depth := depth, max_node_count := nodes, max_string_length := str,
       max_value_depth := vdepth, max_list_elements := elems, max_record_properties := props\<rparr>"

definition limits_new :: "usize \<Rightarrow> usize \<Rightarrow> usize \<Rightarrow> store_limits" where
  "limits_new depth nodes str = with_tree_and_value_limits depth nodes str 16 10000 1000"

definition with_model_limits :: "store_limits \<Rightarrow> usize \<Rightarrow> usize \<Rightarrow> usize \<Rightarrow> store_limits" where
  "with_model_limits l models cached per_op =
     l\<lparr>max_model_count := models, max_cached_items_per_model := cached,
       max_items_per_model_operation := per_op\<rparr>"

definition validate_model_items_batch :: "store_limits \<Rightarrow> usize \<Rightarrow> (store_error, unit) result" where
  "validate_model_items_batch l n =
     (if n > max_items_per_model_operation l
      then Error (MaxItemsPerModelOperationExceeded (max_items_per_model_operation l) n)
      else Ok ())"

fun validate_value_inner :: "store_limits \<Rightarrow> value_t \<Rightarrow> usize \<Rightarrow> (store_error, unit) result" where
  "validate_value_inner l val depth =
     (if depth > max_value_depth l
      then Error (MaxValueDepthExceeded (max_value_depth l) depth)
      else (case val of
         VString s \<Rightarrow>
           if length s > max_string_length l
           then Error (MaxStringLengthExceeded (max_string_length l) (length s))
           else Ok ()
       | VList xs \<Rightarrow>
           if length xs > max_list_elements l
           then Error (MaxListLengthExceeded (max_list_elements l) (length xs))
           else for_each (\<lambda>item. validate_value_inner l item (depth + 1)) xs
       | VRecord _ props \<Rightarrow>
           if length props > max_record_properties l
           then Error (MaxRecordPropertiesExceeded (max_record_properties l) (length props))
           else for_each (\<lambda>prop. validate_value_inner l (snd prop) (depth + 1)) props
       | _ \<Rightarrow> Ok ()))"

declare validate_value_inner.simps [simp del]

definition validate_value :: "store_limits \<Rightarrow> value_t \<Rightarrow> (store_error, unit) result" where
  "validate_value l val = validate_value_inner l val 1"

section \<open>What validation guarantees\<close>

text \<open>
  The reference notion: nesting depth and a bound on every string, list and record that
  occurs in a value.
\<close>

fun value_depth :: "value_t \<Rightarrow> nat" where
  "value_depth (VList xs) = Suc (fold max (map value_depth xs) 0)"
| "value_depth (VRecord _ ps) = Suc (fold max (map (\<lambda>p. value_depth (snd p)) ps) 0)"
| "value_depth _ = 1"

fun sizes_within :: "store_limits \<Rightarrow> value_t \<Rightarrow> bool" where
  "sizes_within l (VString s) \<longleftrightarrow> length s \<le> max_string_length l"
| "sizes_within l (VList xs) \<longleftrightarrow>
     length xs \<le> max_list_elements l \<and> list_all (sizes_within l) xs"
| "sizes_within l (VRecord _ ps) \<longleftrightarrow>
     length ps \<le> max_record_properties l \<and> list_all (\<lambda>p. sizes_within l (snd p)) ps"
| "sizes_within l _ \<longleftrightarrow> True"

definition value_ok :: "store_limits \<Rightarrow> value_t \<Rightarrow> bool" where
  "value_ok l v \<longleftrightarrow> value_depth v \<le> max_value_depth l \<and> sizes_within l v"

lemma fold_max_le_iff: "fold max ns (m::nat) \<le> k \<longleftrightarrow> m \<le> k \<and> (\<forall>n \<in> set ns. n \<le> k)"
  by (induction ns arbitrary: m) auto

lemma fold_max_plus_le_iff:
  "m + fold max ns (0::nat) \<le> k \<longleftrightarrow> m \<le> k \<and> (\<forall>n \<in> set ns. m + n \<le> k)"
proof (cases "m \<le> k")
  case True
  then have "m + fold max ns 0 \<le> k \<longleftrightarrow> fold max ns 0 \<le> k - m" by arith
  also have "\<dots> \<longleftrightarrow> (\<forall>n \<in> set ns. n \<le> k - m)" by (simp add: fold_max_le_iff)
  finally show ?thesis using True by (simp add: le_diff_conv2 add.commute)
qed simp

lemma value_depth_pos: "0 < value_depth v"
  by (cases v) auto

lemma validate_value_inner_iff:
  "validate_value_inner l v d = Ok u \<longleftrightarrow> d + value_depth v \<le> Suc (max_value_depth l) \<and> sizes_within l v"
proof (induction l v d rule: validate_value_inner.induct)
  case (1 l v d)
  show ?case
  proof (cases "d > max_value_depth l")
    case True
    then show ?thesis
      using value_depth_pos [of v] by (simp add: validate_value_inner.simps [of l v d])
  next
    case False
    with 1 show ?thesis
      by (cases v)
         (auto simp: validate_value_inner.simps [of l _ d] result_simps fold_max_plus_le_iff
           list_all_iff split: if_splits)
  qed
qed

lemma validate_value_iff: "validate_value l v = Ok u \<longleftrightarrow> value_ok l v"
  by (simp add: validate_value_def validate_value_inner_iff value_ok_def)

lemma validate_value_inner_faults: "validate_value_inner l v d = Inl e \<Longrightarrow> \<exists>x. e = Err x"
proof (induction l v d rule: validate_value_inner.induct)
  case (1 l v d)
  then show ?case
    by (cases v) (auto simp: validate_value_inner.simps [of l _ d] dest!: for_each_fault split: if_splits)
qed

lemma validate_value_faults: "validate_value l v = Inl e \<Longrightarrow> \<exists>x. e = Err x"
  by (simp add: validate_value_def validate_value_inner_faults)

lemma validate_model_items_batch_iff [simp]:
  "validate_model_items_batch l n = Ok u \<longleftrightarrow> n \<le> max_items_per_model_operation l"
  by (auto simp: validate_model_items_batch_def)

text \<open>
  The validator of values accepts exactly the values that nest at most
  \<open>max_value_depth\<close> deep and in which every string, list and record respects its limit, and it
  rejects the others with an error, never with a panic.
\<close>

theorem validate_value_correct:
  "if value_ok l v then validate_value l v = Ok () else (\<exists>e. validate_value l v = Error e)"
proof (cases "validate_value l v")
  case (Inl f)
  then show ?thesis using validate_value_iff [of l v "()"] validate_value_faults [OF Inl] by auto
next
  case (Inr u)
  then show ?thesis using validate_value_iff [of l v u] by simp
qed

end
