(* ===== verification/Collection_Model.thy ===== *)
theory Collection_Model
  imports Store_Limits "HOL-Library.Product_Lexorder"
begin

text \<open>
  Collection models: \<^verbatim>\<open>semantic-tree/src/model.rs\<close>.  A model has a logical length
  \<open>item_count\<close>, a sparse cache \<open>items\<close> from index to item (a \<open>BTreeMap\<close>) and the reverse
  index \<open>id_to_index\<close>.  Every operation on \<open>&mut self\<close> returns its result and the model it
  leaves, also on an error: \<open>update_items\<close> and \<open>reset_range\<close> can fail half way.

  Index arithmetic is that of \<open>u64\<close>.  A plain \<open>+\<close> or \<open>-\<close> of the source that overflows is
  the result \<open>Panic\<close> (the overflow check of builds that have it on).
\<close>

section \<open>Data\<close>

record model_item =
  item_id :: item_id
  item_value :: "value_t"
  item_properties :: "(property_ref, value_t) fmap"

record model =
  m_id :: model_id
  model_type :: type_ref
  item_count :: u64
  items :: "(u64, model_item) fmap"
  id_to_index :: "(item_id, u64) fmap"

type_synonym 'a model_result = "(store_error, 'a) result \<times> model"

definition item_new ::
  "item_id \<Rightarrow> value_t \<Rightarrow> (property_ref \<times> value_t) list \<Rightarrow> model_item" where
  "item_new i v ps =
     \<lparr>item_id = i, item_value = v, item_properties = fold (\<lambda>p. fmupd (fst p) (snd p)) ps fmempty\<rparr>"

definition model_new :: "model_id \<Rightarrow> type_ref \<Rightarrow> u64 \<Rightarrow> model" where
  "model_new i t n =
     \<lparr>m_id = i, model_type = t, item_count = n, items = fmempty, id_to_index = fmempty\<rparr>"

definition cached_item_count :: "model \<Rightarrow> usize" where
  "cached_item_count m = len_map (items m)"

definition contains_item :: "model \<Rightarrow> item_id \<Rightarrow> bool" where
  "contains_item m i \<longleftrightarrow> fmlookup (id_to_index m) i \<noteq> None"

definition contains_index :: "model \<Rightarrow> u64 \<Rightarrow> bool" where
  "contains_index m i \<longleftrightarrow> fmlookup (items m) i \<noteq> None"

definition index_of :: "model \<Rightarrow> item_id \<Rightarrow> u64 option" where
  "index_of m i = fmlookup (id_to_index m) i"

definition get_item_by_id :: "model \<Rightarrow> item_id \<Rightarrow> model_item option" where
  "get_item_by_id m i =
     (case fmlookup (id_to_index m) i of None \<Rightarrow> None | Some idx \<Rightarrow> fmlookup (items m) idx)"

definition get_item_by_index :: "model \<Rightarrow> u64 \<Rightarrow> model_item option" where
  "get_item_by_index m i = fmlookup (items m) i"

text \<open>The keys of the \<open>BTreeMap\<close>, in ascending order.\<close>

definition item_keys :: "model \<Rightarrow> u64 list" where
  "item_keys m = map fst (sorted_list_of_fmap (items m))"

section \<open>Operations\<close>

text \<open>
  The loop body shared by eviction, range deletion and range reset: the entry at an index
  leaves both maps.
\<close>

definition remove_index :: "u64 \<Rightarrow> model \<Rightarrow> model" where
  "remove_index k m =
     (case fmlookup (items m) k of
        None \<Rightarrow> m
      | Some it \<Rightarrow> m\<lparr>items := fmdrop k (items m),
                     id_to_index := fmdrop (item_id it) (id_to_index m)\<rparr>)"

definition window_mid :: "u64 \<Rightarrow> u64 \<Rightarrow> u64" where
  "window_mid keep_start keep_end =
     saturating_add keep_start (saturating_sub keep_end keep_start div 2)"

definition eviction_order :: "u64 \<Rightarrow> u64 list \<Rightarrow> u64 list" where
  "eviction_order mid cs = sort_key (\<lambda>a. (- int (unat (abs_diff a mid)), a)) cs"

definition evict_farthest_outside :: "u64 \<Rightarrow> u64 \<Rightarrow> usize \<Rightarrow> model \<Rightarrow> model" where
  "evict_farthest_outside keep_start keep_end0 n m =
     (if n = 0 then m
      else let keep_end = max keep_end0 keep_start;
               mid = window_mid keep_start keep_end;
               candidates = filter (\<lambda>i. i < keep_start \<or> keep_end \<le> i) (item_keys m)
           in fold remove_index (take n (eviction_order mid candidates)) m)"

fun ranges_loop :: "(u64 \<times> u64) option \<Rightarrow> u64 list \<Rightarrow> (u64 \<times> u64) list" where
  "ranges_loop None [] = []"
| "ranges_loop (Some r) [] = [r]"
| "ranges_loop None (i # is) = ranges_loop (Some (i, 1)) is"
| "ranges_loop (Some (s, l)) (i # is) =
     (if s + l = i then ranges_loop (Some (s, l + 1)) is
      else (s, l) # ranges_loop (Some (i, 1)) is)"

definition cached_ranges :: "model \<Rightarrow> (u64 \<times> u64) list" where
  "cached_ranges m = ranges_loop None (item_keys m)"

text \<open>\<open>x as i64\<close> reads the 64 bits as two's complement; \<open>-x\<close> overflows on the least \<open>i64\<close>.\<close>

definition as_i64 :: "u64 \<Rightarrow> int" where
  "as_i64 n = sint n"

definition shift_target :: "int \<Rightarrow> u64 \<Rightarrow> u64 option" where
  "shift_target delta old_idx =
     (if delta > 0 then checked_add old_idx (word_of_int delta)
      else if delta = - (2 ^ 63) then None
      else checked_sub old_idx (word_of_int (- delta)))"

fun shift_loop :: "int \<Rightarrow> (u64 \<times> model_item) list \<Rightarrow> model \<Rightarrow> unit model_result" where
  "shift_loop delta [] m = (Ok (), m)"
| "shift_loop delta ((old_idx, item) # rest) m =
     (case shift_target delta old_idx of
        None \<Rightarrow> (Inl Panic, m)
      | Some new_idx \<Rightarrow>
          shift_loop delta rest
            (m\<lparr>id_to_index := fmupd (item_id item) new_idx (id_to_index m),
               items := fmupd new_idx item (items m)\<rparr>))"

definition shift_cached_indices :: "u64 \<Rightarrow> int \<Rightarrow> model \<Rightarrow> unit model_result" where
  "shift_cached_indices from_index delta m =
     (if delta = 0 then (Ok (), m)
      else let to_shift = sorted_list_of_fmap (fmfilter (\<lambda>i. from_index \<le> i) (items m))
           in shift_loop delta to_shift
                (m\<lparr>items := fmfilter (\<lambda>i. i < from_index) (items m)\<rparr>))"

text \<open>
  Both insertion loops of the source: item number \<open>i\<close> goes to \<open>index + i\<close>.
\<close>

fun put_items :: "u64 \<Rightarrow> nat \<Rightarrow> model_item list \<Rightarrow> model \<Rightarrow> unit model_result" where
  "put_items index i [] m = (Ok (), m)"
| "put_items index i (item # rest) m =
     (case checked_add index (of_nat i) of
        None \<Rightarrow> (Inl Panic, m)
      | Some target_idx \<Rightarrow>
          put_items index (Suc i) rest
            (m\<lparr>id_to_index := fmupd (item_id item) target_idx (id_to_index m),
               items := fmupd target_idx item (items m)\<rparr>))"

text \<open>The first item whose identity is already cached or repeats an earlier one.\<close>

fun first_duplicate :: "(item_id \<Rightarrow> bool) \<Rightarrow> item_id set \<Rightarrow> model_item list \<Rightarrow> item_id option" where
  "first_duplicate clash incoming [] = None"
| "first_duplicate clash incoming (item # rest) =
     (if clash (item_id item) \<or> item_id item \<in> incoming then Some (item_id item)
      else first_duplicate clash (insert (item_id item) incoming) rest)"

definition insert_items :: "u64 \<Rightarrow> model_item list \<Rightarrow> model \<Rightarrow> unit model_result" where
  "insert_items index its m =
     (if index > item_count m
      then (Error (ModelIndexOutOfBounds index (item_count m)), m)
      else case first_duplicate (contains_item m) {} its of
        Some dup \<Rightarrow> (Error (DuplicateItemId (m_id m) dup), m)
      | None \<Rightarrow>
          (let n = of_nat (length its) :: u64
           in if n > 0
              then and_then_st (shift_cached_indices index (as_i64 n) m) (\<lambda>_ m1.
                   and_then_st (put_items index 0 its m1) (\<lambda>_ m2.
                     (case checked_add (item_count m2) n of
                        None \<Rightarrow> (Inl Panic, m2)
                      | Some c \<Rightarrow> (Ok (), m2\<lparr>item_count := c\<rparr>))))
              else (Ok (), m)))"

fun delete_ids :: "item_id list \<Rightarrow> model \<Rightarrow> unit model_result" where
  "delete_ids [] m = (Ok (), m)"
| "delete_ids (i # is) m =
     (case fmlookup (id_to_index m) i of
        Some idx \<Rightarrow>
          (let m1 = m\<lparr>id_to_index := fmdrop i (id_to_index m),
                     items := fmdrop idx (items m),
                     item_count := saturating_sub (item_count m) 1\<rparr>
           in case checked_add idx 1 of
                None \<Rightarrow> (Inl Panic, m1)
              | Some from_index \<Rightarrow>
                  and_then_st (shift_cached_indices from_index (- 1) m1) (\<lambda>_ m2. delete_ids is m2))
      | None \<Rightarrow> delete_ids is (m\<lparr>item_count := saturating_sub (item_count m) 1\<rparr>))"

definition delete_range :: "u64 \<Rightarrow> u64 \<Rightarrow> model \<Rightarrow> unit model_result" where
  "delete_range idx cnt m =
     (if idx > item_count m \<or> saturating_add idx cnt > item_count m
      then (Error (ModelIndexOutOfBounds (saturating_add idx cnt) (item_count m)), m)
      else case checked_add idx cnt of
        None \<Rightarrow> (Inl Panic, m)
      | Some end_idx \<Rightarrow>
          (let m1 = fold remove_index (filter (\<lambda>k. idx \<le> k \<and> k < end_idx) (item_keys m)) m
           in if as_i64 cnt = - (2 ^ 63) then (Inl Panic, m1)
              else and_then_st (shift_cached_indices end_idx (- as_i64 cnt) m1) (\<lambda>_ m2.
                     (Ok (), m2\<lparr>item_count := saturating_sub (item_count m2) cnt\<rparr>))))"

definition delete_items ::
  "u64 option \<Rightarrow> u64 option \<Rightarrow> item_id list \<Rightarrow> model \<Rightarrow> unit model_result" where
  "delete_items index n item_ids m =
     (let has_range = (case n of Some c \<Rightarrow> c > 0 | None \<Rightarrow> False);
          has_ids = item_ids \<noteq> []
      in if has_range \<and> has_ids then (Error (InvalidModelDelete CombinedSelectors), m)
         else if has_ids then delete_ids item_ids m
         else if has_range
              then delete_range (case index of Some i \<Rightarrow> i | None \<Rightarrow> 0)
                     (case n of Some c \<Rightarrow> c | None \<Rightarrow> 0) m
         else (Ok (), m))"

text \<open>One turn of the positional branch of \<open>update_items\<close>.\<close>

definition update_at :: "u64 \<Rightarrow> model_item \<Rightarrow> model \<Rightarrow> model" where
  "update_at target_idx item m =
     (let m1 = (case fmlookup (id_to_index m) (item_id item) of
                  None \<Rightarrow> m
                | Some old_pos \<Rightarrow>
                    (let m' = m\<lparr>id_to_index := fmdrop (item_id item) (id_to_index m)\<rparr>
                     in if old_pos \<noteq> target_idx then m'\<lparr>items := fmdrop old_pos (items m')\<rparr> else m'));
          m2 = (case fmlookup (items m1) target_idx of
                  None \<Rightarrow> m1
                | Some displaced \<Rightarrow>
                    m1\<lparr>items := fmdrop target_idx (items m1),
                       id_to_index := fmdrop (item_id displaced) (id_to_index m1)\<rparr>)
      in m2\<lparr>id_to_index := fmupd (item_id item) target_idx (id_to_index m2),
            items := fmupd target_idx item (items m2)\<rparr>)"

fun update_loop :: "u64 option \<Rightarrow> nat \<Rightarrow> model_item list \<Rightarrow> model \<Rightarrow> unit model_result" where
  "update_loop index i [] m = (Ok (), m)"
| "update_loop (Some base_idx) i (item # rest) m =
     (case checked_add base_idx (of_nat i) of
        None \<Rightarrow> (Inl Panic, m)
      | Some target_idx \<Rightarrow>
          if target_idx \<ge> item_count m
          then (Error (ModelIndexOutOfBounds target_idx (item_count m)), m)
          else update_loop (Some base_idx) (Suc i) rest (update_at target_idx item m))"
| "update_loop None i (item # rest) m =
     (case fmlookup (id_to_index m) (item_id item) of
        Some idx \<Rightarrow> update_loop None (Suc i) rest (m\<lparr>items := fmupd idx item (items m)\<rparr>)
      | None \<Rightarrow> (Error (ItemNotFound (item_id item)), m))"

definition update_items :: "u64 option \<Rightarrow> model_item list \<Rightarrow> model \<Rightarrow> unit model_result" where
  "update_items index its m = update_loop index 0 its m"

definition reset_clash :: "u64 \<Rightarrow> u64 \<Rightarrow> model \<Rightarrow> item_id \<Rightarrow> bool" where
  "reset_clash start_index end_index m i =
     (case fmlookup (id_to_index m) i of
        None \<Rightarrow> False
      | Some existing_idx \<Rightarrow> existing_idx < start_index \<or> end_index \<le> existing_idx)"

definition reset_range ::
  "u64 \<Rightarrow> model_item list \<Rightarrow> u64 option \<Rightarrow> model \<Rightarrow> unit model_result" where
  "reset_range start_index its total_count m0 =
     (let m = (case total_count of
                 None \<Rightarrow> m0
               | Some tc \<Rightarrow> if tc > 0 then m0\<lparr>item_count := tc\<rparr> else m0)
      in if start_index > item_count m
         then (Error (ModelIndexOutOfBounds start_index (item_count m)), m)
         else case checked_add start_index (of_nat (length its)) of
           None \<Rightarrow> (Inl Panic, m)
         | Some end_index \<Rightarrow>
             if end_index > item_count m
             then (Error (ModelIndexOutOfBounds end_index (item_count m)), m)
             else (case first_duplicate (reset_clash start_index end_index m) {} its of
                Some dup \<Rightarrow> (Error (DuplicateItemId (m_id m) dup), m)
              | None \<Rightarrow>
                  put_items start_index 0 its
                    (fold remove_index
                       (map (\<lambda>i. start_index + of_nat i) [0..<length its]) m)))"

definition model_with_items ::
  "model_id \<Rightarrow> type_ref \<Rightarrow> u64 \<Rightarrow> u64 \<Rightarrow> model_item list \<Rightarrow> (store_error, model) result" where
  "model_with_items i t n start_index its =
     (case reset_range start_index its None (model_new i t n) of
        (Inl e, _) \<Rightarrow> Inl e
      | (Inr _, m) \<Rightarrow> Ok m)"

section \<open>The index invariant\<close>

text \<open>The cache and the reverse index are inverse to each other.\<close>

definition model_ok :: "model \<Rightarrow> bool" where
  "model_ok m \<longleftrightarrow>
     (\<forall>i it. fmlookup (items m) i = Some it \<longrightarrow> fmlookup (id_to_index m) (item_id it) = Some i) \<and>
     (\<forall>k i. fmlookup (id_to_index m) k = Some i \<longrightarrow>
        (\<exists>it. fmlookup (items m) i = Some it \<and> item_id it = k))"

lemma model_okI:
  assumes "\<And>i it. fmlookup (items m) i = Some it \<Longrightarrow> fmlookup (id_to_index m) (item_id it) = Some i"
    and "\<And>k i. fmlookup (id_to_index m) k = Some i \<Longrightarrow>
           \<exists>it. fmlookup (items m) i = Some it \<and> item_id it = k"
  shows "model_ok m"
  using assms by (auto simp: model_ok_def)

lemma model_ok_index:
  "model_ok m \<Longrightarrow> fmlookup (items m) i = Some it \<Longrightarrow> fmlookup (id_to_index m) (item_id it) = Some i"
  by (simp add: model_ok_def)

lemma model_ok_item:
  "model_ok m \<Longrightarrow> fmlookup (id_to_index m) k = Some i \<Longrightarrow>
   \<exists>it. fmlookup (items m) i = Some it \<and> item_id it = k"
  by (simp add: model_ok_def)

lemma model_ok_inj:
  assumes "model_ok m" "fmlookup (items m) i = Some it" "fmlookup (items m) j = Some jt"
    and "item_id it = item_id jt"
  shows "i = j"
  using assms model_ok_index [of m i it] model_ok_index [of m j jt] by simp

lemma model_ok_item_count [simp]: "model_ok (m\<lparr>item_count := c\<rparr>) \<longleftrightarrow> model_ok m"
  by (simp add: model_ok_def)

lemma model_ok_new [simp]: "model_ok (model_new i t n)"
  by (simp add: model_ok_def model_new_def)

lemma contains_item_iff:
  "model_ok m \<Longrightarrow> contains_item m k \<longleftrightarrow> (\<exists>i it. fmlookup (items m) i = Some it \<and> item_id it = k)"
  using model_ok_item [of m k] model_ok_index [of m] by (auto simp: contains_item_def)

subsection \<open>Removal\<close>

lemma remove_index_items:
  "fmlookup (items (remove_index k m)) i = (if i = k then None else fmlookup (items m) i)"
  by (auto simp: remove_index_def split: option.splits)

lemma remove_index_frame [simp]:
  "item_count (remove_index k m) = item_count m"
  "m_id (remove_index k m) = m_id m"
  "model_type (remove_index k m) = model_type m"
  by (auto simp: remove_index_def split: option.splits)

lemma remove_index_ok: "model_ok m \<Longrightarrow> model_ok (remove_index k m)"
proof (cases "fmlookup (items m) k")
  case (Some it)
  assume ok: "model_ok m"
  show ?thesis
  proof (rule model_okI)
    fix i jt
    assume "fmlookup (items (remove_index k m)) i = Some jt"
    then have "i \<noteq> k" "fmlookup (items m) i = Some jt"
      by (auto simp: remove_index_items split: if_splits)
    moreover from this have "item_id jt \<noteq> item_id it" using model_ok_inj [OF ok _ Some] by blast
    ultimately show "fmlookup (id_to_index (remove_index k m)) (item_id jt) = Some i"
      using Some by (simp add: remove_index_def model_ok_index [OF ok])
  next
    fix j i
    assume "fmlookup (id_to_index (remove_index k m)) j = Some i"
    then have j: "j \<noteq> item_id it" "fmlookup (id_to_index m) j = Some i"
      using Some by (auto simp: remove_index_def split: if_splits)
    then obtain jt where "fmlookup (items m) i = Some jt" "item_id jt = j"
      using model_ok_item [OF ok] by blast
    with j Some show "\<exists>it. fmlookup (items (remove_index k m)) i = Some it \<and> item_id it = j"
      by (auto simp: remove_index_items)
  qed
qed (simp add: remove_index_def)

lemma fold_remove_items:
  "fmlookup (items (fold remove_index ks m)) i
     = (if i \<in> set ks then None else fmlookup (items m) i)"
  by (induction ks arbitrary: m) (auto simp: remove_index_items)

lemma fold_remove_frame [simp]:
  "item_count (fold remove_index ks m) = item_count m"
  "m_id (fold remove_index ks m) = m_id m"
  "model_type (fold remove_index ks m) = model_type m"
  by (induction ks arbitrary: m) auto

lemma fold_remove_ok: "model_ok m \<Longrightarrow> model_ok (fold remove_index ks m)"
  by (induction ks arbitrary: m) (auto simp: remove_index_ok)

lemma set_item_keys: "set (item_keys m) = fmdom' (items m)"
  by (simp add: item_keys_def map_fst_sorted_list_of_fmap fmdom'_alt_def)

lemma distinct_item_keys [simp]: "distinct (item_keys m)"
  by (simp add: item_keys_def)

lemma sorted_item_keys [simp]: "sorted (item_keys m)"
  by (simp add: item_keys_def map_fst_sorted_list_of_fmap sorted_list_of_fset.rep_eq)

subsection \<open>Shifting\<close>

lemma shift_target_iff:
  assumes "- (2 ^ 63) < d" "d < 2 ^ 63"
  shows "shift_target d i = Some j \<longleftrightarrow> uint j = uint i + d"
proof (cases "d > 0")
  case True
  then have "uint (word_of_int d :: u64) = d" using assms by (simp add: uint_word_of_int)
  with True show ?thesis by (simp add: shift_target_def checked_add_uint)
next
  case False
  then have "uint (word_of_int (- d) :: u64) = - d"
    using assms by (subst uint_word_of_int) simp
  with False assms show ?thesis by (auto simp: shift_target_def checked_sub_uint simp del: wi_hom_neg)
qed

lemma shift_loop_Ok:
  assumes "shift_loop d xs m = (Inr u, m')"
  shows "items m' = fold (\<lambda>x. fmupd (the (shift_target d (fst x))) (snd x)) xs (items m)"
    and "id_to_index m' =
      fold (\<lambda>x. fmupd (item_id (snd x)) (the (shift_target d (fst x)))) xs (id_to_index m)"
    and "\<forall>x \<in> set xs. shift_target d (fst x) \<noteq> None"
    and "item_count m' = item_count m \<and> m_id m' = m_id m \<and> model_type m' = model_type m"
  using assms
  by (induction d xs m rule: shift_loop.induct) (auto split: option.splits)

lemma shift_target_inj:
  assumes "- (2 ^ 63) < d" "d < 2 ^ 63" "shift_target d i = Some k" "shift_target d j = Some k"
  shows "i = j"
  using assms by (simp add: shift_target_iff word_uint_eq_iff)

text \<open>
  No cached entry is overwritten by a shift: the target of an index that moves is not a
  cached index that stays.
\<close>

definition shift_clear :: "u64 \<Rightarrow> int \<Rightarrow> model \<Rightarrow> bool" where
  "shift_clear from_index d m \<longleftrightarrow>
     (\<forall>i j. contains_index m i \<longrightarrow> from_index \<le> i \<longrightarrow> shift_target d i = Some j \<longrightarrow>
        contains_index m j \<longrightarrow> from_index \<le> j)"

lemma shift_cached_Ok:
  assumes sh: "shift_cached_indices from_index d m = (Inr u, m')"
    and d: "- (2 ^ 63) < d" "d < 2 ^ 63" "d \<noteq> 0"
    and clear: "shift_clear from_index d m"
    and ok: "model_ok m"
  shows "\<And>j it. fmlookup (items m') j = Some it \<longleftrightarrow>
      j < from_index \<and> fmlookup (items m) j = Some it \<or>
      (\<exists>i. from_index \<le> i \<and> fmlookup (items m) i = Some it \<and> shift_target d i = Some j)"
      (is "\<And>j it. ?L j it \<longleftrightarrow> ?R j it")
    and "\<And>i it. from_index \<le> i \<Longrightarrow> fmlookup (items m) i = Some it \<Longrightarrow> shift_target d i \<noteq> None"
    and "item_count m' = item_count m \<and> m_id m' = m_id m \<and> model_type m' = model_type m"
    and "model_ok m'"
proof -
  let ?xs = "sorted_list_of_fmap (fmfilter (\<lambda>i. from_index \<le> i) (items m))"
  let ?m0 = "m\<lparr>items := fmfilter (\<lambda>i. i < from_index) (items m)\<rparr>"
  let ?t = "\<lambda>x :: u64 \<times> model_item. the (shift_target d (fst x))"
  have loop: "shift_loop d ?xs ?m0 = (Inr u, m')"
    using sh d by (simp add: shift_cached_indices_def)
  note L = shift_loop_Ok [OF loop]
  have xs: "(i, it) \<in> set ?xs \<longleftrightarrow> from_index \<le> i \<and> fmlookup (items m) i = Some it" for i it
    by (simp add: set_sorted_list_of_fmap)
  have def: "shift_target d (fst x) = Some (?t x)" if "x \<in> set ?xs" for x
    using L(3) that by auto
  have dk: "distinct (map ?t ?xs)"
    by (rule distinct_map_via [where f = fst])
       (use def shift_target_inj [OF d(1,2)] in \<open>simp, metis\<close>)
  have di: "distinct (map (\<lambda>x. item_id (snd x)) ?xs)"
    by (rule distinct_map_via [where f = fst])
       (use xs model_ok_inj [OF ok] in \<open>simp, metis prod.collapse\<close>)
  show "from_index \<le> i \<Longrightarrow> fmlookup (items m) i = Some it \<Longrightarrow> shift_target d i \<noteq> None" for i it
    using def [of "(i, it)"] xs by auto
  show "item_count m' = item_count m \<and> m_id m' = m_id m \<and> model_type m' = model_type m"
    using L(4) by simp
  have stay: "fmlookup (items m') j = fmlookup (items ?m0) j" if "j \<notin> ?t ` set ?xs" for j
    unfolding L(1) using that by (rule fold_fmupd_out)
  have move: "fmlookup (items m') j = Some it"
    if "from_index \<le> i" "fmlookup (items m) i = Some it" "shift_target d i = Some j" for i j it
    using fold_fmupd_in [where val = snd, OF dk, of "(i, it)"] that xs by (simp add: L(1))
  have low: "j \<notin> ?t ` set ?xs" if "fmlookup (items m) j = Some it" "j < from_index" for j it
    using clear that def xs by (force simp: shift_clear_def contains_index_def)
  show L_iff: "?L j it \<longleftrightarrow> ?R j it" for j it
  proof (cases "j \<in> ?t ` set ?xs")
    case True
    then obtain x where "x \<in> set ?xs" "j = ?t x" by blast
    then obtain i jt where x: "(i, jt) \<in> set ?xs" and t: "shift_target d i = Some j"
      using def by (metis prod.collapse)
    with xs have i: "from_index \<le> i" "fmlookup (items m) i = Some jt" by auto
    have "i' = i" if "shift_target d i' = Some j" for i'
      using shift_target_inj [OF d(1,2) that t] .
    with i t have "(\<exists>i. from_index \<le> i \<and> fmlookup (items m) i = Some it \<and> shift_target d i = Some j)
        \<longleftrightarrow> it = jt"
      by (metis option.inject)
    moreover have "\<not> (j < from_index \<and> fmlookup (items m) j = Some it)" using low True by blast
    ultimately show ?thesis using move [OF i t] by auto
  next
    case False
    have "\<not> (from_index \<le> i \<and> fmlookup (items m) i = Some it \<and> shift_target d i = Some j)" for i
      using False xs by force
    with stay [OF False] show ?thesis by auto
  qed
  have ids_out: "fmlookup (id_to_index m') k = fmlookup (id_to_index m) k"
    if "k \<notin> (\<lambda>x. item_id (snd x)) ` set ?xs" for k
    unfolding L(2) using fold_fmupd_out [OF that] by simp
  have ids_in: "fmlookup (id_to_index m') (item_id it) = Some j"
    if "from_index \<le> i" "fmlookup (items m) i = Some it" "shift_target d i = Some j" for i j it
    using fold_fmupd_in [where val = ?t, OF di, of "(i, it)"] that xs by (simp add: L(2))
  show "model_ok m'"
  proof (rule model_okI)
    fix j it
    assume "fmlookup (items m') j = Some it"
    then consider "j < from_index" "fmlookup (items m) j = Some it"
      | i where "from_index \<le> i" "fmlookup (items m) i = Some it" "shift_target d i = Some j"
      by (auto simp: L_iff)
    then show "fmlookup (id_to_index m') (item_id it) = Some j"
    proof cases
      case 1
      have "item_id it \<notin> (\<lambda>x. item_id (snd x)) ` set ?xs"
      proof
        assume "item_id it \<in> (\<lambda>x. item_id (snd x)) ` set ?xs"
        then obtain i jt where "(i, jt) \<in> set ?xs" "item_id it = item_id jt" by force
        then show False using xs model_ok_inj [OF ok 1(2), of i jt] 1(1) by auto
      qed
      then show ?thesis using model_ok_index [OF ok 1(2)] ids_out by simp
    qed (rule ids_in)
  next
    fix k j
    assume k: "fmlookup (id_to_index m') k = Some j"
    show "\<exists>it. fmlookup (items m') j = Some it \<and> item_id it = k"
    proof (cases "k \<in> (\<lambda>x. item_id (snd x)) ` set ?xs")
      case True
      then obtain i it where x: "(i, it) \<in> set ?xs" "item_id it = k" by force
      then have i: "from_index \<le> i" "fmlookup (items m) i = Some it" by (auto simp: xs)
      from def [OF x(1)] obtain j' where t: "shift_target d i = Some j'" by simp
      with ids_in [OF i t] x k have "j' = j" by simp
      with move [OF i t] x show ?thesis by blast
    next
      case False
      with k have "fmlookup (id_to_index m) k = Some j" by (simp add: ids_out)
      then obtain it where it: "fmlookup (items m) j = Some it" "item_id it = k"
        using model_ok_item [OF ok] by blast
      with False xs have "\<not> from_index \<le> j" by force
      with it show ?thesis by (auto simp: L_iff)
    qed
  qed
qed

subsection \<open>Insertion loops\<close>

abbreviation put_item :: "u64 \<Rightarrow> model_item \<Rightarrow> model \<Rightarrow> model" where
  "put_item t it m \<equiv> m\<lparr>id_to_index := fmupd (item_id it) t (id_to_index m), items := fmupd t it (items m)\<rparr>"

lemma put_item_ok:
  assumes "model_ok m" "fmlookup (items m) t = None" "fmlookup (id_to_index m) (item_id it) = None"
  shows "model_ok (put_item t it m)"
proof (rule model_okI)
  fix i jt
  assume "fmlookup (items (put_item t it m)) i = Some jt"
  then show "fmlookup (id_to_index (put_item t it m)) (item_id jt) = Some i"
    using assms(3) model_ok_index [OF assms(1), of i jt] by (auto split: if_splits)
next
  fix k i
  assume "fmlookup (id_to_index (put_item t it m)) k = Some i"
  then show "\<exists>jt. fmlookup (items (put_item t it m)) i = Some jt \<and> item_id jt = k"
    using assms(2) model_ok_item [OF assms(1), of k i] by (auto split: if_splits)
qed

lemma put_items_step:
  assumes "put_items index i (it # its) m = (Inr u, m')" and "i + length (it # its) < 2 ^ 63"
  obtains t where "unat t = unat index + i"
    and "put_items index (Suc i) its (put_item t it m) = (Inr u, m')"
    and "Suc i + length its < 2 ^ 63"
proof -
  from assms obtain t where "checked_add index (of_nat i) = Some t"
    and "put_items index (Suc i) its (put_item t it m) = (Inr u, m')"
    by (auto split: option.splits)
  with assms that show ?thesis by (simp add: checked_add_of_nat)
qed

lemma put_items_frame:
  "put_items index i its m = (r, m') \<Longrightarrow>
   item_count m' = item_count m \<and> m_id m' = m_id m \<and> model_type m' = model_type m"
  by (induction index i its m rule: put_items.induct) (auto split: option.splits)

lemma put_items_lookup:
  assumes "put_items index i its m = (Inr u, m')" and "i + length its < 2 ^ 63"
  shows "fmlookup (items m') j =
      (if unat index + i \<le> unat j \<and> unat j < unat index + i + length its
       then Some (its ! (unat j - (unat index + i))) else fmlookup (items m) j)"
  using assms
proof (induction its arbitrary: i m)
  case (Cons it its)
  obtain t where t: "unat t = unat index + i"
    and rest: "put_items index (Suc i) its (put_item t it m) = (Inr u, m')"
      "Suc i + length its < 2 ^ 63"
    using put_items_step [OF Cons.prems] .
  show ?case
  proof (cases "unat j = unat index + i")
    case True
    then have "j = t" using t by (simp add: word_unat_eq_iff)
    with True Cons.IH [OF rest] show ?thesis by simp
  next
    case False
    then have "t \<noteq> j" using t by auto
    moreover have "unat index + i \<le> unat j \<and> unat j < unat index + i + length (it # its) \<longleftrightarrow>
        unat index + Suc i \<le> unat j \<and> unat j < unat index + Suc i + length its"
      using False by auto
    moreover have "(it # its) ! (unat j - (unat index + i)) = its ! (unat j - (unat index + Suc i))"
      if "unat index + Suc i \<le> unat j"
      using that by (simp add: nth_Cons' algebra_simps)
    ultimately show ?thesis using Cons.IH [OF rest] by simp
  qed
qed auto

lemma put_items_fits:
  assumes "put_items index i its m = (Inr u, m')" and "i + length its < 2 ^ 63" and "its \<noteq> []"
  shows "unat index + i + length its \<le> 2 ^ 64"
  using assms
proof (induction its arbitrary: i m)
  case (Cons it its)
  obtain t where t: "unat t = unat index + i"
    and rest: "put_items index (Suc i) its (put_item t it m) = (Inr u, m')"
      "Suc i + length its < 2 ^ 63"
    using put_items_step [OF Cons.prems(1,2)] .
  have "unat t < 2 ^ 64" using unsigned_less [of t] by simp
  then show ?case using Cons.IH [OF rest] t by (cases its) auto
qed auto

lemma put_items_total:
  assumes "i + length its < 2 ^ 63" and "unat index + i + length its \<le> 2 ^ 64"
  shows "\<exists>m'. put_items index i its m = (Ok (), m')"
  using assms
proof (induction its arbitrary: i m)
  case (Cons it its)
  then have "checked_add index (of_nat i) \<noteq> None" by (simp add: checked_add_of_nat)
  with Cons show ?case by (auto split: option.splits)
qed auto

lemma put_items_ok:
  assumes "put_items index i its m = (Inr u, m')" and "i + length its < 2 ^ 63"
    and "model_ok m" and "distinct (map item_id its)"
    and "\<forall>it \<in> set its. fmlookup (id_to_index m) (item_id it) = None"
    and "\<And>j. unat index + i \<le> unat j \<Longrightarrow> unat j < unat index + i + length its \<Longrightarrow>
           fmlookup (items m) j = None"
  shows "model_ok m'"
  using assms
proof (induction its arbitrary: i m)
  case (Cons it its)
  obtain t where t: "unat t = unat index + i"
    and rest: "put_items index (Suc i) its (put_item t it m) = (Inr u, m')"
      "Suc i + length its < 2 ^ 63"
    using put_items_step [OF Cons.prems(1,2)] .
  have ok: "model_ok (put_item t it m)"
    using Cons.prems t by (intro put_item_ok) auto
  show ?case
  proof (rule Cons.IH [OF rest ok])
    show "distinct (map item_id its)" using Cons.prems(4) by simp
    show "\<forall>x \<in> set its. fmlookup (id_to_index (put_item t it m)) (item_id x) = None"
      using Cons.prems(4,5) by fastforce
    fix j :: u64
    assume "unat index + Suc i \<le> unat j" "unat j < unat index + Suc i + length its"
    then show "fmlookup (items (put_item t it m)) j = None"
      using Cons.prems(6) [of j] t by auto
  qed
qed auto

lemma first_duplicate_None:
  "first_duplicate clash incoming its = None \<longleftrightarrow>
     distinct (map item_id its) \<and>
     (\<forall>it \<in> set its. \<not> clash (item_id it) \<and> item_id it \<notin> incoming)"
proof (induction its arbitrary: incoming)
  case (Cons a its)
  show ?case by (simp add: Cons.IH image_iff) metis
qed simp

section \<open>Abstraction to a sparse list\<close>

text \<open>
  The contract of a model: a list of known length of which some positions are known.
\<close>

type_synonym 'a sparse = "nat \<times> (nat \<Rightarrow> 'a option)"

definition sparse_insert :: "nat \<Rightarrow> 'a list \<Rightarrow> 'a sparse \<Rightarrow> 'a sparse" where
  "sparse_insert i xs s =
     (fst s + length xs,
      \<lambda>j. if j < i then snd s j
          else if j < i + length xs then Some (xs ! (j - i)) else snd s (j - length xs))"

definition sparse_delete :: "nat \<Rightarrow> nat \<Rightarrow> 'a sparse \<Rightarrow> 'a sparse" where
  "sparse_delete i c s = (fst s - c, \<lambda>j. if j < i then snd s j else snd s (j + c))"

definition sparse_put :: "nat \<Rightarrow> 'a list \<Rightarrow> 'a sparse \<Rightarrow> 'a sparse" where
  "sparse_put i xs s =
     (fst s, \<lambda>j. if i \<le> j \<and> j < i + length xs then Some (xs ! (j - i)) else snd s j)"

definition cache :: "model \<Rightarrow> nat \<Rightarrow> model_item option" where
  "cache m j = (if j < 2 ^ 64 then fmlookup (items m) (of_nat j) else None)"

definition sparse_of :: "model \<Rightarrow> model_item sparse" where
  "sparse_of m = (unat (item_count m), cache m)"

lemma cache_unat [simp]: "cache m (unat i) = fmlookup (items m) i"
  by (simp add: cache_def)

lemma cache_Some_iff: "cache m j = Some it \<longleftrightarrow> (\<exists>i. unat i = j \<and> fmlookup (items m) i = Some it)"
  by (metis (no_types, lifting) cache_def cache_unat option.distinct(1) unat_of_nat_u64)

lemma cache_item_count [simp]: "cache (m\<lparr>item_count := c\<rparr>) = cache m"
  by (simp add: cache_def fun_eq_iff)

lemma uint_as_unat: "uint w = int (unat w)"
  by simp

lemma as_i64_small:
  assumes "unat w < 2 ^ 63"
  shows "as_i64 w = int (unat w)"
proof -
  have "int (unat w) < int (2 ^ 63)" using assms by (simp only: of_nat_less_iff)
  then have "uint w < 2 ^ 63" by simp
  moreover have "- (2 ^ 63) \<le> uint w" by (rule order_trans [of _ 0]) simp_all
  ultimately have "signed_take_bit 63 (uint w) = uint w" by (intro signed_take_bit_int_eq_self) auto
  then show ?thesis by (simp add: as_i64_def sint_uint)
qed

lemma shift_target_up:
  assumes "n < 2 ^ 63"
  shows "shift_target (int n) i = Some j \<longleftrightarrow> unat j = unat i + n"
proof -
  have "shift_target (int n) i = Some j \<longleftrightarrow> uint j = uint i + int n"
    using assms by (intro shift_target_iff) auto
  then show ?thesis using uint_as_unat [of i] uint_as_unat [of j] by linarith
qed

lemma shift_target_down:
  assumes "n < 2 ^ 63"
  shows "shift_target (- int n) i = Some j \<longleftrightarrow> unat i = unat j + n"
proof -
  have "shift_target (- int n) i = Some j \<longleftrightarrow> uint j = uint i + - int n"
    using assms by (intro shift_target_iff) auto
  then show ?thesis using uint_as_unat [of i] uint_as_unat [of j] by linarith
qed

lemma option_eqI: "(\<And>x. a = Some x \<longleftrightarrow> b = Some x) \<Longrightarrow> a = b"
  by (metis option.exhaust)

lemma shift_up:
  assumes sh: "shift_cached_indices from_index (int n) m = (Inr u, m1)"
    and n: "0 < n" "n < 2 ^ 63" and ok: "model_ok m"
  shows "cache m1 j = (if j < unat from_index then cache m j
           else if j < unat from_index + n then None else cache m (j - n))"
    and "\<And>i it. from_index \<le> i \<Longrightarrow> fmlookup (items m) i = Some it \<Longrightarrow> unat i + n < 2 ^ 64"
    and "item_count m1 = item_count m \<and> m_id m1 = m_id m \<and> model_type m1 = model_type m"
    and "model_ok m1"
proof -
  have "shift_clear from_index (int n) m"
    using n by (auto simp: shift_clear_def shift_target_up word_le_nat_alt)
  note S = shift_cached_Ok [OF sh _ _ _ this ok]
  show "model_ok m1" "item_count m1 = item_count m \<and> m_id m1 = m_id m \<and> model_type m1 = model_type m"
    using S(3,4) n by auto
  show fits: "unat i + n < 2 ^ 64" if i: "from_index \<le> i" "fmlookup (items m) i = Some it" for i it
  proof -
    obtain t where "shift_target (int n) i = Some t" using S(2) [OF _ _ _ i] n by auto
    then have "unat t = unat i + n" using n by (simp add: shift_target_up)
    then show ?thesis using unat_u64_bound [of t] by simp
  qed
  have L: "fmlookup (items m1) k = Some it \<longleftrightarrow>
      unat k < unat from_index \<and> fmlookup (items m) k = Some it \<or>
      (\<exists>i. unat from_index \<le> unat i \<and> fmlookup (items m) i = Some it \<and> unat k = unat i + n)" for k it
    using S(1) n by (simp add: shift_target_up word_le_nat_alt word_less_nat_alt)
  consider "j < unat from_index" | "unat from_index \<le> j" "j < unat from_index + n"
    | "unat from_index + n \<le> j" by linarith
  then show "cache m1 j = (if j < unat from_index then cache m j
           else if j < unat from_index + n then None else cache m (j - n))"
  proof cases
    case 1
    then have "cache m1 j = cache m j"
      by (intro option_eqI) (auto simp: cache_Some_iff L)
    with 1 show ?thesis by simp
  next
    case 2
    then have "cache m1 j \<noteq> Some it" for it by (auto simp: cache_Some_iff L)
    with 2 show ?thesis by auto
  next
    case 3
    have "cache m1 j = Some it \<longleftrightarrow> cache m (j - n) = Some it" for it
    proof
      assume "cache m (j - n) = Some it"
      then obtain i where i: "unat i = j - n" "fmlookup (items m) i = Some it"
        by (auto simp: cache_Some_iff)
      with 3 fits [of i it] have "j < 2 ^ 64" by (simp add: word_le_nat_alt)
      then have j: "unat (of_nat j :: u64) = j" by (rule unat_of_nat_u64)
      have "fmlookup (items m1) (of_nat j) = Some it"
        unfolding L using i 3 j by (intro disjI2 exI [of _ i]) auto
      with j show "cache m1 j = Some it" by (auto simp: cache_Some_iff)
    qed (use 3 in \<open>auto simp: cache_Some_iff L\<close>)
    then have "cache m1 j = cache m (j - n)" by (rule option_eqI)
    with 3 show ?thesis by simp
  qed
qed

lemma shift_loop_total:
  "\<forall>x \<in> set xs. shift_target d (fst x) \<noteq> None \<Longrightarrow> fst (shift_loop d xs m) = Ok ()"
  by (induction d xs m rule: shift_loop.induct) (auto split: option.splits)

lemma shift_total:
  assumes "\<And>i it. from_index \<le> i \<Longrightarrow> fmlookup (items m) i = Some it \<Longrightarrow> shift_target d i \<noteq> None"
  shows "fst (shift_cached_indices from_index d m) = Ok ()"
proof -
  let ?xs = "sorted_list_of_fmap (fmfilter (\<lambda>i. from_index \<le> i) (items m))"
  have "\<forall>x \<in> set ?xs. shift_target d (fst x) \<noteq> None"
    using assms by (auto simp: set_sorted_list_of_fmap split: if_splits)
  then show ?thesis by (simp add: shift_cached_indices_def shift_loop_total)
qed

lemma shift_up_total:
  assumes "n < 2 ^ 63"
    and "\<And>i it. from_index \<le> i \<Longrightarrow> fmlookup (items m) i = Some it \<Longrightarrow> unat i + n < 2 ^ 64"
  shows "fst (shift_cached_indices from_index (int n) m) = Ok ()"
proof (rule shift_total)
  fix i it
  assume "from_index \<le> i" "fmlookup (items m) i = Some it"
  then have "unat (of_nat (unat i + n) :: u64) = unat i + n"
    using assms(2) by (intro unat_of_nat_u64) auto
  then show "shift_target (int n) i \<noteq> None"
    using shift_target_up [OF assms(1), of i "of_nat (unat i + n)"] by simp
qed

lemma shift_down:
  assumes sh: "shift_cached_indices from_index (- int n) m = (r, m1)"
    and n: "0 < n" "n < 2 ^ 63" "n \<le> unat from_index" and ok: "model_ok m"
    and gap: "\<And>j. unat from_index - n \<le> j \<Longrightarrow> j < unat from_index \<Longrightarrow> cache m j = None"
  shows "r = Ok ()"
    and "cache m1 j = (if j < unat from_index - n then cache m j else cache m (j + n))"
    and "item_count m1 = item_count m \<and> m_id m1 = m_id m \<and> model_type m1 = model_type m"
    and "model_ok m1"
proof -
  have ex: "\<exists>t :: u64. unat i = unat t + n" if "from_index \<le> i" for i
  proof -
    have "unat i - n < 2 ^ 64" by (rule le_less_trans [OF diff_le_self]) simp
    then have "unat (of_nat (unat i - n) :: u64) = unat i - n" by (rule unat_of_nat_u64)
    with that n show ?thesis by (intro exI [of _ "of_nat (unat i - n)"]) (simp add: word_le_nat_alt)
  qed
  have "fst (shift_cached_indices from_index (- int n) m) = Ok ()"
    by (rule shift_total) (use ex shift_target_down [OF n(2)] in \<open>metis option.distinct(1)\<close>)
  then show r: "r = Ok ()" using sh by simp
  have "shift_clear from_index (- int n) m"
    unfolding shift_clear_def
  proof (intro allI impI)
    fix i j
    assume *: "contains_index m j" "from_index \<le> i" "shift_target (- int n) i = Some j"
    then have "unat from_index - n \<le> unat j" using n by (simp add: shift_target_down word_le_nat_alt)
    with * gap [of "unat j"] show "from_index \<le> j"
      by (force simp: contains_index_def word_le_nat_alt not_less [symmetric])
  qed
  note S = shift_cached_Ok [OF sh [unfolded r] _ _ _ this ok]
  show "model_ok m1" "item_count m1 = item_count m \<and> m_id m1 = m_id m \<and> model_type m1 = model_type m"
    using S(3,4) n by auto
  have L: "fmlookup (items m1) k = Some it \<longleftrightarrow>
      unat k < unat from_index \<and> fmlookup (items m) k = Some it \<or>
      (\<exists>i. unat from_index \<le> unat i \<and> fmlookup (items m) i = Some it \<and> unat i = unat k + n)" for k it
    using S(1) n by (simp add: shift_target_down word_le_nat_alt word_less_nat_alt)
  show "cache m1 j = (if j < unat from_index - n then cache m j else cache m (j + n))"
  proof (cases "j < unat from_index - n")
    case True
    then have "cache m1 j = cache m j"
      by (intro option_eqI) (auto simp: cache_Some_iff L)
    with True show ?thesis by simp
  next
    case False
    have "cache m1 j = Some it \<longleftrightarrow> cache m (j + n) = Some it" for it
    proof
      assume "cache m (j + n) = Some it"
      then obtain i where i: "unat i = j + n" "fmlookup (items m) i = Some it"
        by (auto simp: cache_Some_iff)
      then have "j < 2 ^ 64" using unat_u64_bound [of i] by simp
      then have j: "unat (of_nat j :: u64) = j" by (rule unat_of_nat_u64)
      have "fmlookup (items m1) (of_nat j) = Some it"
        unfolding L using i False j by (intro disjI2 exI [of _ i]) auto
      with j show "cache m1 j = Some it" by (auto simp: cache_Some_iff)
    next
      assume "cache m1 j = Some it"
      then show "cache m (j + n) = Some it"
        using gap [of j] False by (auto simp: cache_Some_iff L)
    qed
    then have "cache m1 j = cache m (j + n)" by (rule option_eqI)
    with False show ?thesis by simp
  qed
qed

lemma put_items_cache:
  assumes "put_items index 0 its m = (Inr u, m')" and "length its < 2 ^ 63"
  shows "cache m' j = (if unat index \<le> j \<and> j < unat index + length its
           then Some (its ! (j - unat index)) else cache m j)"
proof (cases "j < 2 ^ 64")
  case True
  then have "unat (of_nat j :: u64) = j" by (rule unat_of_nat_u64)
  with True put_items_lookup [OF assms(1), of "of_nat j"] assms(2) show ?thesis
    by (simp add: cache_def)
next
  case False
  then have "\<not> j < unat index + length its"
    using put_items_fits [OF assms(1)] assms(2)
    by (cases "its = []") (auto dest: less_trans [OF _ unat_u64_bound])
  with False show ?thesis by (simp add: cache_def)
qed

lemma contains_item_cache:
  "model_ok m \<Longrightarrow> contains_item m k \<longleftrightarrow> (\<exists>j it. cache m j = Some it \<and> item_id it = k)"
  by (auto simp: contains_item_iff cache_Some_iff)

lemma not_contains_item: "\<not> contains_item m k \<longleftrightarrow> fmlookup (id_to_index m) k = None"
  by (simp add: contains_item_def)

subsection \<open>insert_items\<close>

lemma insert_items_cases:
  assumes "insert_items index its m = (Inr u, m')" and len: "length its < 2 ^ 63"
  obtains "its = []" "m' = m" "index \<le> item_count m"
  | m1 m2 where "its \<noteq> []" "index \<le> item_count m"
      "shift_cached_indices index (int (length its)) m = (Inr (), m1)"
      "put_items index 0 its m1 = (Inr (), m2)"
      "unat (item_count m2) + length its < 2 ^ 64"
      "m' = m2\<lparr>item_count := item_count m2 + of_nat (length its)\<rparr>"
      "distinct (map item_id its)" "\<forall>it \<in> set its. \<not> contains_item m (item_id it)"
proof -
  have n: "unat (of_nat (length its) :: u64) = length its" using len by (intro unat_of_nat_u64) simp
  then have z: "(of_nat (length its) :: u64) > 0 \<longleftrightarrow> its \<noteq> []"
    by (simp add: word_less_nat_alt)
  have a: "as_i64 (of_nat (length its)) = int (length its)" using n len by (simp add: as_i64_small)
  show thesis
  proof (cases "its = []")
    case True
    with assms z that(1) show thesis
      by (auto simp: insert_items_def split: if_splits)
  next
    case False
    with assms z a n show thesis
      by (auto simp: insert_items_def Let_def result_simps first_duplicate_None checked_add_Some
          split: if_splits option.splits intro!: that(2))
  qed
qed

lemma insert_items_refines:
  assumes ins: "insert_items index its m = (Inr u, m')" and ok: "model_ok m"
    and len: "length its < 2 ^ 63"
  shows "sparse_of m' = sparse_insert (unat index) its (sparse_of m)"
    and "model_ok m'"
    and "m_id m' = m_id m \<and> model_type m' = model_type m"
proof -
  have "sparse_of m' = sparse_insert (unat index) its (sparse_of m) \<and> model_ok m' \<and>
      m_id m' = m_id m \<and> model_type m' = model_type m"
    using ins len
  proof (cases rule: insert_items_cases)
    case 1
    with ok show ?thesis by (auto simp: sparse_insert_def sparse_of_def)
  next
    case (2 m1 m2)
    have n: "0 < length its" using 2 by simp
    note S = shift_up [OF 2(3) n len ok]
    have fr: "item_count m2 = item_count m" "m_id m2 = m_id m" "model_type m2 = model_type m"
      using put_items_frame [OF 2(4)] S(3) by auto
    have "fmlookup (id_to_index m1) (item_id it) = None" if "it \<in> set its" for it
    proof -
      have "\<not> contains_item m (item_id it)" using that 2 by blast
      then have "\<not> contains_item m1 (item_id it)"
        by (auto simp: contains_item_cache ok S(4) S(1) split: if_splits)
      then show ?thesis by (simp add: not_contains_item)
    qed
    moreover have "fmlookup (items m1) j = None"
      if "unat index + 0 \<le> unat j" "unat j < unat index + 0 + length its" for j
      using that S(1) [of "unat j"] by simp
    ultimately have ok2: "model_ok m2"
      using put_items_ok [OF 2(4) _ S(4) 2(7)] len by auto
    have "unat (item_count m2 + of_nat (length its)) = unat (item_count m2) + length its"
      using 2(5) len by (simp add: unat_plus_no_overflow unat_of_nat_u64)
    with ok2 fr 2(6) show ?thesis
      by (auto simp: sparse_of_def sparse_insert_def fun_eq_iff put_items_cache [OF 2(4) len] S(1))
  qed
  then show "sparse_of m' = sparse_insert (unat index) its (sparse_of m)" "model_ok m'"
    "m_id m' = m_id m \<and> model_type m' = model_type m" by blast+
qed

text \<open>
  Every cached position lies inside the collection.  With this, an insertion ends without
  \<open>Panic\<close> exactly when the new length fits in 64 bits.
\<close>

definition cached_within :: "model \<Rightarrow> bool" where
  "cached_within m \<longleftrightarrow> (\<forall>i it. fmlookup (items m) i = Some it \<longrightarrow> i < item_count m)"

lemma cached_within_cache:
  "cached_within m \<longleftrightarrow> (\<forall>j. cache m j \<noteq> None \<longrightarrow> j < fst (sparse_of m))"
proof -
  have "cached_within m \<longleftrightarrow> (\<forall>i it. fmlookup (items m) i = Some it \<longrightarrow> unat i < unat (item_count m))"
    by (simp add: cached_within_def word_less_nat_alt)
  also have "\<dots> \<longleftrightarrow> (\<forall>j it. cache m j = Some it \<longrightarrow> j < unat (item_count m))"
    by (auto simp: cache_Some_iff)
  finally show ?thesis by (auto simp: sparse_of_def)
qed

lemma sparse_of_snd [simp]: "snd (sparse_of m) = cache m"
  by (simp add: sparse_of_def)

lemma insert_items_within:
  assumes "insert_items index its m = (Inr u, m')" "model_ok m" "length its < 2 ^ 63"
    and "cached_within m"
  shows "cached_within m'"
proof -
  note R = insert_items_refines(1) [OF assms(1-3)]
  have idx: "unat index \<le> fst (sparse_of m)"
    using assms(1,3) by (cases rule: insert_items_cases) (auto simp: sparse_of_def word_le_nat_alt)
  have "snd (sparse_of m') j \<noteq> None \<longrightarrow> j < fst (sparse_of m')" for j
    using assms(4) idx unfolding R cached_within_cache
    by (auto simp: sparse_insert_def split: if_splits)
  then show ?thesis unfolding cached_within_cache sparse_of_snd by blast
qed

lemma insert_items_total:
  assumes "model_ok m" "cached_within m" "length its < 2 ^ 63"
    and "index \<le> item_count m" "distinct (map item_id its)"
    and "\<forall>it \<in> set its. \<not> contains_item m (item_id it)"
    and fits: "unat (item_count m) + length its < 2 ^ 64"
  shows "\<exists>m'. insert_items index its m = (Ok (), m')"
proof (cases "its = []")
  case True
  with assms show ?thesis by (simp add: insert_items_def)
next
  case False
  have n: "unat (of_nat (length its) :: u64) = length its" using assms(3) by (intro unat_of_nat_u64) simp
  have a: "as_i64 (of_nat (length its)) = int (length its)" using n assms(3) by (simp add: as_i64_small)
  have "unat i + length its < 2 ^ 64" if "fmlookup (items m) i = Some it" for i it
    using that assms(2) fits by (fastforce simp: cached_within_def word_less_nat_alt)
  then obtain m1 where m1: "shift_cached_indices index (int (length its)) m = (Inr (), m1)"
    using shift_up_total [of "length its" index m] assms(3) by (metis prod.collapse)
  have c1: "item_count m1 = item_count m"
    using shift_up(3) [OF m1 _ assms(3,1)] False by simp
  have "unat index + length its \<le> 2 ^ 64"
    using assms(4) fits by (simp add: word_le_nat_alt)
  then obtain m2 where m2: "put_items index 0 its m1 = (Inr (), m2)"
    using put_items_total [of 0 its index m1] assms(3) by auto
  have c2: "item_count m2 = item_count m" using put_items_frame [OF m2] c1 by simp
  have "checked_add (item_count m2) (of_nat (length its)) \<noteq> None"
    using fits n c2 by (simp add: checked_add_None)
  moreover have "first_duplicate (contains_item m) {} its = None"
    using assms(5,6) by (simp add: first_duplicate_None)
  ultimately show ?thesis
    using assms(4) a m1 m2 by (auto simp: insert_items_def Let_def not_less split: option.splits)
qed

subsection \<open>delete_items\<close>

lemma fold_remove_cache:
  "cache (fold remove_index ks m) j = (if j \<in> unat ` set ks then None else cache m j)"
proof (rule option_eqI)
  fix it
  show "cache (fold remove_index ks m) j = Some it \<longleftrightarrow>
      (if j \<in> unat ` set ks then None else cache m j) = Some it"
    by (auto simp: cache_Some_iff fold_remove_items dest: word_unat_eq_iff [THEN iffD2])
qed

lemma range_remove_cache:
  assumes "unat end_idx = unat idx + unat cnt"
  shows "cache (fold remove_index (filter (\<lambda>k. idx \<le> k \<and> k < end_idx) (item_keys m)) m) j =
    (if unat idx \<le> j \<and> j < unat idx + unat cnt then None else cache m j)"
proof -
  have "j \<in> unat ` set (filter (\<lambda>k. idx \<le> k \<and> k < end_idx) (item_keys m)) \<longleftrightarrow>
      unat idx \<le> j \<and> j < unat idx + unat cnt \<and> cache m j \<noteq> None"
    using assms
    by (auto simp: set_item_keys fmlookup_dom'_iff word_le_nat_alt word_less_nat_alt cache_Some_iff
        image_iff)
  then show ?thesis by (auto simp: fold_remove_cache)
qed

lemma delete_range_refines:
  assumes ok: "model_ok m" and idx: "idx \<le> item_count m"
    and fits: "unat idx + unat cnt \<le> unat (item_count m)"
    and cnt: "0 < unat cnt" "unat cnt < 2 ^ 63"
  shows "\<exists>m'. delete_range idx cnt m = (Ok (), m') \<and> model_ok m' \<and>
     sparse_of m' = sparse_delete (unat idx) (unat cnt) (sparse_of m) \<and>
     m_id m' = m_id m \<and> model_type m' = model_type m"
proof -
  have nov: "unat idx + unat cnt < 2 ^ 64"
    using le_less_trans [OF fits unat_u64_bound] by simp
  then obtain end_idx where e: "checked_add idx cnt = Some end_idx" "unat end_idx = unat idx + unat cnt"
    by (auto simp: checked_add_Some unat_plus_no_overflow)
  have sat: "saturating_add idx cnt = idx + cnt" "unat (idx + cnt) = unat idx + unat cnt"
    using nov by (simp_all add: saturating_add_def unat_plus_no_overflow)
  let ?m1 = "fold remove_index (filter (\<lambda>k. idx \<le> k \<and> k < end_idx) (item_keys m)) m"
  have a: "as_i64 cnt = int (unat cnt)" using cnt by (simp add: as_i64_small)
  have ok1: "model_ok ?m1" using ok by (rule fold_remove_ok)
  obtain r m2 where sh: "shift_cached_indices end_idx (- int (unat cnt)) ?m1 = (r, m2)"
    by (cases "shift_cached_indices end_idx (- int (unat cnt)) ?m1")
  have gap: "cache ?m1 j = None" if "unat end_idx - unat cnt \<le> j" "j < unat end_idx" for j
    using that e by (simp add: range_remove_cache)
  note S = shift_down [OF sh cnt _ ok1 gap]
  have r: "r = Ok ()" using S(1) e by simp
  have g: "\<not> (idx > item_count m \<or> saturating_add idx cnt > item_count m)"
    using idx fits sat by (simp add: word_le_nat_alt not_less)
  have "0 \<le> as_i64 cnt" using a by simp
  then have "as_i64 cnt \<noteq> - (2 ^ 63)" by auto
  then have "delete_range idx cnt m =
      (Ok (), m2\<lparr>item_count := saturating_sub (item_count m2) cnt\<rparr>)"
    unfolding delete_range_def using g e sh r a by (simp add: Let_def)
  moreover have "cache m2 = snd (sparse_delete (unat idx) (unat cnt) (sparse_of m))"
    using S(2) e by (auto simp: sparse_delete_def fun_eq_iff range_remove_cache)
  ultimately show ?thesis
    using S(3,4) e
    by (auto simp: sparse_of_def sparse_delete_def unat_saturating_sub)
qed

lemma delete_id_as_remove:
  assumes "model_ok m" "fmlookup (id_to_index m) k = Some idx"
  shows "m\<lparr>id_to_index := fmdrop k (id_to_index m), items := fmdrop idx (items m), item_count := c\<rparr>
    = (remove_index idx m)\<lparr>item_count := c\<rparr>"
  using model_ok_item [OF assms] by (auto simp: remove_index_def)

lemma delete_ids_found:
  assumes ok: "model_ok m" and k: "fmlookup (id_to_index m) k = Some idx"
    and idx: "unat idx < 2 ^ 64 - 1"
  shows "\<exists>m'. delete_ids (k # ks) m = delete_ids ks m' \<and> model_ok m' \<and>
     sparse_of m' = sparse_delete (unat idx) 1 (sparse_of m) \<and>
     m_id m' = m_id m \<and> model_type m' = model_type m"
proof -
  let ?m1 = "(remove_index idx m)\<lparr>item_count := saturating_sub (item_count m) 1\<rparr>"
  obtain f where f: "checked_add idx 1 = Some f" "unat f = unat idx + 1"
    using idx by (auto simp: checked_add_Some unat_plus_no_overflow)
  have ok1: "model_ok ?m1" using ok by (simp add: remove_index_ok)
  obtain r m2 where sh: "shift_cached_indices f (- int 1) ?m1 = (r, m2)"
    by (cases "shift_cached_indices f (- int 1) ?m1")
  have c: "cache (remove_index idx m) j = (if j = unat idx then None else cache m j)" for j
    using fold_remove_cache [of "[idx]" m j] by simp
  have gap: "cache ?m1 j = None" if "unat f - 1 \<le> j" "j < unat f" for j
    using that f c [of j] by simp
  note S = shift_down [OF sh _ _ _ ok1 gap]
  have "delete_ids (k # ks) m = delete_ids ks m2"
    using k f sh S(1) by (simp add: delete_id_as_remove [OF ok k])
  moreover have "cache m2 = snd (sparse_delete (unat idx) 1 (sparse_of m))"
    using S(2) f by (auto simp: sparse_delete_def fun_eq_iff c)
  ultimately show ?thesis
    using S(3,4) f by (intro exI [of _ m2]) (auto simp: sparse_of_def sparse_delete_def unat_saturating_sub)
qed

lemma delete_ids_missing:
  assumes "fmlookup (id_to_index m) k = None"
  shows "delete_ids (k # ks) m = delete_ids ks (m\<lparr>item_count := saturating_sub (item_count m) 1\<rparr>)"
  using assms by simp

lemma delete_ids_ok:
  "delete_ids ks m = (Inr u, m') \<Longrightarrow> model_ok m \<Longrightarrow> model_ok m'"
proof (induction ks arbitrary: m)
  case (Cons k ks)
  show ?case
  proof (cases "fmlookup (id_to_index m) k")
    case None
    with Cons show ?thesis by auto
  next
    case (Some idx)
    show ?thesis
    proof (cases "unat idx < 2 ^ 64 - 1")
      case True
      with delete_ids_found [OF Cons.prems(2) Some True, of ks] Cons show ?thesis by metis
    next
      case False
      then have "checked_add idx 1 = None" by (simp add: checked_add_None)
      with Some Cons.prems show ?thesis by simp
    qed
  qed
qed auto

subsection \<open>update_items\<close>

definition clear_for_update :: "u64 \<Rightarrow> item_id \<Rightarrow> model \<Rightarrow> model" where
  "clear_for_update t k m =
     remove_index t (case fmlookup (id_to_index m) k of None \<Rightarrow> m | Some old \<Rightarrow> remove_index old m)"

lemma update_at_alt:
  assumes ok: "model_ok m"
  shows "update_at t it m = put_item t it (clear_for_update t (item_id it) m)"
proof (cases "fmlookup (id_to_index m) (item_id it)")
  case None
  then show ?thesis
    by (simp add: update_at_def clear_for_update_def Let_def remove_index_def split: option.splits)
next
  case (Some old)
  then obtain jt where jt: "fmlookup (items m) old = Some jt" "item_id jt = item_id it"
    using model_ok_item [OF ok] by blast
  show ?thesis
  proof (cases "old = t")
    case True
    with Some jt show ?thesis
      by (simp add: update_at_def clear_for_update_def Let_def remove_index_def fmdrop_idle)
  next
    case False
    with Some jt show ?thesis
      by (simp add: update_at_def clear_for_update_def Let_def remove_index_def split: option.splits)
  qed
qed

lemma clear_for_update_ok: "model_ok m \<Longrightarrow> model_ok (clear_for_update t k m)"
  by (auto simp: clear_for_update_def intro!: remove_index_ok split: option.splits)

lemma clear_for_update_items:
  assumes "model_ok m"
  shows "fmlookup (items (clear_for_update t k m)) j =
    (case fmlookup (items m) j of
       None \<Rightarrow> None
     | Some jt \<Rightarrow> if j = t \<or> item_id jt = k then None else Some jt)"
  using assms model_ok_item [OF assms, of k] model_ok_inj [OF assms] model_ok_index [OF assms, of j]
  by (auto simp: clear_for_update_def remove_index_items split: option.splits)

lemma update_at_ok:
  assumes ok: "model_ok m"
  shows "model_ok (update_at t it m)"
proof -
  let ?c = "clear_for_update t (item_id it) m"
  have c: "model_ok ?c" using ok by (rule clear_for_update_ok)
  have "fmlookup (items ?c) t = None"
    by (auto simp: clear_for_update_items [OF ok] split: option.splits)
  moreover have "\<not> contains_item ?c (item_id it)"
    by (auto simp: contains_item_iff [OF c] clear_for_update_items [OF ok] split: option.splits if_splits)
  ultimately show ?thesis
    unfolding update_at_alt [OF ok] using c by (intro put_item_ok) (simp_all add: not_contains_item)
qed

lemma update_at_items:
  assumes "model_ok m"
  shows "fmlookup (items (update_at t it m)) j =
    (if j = t then Some it
     else case fmlookup (items m) j of
        None \<Rightarrow> None
      | Some jt \<Rightarrow> if item_id jt = item_id it then None else Some jt)"
  by (auto simp: update_at_alt [OF assms] clear_for_update_items [OF assms] split: option.splits)

lemma update_by_id_ok:
  assumes ok: "model_ok m" and k: "fmlookup (id_to_index m) (item_id it) = Some idx"
  shows "model_ok (m\<lparr>items := fmupd idx it (items m)\<rparr>)"
proof -
  obtain jt where jt: "fmlookup (items m) idx = Some jt" "item_id jt = item_id it"
    using model_ok_item [OF ok k] by blast
  show ?thesis
  proof (rule model_okI)
    fix i x
    assume "fmlookup (items (m\<lparr>items := fmupd idx it (items m)\<rparr>)) i = Some x"
    then show "fmlookup (id_to_index (m\<lparr>items := fmupd idx it (items m)\<rparr>)) (item_id x) = Some i"
      using k model_ok_index [OF ok, of i x] by (auto split: if_splits)
  next
    fix j i
    assume "fmlookup (id_to_index (m\<lparr>items := fmupd idx it (items m)\<rparr>)) j = Some i"
    then obtain x where "fmlookup (items m) i = Some x" "item_id x = j"
      using model_ok_item [OF ok] by auto
    with jt show "\<exists>x. fmlookup (items (m\<lparr>items := fmupd idx it (items m)\<rparr>)) i = Some x \<and> item_id x = j"
      by auto
  qed
qed

lemma update_loop_ok: "update_loop index i its m = (r, m') \<Longrightarrow> model_ok m \<Longrightarrow> model_ok m'"
  by (induction index i its m rule: update_loop.induct)
     (auto simp: update_at_ok update_by_id_ok split: option.splits if_splits)

lemma update_items_ok: "update_items index its m = (r, m') \<Longrightarrow> model_ok m \<Longrightarrow> model_ok m'"
  unfolding update_items_def by (rule update_loop_ok)

text \<open>
  What a successful deletion does, for every count: a count of \<open>2 ^ 63\<close> or more succeeds only
  when nothing is cached behind the range.
\<close>

lemma as_i64_large:
  assumes "2 ^ 63 \<le> unat w"
  shows "as_i64 w = int (unat w) - 2 ^ 64"
proof -
  have lo: "(2 :: int) ^ 63 \<le> uint w" using assms by (metis of_nat_le_iff of_nat_numeral of_nat_power uint_as_unat)
  have hi: "uint w < 2 ^ 64" using uint_lt2p [of w] by simp
  have "uint w div 2 ^ 63 = 1" by (rule int_div_pos_eq [of _ _ _ "uint w - 2 ^ 63"]) (use lo hi in auto)
  with hi show ?thesis
    by (simp add: as_i64_def sint_uint signed_take_bit_eq_take_bit_minus take_bit_int_eq_self bit_iff_odd)
qed

lemma delete_range_cases:
  assumes "delete_range idx cnt m = (Inr u, m')"
  obtains end_idx m2 where "idx \<le> item_count m" "unat end_idx = unat idx + unat cnt"
    "unat idx + unat cnt \<le> unat (item_count m)" "as_i64 cnt \<noteq> - (2 ^ 63)"
    "shift_cached_indices end_idx (- as_i64 cnt)
       (fold remove_index (filter (\<lambda>k. idx \<le> k \<and> k < end_idx) (item_keys m)) m) = (Inr (), m2)"
    "m' = m2\<lparr>item_count := saturating_sub (item_count m2) cnt\<rparr>"
proof -
  from assms obtain end_idx where g: "idx \<le> item_count m" "saturating_add idx cnt \<le> item_count m"
      "checked_add idx cnt = Some end_idx"
    by (auto simp: delete_range_def not_less split: if_splits option.splits)
  then have "unat end_idx = unat idx + unat cnt" "saturating_add idx cnt = end_idx"
    by (auto simp: checked_add_Some unat_plus_no_overflow saturating_add_def)
  with assms g that show thesis
    by (auto simp: delete_range_def Let_def result_simps word_le_nat_alt not_less split: if_splits)
qed

lemma delete_range_Ok:
  assumes del: "delete_range idx cnt m = (Inr u, m')" and ok: "model_ok m" and cnt: "0 < cnt"
  shows "model_ok m' \<and> sparse_of m' = sparse_delete (unat idx) (unat cnt) (sparse_of m) \<and>
     m_id m' = m_id m \<and> model_type m' = model_type m"
  using del
proof (cases rule: delete_range_cases)
  case (1 end_idx m2)
  have pos: "0 < unat cnt" using cnt by (simp add: word_less_nat_alt)
  show ?thesis
  proof (cases "unat cnt < 2 ^ 63")
    case True
    with delete_range_refines [OF ok 1(1,3) pos] del show ?thesis by auto
  next
    case False
    let ?m1 = "fold remove_index (filter (\<lambda>k. idx \<le> k \<and> k < end_idx) (item_keys m)) m"
    let ?n = "2 ^ 64 - unat cnt"
    have n: "- as_i64 cnt = int ?n" "0 < ?n" "?n < 2 ^ 63"
      using False 1(4) as_i64_large [of cnt] unat_u64_bound [of cnt]
      by (simp_all del: unat_u64_bound of_nat_unat add: of_nat_diff)
    note S = shift_up [OF 1(5) [unfolded n(1)] n(2,3) fold_remove_ok [OF ok]]
    have far: "cache ?m1 j = None" if "unat end_idx \<le> j" for j
    proof (rule ccontr)
      assume "cache ?m1 j \<noteq> None"
      then obtain i it where "unat i = j" "fmlookup (items ?m1) i = Some it" by (auto simp: cache_Some_iff)
      with S(2) [of i it] that 1(2) show False by (simp add: word_le_nat_alt)
    qed
    have far_m: "cache m j = None" if "unat end_idx \<le> j" for j
      using far [OF that] that 1(2) by (auto simp: range_remove_cache split: if_splits)
    have "cache m2 j = (if j < unat idx then cache m j else None)" for j
      unfolding S(1) using far range_remove_cache [OF 1(2), of m j] 1(2) by auto
    then have "cache m2 = snd (sparse_delete (unat idx) (unat cnt) (sparse_of m))"
      using far_m 1(2) by (auto simp: sparse_delete_def fun_eq_iff)
    then show ?thesis
      using S(3,4) 1(6) by (auto simp: sparse_of_def sparse_delete_def unat_saturating_sub)
  qed
qed

text \<open>Deletion by identity, one identity after the other; an identity not cached only shortens.\<close>

inductive sparse_delete_ids :: "item_id list \<Rightarrow> model_item sparse \<Rightarrow> model_item sparse \<Rightarrow> bool" where
  none: "sparse_delete_ids [] s s"
| cached: "snd s j = Some it \<Longrightarrow> item_id it = k \<Longrightarrow> sparse_delete_ids ks (sparse_delete j 1 s) s' \<Longrightarrow>
    sparse_delete_ids (k # ks) s s'"
| uncached: "(\<forall>j it. snd s j = Some it \<longrightarrow> item_id it \<noteq> k) \<Longrightarrow>
    sparse_delete_ids ks (fst s - 1, snd s) s' \<Longrightarrow> sparse_delete_ids (k # ks) s s'"

lemma delete_ids_refines:
  "delete_ids ks m = (Inr u, m') \<Longrightarrow> model_ok m \<Longrightarrow> sparse_delete_ids ks (sparse_of m) (sparse_of m') \<and>
     m_id m' = m_id m \<and> model_type m' = model_type m"
proof (induction ks arbitrary: m)
  case (Cons k ks)
  show ?case
  proof (cases "fmlookup (id_to_index m) k")
    case None
    let ?m1 = "m\<lparr>item_count := saturating_sub (item_count m) 1\<rparr>"
    have "\<forall>j it. snd (sparse_of m) j = Some it \<longrightarrow> item_id it \<noteq> k"
      using None contains_item_cache [OF Cons.prems(2), of k] by (auto simp: contains_item_def)
    moreover have "sparse_of ?m1 = (fst (sparse_of m) - 1, snd (sparse_of m))"
      by (simp add: sparse_of_def unat_saturating_sub)
    ultimately show ?thesis
      using Cons.IH [of ?m1] Cons.prems None
      by (intro conjI sparse_delete_ids.uncached [of "sparse_of m"]) simp_all
  next
    case (Some idx)
    then obtain it where it: "fmlookup (items m) idx = Some it" "item_id it = k"
      using model_ok_item [OF Cons.prems(2)] by blast
    have "unat idx < 2 ^ 64 - 1"
    proof (rule ccontr)
      assume "\<not> unat idx < 2 ^ 64 - 1"
      then have "checked_add idx 1 = None" by (simp add: checked_add_None)
      with Some Cons.prems(1) show False by simp
    qed
    from delete_ids_found [OF Cons.prems(2) Some this, of ks] obtain m1 where
      m1: "delete_ids (k # ks) m = delete_ids ks m1" "model_ok m1"
        "sparse_of m1 = sparse_delete (unat idx) 1 (sparse_of m)"
        "m_id m1 = m_id m \<and> model_type m1 = model_type m" by blast
    have "sparse_delete_ids ks (sparse_of m1) (sparse_of m') \<and>
        m_id m' = m_id m1 \<and> model_type m' = model_type m1"
      using Cons.IH [OF _ m1(2)] Cons.prems(1) m1(1) by simp
    with m1 it show ?thesis
      by (auto intro!: sparse_delete_ids.cached [of _ "unat idx" it])
  qed
qed (auto intro: sparse_delete_ids.none)

lemma delete_items_Ok:
  assumes "delete_items index n ids m = (Inr u, m')" and "model_ok m"
  shows "model_ok m' \<and> m_id m' = m_id m \<and> model_type m' = model_type m \<and>
     (if ids \<noteq> [] then sparse_delete_ids ids (sparse_of m) (sparse_of m')
      else sparse_of m' = sparse_delete (case index of Some i \<Rightarrow> unat i | None \<Rightarrow> 0)
        (case n of Some c \<Rightarrow> unat c | None \<Rightarrow> 0) (sparse_of m))"
proof (cases "ids = []")
  case False
  with assms have "delete_ids ids m = (Inr u, m')"
    by (auto simp: delete_items_def Let_def split: if_splits)
  with assms False show ?thesis
    using delete_ids_ok [of ids m u m'] delete_ids_refines [of ids m u m'] by simp
next
  case True
  have triv: "sparse_delete i 0 s = s" for i and s :: "model_item sparse"
    by (cases s) (auto simp: sparse_delete_def)
  show ?thesis
  proof (cases "\<exists>c. n = Some c \<and> c > 0")
    case False
    then have "(case n of Some c \<Rightarrow> unat c | None \<Rightarrow> 0) = 0" by (auto simp: word_gt_0 split: option.splits)
    moreover have "m' = m" using False True assms
      by (auto simp: delete_items_def Let_def split: option.splits if_splits)
    ultimately show ?thesis using True assms(2) by (simp add: triv)
  next
    case pos: True
    then obtain c where c: "n = Some c" "0 < c" by blast
    with True assms have "delete_range (case index of Some i \<Rightarrow> i | None \<Rightarrow> 0) c m = (Inr u, m')"
      by (auto simp: delete_items_def)
    from delete_range_Ok [OF this assms(2) c(2)] True c show ?thesis
      by (cases index) auto
  qed
qed

subsection \<open>reset_range\<close>

text \<open>The length after the hint \<open>total_count\<close>: zero is no hint.\<close>

definition hinted_count :: "u64 option \<Rightarrow> u64 \<Rightarrow> u64" where
  "hinted_count total_count c = (case total_count of Some tc \<Rightarrow> if tc > 0 then tc else c | None \<Rightarrow> c)"

lemma reset_range_alt:
  "reset_range start_index its total_count m0 =
     (let m = m0\<lparr>item_count := hinted_count total_count (item_count m0)\<rparr>
      in if start_index > item_count m
         then (Error (ModelIndexOutOfBounds start_index (item_count m)), m)
         else case checked_add start_index (of_nat (length its)) of
           None \<Rightarrow> (Inl Panic, m)
         | Some end_index \<Rightarrow>
             if end_index > item_count m
             then (Error (ModelIndexOutOfBounds end_index (item_count m)), m)
             else (case first_duplicate (reset_clash start_index end_index m) {} its of
                Some dup \<Rightarrow> (Error (DuplicateItemId (m_id m) dup), m)
              | None \<Rightarrow>
                  put_items start_index 0 its
                    (fold remove_index (map (\<lambda>i. start_index + of_nat i) [0..<length its]) m)))"
proof -
  have "(case total_count of None \<Rightarrow> m0 | Some tc \<Rightarrow> if tc > 0 then m0\<lparr>item_count := tc\<rparr> else m0) =
      m0\<lparr>item_count := hinted_count total_count (item_count m0)\<rparr>"
    by (auto simp: hinted_count_def split: option.splits)
  then show ?thesis by (simp only: reset_range_def)
qed

lemma span_unat:
  fixes start_index :: u64
  assumes "unat start_index + n < 2 ^ 64"
  shows "unat ` set (map (\<lambda>i. start_index + of_nat i) [0..<n]) = {unat start_index ..< unat start_index + n}"
proof -
  have u: "unat (start_index + of_nat i) = unat start_index + i" if "i < n" for i
    using that assms by (subst unat_plus_no_overflow) (simp_all add: unat_of_nat_u64)
  have "unat ` set (map (\<lambda>i. start_index + of_nat i) [0..<n]) = (\<lambda>i. unat start_index + i) ` {0..<n}"
    using u by (auto simp: image_image intro!: image_cong)
  then show ?thesis by (simp add: add.commute)
qed

lemma reset_range_Ok:
  assumes rr: "reset_range start_index its total_count m0 = (Inr u, m')"
    and ok: "model_ok m0" and len: "length its < 2 ^ 63"
  shows "model_ok m' \<and> m_id m' = m_id m0 \<and> model_type m' = model_type m0 \<and>
    sparse_of m' = sparse_put (unat start_index) its
      (unat (hinted_count total_count (item_count m0)), cache m0)"
proof -
  let ?m = "m0\<lparr>item_count := hinted_count total_count (item_count m0)\<rparr>"
  let ?m1 = "fold remove_index (map (\<lambda>i. start_index + of_nat i) [0..<length its]) ?m"
  obtain e where e: "unat e = unat start_index + length its"
    and fd: "first_duplicate (reset_clash start_index e ?m) {} its = None"
    and put: "put_items start_index 0 its ?m1 = (Inr u, m')"
    using rr len by (auto simp: reset_range_alt Let_def checked_add_of_nat
        split: if_splits option.splits)
  have okm: "model_ok ?m" using ok by simp
  have ok1: "model_ok ?m1" by (rule fold_remove_ok [OF okm])
  have fits: "unat start_index + length its < 2 ^ 64" using e unat_u64_bound [of e] by simp
  have c1: "cache ?m1 j = (if unat start_index \<le> j \<and> j < unat start_index + length its
      then None else cache m0 j)" for j
    unfolding fold_remove_cache span_unat [OF fits] by simp
  have "fmlookup (id_to_index ?m1) (item_id it) = None" if "it \<in> set its" for it
  proof -
    have nc: "\<not> reset_clash start_index e ?m (item_id it)" using fd that by (simp add: first_duplicate_None)
    have "\<not> contains_item ?m1 (item_id it)"
    proof
      assume "contains_item ?m1 (item_id it)"
      then obtain j x where jx: "cache ?m1 j = Some x" "item_id x = item_id it"
        using contains_item_cache [OF ok1] by blast
      then have jr: "\<not> (unat start_index \<le> j \<and> j < unat start_index + length its)" "cache m0 j = Some x"
        using c1 [of j] by (auto split: if_splits)
      then obtain i where i: "unat i = j" "fmlookup (items m0) i = Some x" by (auto simp: cache_Some_iff)
      then have "fmlookup (id_to_index ?m) (item_id it) = Some i"
        using model_ok_index [OF ok i(2)] jx by simp
      with nc i jr e show False by (auto simp: reset_clash_def word_le_nat_alt word_less_nat_alt)
    qed
    then show ?thesis by (simp add: not_contains_item)
  qed
  moreover have "fmlookup (items ?m1) j = None"
    if "unat start_index + 0 \<le> unat j" "unat j < unat start_index + 0 + length its" for j
    using that c1 [of "unat j"] by simp
  ultimately have "model_ok m'"
    using put_items_ok [OF put _ ok1] len fd by (auto simp: first_duplicate_None)
  moreover have "cache m' j = snd (sparse_put (unat start_index) its (c, cache m0)) j" for j c
    using put_items_cache [OF put len, of j] c1 [of j] by (simp add: sparse_put_def)
  ultimately show ?thesis
    using put_items_frame [OF put] by (auto simp: sparse_of_def sparse_put_def fun_eq_iff)
qed

text \<open>
  A range reset that fails has not touched the cache, but it has already taken the new
  length: the call is atomic only on a staged copy.
\<close>

lemma reset_range_Err:
  assumes "reset_range start_index its total_count m0 = (Inl f, m')" "length its < 2 ^ 63"
  shows "m' = m0\<lparr>item_count := hinted_count total_count (item_count m0)\<rparr>"
proof -
  let ?m = "m0\<lparr>item_count := hinted_count total_count (item_count m0)\<rparr>"
  have "put_items start_index 0 its m1 \<noteq> (Inl f, m2)"
    if "checked_add start_index (of_nat (length its)) = Some e" for e m1 m2
  proof -
    have "unat e = unat start_index + length its" using that assms(2) by (simp add: checked_add_of_nat)
    then have "unat start_index + 0 + length its \<le> 2 ^ 64" using unat_u64_bound [of e] by simp
    then show ?thesis using put_items_total [of 0 its start_index m1] assms(2) by auto
  qed
  with assms(1) show ?thesis
    by (auto simp: reset_range_alt Let_def split: if_splits option.splits)
qed

lemma reset_range_no_panic:
  assumes "length its < 2 ^ 63" "unat start_index + length its < 2 ^ 64"
  shows "fst (reset_range start_index its total_count m0) \<noteq> Inl Panic"
proof -
  have "put_items start_index 0 its m1 \<noteq> (Inl Panic, m2)" for m1 m2
    using put_items_total [of 0 its start_index m1] assms by auto
  moreover have "checked_add start_index (of_nat (length its)) \<noteq> None"
    using assms by (simp add: checked_add_of_nat)
  ultimately show ?thesis
    by (auto simp: reset_range_alt Let_def split: option.splits) (metis eq_fst_iff)
qed

subsection \<open>Eviction\<close>

lemma set_eviction_order [simp]: "set (eviction_order mid cs) = set cs"
  by (simp add: eviction_order_def)

lemma distinct_eviction_order [simp]: "distinct (eviction_order mid cs) = distinct cs"
  by (simp add: eviction_order_def)

lemma sorted_eviction_order:
  "sorted (map (\<lambda>a. (- int (unat (abs_diff a mid)), a)) (eviction_order mid cs))"
  unfolding eviction_order_def by (rule sorted_sort_key)

lemma eviction_order_far:
  assumes "a \<in> set (take n (eviction_order mid cs))" "b \<in> set (drop n (eviction_order mid cs))"
  shows "abs_diff b mid \<le> abs_diff a mid"
proof -
  let ?k = "\<lambda>a. (- int (unat (abs_diff a mid)), a)"
  have "sorted (map ?k (take n (eviction_order mid cs) @ drop n (eviction_order mid cs)))"
    using sorted_eviction_order by simp
  then have "?k a \<le> ?k b" using assms by (simp only: map_append sorted_append) auto
  then show ?thesis by (auto simp: less_eq_prod_def word_le_def)
qed

text \<open>The cached positions outside the window to keep.\<close>

definition outside :: "u64 \<Rightarrow> u64 \<Rightarrow> model \<Rightarrow> u64 list" where
  "outside keep_start keep_end m =
     filter (\<lambda>i. i < keep_start \<or> max keep_end keep_start \<le> i) (item_keys m)"

lemma evict_alt:
  "evict_farthest_outside ks ke n m =
     fold remove_index (take n (eviction_order (window_mid ks (max ke ks)) (outside ks ke m))) m"
  by (simp add: evict_farthest_outside_def outside_def Let_def)

lemma evict_ok: "model_ok m \<Longrightarrow> model_ok (evict_farthest_outside ks ke n m)"
  by (simp add: evict_alt fold_remove_ok)

lemma evict_frame [simp]:
  "item_count (evict_farthest_outside ks ke n m) = item_count m"
  "m_id (evict_farthest_outside ks ke n m) = m_id m"
  "model_type (evict_farthest_outside ks ke n m) = model_type m"
  by (simp_all add: evict_alt)

lemma fmdom'_fold_remove: "fmdom' (items (fold remove_index ks m)) = fmdom' (items m) - set ks"
  by (auto simp: fmlookup_dom'_iff fold_remove_items split: if_splits)

lemma card_fold_remove:
  assumes "distinct ks" "set ks \<subseteq> fmdom' (items m)"
  shows "len_map (items (fold remove_index ks m)) = len_map (items m) - length ks"
  using assms by (simp add: len_map_alt fmdom'_fold_remove card_Diff_subset distinct_card)

text \<open>
  Eviction removes \<open>n\<close> positions outside the window, or all of them when there are fewer, and
  none that remains outside is farther from the middle of the window than one it removed.
\<close>

lemma evict_spec:
  fixes m ks ke n
  defines "m' \<equiv> evict_farthest_outside ks ke n m"
  shows "fmdom' (items m') \<subseteq> fmdom' (items m)"
    and "fmdom' (items m) - fmdom' (items m') \<subseteq> set (outside ks ke m)"
    and "card (fmdom' (items m) - fmdom' (items m')) = min n (length (outside ks ke m))"
    and "\<And>i. i \<in> fmdom' (items m') \<Longrightarrow> fmlookup (items m') i = fmlookup (items m) i"
    and "\<And>a b. a \<in> fmdom' (items m) - fmdom' (items m') \<Longrightarrow>
       b \<in> fmdom' (items m') \<Longrightarrow> b \<in> set (outside ks ke m) \<Longrightarrow>
       abs_diff b (window_mid ks (max ke ks)) \<le> abs_diff a (window_mid ks (max ke ks))"
proof -
  let ?mid = "window_mid ks (max ke ks)"
  let ?ev = "eviction_order ?mid (outside ks ke m)"
  have d: "distinct ?ev" by (simp add: outside_def)
  have sub: "set (take n ?ev) \<subseteq> fmdom' (items m)"
    using set_take_subset [of n ?ev] by (auto simp: outside_def set_item_keys)
  have dom: "fmdom' (items m') = fmdom' (items m) - set (take n ?ev)"
    by (simp add: m'_def evict_alt fmdom'_fold_remove)
  have gone: "fmdom' (items m) - fmdom' (items m') = set (take n ?ev)" using sub dom by auto
  show "fmdom' (items m') \<subseteq> fmdom' (items m)" using dom by auto
  show "fmdom' (items m) - fmdom' (items m') \<subseteq> set (outside ks ke m)"
    unfolding gone using set_take_subset [of n ?ev] by simp
  have "length ?ev = length (outside ks ke m)" by (simp add: eviction_order_def)
  then show "card (fmdom' (items m) - fmdom' (items m')) = min n (length (outside ks ke m))"
    unfolding gone using d by (simp add: distinct_card min.commute)
  show "fmlookup (items m') i = fmlookup (items m) i" if "i \<in> fmdom' (items m')" for i
    using that dom by (auto simp: m'_def evict_alt fold_remove_items)
  show "abs_diff b ?mid \<le> abs_diff a ?mid"
    if "a \<in> fmdom' (items m) - fmdom' (items m')" "b \<in> fmdom' (items m')" "b \<in> set (outside ks ke m)" for a b
  proof (rule eviction_order_far)
    show "a \<in> set (take n ?ev)" using that(1) gone by simp
    have "b \<in> set ?ev" "b \<notin> set (take n ?ev)" using that(2,3) dom by auto
    then show "b \<in> set (drop n ?ev)" by (metis Un_iff append_take_drop_id set_append)
  qed
qed

subsection \<open>cached_ranges\<close>

definition range_span :: "u64 \<times> u64 \<Rightarrow> nat list" where
  "range_span r = [unat (fst r) ..< unat (fst r) + unat (snd r)]"

definition separated :: "u64 \<times> u64 \<Rightarrow> u64 \<times> u64 \<Rightarrow> bool" where
  "separated r q \<longleftrightarrow> unat (fst r) + unat (snd r) < unat (fst q)"

lemma ranges_loop_head:
  "\<exists>l' rest. ranges_loop (Some (s, l)) is = (s, l') # rest"
  by (induction "Some (s, l)" "is" arbitrary: l rule: ranges_loop.induct) auto

lemma ranges_loop_spec:
  assumes "sorted_wrt (<) is" and "0 < unat l" and "unat l + length is < 2 ^ 64"
    and "\<forall>i \<in> set is. unat s + unat l \<le> unat i"
  shows "concat (map range_span (ranges_loop (Some (s, l)) is)) = range_span (s, l) @ map unat is \<and>
    sorted_wrt separated (ranges_loop (Some (s, l)) is) \<and>
    (\<forall>r \<in> set (ranges_loop (Some (s, l)) is). 0 < unat (snd r) \<and> unat s \<le> unat (fst r))"
  using assms
proof (induction "is" arbitrary: s l)
  case Nil
  then show ?case by simp
next
  case (Cons i "is")
  have nov: "unat s + unat l < 2 ^ 64" using Cons.prems(4) le_less_trans [OF _ unat_u64_bound [of i]] by simp
  have l1: "unat (l + 1) = unat l + 1" using Cons.prems(3) by (simp add: unat_plus_no_overflow)
  have one: "range_span (i, 1) = [unat i]" by (simp add: range_span_def)
  show ?case
  proof (cases "s + l = i")
    case True
    then have i: "unat i = unat s + unat l" using nov by (auto simp: unat_plus_no_overflow)
    have "\<forall>k \<in> set is. unat s + unat (l + 1) \<le> unat k"
      using Cons.prems(1) i l1 by (auto simp: word_less_nat_alt)
    with Cons.IH [of "l + 1" s] Cons.prems l1
    have IH: "concat (map range_span (ranges_loop (Some (s, l + 1)) is)) = range_span (s, l + 1) @ map unat is \<and>
        sorted_wrt separated (ranges_loop (Some (s, l + 1)) is) \<and>
        (\<forall>r \<in> set (ranges_loop (Some (s, l + 1)) is). 0 < unat (snd r) \<and> unat s \<le> unat (fst r))"
      by simp
    moreover have "range_span (s, l + 1) = range_span (s, l) @ [unat i]"
      using l1 i by (simp add: range_span_def)
    ultimately show ?thesis using True by simp
  next
    case False
    then have lt: "unat s + unat l < unat i"
      using Cons.prems(4) nov unat_plus_no_overflow [of s l] by (fastforce simp: word_unat_eq_iff)
    have "\<forall>k \<in> set is. unat i + unat (1 :: u64) \<le> unat k"
      using Cons.prems(1) by (auto simp: word_less_nat_alt)
    with Cons.IH [of 1 i] Cons.prems
    have IH: "concat (map range_span (ranges_loop (Some (i, 1)) is)) = range_span (i, 1) @ map unat is \<and>
        sorted_wrt separated (ranges_loop (Some (i, 1)) is) \<and>
        (\<forall>r \<in> set (ranges_loop (Some (i, 1)) is). 0 < unat (snd r) \<and> unat i \<le> unat (fst r))"
      by simp
    moreover from IH have "\<forall>r \<in> set (ranges_loop (Some (i, 1)) is). separated (s, l) r"
      using lt by (auto simp: separated_def)
    ultimately show ?thesis using False lt Cons.prems(2) one by auto
  qed
qed

lemma cached_ranges_spec:
  assumes "cached_item_count m < 2 ^ 64"
  shows "concat (map range_span (cached_ranges m)) = map unat (item_keys m)"
    and "sorted_wrt separated (cached_ranges m)"
proof -
  have len: "length (item_keys m) < 2 ^ 64"
    using assms by (simp add: cached_item_count_def item_keys_def map_fst_sorted_list_of_fmap
        sorted_list_of_fset.rep_eq fcard.rep_eq flip: length_map [of fst])
  have st: "sorted_wrt (<) (item_keys m)"
    by (simp add: strict_sorted_iff)
  have "concat (map range_span (cached_ranges m)) = map unat (item_keys m) \<and>
      sorted_wrt separated (cached_ranges m)"
  proof (cases "item_keys m")
    case (Cons i "is")
    have "\<forall>k \<in> set is. unat i + unat (1 :: u64) \<le> unat k"
      using st Cons by (auto simp: word_less_nat_alt)
    with ranges_loop_spec [of "is" 1 i] st len Cons show ?thesis
      by (simp add: cached_ranges_def range_span_def)
  qed (simp add: cached_ranges_def)
  then show "concat (map range_span (cached_ranges m)) = map unat (item_keys m)"
    "sorted_wrt separated (cached_ranges m)" by auto
qed

subsection \<open>What an update does to the list\<close>

text \<open>
  An item written to a position leaves every other position that held the same identity; an
  item written by identity replaces the item of that identity where it is.
\<close>

definition sparse_replace :: "nat \<Rightarrow> model_item \<Rightarrow> model_item sparse \<Rightarrow> model_item sparse" where
  "sparse_replace j it s =
     (fst s, \<lambda>i. if i = j then Some it
        else case snd s i of
          None \<Rightarrow> None
        | Some jt \<Rightarrow> if item_id jt = item_id it then None else Some jt)"

definition sparse_revise :: "model_item \<Rightarrow> model_item sparse \<Rightarrow> model_item sparse" where
  "sparse_revise it s =
     (fst s, \<lambda>i. case snd s i of
          None \<Rightarrow> None
        | Some jt \<Rightarrow> if item_id jt = item_id it then Some it else Some jt)"

primrec sparse_replaces :: "nat \<Rightarrow> model_item list \<Rightarrow> model_item sparse \<Rightarrow> model_item sparse" where
  "sparse_replaces j [] s = s"
| "sparse_replaces j (it # its) s = sparse_replaces (Suc j) its (sparse_replace j it s)"

lemma update_at_frame [simp]:
  "item_count (update_at t it m) = item_count m"
  "m_id (update_at t it m) = m_id m"
  "model_type (update_at t it m) = model_type m"
  by (simp_all add: update_at_def Let_def split: option.splits)

lemma cache_ext: "(\<And>i. fmlookup (items m') i = f (unat i)) \<Longrightarrow> (\<And>j. 2 ^ 64 \<le> j \<Longrightarrow> f j = None) \<Longrightarrow> cache m' = f"
  by (auto simp: cache_def fun_eq_iff unat_of_nat_u64)

lemma cache_beyond: "2 ^ 64 \<le> j \<Longrightarrow> cache m j = None"
  by (simp add: cache_def)

lemma update_at_refines:
  assumes "model_ok m"
  shows "sparse_of (update_at t it m) = sparse_replace (unat t) it (sparse_of m)"
proof -
  have "cache (update_at t it m) = snd (sparse_replace (unat t) it (sparse_of m))"
  proof (rule cache_ext)
    fix j :: nat
    assume "2 ^ 64 \<le> j"
    then have "unat t < j" by (intro less_le_trans [OF unat_u64_bound]) simp
    with \<open>2 ^ 64 \<le> j\<close> show "snd (sparse_replace (unat t) it (sparse_of m)) j = None"
      by (simp add: sparse_replace_def cache_beyond)
  qed (simp add: update_at_items [OF assms] sparse_replace_def word_unat_eq_iff)
  then show ?thesis by (simp add: sparse_of_def sparse_replace_def)
qed

lemma update_by_id_refines:
  assumes "model_ok m" "fmlookup (id_to_index m) (item_id it) = Some idx"
  shows "sparse_of (m\<lparr>items := fmupd idx it (items m)\<rparr>) = sparse_revise it (sparse_of m)"
proof -
  obtain jt where jt: "fmlookup (items m) idx = Some jt" "item_id jt = item_id it"
    using model_ok_item [OF assms] by blast
  have "cache (m\<lparr>items := fmupd idx it (items m)\<rparr>) = snd (sparse_revise it (sparse_of m))"
  proof (rule cache_ext)
    fix i
    show "fmlookup (items (m\<lparr>items := fmupd idx it (items m)\<rparr>)) i =
        snd (sparse_revise it (sparse_of m)) (unat i)"
    proof (cases "i = idx")
      case False
      then have "item_id x \<noteq> item_id it" if "fmlookup (items m) i = Some x" for x
        using model_ok_inj [OF assms(1) that jt(1)] jt(2) by auto
      with False show ?thesis by (cases "fmlookup (items m) i") (simp_all add: sparse_revise_def)
    qed (simp add: sparse_revise_def jt)
  qed (simp add: sparse_revise_def cache_beyond)
  then show ?thesis by (simp add: sparse_of_def sparse_revise_def)
qed

lemma update_positional_refines:
  "update_loop (Some base) i its m = (Inr u, m') \<Longrightarrow> model_ok m \<Longrightarrow> i + length its < 2 ^ 63 \<Longrightarrow>
   sparse_of m' = sparse_replaces (unat base + i) its (sparse_of m) \<and>
   m_id m' = m_id m \<and> model_type m' = model_type m \<and> item_count m' = item_count m"
proof (induction its arbitrary: i m)
  case (Cons it its)
  from Cons.prems obtain t where t: "unat t = unat base + i"
    and rest: "update_loop (Some base) (Suc i) its (update_at t it m) = (Inr u, m')"
    by (auto simp: checked_add_of_nat split: option.splits if_splits)
  from Cons.IH [OF rest update_at_ok [OF Cons.prems(2)]] Cons.prems(3) t show ?case
    by (simp add: update_at_refines [OF Cons.prems(2)])
qed auto

lemma update_identity_refines:
  "update_loop None i its m = (Inr u, m') \<Longrightarrow> model_ok m \<Longrightarrow>
   sparse_of m' = fold sparse_revise its (sparse_of m) \<and>
   m_id m' = m_id m \<and> model_type m' = model_type m \<and> item_count m' = item_count m"
proof (induction its arbitrary: i m)
  case (Cons it its)
  from Cons.prems obtain idx where idx: "fmlookup (id_to_index m) (item_id it) = Some idx"
    and rest: "update_loop None (Suc i) its (m\<lparr>items := fmupd idx it (items m)\<rparr>) = (Inr u, m')"
    by (auto split: option.splits)
  from Cons.IH [OF rest update_by_id_ok [OF Cons.prems(2) idx]] show ?case
    by (simp add: update_by_id_refines [OF Cons.prems(2) idx])
qed auto

lemma update_items_Ok:
  assumes "update_items index its m = (Inr u, m')" "model_ok m" "length its < 2 ^ 63"
  shows "model_ok m' \<and> m_id m' = m_id m \<and> model_type m' = model_type m \<and>
    sparse_of m' = (case index of
       Some base \<Rightarrow> sparse_replaces (unat base) its (sparse_of m)
     | None \<Rightarrow> fold sparse_revise its (sparse_of m))"
  using assms update_items_ok [OF assms(1,2)]
    update_positional_refines [of _ 0 its m u m'] update_identity_refines [of 0 its m u m']
  by (cases index) (auto simp: update_items_def)

section \<open>Properties\<close>

text \<open>Two items and a model that holds them, for the examples.\<close>

definition item_a :: model_item where
  "item_a = \<lparr>item_id = 1, item_value = VNull, item_properties = fmempty\<rparr>"

definition item_b :: model_item where
  "item_b = \<lparr>item_id = 2, item_value = VBool True, item_properties = fmempty\<rparr>"

definition model_ab :: model where
  "model_ab = \<lparr>m_id = 7, model_type = standard_type 9, item_count = 3,
     items = fmupd 1 item_b (fmupd 0 item_a fmempty),
     id_to_index = fmupd 2 1 (fmupd 1 0 fmempty)\<rparr>"

lemma model_ab_ok: "model_ok model_ab"
  by (auto simp: model_ok_def model_ab_def item_a_def item_b_def)

text \<open>
  C16: Insertion refines insertion into a sparse list.  On a model whose cache and index agree, a
  successful \<open>insert_items\<close> turns the list the model stands for into the list with the new items
  at \<open>index\<close> and everything behind moved up, and keeps cache and index in agreement.  When all
  cached positions lie inside the collection and the new length fits in 64 bits, the call fails
  only for an index beyond the end or a repeated identity.
\<close>

theorem insert_refines_list:
  assumes "model_ok m" "length its < 2 ^ 63"
  shows "(\<forall>m'. insert_items index its m = (Ok (), m') \<longrightarrow>
      sparse_of m' = sparse_insert (unat index) its (sparse_of m) \<and> model_ok m') \<and>
    (cached_within m \<and> unat (item_count m) + length its < 2 ^ 64 \<longrightarrow>
      (\<exists>m'. insert_items index its m = (Ok (), m')) =
      (index \<le> item_count m \<and> distinct (map item_id its) \<and>
        (\<forall>it \<in> set its. \<not> contains_item m (item_id it))))"
proof (intro conjI allI impI)
  fix m' assume "insert_items index its m = (Ok (), m')"
  then show "sparse_of m' = sparse_insert (unat index) its (sparse_of m)" "model_ok m'"
    using insert_items_refines assms by blast+
next
  assume c: "cached_within m \<and> unat (item_count m) + length its < 2 ^ 64"
  show "(\<exists>m'. insert_items index its m = (Ok (), m')) =
      (index \<le> item_count m \<and> distinct (map item_id its) \<and>
        (\<forall>it \<in> set its. \<not> contains_item m (item_id it)))" (is "?l = ?r")
  proof
    assume ?l
    then obtain m' where "insert_items index its m = (Inr (), m')" by blast
    then show ?r by (cases rule: insert_items_cases [OF _ assms(2)]) auto
  next
    assume ?r
    then show ?l using insert_items_total [OF assms(1) _ assms(2)] c by blast
  qed
qed

theorem insert_refines_list_witness:
  "\<exists>m'. insert_items 0 [item_a] (model_new 7 (standard_type 9) 1) = (Ok (), m') \<and>
     sparse_of m' = sparse_insert 0 [item_a] (sparse_of (model_new 7 (standard_type 9) 1))"
proof -
  have c: "cached_within (model_new 7 (standard_type 9) 1)"
    "\<not> contains_item (model_new 7 (standard_type 9) 1) k" "item_count (model_new 7 (standard_type 9) 1) = 1" for k
    by (simp_all add: cached_within_def model_new_def contains_item_def)
  show ?thesis
    using insert_refines_list [of "model_new 7 (standard_type 9) 1" "[item_a]" 0] c by auto
qed

text \<open>
  Deletion refines deletion from a sparse list: a successful range deletion removes exactly
  the positions of the range and closes the gap; a deletion by identity does so for each
  identity in turn, an identity that is not cached shortening the list by one.
\<close>

theorem delete_refines_list:
  assumes "delete_items index n ids m = (Ok (), m')" "model_ok m"
  shows "model_ok m' \<and>
     (if ids \<noteq> [] then sparse_delete_ids ids (sparse_of m) (sparse_of m')
      else sparse_of m' = sparse_delete (case index of Some i \<Rightarrow> unat i | None \<Rightarrow> 0)
        (case n of Some c \<Rightarrow> unat c | None \<Rightarrow> 0) (sparse_of m))"
  using delete_items_Ok [OF assms] by simp

theorem delete_refines_list_witness:
  "\<exists>m'. delete_items (Some 0) (Some 1) [] model_ab = (Ok (), m') \<and>
     sparse_of m' = sparse_delete 0 1 (sparse_of model_ab)"
proof -
  have "\<exists>m'. delete_items (Some 0) (Some 1) [] model_ab = (Ok (), m')"
    using delete_range_refines [OF model_ab_ok, of 0 1]
    by (auto simp: delete_items_def model_ab_def)
  then show ?thesis using delete_refines_list [OF _ model_ab_ok] by fastforce
qed

text \<open>
  An update writes the items to consecutive positions, taking every written identity away
  from the other positions, or, without an index, replaces the cached items of the same
  identities where they are; the length never changes.
\<close>

theorem update_refines_list:
  assumes "update_items index its m = (Ok (), m')" "model_ok m" "length its < 2 ^ 63"
  shows "model_ok m' \<and>
    sparse_of m' = (case index of
       Some base \<Rightarrow> sparse_replaces (unat base) its (sparse_of m)
     | None \<Rightarrow> fold sparse_revise its (sparse_of m))"
  using update_items_Ok [OF assms] by simp

theorem update_refines_list_witness:
  "\<exists>m'. update_items (Some 2) [item_a] model_ab = (Ok (), m') \<and>
     sparse_of m' = sparse_replace 2 item_a (sparse_of model_ab)"
proof -
  have "\<exists>m'. update_items (Some 2) [item_a] model_ab = (Ok (), m')"
    by (simp add: update_items_def model_ab_def checked_add_def)
  then show ?thesis using update_refines_list [OF _ model_ab_ok] by fastforce
qed

text \<open>
  A range reset puts the items at the positions from \<open>start_index\<close> on and leaves all other
  positions and the agreement of cache and index alone; a total count other than zero becomes
  the new length.  A reset that fails has not touched the cache, only the length.
\<close>

theorem reset_refines_list:
  assumes "reset_range start_index its total_count m = (r, m')" "model_ok m" "length its < 2 ^ 63"
  shows "case r of
      Inr _ \<Rightarrow> model_ok m' \<and> sparse_of m' = sparse_put (unat start_index) its
        (unat (hinted_count total_count (item_count m)), cache m)
    | Inl _ \<Rightarrow> m' = m\<lparr>item_count := hinted_count total_count (item_count m)\<rparr>"
  using reset_range_Ok [of start_index its total_count m _ m'] reset_range_Err assms
  by (auto split: sum.split)

theorem reset_refines_list_witness:
  "\<exists>m'. reset_range 1 [item_b] (Some 5) model_ab = (Ok (), m') \<and>
     sparse_of m' = sparse_put 1 [item_b] (5, cache model_ab)"
proof -
  have "\<exists>m'. reset_range 1 [item_b] (Some 5) model_ab = (Ok (), m')"
    by (simp add: reset_range_def model_ab_def checked_add_def reset_clash_def item_b_def Let_def
        word_le_nat_alt)
  then show ?thesis
    using reset_refines_list [OF _ model_ab_ok, of 1 "[item_b]" "Some 5"]
    by (fastforce simp: hinted_count_def)
qed

text \<open>
  C38: Eviction removes exactly as many cached positions outside the window as asked for, or all
  of them; every position it removes is at least as far from the middle of the window as every
  outside position it leaves; what stays is unchanged and cache and index still agree.
\<close>

theorem eviction_correct:
  assumes "model_ok m" "m' = evict_farthest_outside ks ke n m"
  shows "model_ok m' \<and>
    fmdom' (items m) - fmdom' (items m') \<subseteq> set (outside ks ke m) \<and>
    card (fmdom' (items m) - fmdom' (items m')) = min n (length (outside ks ke m)) \<and>
    (\<forall>i \<in> fmdom' (items m'). fmlookup (items m') i = fmlookup (items m) i) \<and>
    (\<forall>a \<in> fmdom' (items m) - fmdom' (items m'). \<forall>b \<in> fmdom' (items m') \<inter> set (outside ks ke m).
       abs_diff b (window_mid ks (max ke ks)) \<le> abs_diff a (window_mid ks (max ke ks)))"
  unfolding assms(2) using evict_ok [OF assms(1)] evict_spec [where m = m and ks = ks and ke = ke and n = n] by blast

theorem eviction_correct_witness:
  "model_ok (evict_farthest_outside 1 2 1 model_ab) \<and>
   card (fmdom' (items model_ab) - fmdom' (items (evict_farthest_outside 1 2 1 model_ab))) \<le> 1"
  using eviction_correct [OF model_ab_ok refl, of 1 2 1] by simp

text \<open>
  The ranges reported as cached are the cached positions, in order, each once, in runs as
  long as possible.
\<close>

theorem cached_ranges_correct:
  assumes "cached_item_count m < 2 ^ 64"
  shows "concat (map range_span (cached_ranges m)) = map unat (item_keys m) \<and>
    sorted_wrt separated (cached_ranges m)"
  using cached_ranges_spec [OF assms] by simp

theorem cached_ranges_correct_witness:
  "concat (map range_span (cached_ranges model_ab)) = map unat (item_keys model_ab)"
  using cached_ranges_correct [of model_ab]
  by (simp add: cached_item_count_def model_ab_def fcard_finsert_if fcard_fempty)

end
