(* ===== verification/Store.thy ===== *)
theory Store
  imports Collection_Model
begin

text \<open>
  The authoritative node graph: \<^verbatim>\<open>semantic-tree/src/store/mod.rs\<close> and
  \<^verbatim>\<open>semantic-tree/src/store/node.rs\<close>.  The record \<open>semantic_store\<close> has the fields of
  \<open>SemanticStore\<close>; each method on \<open>&mut self\<close> returns its result and the store it leaves.

  The three walks through the graph (\<open>node_depth\<close>, \<open>subtree_depth\<close>, the cycle check of
  \<open>move_node\<close>) do not end on a graph with a parent cycle.  Their loops carry fuel, one more
  than there are nodes, and are \<open>Diverge\<close> when it runs out; on a store that satisfies the
  invariant of theory \<open>Store_Invariant\<close> it never does.

  \<open>HashMap::values()\<close> visits the properties of an item in an unspecified order; here it is
  the order of the keys, which decides only which of several invalid values is reported.
\<close>

section \<open>Data\<close>

record node =
  n_id :: node_id
  node_type :: type_ref
  parent_id :: "node_id option"
  ordered_children :: "node_id list"
  properties :: "(property_ref, value_t) fmap"

type_synonym node_map = "(node_id, node) fmap"

record semantic_store =
  nodes :: node_map
  roots :: "node_id list"
  used_ids :: "node_id fset"
  models :: "(model_id, model) fmap"
  used_model_ids :: "model_id fset"
  limits :: store_limits
  revision :: u64

type_synonym 'a store_result = "(store_error, 'a) result \<times> semantic_store"

text \<open>Collecting pairs into a \<open>HashMap\<close>: the last binding of a key stays.\<close>

definition collect_properties ::
  "(property_ref \<times> value_t) list \<Rightarrow> (property_ref, value_t) fmap \<Rightarrow> (property_ref, value_t) fmap" where
  "collect_properties ps m = fold (\<lambda>p. fmupd (fst p) (snd p)) ps m"

definition node_new ::
  "node_id \<Rightarrow> type_ref \<Rightarrow> node_id option \<Rightarrow> (property_ref \<times> value_t) list \<Rightarrow> node" where
  "node_new i ty parent ps =
     \<lparr>n_id = i, node_type = ty, parent_id = parent, ordered_children = [],
      properties = collect_properties ps fmempty\<rparr>"

text \<open>The model id a \<open>model_ref\<close> value denotes.\<close>

definition model_ref_value :: "value_t \<Rightarrow> model_id option" where
  "model_ref_value v =
     (case v of
        VUnsignedInt u \<Rightarrow> Some u
      | VSignedInt i \<Rightarrow> if 0 \<le> sint i then Some i else None
      | _ \<Rightarrow> None)"

definition node_model_ref :: "node \<Rightarrow> model_id option" where
  "node_model_ref n =
     (case fmlookup (properties n) MODEL_REF of None \<Rightarrow> None | Some v \<Rightarrow> model_ref_value v)"

definition with_limits_and_revision :: "store_limits \<Rightarrow> u64 \<Rightarrow> semantic_store" where
  "with_limits_and_revision l r =
     \<lparr>nodes = fmempty, roots = [], used_ids = {||}, models = fmempty, used_model_ids = {||},
      limits = l, revision = r\<rparr>"

definition with_limits :: "store_limits \<Rightarrow> semantic_store" where
  "with_limits l = with_limits_and_revision l 0"

definition store_new :: semantic_store where
  "store_new = with_limits default_limits"

section \<open>Staging\<close>

definition clone_staging :: "semantic_store \<Rightarrow> semantic_store" where
  "clone_staging s =
     \<lparr>nodes = nodes s, roots = roots s, used_ids = used_ids s, models = models s,
      used_model_ids = used_model_ids s, limits = limits s, revision = revision s\<rparr>"

definition commit_staging :: "semantic_store \<Rightarrow> u64 \<Rightarrow> semantic_store \<Rightarrow> semantic_store" where
  "commit_staging staged new_revision s =
     s\<lparr>nodes := nodes staged, roots := roots staged, used_ids := used_ids staged,
       models := models staged, used_model_ids := used_model_ids staged,
       revision := new_revision\<rparr>"

section \<open>Queries\<close>

definition contains_node :: "semantic_store \<Rightarrow> node_id \<Rightarrow> bool" where
  "contains_node s i \<longleftrightarrow> fmlookup (nodes s) i \<noteq> None"

definition contains_model :: "semantic_store \<Rightarrow> model_id \<Rightarrow> bool" where
  "contains_model s i \<longleftrightarrow> fmlookup (models s) i \<noteq> None"

definition get_model_for_node :: "semantic_store \<Rightarrow> node_id \<Rightarrow> model option" where
  "get_model_for_node s i =
     (case fmlookup (nodes s) i of
        None \<Rightarrow> None
      | Some n \<Rightarrow> (case node_model_ref n of None \<Rightarrow> None | Some mid \<Rightarrow> fmlookup (models s) mid))"

definition referenced_resource_hashes :: "semantic_store \<Rightarrow> resource_hash set" where
  "referenced_resource_hashes s =
     (\<Union>n \<in> fmran' (nodes s). \<Union>v \<in> fmran' (properties n). collect_resource_hashes v {}) \<union>
     (\<Union>m \<in> fmran' (models s). \<Union>it \<in> fmran' (items m).
        collect_resource_hashes (item_value it) {} \<union>
        (\<Union>v \<in> fmran' (item_properties it). collect_resource_hashes v {}))"

fun node_depth_loop :: "nat \<Rightarrow> node_map \<Rightarrow> node_id \<Rightarrow> usize \<Rightarrow> (store_error, usize option) result" where
  "node_depth_loop 0 ns current_id depth = Inl Diverge"
| "node_depth_loop (Suc fuel) ns current_id depth =
     (case fmlookup ns current_id of
        None \<Rightarrow> Ok None
      | Some n \<Rightarrow>
          (case parent_id n of
             Some parent \<Rightarrow> node_depth_loop fuel ns parent (depth + 1)
           | None \<Rightarrow> Ok (Some (depth + 1))))"

definition graph_fuel :: "node_map \<Rightarrow> nat" where
  "graph_fuel ns = Suc (len_map ns)"

definition node_depth :: "semantic_store \<Rightarrow> node_id \<Rightarrow> (store_error, usize option) result" where
  "node_depth s i = node_depth_loop (graph_fuel (nodes s)) (nodes s) i 0"

fun max_child_depth ::
  "(node_id \<Rightarrow> (store_error, usize) result) \<Rightarrow> node_id list \<Rightarrow> usize \<Rightarrow> (store_error, usize) result" where
  "max_child_depth rec [] mx = Ok mx"
| "max_child_depth rec (c # cs) mx =
     and_then (rec c) (\<lambda>child_depth.
       max_child_depth rec cs (if child_depth > mx then child_depth else mx))"

primrec subtree_depth_rec :: "nat \<Rightarrow> node_map \<Rightarrow> node_id \<Rightarrow> (store_error, usize) result" where
  "subtree_depth_rec 0 ns i = Inl Diverge"
| "subtree_depth_rec (Suc fuel) ns i =
     and_then
       (case fmlookup ns i of
          None \<Rightarrow> Ok 0
        | Some n \<Rightarrow> max_child_depth (subtree_depth_rec fuel ns) (ordered_children n) 0)
       (\<lambda>mx. Ok (1 + mx))"

definition subtree_depth :: "semantic_store \<Rightarrow> node_id \<Rightarrow> (store_error, usize) result" where
  "subtree_depth s i = subtree_depth_rec (graph_fuel (nodes s)) (nodes s) i"

section \<open>Creating nodes\<close>

definition validate_property_references ::
  "semantic_store \<Rightarrow> property_ref \<Rightarrow> value_t \<Rightarrow> (store_error, unit) result" where
  "validate_property_references s prop val =
     (if prop = MODEL_REF
      then case model_ref_value val of
             None \<Rightarrow> Error (OperationError ModelRefNotNonNegativeInteger)
           | Some mid \<Rightarrow> if \<not> contains_model s mid then Error (ModelNotFound mid) else Ok ()
      else Ok ())"

definition validate_properties ::
  "semantic_store \<Rightarrow> (property_ref \<times> value_t) list \<Rightarrow> (store_error, unit) result" where
  "validate_properties s ps =
     for_each (\<lambda>p. and_then (validate_value (limits s) (snd p))
       (\<lambda>_. validate_property_references s (fst p) (snd p))) ps"

definition new_node_depth :: "semantic_store \<Rightarrow> node_id option \<Rightarrow> (store_error, usize) result" where
  "new_node_depth s parent =
     (case parent of
        Some pid \<Rightarrow>
          and_then (node_depth s pid) (\<lambda>d.
          and_then (ok_or (ParentNotFound pid) d) (\<lambda>parent_depth.
            if parent_depth + 1 > max_tree_depth (limits s)
            then Error (MaxTreeDepthExceeded (max_tree_depth (limits s)) (parent_depth + 1))
            else Ok (parent_depth + 1)))
      | None \<Rightarrow> Ok 1)"

definition check_child_index ::
  "semantic_store \<Rightarrow> node_id option \<Rightarrow> usize option \<Rightarrow> (store_error, unit) result" where
  "check_child_index s parent child_index =
     (case parent of
        None \<Rightarrow> Ok ()
      | Some pid \<Rightarrow>
          and_then (expect (fmlookup (nodes s) pid)) (\<lambda>pn.
            (case child_index of
               None \<Rightarrow> Ok ()
             | Some idx \<Rightarrow>
                 if idx > length (ordered_children pn)
                 then Error (ChildIndexOutOfBounds idx (length (ordered_children pn)))
                 else Ok ())))"

definition place_child :: "node_id \<Rightarrow> usize option \<Rightarrow> node_id list \<Rightarrow> node_id list" where
  "place_child i child_index cs =
     (case child_index of Some idx \<Rightarrow> vec_insert idx i cs | None \<Rightarrow> cs @ [i])"

definition set_children :: "node_id \<Rightarrow> node_id list \<Rightarrow> node \<Rightarrow> semantic_store \<Rightarrow> semantic_store" where
  "set_children pid cs pn s = s\<lparr>nodes := fmupd pid (pn\<lparr>ordered_children := cs\<rparr>) (nodes s)\<rparr>"

definition attach_new_node ::
  "node_id \<Rightarrow> node_id option \<Rightarrow> usize option \<Rightarrow> semantic_store \<Rightarrow> unit store_result" where
  "attach_new_node i parent child_index s =
     (case parent of
        Some pid \<Rightarrow>
          (case fmlookup (nodes s) pid of
             None \<Rightarrow> (Inl Panic, s)
           | Some pn \<Rightarrow> (Ok (), set_children pid (place_child i child_index (ordered_children pn)) pn s))
      | None \<Rightarrow>
          (case child_index of
             Some idx \<Rightarrow>
               if idx > length (roots s)
               then (Error (ChildIndexOutOfBounds idx (length (roots s))), s)
               else (Ok (), s\<lparr>roots := vec_insert idx i (roots s)\<rparr>)
           | None \<Rightarrow> (Ok (), s\<lparr>roots := roots s @ [i]\<rparr>)))"

definition create_node ::
  "node_id \<Rightarrow> type_ref \<Rightarrow> node_id option \<Rightarrow> usize option \<Rightarrow> (property_ref \<times> value_t) list \<Rightarrow>
   semantic_store \<Rightarrow> unit store_result" where
  "create_node i ty parent child_index ps s =
     (if i |\<in>| used_ids s then (Error (NodeIdAlreadyUsed i), s)
      else if len_map (nodes s) \<ge> max_node_count (limits s)
      then (Error (MaxNodeCountExceeded (max_node_count (limits s)) (len_map (nodes s))), s)
      else and_then_st (new_node_depth s parent, s) (\<lambda>depth s.
        if depth > max_tree_depth (limits s)
        then (Error (MaxTreeDepthExceeded (max_tree_depth (limits s)) depth), s)
        else and_then_st (validate_properties s ps, s) (\<lambda>_ s.
             and_then_st (check_child_index s parent child_index, s) (\<lambda>_ s.
             and_then_st (attach_new_node i parent child_index s) (\<lambda>_ s.
               (Ok (), s\<lparr>nodes := fmupd i (node_new i ty parent ps) (nodes s),
                         used_ids := finsert i (used_ids s)\<rparr>))))))"

section \<open>Deleting nodes\<close>

text \<open>
  \<open>delete_subtree_recursive\<close>: the node leaves the map before its children are visited, so
  the recursion ends on every graph.
\<close>

function delete_subtrees :: "node_id list \<Rightarrow> node_map \<times> node_id list \<Rightarrow> node_map \<times> node_id list" where
  "delete_subtrees [] st = st"
| "delete_subtrees (i # is) st =
     (case fmlookup (fst st) i of
        None \<Rightarrow> delete_subtrees is st
      | Some n \<Rightarrow>
          delete_subtrees is
            (delete_subtrees (ordered_children n) (fmdrop i (fst st), snd st @ [i])))"
  by pat_completeness auto

lemma delete_subtrees_shrinks:
  "delete_subtrees_dom (is, st) \<Longrightarrow> len_map (fst (delete_subtrees is st)) \<le> len_map (fst st)"
proof (induction "is" st rule: delete_subtrees.pinduct)
  case (2 i "is" st)
  show ?case
  proof (cases "fmlookup (fst st) i")
    case None
    with 2 show ?thesis by (simp add: delete_subtrees.psimps)
  next
    case (Some n)
    with 2 len_map_fmdrop_le [of i "fst st"] show ?thesis
      by (simp add: delete_subtrees.psimps)
  qed
qed (simp add: delete_subtrees.psimps)

termination delete_subtrees
proof (relation "measures [\<lambda>(is, st). len_map (fst st), \<lambda>(is, st). length is]", goal_cases)
  case (4 i "is" st n)
  have "len_map (fst (delete_subtrees (ordered_children n) (fmdrop i (fst st), snd st @ [i])))
      \<le> len_map (fmdrop i (fst st))"
    using delete_subtrees_shrinks [OF 4(2)] by simp
  also have "\<dots> < len_map (fst st)" using len_map_fmdrop [OF 4(1)] by simp
  finally show ?case by simp
qed (auto dest: len_map_fmdrop)

definition delete_subtree_recursive :: "node_id \<Rightarrow> node_map \<times> node_id list \<Rightarrow> node_map \<times> node_id list" where
  "delete_subtree_recursive i st = delete_subtrees [i] st"

definition retain_not :: "node_id \<Rightarrow> node_id list \<Rightarrow> node_id list" where
  "retain_not i cs = filter (\<lambda>c. c \<noteq> i) cs"

text \<open>Removal from the old container, as \<open>delete_node\<close> and \<open>move_node\<close> do it.\<close>

definition detach :: "node_id \<Rightarrow> node_id option \<Rightarrow> semantic_store \<Rightarrow> semantic_store" where
  "detach i parent s =
     (case parent of
        Some pid \<Rightarrow>
          (case fmlookup (nodes s) pid of
             None \<Rightarrow> s
           | Some pn \<Rightarrow> set_children pid (retain_not i (ordered_children pn)) pn s)
      | None \<Rightarrow> s\<lparr>roots := retain_not i (roots s)\<rparr>)"

definition delete_node :: "node_id \<Rightarrow> semantic_store \<Rightarrow> node_id list store_result" where
  "delete_node i s =
     (case fmlookup (nodes s) i of
        None \<Rightarrow> (Error (NodeNotFound i), s)
      | Some n \<Rightarrow>
          (let s1 = detach i (parent_id n) s;
               (ns, deleted) = delete_subtree_recursive i (nodes s1, [])
           in (Ok deleted, s1\<lparr>nodes := ns\<rparr>)))"

section \<open>Properties\<close>

definition set_property ::
  "node_id \<Rightarrow> property_ref \<Rightarrow> value_t \<Rightarrow> semantic_store \<Rightarrow> value_t option store_result" where
  "set_property i prop val s =
     and_then_st (validate_value (limits s) val, s) (\<lambda>_ s.
     and_then_st (validate_property_references s prop val, s) (\<lambda>_ s.
       (case fmlookup (nodes s) i of
          None \<Rightarrow> (Error (NodeNotFound i), s)
        | Some n \<Rightarrow>
            (Ok (fmlookup (properties n) prop),
             s\<lparr>nodes := fmupd i (n\<lparr>properties := fmupd prop val (properties n)\<rparr>) (nodes s)\<rparr>))))"

definition clear_property :: "node_id \<Rightarrow> property_ref \<Rightarrow> semantic_store \<Rightarrow> value_t option store_result" where
  "clear_property i prop s =
     (case fmlookup (nodes s) i of
        None \<Rightarrow> (Error (NodeNotFound i), s)
      | Some n \<Rightarrow>
          (Ok (fmlookup (properties n) prop),
           s\<lparr>nodes := fmupd i (n\<lparr>properties := fmdrop prop (properties n)\<rparr>) (nodes s)\<rparr>))"

definition batch_property_set ::
  "node_id \<Rightarrow> (property_ref \<times> value_t) list \<Rightarrow> semantic_store \<Rightarrow> unit store_result" where
  "batch_property_set i ps s =
     and_then_st (validate_properties s ps, s) (\<lambda>_ s.
       (case fmlookup (nodes s) i of
          None \<Rightarrow> (Error (NodeNotFound i), s)
        | Some n \<Rightarrow>
            (Ok (), s\<lparr>nodes := fmupd i (n\<lparr>properties := collect_properties ps (properties n)\<rparr>)
                        (nodes s)\<rparr>)))"

section \<open>Moving and reordering\<close>

text \<open>The loop of the cycle check; \<open>True\<close> means that the walk upwards met \<open>i\<close>.\<close>

fun meets_ancestor :: "nat \<Rightarrow> node_map \<Rightarrow> node_id \<Rightarrow> node_id \<Rightarrow> (store_error, bool) result" where
  "meets_ancestor 0 ns i cur = Inl Diverge"
| "meets_ancestor (Suc fuel) ns i cur =
     (case fmlookup ns cur of
        None \<Rightarrow> Ok False
      | Some parent_node \<Rightarrow>
          (case parent_id parent_node of
             Some pid \<Rightarrow> if pid = i then Ok True else meets_ancestor fuel ns i pid
           | None \<Rightarrow> Ok False))"

definition check_no_cycle :: "semantic_store \<Rightarrow> node_id \<Rightarrow> node_id option \<Rightarrow> (store_error, unit) result" where
  "check_no_cycle s i new_parent =
     (case new_parent of
        None \<Rightarrow> Ok ()
      | Some target \<Rightarrow>
          if target = i then Error (CycleDetected i target)
          else and_then (meets_ancestor (graph_fuel (nodes s)) (nodes s) i target) (\<lambda>b.
                 if b then Error (CycleDetected i target) else Ok ()))"

definition parent_depth_of :: "semantic_store \<Rightarrow> node_id option \<Rightarrow> (store_error, usize) result" where
  "parent_depth_of s new_parent =
     (case new_parent of
        Some pid \<Rightarrow> and_then (node_depth s pid) (ok_or (ParentNotFound pid))
      | None \<Rightarrow> Ok 0)"

definition dest_len :: "semantic_store \<Rightarrow> node_id option \<Rightarrow> (store_error, usize) result" where
  "dest_len s new_parent =
     (case new_parent of
        Some pid \<Rightarrow> and_then (expect (fmlookup (nodes s) pid)) (\<lambda>pn. Ok (length (ordered_children pn)))
      | None \<Rightarrow> Ok (length (roots s)))"

definition place_moved :: "node_id \<Rightarrow> usize option \<Rightarrow> node_id list \<Rightarrow> node_id list" where
  "place_moved i child_index cs =
     (case child_index of Some idx \<Rightarrow> vec_insert (min idx (length cs)) i cs | None \<Rightarrow> cs @ [i])"

definition attach_moved ::
  "node_id \<Rightarrow> node_id option \<Rightarrow> usize option \<Rightarrow> semantic_store \<Rightarrow> unit store_result" where
  "attach_moved i new_parent child_index s =
     (case new_parent of
        Some pid \<Rightarrow>
          (case fmlookup (nodes s) pid of
             None \<Rightarrow> (Inl Panic, s)
           | Some pn \<Rightarrow> (Ok (), set_children pid (place_moved i child_index (ordered_children pn)) pn s))
      | None \<Rightarrow> (Ok (), s\<lparr>roots := place_moved i child_index (roots s)\<rparr>))"

definition set_parent :: "node_id \<Rightarrow> node_id option \<Rightarrow> semantic_store \<Rightarrow> unit store_result" where
  "set_parent i new_parent s =
     (case fmlookup (nodes s) i of
        None \<Rightarrow> (Inl Panic, s)
      | Some n \<Rightarrow> (Ok (), s\<lparr>nodes := fmupd i (n\<lparr>parent_id := new_parent\<rparr>) (nodes s)\<rparr>))"

definition move_node ::
  "node_id \<Rightarrow> node_id option \<Rightarrow> usize option \<Rightarrow> semantic_store \<Rightarrow> unit store_result" where
  "move_node i new_parent child_index s =
     (if \<not> contains_node s i then (Error (NodeNotFound i), s)
      else and_then_st (check_no_cycle s i new_parent, s) (\<lambda>_ s.
           and_then_st (subtree_depth s i, s) (\<lambda>sub_depth s.
           and_then_st (parent_depth_of s new_parent, s) (\<lambda>new_parent_depth s.
             if new_parent_depth + sub_depth > max_tree_depth (limits s)
             then (Error (MaxTreeDepthExceeded (max_tree_depth (limits s))
                     (new_parent_depth + sub_depth)), s)
             else and_then_st (expect (fmlookup (nodes s) i), s) (\<lambda>n s.
                  and_then_st (dest_len s new_parent, s) (\<lambda>current_dest_len s.
                    (case child_index of
                       Some idx \<Rightarrow>
                         if idx > current_dest_len
                         then (Error (ChildIndexOutOfBounds idx current_dest_len), s)
                         else and_then_st (attach_moved i new_parent child_index (detach i (parent_id n) s))
                                (\<lambda>_. set_parent i new_parent)
                     | None \<Rightarrow>
                         and_then_st (attach_moved i new_parent child_index (detach i (parent_id n) s))
                           (\<lambda>_. set_parent i new_parent))))))))"

fun check_permutation ::
  "node_id \<Rightarrow> node_id set \<Rightarrow> node_id set \<Rightarrow> node_id list \<Rightarrow> (store_error, unit) result" where
  "check_permutation pid curr_set new_set [] = Ok ()"
| "check_permutation pid curr_set new_set (child # rest) =
     (if child \<notin> curr_set then Error (InvalidChildrenReorder pid (NotAChild child))
      else if child \<in> new_set then Error (InvalidChildrenReorder pid (DuplicateChild child))
      else check_permutation pid curr_set (insert child new_set) rest)"

definition reorder_children :: "node_id \<Rightarrow> node_id list \<Rightarrow> semantic_store \<Rightarrow> unit store_result" where
  "reorder_children pid new_order s =
     (case fmlookup (nodes s) pid of
        None \<Rightarrow> (Error (ParentNotFound pid), s)
      | Some pn \<Rightarrow>
          if length new_order \<noteq> length (ordered_children pn)
          then (Error (InvalidChildrenReorder pid
                  (ExpectedChildren (length (ordered_children pn)) (length new_order))), s)
          else and_then_st (check_permutation pid (set (ordered_children pn)) {} new_order, s) (\<lambda>_ s.
                 (Ok (), set_children pid new_order pn s)))"

section \<open>Collection models of the store\<close>

definition create_model :: "model_id \<Rightarrow> type_ref \<Rightarrow> u64 \<Rightarrow> semantic_store \<Rightarrow> unit store_result" where
  "create_model i ty n s =
     (if i |\<in>| used_model_ids s then (Error (ModelIdAlreadyUsed i), s)
      else if len_map (models s) \<ge> max_model_count (limits s)
      then (Error (MaxModelCountExceeded (max_model_count (limits s)) (len_map (models s))), s)
      else (Ok (), s\<lparr>models := fmupd i (model_new i ty n) (models s),
                     used_model_ids := finsert i (used_model_ids s)\<rparr>))"

definition delete_model :: "model_id \<Rightarrow> semantic_store \<Rightarrow> model option store_result" where
  "delete_model i s =
     (if \<not> contains_model s i then (Error (ModelNotFound i), s)
      else (Ok (fmlookup (models s) i), s\<lparr>models := fmdrop i (models s)\<rparr>))"

definition validate_item :: "store_limits \<Rightarrow> model_item \<Rightarrow> (store_error, unit) result" where
  "validate_item l it =
     and_then (validate_value l (item_value it)) (\<lambda>_.
       for_each (\<lambda>p. validate_value l (snd p)) (sorted_list_of_fmap (item_properties it)))"

definition validate_items :: "store_limits \<Rightarrow> model_item list \<Rightarrow> (store_error, unit) result" where
  "validate_items l its =
     and_then (validate_model_items_batch l (length its)) (\<lambda>_. for_each (validate_item l) its)"

text \<open>\<open>get_mut\<close> on the model map: the call works on the entry in place.\<close>

definition with_model ::
  "model_id \<Rightarrow> (model \<Rightarrow> unit model_result) \<Rightarrow> semantic_store \<Rightarrow> unit store_result" where
  "with_model i f s =
     (case fmlookup (models s) i of
        None \<Rightarrow> (Error (ModelNotFound i), s)
      | Some m \<Rightarrow> (case f m of (r, m') \<Rightarrow> (r, s\<lparr>models := fmupd i m' (models s)\<rparr>)))"

definition cached_insert :: "store_limits \<Rightarrow> u64 \<Rightarrow> model_item list \<Rightarrow> model \<Rightarrow> unit model_result" where
  "cached_insert l index its m =
     (let projected_cached = cached_item_count m + length its
      in if projected_cached > max_cached_items_per_model l
         then (Error (MaxCachedItemsPerModelExceeded (max_cached_items_per_model l)
                 (cached_item_count m) projected_cached), m)
         else insert_items index its m)"

definition model_insert :: "model_id \<Rightarrow> u64 \<Rightarrow> model_item list \<Rightarrow> semantic_store \<Rightarrow> unit store_result" where
  "model_insert i index its s =
     and_then_st (validate_items (limits s) its, s) (\<lambda>_ s.
       with_model i (cached_insert (limits s) index its) s)"

definition model_delete ::
  "model_id \<Rightarrow> u64 option \<Rightarrow> u64 option \<Rightarrow> item_id list \<Rightarrow> semantic_store \<Rightarrow> unit store_result" where
  "model_delete i index n item_ids s =
     and_then_st (validate_model_items_batch (limits s) (length item_ids), s) (\<lambda>_ s.
       with_model i (delete_items index n item_ids) s)"

definition model_update ::
  "model_id \<Rightarrow> u64 option \<Rightarrow> model_item list \<Rightarrow> semantic_store \<Rightarrow> unit store_result" where
  "model_update i index its s =
     and_then_st (validate_items (limits s) its, s) (\<lambda>_ s. with_model i (update_items index its) s)"

definition overlap :: "u64 \<Rightarrow> u64 \<Rightarrow> model \<Rightarrow> usize" where
  "overlap start_index end_index m =
     length (filter (\<lambda>idx. idx \<ge> start_index \<and> idx < end_index) (item_keys m))"

definition projected :: "u64 \<Rightarrow> u64 \<Rightarrow> usize \<Rightarrow> model \<Rightarrow> usize" where
  "projected start_index end_index n m = cached_item_count m - overlap start_index end_index m + n"

definition cached_reset ::
  "store_limits \<Rightarrow> u64 \<Rightarrow> model_item list \<Rightarrow> u64 option \<Rightarrow> model \<Rightarrow> unit model_result" where
  "cached_reset l start_index its total_count m =
     (let end_index = saturating_add start_index (of_nat (length its));
          projected_cached = projected start_index end_index (length its) m;
          m1 = (if projected_cached > max_cached_items_per_model l
                then evict_farthest_outside start_index end_index
                       (projected_cached - max_cached_items_per_model l) m
                else m);
          projected_cached1 = (if projected_cached > max_cached_items_per_model l
                then projected start_index end_index (length its) m1 else projected_cached)
      in if projected_cached1 > max_cached_items_per_model l
         then (Error (MaxCachedItemsPerModelExceeded (max_cached_items_per_model l)
                 (cached_item_count m1) projected_cached1), m1)
         else reset_range start_index its total_count m1)"

definition model_reset_range ::
  "model_id \<Rightarrow> u64 \<Rightarrow> model_item list \<Rightarrow> u64 option \<Rightarrow> semantic_store \<Rightarrow> unit store_result" where
  "model_reset_range i start_index its total_count s =
     and_then_st (validate_items (limits s) its, s) (\<lambda>_ s.
       with_model i (cached_reset (limits s) start_index its total_count) s)"

end
