(* ===== verification/Node_Graph.thy ===== *)
theory Node_Graph
  imports Store
begin

text \<open>
  The shape of the node graph, apart from everything else a store holds: \<open>tree_ok\<close> says that
  parent links and child lists describe the same forest, \<open>has_depth\<close> that the walk from a
  node to its root has a given length, \<open>desc\<close> that a node lies below another.  The lemmas
  give the meaning of the three graph walks and of subtree deletion, and what attaching,
  detaching and moving a node do to the forest.
\<close>

section \<open>Forests\<close>

definition links_ok :: "node_map \<Rightarrow> node_id list \<Rightarrow> bool" where
  "links_ok ns rts \<longleftrightarrow>
     (\<forall>i n. fmlookup ns i = Some n \<longrightarrow>
        n_id n = i \<and> distinct (ordered_children n) \<and>
        (case parent_id n of
           None \<Rightarrow> i \<in> set rts
         | Some p \<Rightarrow> \<exists>pn. fmlookup ns p = Some pn \<and> i \<in> set (ordered_children pn)) \<and>
        (\<forall>c \<in> set (ordered_children n). \<exists>cn. fmlookup ns c = Some cn \<and> parent_id cn = Some i)) \<and>
     (\<forall>r \<in> set rts. \<exists>n. fmlookup ns r = Some n \<and> parent_id n = None) \<and>
     distinct rts"

inductive has_depth :: "node_map \<Rightarrow> node_id \<Rightarrow> nat \<Rightarrow> bool" for ns where
  root: "fmlookup ns i = Some n \<Longrightarrow> parent_id n = None \<Longrightarrow> has_depth ns i (Suc 0)"
| child: "fmlookup ns i = Some n \<Longrightarrow> parent_id n = Some p \<Longrightarrow> has_depth ns p d \<Longrightarrow>
    has_depth ns i (Suc d)"

inductive_cases has_depthE: "has_depth ns i d"

text \<open>Every node has a depth, at most \<open>mx\<close>: the links are acyclic and the tree is bounded.\<close>

definition depth_ok :: "nat \<Rightarrow> node_map \<Rightarrow> bool" where
  "depth_ok mx ns \<longleftrightarrow> (\<forall>i n. fmlookup ns i = Some n \<longrightarrow> (\<exists>d \<le> mx. has_depth ns i d))"

inductive desc :: "node_map \<Rightarrow> node_id \<Rightarrow> node_id \<Rightarrow> nat \<Rightarrow> bool" for ns i where
  self: "fmlookup ns i = Some n \<Longrightarrow> desc ns i i 0"
| below: "desc ns i j k \<Longrightarrow> fmlookup ns c = Some cn \<Longrightarrow> parent_id cn = Some j \<Longrightarrow>
    desc ns i c (Suc k)"

inductive_cases descE: "desc ns i j k"

lemma links_okI:
  assumes "\<And>i n. fmlookup ns i = Some n \<Longrightarrow> n_id n = i \<and> distinct (ordered_children n)"
    and "\<And>i n. fmlookup ns i = Some n \<Longrightarrow> parent_id n = None \<Longrightarrow> i \<in> set rts"
    and "\<And>i n p. fmlookup ns i = Some n \<Longrightarrow> parent_id n = Some p \<Longrightarrow>
      \<exists>pn. fmlookup ns p = Some pn \<and> i \<in> set (ordered_children pn)"
    and "\<And>i n c. fmlookup ns i = Some n \<Longrightarrow> c \<in> set (ordered_children n) \<Longrightarrow>
      \<exists>cn. fmlookup ns c = Some cn \<and> parent_id cn = Some i"
    and "\<And>r. r \<in> set rts \<Longrightarrow> \<exists>n. fmlookup ns r = Some n \<and> parent_id n = None"
    and "distinct rts"
  shows "links_ok ns rts"
  unfolding links_ok_def using assms by (auto split: option.splits)

lemma links_okD:
  assumes "links_ok ns rts"
  shows "\<And>i n. fmlookup ns i = Some n \<Longrightarrow> n_id n = i"
    and "\<And>i n. fmlookup ns i = Some n \<Longrightarrow> distinct (ordered_children n)"
    and "\<And>i n. fmlookup ns i = Some n \<Longrightarrow> parent_id n = None \<Longrightarrow> i \<in> set rts"
    and "\<And>i n p. fmlookup ns i = Some n \<Longrightarrow> parent_id n = Some p \<Longrightarrow>
      \<exists>pn. fmlookup ns p = Some pn \<and> i \<in> set (ordered_children pn)"
    and "\<And>i n c. fmlookup ns i = Some n \<Longrightarrow> c \<in> set (ordered_children n) \<Longrightarrow>
      \<exists>cn. fmlookup ns c = Some cn \<and> parent_id cn = Some i"
    and "\<And>r. r \<in> set rts \<Longrightarrow> \<exists>n. fmlookup ns r = Some n \<and> parent_id n = None"
    and "distinct rts"
  using assms unfolding links_ok_def by (fastforce split: option.splits)+

text \<open>Only the links matter.\<close>

definition skel :: "node \<Rightarrow> node_id \<times> node_id option \<times> node_id list" where
  "skel n = (n_id n, parent_id n, ordered_children n)"

definition same_links :: "node_map \<Rightarrow> node_map \<Rightarrow> bool" where
  "same_links ns ms \<longleftrightarrow> (\<forall>i. map_option skel (fmlookup ns i) = map_option skel (fmlookup ms i))"

lemma same_links_lookup:
  assumes "same_links ns ms" "fmlookup ns i = Some n"
  shows "\<exists>m. fmlookup ms i = Some m \<and> n_id m = n_id n \<and> parent_id m = parent_id n \<and>
    ordered_children m = ordered_children n"
proof -
  have "map_option skel (fmlookup ms i) = Some (skel n)"
    using assms unfolding same_links_def by (metis option.simps(9))
  then show ?thesis by (auto simp: skel_def)
qed

lemma same_links_sym: "same_links ns ms \<Longrightarrow> same_links ms ns"
  by (simp add: same_links_def)

lemma links_ok_same:
  assumes s: "same_links ns ms" and ok: "links_ok ns rts"
  shows "links_ok ms rts"
proof (rule links_okI)
  note fwd = same_links_lookup [OF s]
  note bwd = same_links_lookup [OF same_links_sym [OF s]]
  fix i m
  assume "fmlookup ms i = Some m"
  then obtain n where n: "fmlookup ns i = Some n" "n_id n = n_id m" "parent_id n = parent_id m"
      "ordered_children n = ordered_children m"
    using bwd by blast
  show "n_id m = i \<and> distinct (ordered_children m)"
    using links_okD(1,2) [OF ok n(1)] n by simp
  show "i \<in> set rts" if "parent_id m = None"
    using links_okD(3) [OF ok n(1)] n that by simp
  show "\<exists>pm. fmlookup ms p = Some pm \<and> i \<in> set (ordered_children pm)" if pp: "parent_id m = Some p" for p
  proof -
    obtain pn where "fmlookup ns p = Some pn" "i \<in> set (ordered_children pn)"
      using links_okD(4) [OF ok n(1), of p] n pp by auto
    with fwd [of p pn] show ?thesis by auto
  qed
  show "\<exists>cm. fmlookup ms c = Some cm \<and> parent_id cm = Some i" if cc: "c \<in> set (ordered_children m)" for c
  proof -
    obtain cn where "fmlookup ns c = Some cn" "parent_id cn = Some i"
      using links_okD(5) [OF ok n(1), of c] n cc by auto
    with fwd [of c cn] show ?thesis by auto
  qed
next
  show "\<exists>m. fmlookup ms r = Some m \<and> parent_id m = None" if "r \<in> set rts" for r
    using links_okD(6) [OF ok that] same_links_lookup [OF s] by fastforce
qed (rule links_okD(7) [OF ok])

lemma has_depth_same:
  assumes "same_links ns ms" "has_depth ns i d"
  shows "has_depth ms i d"
  using assms(2)
proof induction
  case (root i n)
  then show ?case using same_links_lookup [OF assms(1), of i n] by (auto intro: has_depth.root)
next
  case (child i n p d)
  then show ?case using same_links_lookup [OF assms(1), of i n] by (auto intro: has_depth.child)
qed

lemma depth_ok_same: "same_links ns ms \<Longrightarrow> depth_ok mx ns \<Longrightarrow> depth_ok mx ms"
  unfolding depth_ok_def by (meson has_depth_same same_links_lookup same_links_sym)

lemma same_links_upd:
  assumes "fmlookup ns i = Some n" "skel n' = skel n"
  shows "same_links ns (fmupd i n' ns)"
  using assms by (simp add: same_links_def)

section \<open>Depth\<close>

lemma has_depth_lookup: "has_depth ns i d \<Longrightarrow> \<exists>n. fmlookup ns i = Some n"
  by (auto elim: has_depthE)

lemma has_depth_pos: "has_depth ns i d \<Longrightarrow> 0 < d"
  by (auto elim: has_depthE)

lemma has_depth_unique: "has_depth ns i d \<Longrightarrow> has_depth ns i e \<Longrightarrow> d = e"
proof (induction arbitrary: e rule: has_depth.induct)
  case (root i n)
  from root.prems show ?case by cases (use root.hyps in auto)
next
  case (child i n p d)
  from child.prems show ?case
  proof cases
    case (child m q f)
    with child.hyps child.IH [of f] show ?thesis by simp
  qed (use child.hyps in simp)
qed

lemma has_depth_chain:
  "has_depth ns i d \<Longrightarrow>
   \<exists>A \<subseteq> fmdom' ns. card A = d \<and> (\<forall>a \<in> A. \<exists>e \<le> d. has_depth ns a e)"
proof (induction rule: has_depth.induct)
  case (root i n)
  have "has_depth ns i (Suc 0)" using root by (rule has_depth.root)
  with root show ?case by (intro exI [of _ "{i}"]) (auto intro: fmdom'I)
next
  case (child i n p d)
  then obtain A where A: "A \<subseteq> fmdom' ns" "card A = d" "\<forall>a \<in> A. \<exists>e \<le> d. has_depth ns a e" by blast
  have i: "has_depth ns i (Suc d)" using child.hyps by (rule has_depth.child)
  have "i \<notin> A" using A(3) has_depth_unique [OF i] by fastforce
  moreover have "finite A" using A(1) by (rule finite_subset) simp
  ultimately have "card (insert i A) = Suc d" using A(2) by simp
  moreover have "\<forall>a \<in> insert i A. \<exists>e \<le> Suc d. has_depth ns a e" using A(3) i le_SucI by blast
  ultimately show ?case
    using A(1) child.hyps(1) by (intro exI [of _ "insert i A"]) (auto intro: fmdom'I)
qed

lemma has_depth_bound: "has_depth ns i d \<Longrightarrow> d \<le> len_map ns"
  using has_depth_chain [of ns i d] card_mono [of "fmdom' ns"] by (auto simp: len_map_alt)

lemma node_depth_loop_has_depth:
  "has_depth ns i d \<Longrightarrow> d \<le> fuel \<Longrightarrow> node_depth_loop fuel ns i k = Ok (Some (k + d))"
proof (induction arbitrary: fuel k rule: has_depth.induct)
  case (root i n)
  then show ?case by (cases fuel) auto
next
  case (child i n p d)
  then show ?case by (cases fuel) auto
qed

lemma node_depth_loop_missing:
  "fmlookup ns i = None \<Longrightarrow> node_depth_loop (Suc fuel) ns i k = Ok None"
  by simp

lemma node_depth_eq:
  "has_depth (nodes s) i d \<Longrightarrow> node_depth s i = Ok (Some d)"
  using has_depth_bound [of "nodes s" i d]
    node_depth_loop_has_depth [of "nodes s" i d "Suc (len_map (nodes s))" 0]
  by (simp add: node_depth_def graph_fuel_def del: node_depth_loop.simps)

lemma node_depth_missing: "\<not> contains_node s i \<Longrightarrow> node_depth s i = Ok None"
  by (simp add: node_depth_def graph_fuel_def contains_node_def)

section \<open>Descendants\<close>

lemma desc_lookup: "desc ns i j k \<Longrightarrow> \<exists>n. fmlookup ns j = Some n"
  by (auto elim: descE)

lemma desc_depth:
  "desc ns i j k \<Longrightarrow> has_depth ns i d \<Longrightarrow> has_depth ns j (d + k)"
  by (induction rule: desc.induct) (auto intro: has_depth.child)

lemma desc_trans: "desc ns j l m \<Longrightarrow> desc ns i j k \<Longrightarrow> desc ns i l (k + m)"
  by (induction rule: desc.induct) (auto intro: desc.below)

lemma desc_child:
  assumes "fmlookup ns i = Some n" "fmlookup ns c = Some cn" "parent_id cn = Some i" "desc ns c j k"
  shows "desc ns i j (Suc k)"
  using desc_trans [OF assms(4) desc.below [OF desc.self [OF assms(1)] assms(2,3)]] by simp

lemma desc_split:
  "desc ns i j k \<Longrightarrow> k = 0 \<and> j = i \<or>
     (\<exists>c cn k'. fmlookup ns c = Some cn \<and> parent_id cn = Some i \<and> desc ns c j k' \<and> k = Suc k')"
proof (induction rule: desc.induct)
  case (below j k c cn)
  then show ?case by (blast intro: desc.intros)
qed simp

lemma desc_loop_free:
  assumes "desc ns i i k" "has_depth ns i d"
  shows "k = 0"
  using has_depth_unique [OF assms(2) desc_depth [OF assms]] by simp

text \<open>The recursive computation is one more than the distance to the farthest descendant.\<close>

definition is_height :: "node_map \<Rightarrow> node_id \<Rightarrow> nat \<Rightarrow> bool" where
  "is_height ns i h \<longleftrightarrow> (\<forall>j k. desc ns i j k \<longrightarrow> k < h) \<and> (\<exists>j. desc ns i j (h - 1)) \<and> 0 < h"

lemma max_child_depth_Ok:
  assumes "\<And>c. c \<in> set cs \<Longrightarrow> \<exists>d. rec c = Ok d"
  shows "max_child_depth rec cs mx = Ok (fold max (map (\<lambda>c. projr (rec c)) cs) mx)"
  using assms
proof (induction cs arbitrary: mx)
  case (Cons c cs)
  from Cons.prems [of c] obtain d where "rec c = Ok d" by auto
  with Cons show ?case by (simp add: max_def)
qed simp

lemma fold_max_eq: "fold max xs (a :: nat) = Max (insert a (set xs))"
  by (simp add: Max.set_eq_fold flip: list.set(2))

lemma subtree_depth_rec_height:
  assumes ok: "links_ok ns rts"
  shows "fmlookup ns i = Some n \<Longrightarrow> \<forall>j k. desc ns i j k \<longrightarrow> k < fuel \<Longrightarrow>
    \<exists>h. subtree_depth_rec fuel ns i = Ok h \<and> is_height ns i h"
proof (induction fuel arbitrary: i n)
  case 0
  then show ?case using desc.self by blast
next
  case (Suc fuel)
  let ?rec = "subtree_depth_rec fuel ns"
  have kid: "\<exists>cn. fmlookup ns c = Some cn \<and> parent_id cn = Some i" if "c \<in> set (ordered_children n)" for c
    using links_okD(5) [OF ok Suc.prems(1) that] .
  have IH: "\<exists>h. ?rec c = Ok h \<and> is_height ns c h" if c: "c \<in> set (ordered_children n)" for c
  proof -
    obtain cn where cn: "fmlookup ns c = Some cn" "parent_id cn = Some i" using kid [OF c] by blast
    have "\<forall>j k. desc ns c j k \<longrightarrow> k < fuel"
      using desc_child [OF Suc.prems(1) cn] Suc.prems(2) by fastforce
    then show ?thesis using Suc.IH [OF cn(1)] by blast
  qed
  let ?hs = "map (\<lambda>c. projr (?rec c)) (ordered_children n)"
  let ?h = "Suc (Max (insert 0 (set ?hs)))"
  have "max_child_depth ?rec (ordered_children n) 0 = Ok (Max (insert 0 (set ?hs)))"
    using IH by (subst max_child_depth_Ok) (auto simp: fold_max_eq)
  then have res: "subtree_depth_rec (Suc fuel) ns i = Ok ?h" using Suc.prems(1) by simp
  have hc: "is_height ns c (projr (?rec c))" if "c \<in> set (ordered_children n)" for c
    using IH [OF that] by auto
  have upper: "k < ?h" if jk: "desc ns i j k" for j k
  proof -
    from desc_split [OF jk] consider "k = 0" | c cn k' where "fmlookup ns c = Some cn"
        "parent_id cn = Some i" "desc ns c j k'" "k = Suc k'" by blast
    then show ?thesis
    proof cases
      case 2
      then obtain pn where "fmlookup ns i = Some pn" "c \<in> set (ordered_children pn)"
        using links_okD(4) [OF ok] by blast
      with Suc.prems(1) have c: "c \<in> set (ordered_children n)" by simp
      then have "k' < projr (?rec c)" using hc 2(3) by (simp add: is_height_def)
      also have "\<dots> \<le> Max (insert 0 (set ?hs))" using c by (intro Max_ge) auto
      finally show ?thesis using 2 by simp
    qed simp
  qed
  have "\<exists>j. desc ns i j (?h - 1)"
  proof (cases "Max (insert 0 (set ?hs)) = 0")
    case True
    then show ?thesis using desc.self [OF Suc.prems(1)] by auto
  next
    case False
    have "Max (insert 0 (set ?hs)) \<in> insert 0 (set ?hs)" by (rule Max_in) auto
    with False obtain c where c: "c \<in> set (ordered_children n)" "Max (insert 0 (set ?hs)) = projr (?rec c)"
      by auto
    then obtain j where "desc ns c j (projr (?rec c) - 1)" "0 < projr (?rec c)"
      using hc [OF c(1)] unfolding is_height_def by blast
    with desc_child [OF Suc.prems(1)] kid [OF c(1)] c(2) show ?thesis by fastforce
  qed
  with upper res show ?case by (auto simp: is_height_def)
qed

lemma desc_dist_bound:
  assumes "desc ns i j k" "has_depth ns i d"
  shows "k < len_map ns"
  using has_depth_bound [OF desc_depth [OF assms]] has_depth_pos [OF assms(2)] by simp

lemma subtree_depth_height:
  assumes "links_ok (nodes s) rts" "has_depth (nodes s) i d"
  shows "\<exists>h. subtree_depth s i = Ok h \<and> is_height (nodes s) i h"
proof -
  obtain n where "fmlookup (nodes s) i = Some n" using has_depth_lookup [OF assms(2)] by blast
  moreover have "\<forall>j k. desc (nodes s) i j k \<longrightarrow> k < graph_fuel (nodes s)"
    using desc_dist_bound [OF _ assms(2)] by (fastforce simp: graph_fuel_def)
  ultimately show ?thesis
    using subtree_depth_rec_height [OF assms(1)] by (simp add: subtree_depth_def)
qed

text \<open>The cycle check decides descent.\<close>

lemma desc_parent:
  assumes "desc ns i j k" "j \<noteq> i" "fmlookup ns j = Some n"
  shows "\<exists>p k'. parent_id n = Some p \<and> desc ns i p k'"
  using assms(1) by cases (use assms in auto)

lemma meets_ancestor_iff:
  assumes "has_depth ns j d" "d \<le> fuel" "j \<noteq> i" "fmlookup ns i = Some n"
  shows "meets_ancestor fuel ns i j = Ok (\<exists>k. desc ns i j k)"
  using assms
proof (induction arbitrary: fuel rule: has_depth.induct)
  case (root j m)
  have "\<not> desc ns i j k" for k using desc_parent [of ns i j k m] root by auto
  with root show ?case by (cases fuel) auto
next
  case (child j m p d)
  have step: "(\<exists>k. desc ns i j k) \<longleftrightarrow> (\<exists>k. desc ns i p k)"
    using child.hyps child.prems desc_parent [of ns i j _ m] by (auto intro: desc.below)
  show ?case
  proof (cases "p = i")
    case True
    with child show ?thesis using step desc.self [of ns i n] by (cases fuel) auto
  next
    case False
    with child show ?thesis using step by (cases fuel) auto
  qed
qed

section \<open>Subtree deletion\<close>

inductive kid_reach :: "node_map \<Rightarrow> node_id \<Rightarrow> node_id \<Rightarrow> bool" for ns where
  here: "fmlookup ns i = Some n \<Longrightarrow> kid_reach ns i i"
| down: "fmlookup ns i = Some n \<Longrightarrow> c \<in> set (ordered_children n) \<Longrightarrow> kid_reach ns c j \<Longrightarrow>
    kid_reach ns i j"

lemma kid_reach_submap:
  assumes "kid_reach ms i j" "\<And>x n. fmlookup ms x = Some n \<Longrightarrow> fmlookup ns x = Some n"
  shows "kid_reach ns i j"
  using assms(1) by induction (use assms(2) in \<open>auto intro: kid_reach.intros\<close>)

text \<open>
  On every graph: deletion keeps a part of the map, closed under having a deleted parent,
  without the starting points, and deletes only what they reach.
\<close>

lemma delete_subtrees_spec:
  "(\<forall>j. fmlookup (fst (delete_subtrees is st)) j \<in> {None, fmlookup (fst st) j}) \<and>
   (\<forall>i \<in> set is. fmlookup (fst (delete_subtrees is st)) i = None) \<and>
   (\<forall>x n c. fmlookup (fst st) x = Some n \<longrightarrow> fmlookup (fst (delete_subtrees is st)) x = None \<longrightarrow>
      c \<in> set (ordered_children n) \<longrightarrow> fmlookup (fst (delete_subtrees is st)) c = None) \<and>
   (\<forall>x. fmlookup (fst st) x \<noteq> None \<longrightarrow> fmlookup (fst (delete_subtrees is st)) x = None \<longrightarrow>
      (\<exists>i \<in> set is. kid_reach (fst st) i x)) \<and>
   (\<exists>added. snd (delete_subtrees is st) = snd st @ added \<and> distinct added \<and>
      set added = {x. fmlookup (fst st) x \<noteq> None \<and> fmlookup (fst (delete_subtrees is st)) x = None})"
  (is "?sub is st \<and> ?start is st \<and> ?closed is st \<and> ?only is st \<and> ?log is st")
proof (induction "is" st rule: delete_subtrees.induct)
  case (2 i "is" st)
  show ?case
  proof (cases "fmlookup (fst st) i")
    case None
    note IH = "2.IH"(1) [OF None]
    have eq: "delete_subtrees (i # is) st = delete_subtrees is st" using None by simp
    from IH have "fmlookup (fst (delete_subtrees is st)) i = None" using None by fastforce
    with IH show ?thesis unfolding eq by simp
  next
    case (Some n)
    let ?st1 = "(fmdrop i (fst st), snd st @ [i])"
    let ?st2 = "delete_subtrees (ordered_children n) ?st1"
    let ?st3 = "delete_subtrees is ?st2"
    have eq: "delete_subtrees (i # is) st = ?st3" using Some by simp
    note I1 = "2.IH"(2) [OF Some]
    note I2 = "2.IH"(3) [OF Some]
    have s12: "fmlookup (fst ?st2) j \<in> {None, fmlookup (fst ?st1) j}" for j using I1 by blast
    have s23: "fmlookup (fst ?st3) j \<in> {None, fmlookup (fst ?st2) j}" for j using I2 by blast
    have gone_i: "fmlookup (fst ?st2) i = None" "fmlookup (fst ?st3) i = None"
      using s12 [of i] s23 [of i] by auto
    have sub: "?sub (i # is) st"
    proof
      fix j
      show "fmlookup (fst (delete_subtrees (i # is) st)) j \<in> {None, fmlookup (fst st) j}"
        unfolding eq using s12 [of j] s23 [of j] by (auto split: if_splits)
    qed
    have start: "?start (i # is) st"
      unfolding eq using I2 gone_i by auto
    have k2: "fmlookup (fst ?st2) c = None" if "c \<in> set (ordered_children n)" for c
      using I1 that by blast
    have mono23: "fmlookup (fst ?st3) c = None" if "fmlookup (fst ?st2) c = None" for c
      using s23 [of c] that by auto
    have closed: "?closed (i # is) st"
      unfolding eq
    proof (intro allI impI)
      fix x xn c
      assume x: "fmlookup (fst st) x = Some xn" "fmlookup (fst ?st3) x = None" "c \<in> set (ordered_children xn)"
      show "fmlookup (fst ?st3) c = None"
      proof (cases "x = i")
        case True
        with x Some k2 mono23 show ?thesis by simp
      next
        case False
        then have x1: "fmlookup (fst ?st1) x = Some xn" using x by simp
        show ?thesis
        proof (cases "fmlookup (fst ?st2) x")
          case None
          then have "fmlookup (fst ?st2) c = None" using I1 x1 x(3) by blast
          then show ?thesis by (rule mono23)
        next
          case (Some yn)
          then have "yn = xn" using s12 [of x] x1 by simp
          with Some x I2 show ?thesis by blast
        qed
      qed
    qed
    have r1: "kid_reach (fst st) i x" if "c \<in> set (ordered_children n)" "kid_reach (fst ?st1) c x" for c x
      by (rule kid_reach.down [OF Some that(1)], rule kid_reach_submap [OF that(2)])
         (auto split: if_splits)
    have only: "?only (i # is) st"
      unfolding eq
    proof (intro allI impI)
      fix x
      assume x: "fmlookup (fst st) x \<noteq> None" "fmlookup (fst ?st3) x = None"
      consider "x = i" | "x \<noteq> i" "fmlookup (fst ?st2) x = None" | "fmlookup (fst ?st2) x \<noteq> None" by blast
      then show "\<exists>j \<in> set (i # is). kid_reach (fst st) j x"
      proof cases
        case 1
        then show ?thesis using Some kid_reach.here by fastforce
      next
        case 2
        then have "\<exists>c \<in> set (ordered_children n). kid_reach (fst ?st1) c x" using I1 x by simp
        then show ?thesis using r1 by auto
      next
        case 3
        then obtain j where "j \<in> set is" "kid_reach (fst ?st2) j x" using I2 x by blast
        moreover have "fmlookup (fst st) y = Some m" if "fmlookup (fst ?st2) y = Some m" for y m
          using s12 [of y] that by (auto split: if_splits)
        ultimately show ?thesis using kid_reach_submap by fastforce
      qed
    qed
    obtain a1 where a1: "snd ?st2 = snd ?st1 @ a1" "distinct a1"
        "set a1 = {x. fmlookup (fst ?st1) x \<noteq> None \<and> fmlookup (fst ?st2) x = None}"
      using I1 by blast
    obtain a2 where a2: "snd ?st3 = snd ?st2 @ a2" "distinct a2"
        "set a2 = {x. fmlookup (fst ?st2) x \<noteq> None \<and> fmlookup (fst ?st3) x = None}"
      using I2 by blast
    have log: "?log (i # is) st"
      unfolding eq
    proof (intro exI conjI)
      show "snd ?st3 = snd st @ (i # a1 @ a2)" using a1(1) a2(1) by simp
      show "distinct (i # a1 @ a2)" using a1 a2 gone_i by auto
      show "set (i # a1 @ a2) = {x. fmlookup (fst st) x \<noteq> None \<and> fmlookup (fst ?st3) x = None}"
      proof (rule set_eqI)
        fix x
        show "x \<in> set (i # a1 @ a2) \<longleftrightarrow>
            x \<in> {x. fmlookup (fst st) x \<noteq> None \<and> fmlookup (fst ?st3) x = None}"
          using a1(3) a2(3) s12 [of x] s23 [of x] gone_i Some by (cases "x = i"; cases "fmlookup (fst st) x") auto
      qed
    qed
    show ?thesis using sub start closed only log by blast
  qed
qed (simp, metis option.exhaust)

section \<open>Detaching\<close>

definition strip :: "node_id \<Rightarrow> node \<Rightarrow> node" where
  "strip i m = m\<lparr>ordered_children := retain_not i (ordered_children m)\<rparr>"

lemma strip_simps [simp]:
  "parent_id (strip i m) = parent_id m" "n_id (strip i m) = n_id m"
  "properties (strip i m) = properties m" "node_type (strip i m) = node_type m"
  "ordered_children (strip i m) = retain_not i (ordered_children m)"
  by (simp_all add: strip_def)

lemma retain_not_simps [simp]:
  "set (retain_not i cs) = set cs - {i}"
  "distinct cs \<Longrightarrow> distinct (retain_not i cs)"
  by (auto simp: retain_not_def)

lemma retain_not_absent: "i \<notin> set cs \<Longrightarrow> retain_not i cs = cs"
  by (simp add: retain_not_def filter_id_conv) metis

lemma strip_absent: "i \<notin> set (ordered_children m) \<Longrightarrow> strip i m = m"
  by (simp add: strip_def retain_not_absent)

text \<open>On a forest, detaching removes the node from every child list and from the roots.\<close>

lemma detach_eq:
  assumes ok: "links_ok (nodes s) (roots s)" and i: "fmlookup (nodes s) i = Some n"
  shows "nodes (detach i (parent_id n) s) = fmmap (strip i) (nodes s)"
    and "roots (detach i (parent_id n) s) = retain_not i (roots s)"
proof -
  have only: "parent_id n = Some j" if "fmlookup (nodes s) j = Some m" "i \<in> set (ordered_children m)" for j m
    using links_okD(5) [OF ok that] i by auto
  have keep: "map_option (strip i) (fmlookup (nodes s) j) = fmlookup (nodes s) j"
    if "parent_id n \<noteq> Some j" for j
    using only [of j] that by (cases "fmlookup (nodes s) j") (auto intro!: strip_absent)
  have "nodes (detach i (parent_id n) s) = fmmap (strip i) (nodes s) \<and>
      roots (detach i (parent_id n) s) = retain_not i (roots s)"
  proof (cases "parent_id n")
    case None
    then have "nodes s = fmmap (strip i) (nodes s)" by (intro fmap_ext) (simp add: keep)
    with None show ?thesis by (simp add: detach_def)
  next
    case (Some p)
    then obtain pn where pn: "fmlookup (nodes s) p = Some pn" using links_okD(4) [OF ok i] by blast
    have "fmlookup (fmupd p (strip i pn) (nodes s)) j = map_option (strip i) (fmlookup (nodes s) j)" for j
      using keep [of j] Some pn by (cases "p = j") auto
    then have "fmupd p (strip i pn) (nodes s) = fmmap (strip i) (nodes s)" by (intro fmap_ext) simp
    moreover have "i \<notin> set (roots s)" using links_okD(6) [OF ok] i Some by fastforce
    ultimately show ?thesis
      using Some pn by (simp add: detach_def set_children_def strip_def retain_not_absent)
  qed
  then show "nodes (detach i (parent_id n) s) = fmmap (strip i) (nodes s)"
    "roots (detach i (parent_id n) s) = retain_not i (roots s)" by auto
qed

lemma detach_frame [simp]:
  "models (detach i p s) = models s" "limits (detach i p s) = limits s"
  "used_ids (detach i p s) = used_ids s" "used_model_ids (detach i p s) = used_model_ids s"
  "revision (detach i p s) = revision s"
  by (auto simp: detach_def set_children_def split: option.splits)

lemma has_depth_parents:
  assumes "has_depth ns j d"
    and "\<And>x m. fmlookup ns x = Some m \<Longrightarrow> \<exists>m'. fmlookup ms x = Some m' \<and> parent_id m' = parent_id m"
  shows "has_depth ms j d"
  using assms(1)
proof induction
  case (root i n)
  then show ?case using assms(2) [of i n] by (auto intro: has_depth.root)
next
  case (child i n p d)
  then show ?case using assms(2) [of i n] by (auto intro: has_depth.child)
qed

section \<open>Deleting a subtree of a forest\<close>

lemma kid_reach_desc:
  assumes "kid_reach ms i j" and ok: "links_ok ns rts"
    and "\<And>x m. fmlookup ms x = Some m \<Longrightarrow>
      \<exists>n. fmlookup ns x = Some n \<and> set (ordered_children m) \<subseteq> set (ordered_children n)"
  shows "\<exists>k. desc ns i j k"
  using assms(1)
proof induction
  case (here i n)
  then show ?case using assms(3) desc.self by blast
next
  case (down i m c j)
  then obtain n k where n: "fmlookup ns i = Some n" "c \<in> set (ordered_children n)" "desc ns c j k"
    using assms(3) by blast
  then obtain cn where "fmlookup ns c = Some cn" "parent_id cn = Some i" using links_okD(5) [OF ok] by blast
  with n desc_child show ?case by blast
qed

lemma delete_stripped:
  assumes ok: "links_ok ns rts" and i: "fmlookup ns i = Some n" and d: "has_depth ns i d"
    and del: "delete_subtrees [i] (fmmap (strip i) ns, []) = (ns', deleted)"
  shows "fmlookup ns' j = (if \<exists>k. desc ns i j k then None else map_option (strip i) (fmlookup ns j))"
    and "distinct deleted"
    and "set deleted = {j. \<exists>k. desc ns i j k}"
proof -
  note S = delete_subtrees_spec [of "[i]" "(fmmap (strip i) ns, [])", unfolded del fst_conv snd_conv]
  have sub: "fmlookup ns' x \<in> {None, map_option (strip i) (fmlookup ns x)}" for x using S by simp
  have closed: "fmlookup ns' c = None"
    if "fmlookup ns x = Some m" "fmlookup ns' x = None" "c \<in> set (ordered_children m)" "c \<noteq> i" for x m c
  proof -
    have "fmlookup (fmmap (strip i) ns) x = Some (strip i m)" using that by simp
    moreover have "c \<in> set (ordered_children (strip i m))" using that by simp
    ultimately show ?thesis using S that(2) by blast
  qed
  have gone: "fmlookup ns' j = None" if "desc ns i j k" for j k
    using that
  proof induction
    case (self n)
    then show ?case using S by simp
  next
    case (below j k c cn)
    then obtain m where m: "fmlookup ns j = Some m" "c \<in> set (ordered_children m)"
      using links_okD(4) [OF ok] by blast
    show ?case
    proof (cases "c = i")
      case True
      have "desc ns i c (Suc k)" using below.hyps by (rule desc.below)
      with True desc_loop_free [OF _ d] show ?thesis by blast
    next
      case False
      with closed [OF m(1) below.IH m(2)] show ?thesis by simp
    qed
  qed
  have reached: "\<exists>k. desc ns i x k" if "fmlookup ns x \<noteq> None" "fmlookup ns' x = None" for x
  proof -
    have "kid_reach (fmmap (strip i) ns) i x" using S that by simp
    moreover have "\<exists>n. fmlookup ns y = Some n \<and> set (ordered_children m) \<subseteq> set (ordered_children n)"
      if "fmlookup (fmmap (strip i) ns) y = Some m" for y m
      using that by auto
    ultimately show ?thesis by (rule kid_reach_desc [OF _ ok])
  qed
  show "fmlookup ns' j = (if \<exists>k. desc ns i j k then None else map_option (strip i) (fmlookup ns j))" for j
    using gone reached [of j] sub [of j] by (cases "fmlookup ns j") auto
  have "set deleted = {x. fmlookup ns x \<noteq> None \<and> fmlookup ns' x = None}" "distinct deleted"
    using S by auto
  then show "distinct deleted" "set deleted = {j. \<exists>k. desc ns i j k}"
    using gone reached desc_lookup [of ns i] by blast+
qed

lemma delete_links:
  assumes ok: "links_ok ns rts" and i: "fmlookup ns i = Some n" and d: "has_depth ns i d"
    and ns': "\<And>j. fmlookup ns' j = (if \<exists>k. desc ns i j k then None else map_option (strip i) (fmlookup ns j))"
  shows "links_ok ns' (retain_not i rts)"
    and "\<And>mx. depth_ok mx ns \<Longrightarrow> depth_ok mx ns'"
proof -
  have look: "fmlookup ns' j = Some m' \<longleftrightarrow>
      (\<forall>k. \<not> desc ns i j k) \<and> (\<exists>m. fmlookup ns j = Some m \<and> m' = strip i m)" for j m'
    by (auto simp: ns')
  have up: "\<not> desc ns i p k" if "fmlookup ns j = Some m" "parent_id m = Some p" "\<forall>k. \<not> desc ns i j k" for j m p k
    using that desc.below by blast
  have self: "desc ns i i 0" using i by (rule desc.self)
  have down: "\<not> desc ns i c k"
    if c: "fmlookup ns j = Some m" "c \<in> set (ordered_children m)" "c \<noteq> i" "\<forall>k. \<not> desc ns i j k" for j m c k
  proof
    assume dc: "desc ns i c k"
    obtain cn where "fmlookup ns c = Some cn" "parent_id cn = Some j" using links_okD(5) [OF ok c(1,2)] by blast
    then obtain k' where "desc ns i j k'" using desc_parent [OF dc c(3)] by auto
    with c(4) show False by blast
  qed
  show "links_ok ns' (retain_not i rts)"
  proof (rule links_okI)
    fix j m'
    assume "fmlookup ns' j = Some m'"
    then obtain m where m: "fmlookup ns j = Some m" "m' = strip i m" and nd: "\<forall>k. \<not> desc ns i j k"
      by (auto simp: look)
    from nd self have ji: "j \<noteq> i" by blast
    show "n_id m' = j \<and> distinct (ordered_children m')" using links_okD(1,2) [OF ok m(1)] m by simp
    show "j \<in> set (retain_not i rts)" if "parent_id m' = None"
      using links_okD(3) [OF ok m(1)] that m ji by simp
    show "\<exists>pn. fmlookup ns' p = Some pn \<and> j \<in> set (ordered_children pn)" if "parent_id m' = Some p" for p
    proof -
      obtain pn where "fmlookup ns p = Some pn" "j \<in> set (ordered_children pn)"
        using links_okD(4) [OF ok m(1)] \<open>parent_id m' = Some p\<close> m(2) by auto
      then show ?thesis using up [OF m(1) _ nd] that m(2) ji by (auto simp: look)
    qed
    show "\<exists>cn. fmlookup ns' c = Some cn \<and> parent_id cn = Some j" if cc: "c \<in> set (ordered_children m')" for c
    proof -
      have c: "c \<in> set (ordered_children m)" "c \<noteq> i" using cc m by auto
      then obtain cn where "fmlookup ns c = Some cn" "parent_id cn = Some j"
        using links_okD(5) [OF ok m(1)] by blast
      then show ?thesis using down [OF m(1) c nd] by (auto simp: look)
    qed
  next
    fix r
    assume "r \<in> set (retain_not i rts)"
    then obtain m where m: "fmlookup ns r = Some m" "parent_id m = None" "r \<noteq> i"
      using links_okD(6) [OF ok] by auto
    then have "\<not> desc ns i r k" for k using desc_parent [of ns i r k m] by auto
    then show "\<exists>n. fmlookup ns' r = Some n \<and> parent_id n = None" using m by (auto simp: look)
  qed (use links_okD(7) [OF ok] in simp)
  have keep: "has_depth ns' j e" if "has_depth ns j e" "\<forall>k. \<not> desc ns i j k" for j e
    using that
  proof induction
    case (root j m)
    then show ?case by (intro has_depth.root [of _ _ "strip i m"]) (auto simp: look)
  next
    case (child j m p e)
    then show ?case using up [of j m p] by (intro has_depth.child [of _ _ "strip i m" p]) (auto simp: look)
  qed
  show "depth_ok mx ns'" if "depth_ok mx ns" for mx
    using that keep unfolding depth_ok_def look by blast
qed

section \<open>Attaching\<close>

text \<open>A forest in which \<open>i\<close> hangs loose: it is in the map, and in no child list or root list.\<close>

definition loose :: "node_id \<Rightarrow> node_map \<Rightarrow> node_id list \<Rightarrow> bool" where
  "loose i ns rts \<longleftrightarrow>
     (\<forall>j m. fmlookup ns j = Some m \<longrightarrow>
        n_id m = j \<and> distinct (ordered_children m) \<and> i \<notin> set (ordered_children m) \<and>
        (j \<noteq> i \<longrightarrow> (case parent_id m of
           None \<Rightarrow> j \<in> set rts
         | Some p \<Rightarrow> \<exists>pn. fmlookup ns p = Some pn \<and> j \<in> set (ordered_children pn))) \<and>
        (\<forall>c \<in> set (ordered_children m). \<exists>cn. fmlookup ns c = Some cn \<and> parent_id cn = Some j)) \<and>
     (\<forall>r \<in> set rts. r \<noteq> i \<and> (\<exists>n. fmlookup ns r = Some n \<and> parent_id n = None)) \<and>
     distinct rts"

lemma looseD:
  assumes "loose i ns rts"
  shows "\<And>j m. fmlookup ns j = Some m \<Longrightarrow>
      n_id m = j \<and> distinct (ordered_children m) \<and> i \<notin> set (ordered_children m)"
    and "\<And>j m. fmlookup ns j = Some m \<Longrightarrow> j \<noteq> i \<Longrightarrow> parent_id m = None \<Longrightarrow> j \<in> set rts"
    and "\<And>j m p. fmlookup ns j = Some m \<Longrightarrow> j \<noteq> i \<Longrightarrow> parent_id m = Some p \<Longrightarrow>
      \<exists>pn. fmlookup ns p = Some pn \<and> j \<in> set (ordered_children pn)"
    and "\<And>j m c. fmlookup ns j = Some m \<Longrightarrow> c \<in> set (ordered_children m) \<Longrightarrow>
      \<exists>cn. fmlookup ns c = Some cn \<and> parent_id cn = Some j"
    and "\<And>r. r \<in> set rts \<Longrightarrow> r \<noteq> i \<and> (\<exists>n. fmlookup ns r = Some n \<and> parent_id n = None)"
    and "distinct rts"
  using assms unfolding loose_def by (fastforce split: option.splits)+

lemma loose_new:
  assumes ok: "links_ok ns rts" and i: "fmlookup ns i = None"
    and n: "n_id n = i" "ordered_children n = []"
  shows "loose i (fmupd i n ns) rts"
proof -
  have kid: "c \<noteq> i" if "fmlookup ns j = Some m" "c \<in> set (ordered_children m)" for j m c
    using links_okD(5) [OF ok that] i by auto
  have other: "fmlookup ns j = Some m \<and> j \<noteq> i" if "fmlookup (fmupd i n ns) j = Some m" "m \<noteq> n" for j m
    using that by (auto split: if_splits)
  have par: "\<exists>pn. fmlookup (fmupd i n ns) p = Some pn \<and> j \<in> set (ordered_children pn)"
    if "fmlookup ns j = Some m" "parent_id m = Some p" for j m p
    using links_okD(4) [OF ok that] i by (auto simp: fmdom_notI)
  have kids: "\<exists>cn. fmlookup (fmupd i n ns) c = Some cn \<and> parent_id cn = Some j"
    if "fmlookup ns j = Some m" "c \<in> set (ordered_children m)" for j m c
    using links_okD(5) [OF ok that] kid [OF that] by auto
  have rts: "r \<noteq> i \<and> (\<exists>n. fmlookup ns r = Some n \<and> parent_id n = None)" if "r \<in> set rts" for r
    using links_okD(6) [OF ok that] i by auto
  show ?thesis
    unfolding loose_def
  proof (intro conjI allI impI)
    fix j m
    assume jm: "fmlookup (fmupd i n ns) j = Some m"
    show "n_id m = j" using jm n links_okD(1) [OF ok] by (auto split: if_splits)
    show "distinct (ordered_children m)" using jm n links_okD(2) [OF ok] by (auto split: if_splits)
    show "i \<notin> set (ordered_children m)" using jm n kid by (fastforce split: if_splits)
    show "case parent_id m of None \<Rightarrow> j \<in> set rts
        | Some p \<Rightarrow> \<exists>pn. fmlookup (fmupd i n ns) p = Some pn \<and> j \<in> set (ordered_children pn)" if "j \<noteq> i"
      using jm that par links_okD(3) [OF ok] by (auto split: option.splits)
    show "\<forall>c \<in> set (ordered_children m). \<exists>cn. fmlookup (fmupd i n ns) c = Some cn \<and> parent_id cn = Some j"
    proof (cases "j = i")
      case True
      with jm n show ?thesis by simp
    next
      case False
      with jm have "fmlookup ns j = Some m" by simp
      then show ?thesis using kids by blast
    qed
  next
    show "\<forall>r \<in> set rts. r \<noteq> i \<and> (\<exists>n'. fmlookup (fmupd i n ns) r = Some n' \<and> parent_id n' = None)"
      using rts by auto
  qed (rule links_okD(7) [OF ok])
qed

lemma loose_stripped:
  assumes ok: "links_ok ns rts" and i: "fmlookup ns i = Some n" and d: "has_depth ns i d"
  shows "loose i (fmmap (strip i) ns) (retain_not i rts)"
proof -
  have par: "\<exists>pn. fmlookup (fmmap (strip i) ns) p = Some pn \<and> j \<in> set (ordered_children pn)"
    if "fmlookup ns j = Some m" "parent_id m = Some p" "j \<noteq> i" for j m p
    using links_okD(4) [OF ok that(1,2)] that(3) by auto
  have kids: "\<exists>cn. fmlookup (fmmap (strip i) ns) c = Some cn \<and> parent_id cn = Some j"
    if "fmlookup ns j = Some m" "c \<in> set (ordered_children m)" for j m c
    using links_okD(5) [OF ok that] by auto
  show ?thesis
    unfolding loose_def
  proof (intro conjI allI impI)
    fix j m'
    assume "fmlookup (fmmap (strip i) ns) j = Some m'"
    then obtain m where m: "fmlookup ns j = Some m" "m' = strip i m" by auto
    show "n_id m' = j" "distinct (ordered_children m')" "i \<notin> set (ordered_children m')"
      using links_okD(1,2) [OF ok m(1)] m by auto
    show "case parent_id m' of None \<Rightarrow> j \<in> set (retain_not i rts)
        | Some p \<Rightarrow> \<exists>pn. fmlookup (fmmap (strip i) ns) p = Some pn \<and> j \<in> set (ordered_children pn)" if "j \<noteq> i"
      using m that par links_okD(3) [OF ok] by (auto split: option.splits)
    show "\<forall>c \<in> set (ordered_children m'). \<exists>cn. fmlookup (fmmap (strip i) ns) c = Some cn \<and> parent_id cn = Some j"
      using m kids by auto
  next
    show "\<forall>r \<in> set (retain_not i rts). r \<noteq> i \<and>
        (\<exists>n. fmlookup (fmmap (strip i) ns) r = Some n \<and> parent_id n = None)"
    proof
      fix r
      assume "r \<in> set (retain_not i rts)"
      then obtain m where "fmlookup ns r = Some m" "parent_id m = None" "r \<noteq> i"
        using links_okD(6) [OF ok] by auto
      then show "r \<noteq> i \<and> (\<exists>n. fmlookup (fmmap (strip i) ns) r = Some n \<and> parent_id n = None)"
        by (auto intro!: exI [of _ "strip i m"])
    qed
  qed (use links_okD(7) [OF ok] in simp)
qed

text \<open>Hanging the loose node under \<open>q\<close>, or among the roots.\<close>

lemma attach_links:
  assumes lo: "loose i ns rts" and i: "fmlookup ns i = Some n"
    and q: "\<And>p. q = Some p \<Longrightarrow> p \<noteq> i \<and> fmlookup ns p \<noteq> None"
    and new_i: "fmlookup ns' i = Some n'" "n_id n' = i" "parent_id n' = q"
      "ordered_children n' = ordered_children n"
    and new_j: "\<And>j. j \<noteq> i \<Longrightarrow> q \<noteq> Some j \<Longrightarrow> fmlookup ns' j = fmlookup ns j"
    and new_p: "\<And>p pn. q = Some p \<Longrightarrow> fmlookup ns p = Some pn \<Longrightarrow>
      \<exists>cs. fmlookup ns' p = Some (pn\<lparr>ordered_children := cs\<rparr>) \<and>
        set cs = insert i (set (ordered_children pn)) \<and> distinct cs"
    and rts': "distinct rts'" "set rts' = (if q = None then insert i (set rts) else set rts)"
  shows "links_ok ns' rts'"
proof -
  have fwd: "\<exists>m'. fmlookup ns' j = Some m' \<and> n_id m' = j \<and> distinct (ordered_children m') \<and>
      parent_id m' = (if j = i then q else parent_id m) \<and>
      set (ordered_children m') = (if q = Some j then insert i (set (ordered_children m)) else set (ordered_children m))"
    if j: "fmlookup ns j = Some m" for j m
  proof (cases "j = i")
    case True
    then show ?thesis using new_i looseD(1) [OF lo i] q i j by auto
  next
    case False
    show ?thesis
    proof (cases "q = Some j")
      case True
      from new_p [OF this j] show ?thesis using True False looseD(1) [OF lo j] by auto
    next
      case q: False
      with False new_j j looseD(1) [OF lo j] show ?thesis by auto
    qed
  qed
  have bwd: "\<exists>m. fmlookup ns j = Some m" if "fmlookup ns' j = Some m'" for j m'
  proof (cases "j = i \<or> q = Some j")
    case True
    then show ?thesis using i q by auto
  next
    case False
    then show ?thesis using new_j that by metis
  qed
  show ?thesis
  proof (rule links_okI)
    fix j m'
    assume jm': "fmlookup ns' j = Some m'"
    then obtain m where m: "fmlookup ns j = Some m" using bwd by blast
    have m': "n_id m' = j" "distinct (ordered_children m')"
        "parent_id m' = (if j = i then q else parent_id m)"
        "set (ordered_children m') = (if q = Some j then insert i (set (ordered_children m)) else set (ordered_children m))"
      using fwd [OF m] jm' by auto
    show "n_id m' = j \<and> distinct (ordered_children m')" using m' by simp
    show "j \<in> set rts'" if "parent_id m' = None"
      using that m' rts' looseD(2) [OF lo m] by (auto split: if_splits)
    show "\<exists>pn'. fmlookup ns' p = Some pn' \<and> j \<in> set (ordered_children pn')" if p: "parent_id m' = Some p" for p
    proof (cases "j = i")
      case True
      then have qp: "q = Some p" using p m' by simp
      then obtain pn where "fmlookup ns p = Some pn" using q by blast
      from fwd [OF this] qp True show ?thesis by auto
    next
      case False
      then obtain pn where pn: "fmlookup ns p = Some pn" "j \<in> set (ordered_children pn)"
        using looseD(3) [OF lo m] p m' by auto
      from fwd [OF pn(1)] pn(2) show ?thesis by (auto split: if_splits)
    qed
    show "\<exists>cn'. fmlookup ns' c = Some cn' \<and> parent_id cn' = Some j" if c: "c \<in> set (ordered_children m')" for c
    proof (cases "c = i")
      case True
      then have "q = Some j" using c m' looseD(1) [OF lo m] by (auto split: if_splits)
      with True new_i show ?thesis by auto
    next
      case False
      then have "c \<in> set (ordered_children m)" using c m' by (auto split: if_splits)
      then obtain cn where cn: "fmlookup ns c = Some cn" "parent_id cn = Some j" using looseD(4) [OF lo m] by blast
      from fwd [OF cn(1)] cn(2) False show ?thesis by auto
    qed
  next
    fix r
    assume r: "r \<in> set rts'"
    show "\<exists>n. fmlookup ns' r = Some n \<and> parent_id n = None"
    proof (cases "r = i")
      case True
      then have "q = None" using r rts' looseD(5) [OF lo] by (auto split: if_splits)
      with True new_i show ?thesis by auto
    next
      case False
      then obtain m where m: "fmlookup ns r = Some m" "parent_id m = None"
        using r rts' looseD(5) [OF lo] by (auto split: if_splits)
      from fwd [OF m(1)] m(2) False show ?thesis by auto
    qed
  qed (rule rts'(1))
qed

section \<open>Depths after a move\<close>

text \<open>
  \<open>i\<close> gets the parent \<open>q\<close>, which does not lie below it; every other node keeps its parent.
  The nodes below \<open>i\<close> change their depth with it, the others keep theirs.
\<close>

lemma move_depth:
  assumes i: "fmlookup ns i = Some n" and di: "has_depth ns i d"
    and old: "depth_ok mx ns" and h: "is_height ns i h"
    and q: "case q of None \<Rightarrow> pd = 0 | Some p \<Rightarrow> has_depth ns p pd \<and> (\<forall>k. \<not> desc ns i p k)"
    and fits: "pd + h \<le> mx"
    and par: "\<And>j m. fmlookup ns j = Some m \<Longrightarrow>
      \<exists>m'. fmlookup ns' j = Some m' \<and> parent_id m' = (if j = i then q else parent_id m)"
    and dom: "\<And>j m'. fmlookup ns' j = Some m' \<Longrightarrow> fmlookup ns j \<noteq> None"
  shows "depth_ok mx ns'"
proof -
  have self: "desc ns i i 0" using i by (rule desc.self)
  have stay: "has_depth ns' j e" if "has_depth ns j e" "\<forall>k. \<not> desc ns i j k" for j e
    using that
  proof induction
    case (root j m)
    then have "j \<noteq> i" using self by blast
    with root par [of j m] show ?case by (auto intro: has_depth.root)
  next
    case (child j m p e)
    then have "j \<noteq> i" using self by blast
    moreover have "\<forall>k. \<not> desc ns i p k" using child.hyps child.prems desc.below by blast
    ultimately show ?case using child par [of j m] by (auto intro: has_depth.child)
  qed
  have top: "has_depth ns' i (Suc pd)"
  proof (cases q)
    case None
    with q par [OF i] show ?thesis by (auto intro: has_depth.root)
  next
    case (Some p)
    with q par [OF i] stay [of p pd] show ?thesis by (auto intro: has_depth.child)
  qed
  have moved: "has_depth ns' j (Suc (pd + k))" if "desc ns i j k" for j k
    using that
  proof induction
    case (self n)
    show ?case using top by simp
  next
    case (below j k c cn)
    have "desc ns i c (Suc k)" using below.hyps by (rule desc.below)
    then have "c \<noteq> i" using desc_loop_free [OF _ di] by blast
    with below par [of c cn] show ?case by (auto intro: has_depth.child)
  qed
  show ?thesis
    unfolding depth_ok_def
  proof (intro allI impI)
    fix j m'
    assume "fmlookup ns' j = Some m'"
    then obtain m where m: "fmlookup ns j = Some m" using dom by blast
    show "\<exists>e \<le> mx. has_depth ns' j e"
    proof (cases "\<exists>k. desc ns i j k")
      case True
      then obtain k where k: "desc ns i j k" by blast
      then have "k < h" using h by (simp add: is_height_def)
      with moved [OF k] fits show ?thesis by (intro exI [of _ "Suc (pd + k)"]) simp
    next
      case False
      obtain e where "e \<le> mx" "has_depth ns j e" using old m by (auto simp: depth_ok_def)
      with stay False show ?thesis by blast
    qed
  qed
qed

end
