(* ===== verification/Model_Contract.thy ===== *)
theory Model_Contract
  imports Node_Graph
begin

text \<open>
  What the store relies on when it runs an operation on one of its collection models.  The
  locale \<open>model_operation\<close> is the contract: run on valid arguments, the operation ends, and
  unless it panics it keeps the index invariant, the identity of the model and the validity
  of the cached items, also when it reports an error.  The four operations the store calls
  are instances.
\<close>

section \<open>Validity of items\<close>

definition item_ok :: "store_limits \<Rightarrow> model_item \<Rightarrow> bool" where
  "item_ok l it \<longleftrightarrow>
     value_ok l (item_value it) \<and> (\<forall>p v. fmlookup (item_properties it) p = Some v \<longrightarrow> value_ok l v)"

definition items_all :: "(model_item \<Rightarrow> bool) \<Rightarrow> model \<Rightarrow> bool" where
  "items_all P m \<longleftrightarrow> (\<forall>i it. fmlookup (items m) i = Some it \<longrightarrow> P it)"

lemma validate_item_iff: "validate_item l it = Ok u \<longleftrightarrow> item_ok l it"
  by (simp add: validate_item_def result_simps validate_value_iff item_ok_def ball_sorted_list_of_fmap)

lemma validate_items_iff:
  "validate_items l its = Ok u \<longleftrightarrow>
     length its \<le> max_items_per_model_operation l \<and> (\<forall>it \<in> set its. item_ok l it)"
  by (auto simp: validate_items_def result_simps validate_item_iff)

lemma validate_items_faults: "validate_items l its = Inl f \<Longrightarrow> \<exists>e. f = Err e"
  by (auto simp: validate_items_def validate_model_items_batch_def validate_item_def result_simps
      split: if_splits dest!: for_each_fault validate_value_faults)

lemma items_all_item_count [simp]: "items_all P (m\<lparr>item_count := c\<rparr>) = items_all P m"
  by (simp add: items_all_def)

lemma items_all_remove: "items_all P m \<Longrightarrow> items_all P (fold remove_index ks m)"
  by (auto simp: items_all_def fold_remove_items split: if_splits)

lemma items_all_put [simp]:
  "items_all P m \<Longrightarrow> P it \<Longrightarrow> items_all P (put_item t it m)"
  by (simp add: items_all_def)

lemma items_all_write [simp]:
  "items_all P m \<Longrightarrow> P it \<Longrightarrow> items_all P (m\<lparr>items := fmupd t it (items m)\<rparr>)"
  by (simp add: items_all_def)

lemma shift_loop_all:
  "shift_loop d xs m = (r, m') \<Longrightarrow> items_all P m \<Longrightarrow> \<forall>x \<in> set xs. P (snd x) \<Longrightarrow> items_all P m'"
  by (induction d xs m rule: shift_loop.induct) (auto split: option.splits)

lemma shift_all:
  assumes "shift_cached_indices f d m = (r, m')" "items_all P m"
  shows "items_all P m'"
proof (cases "d = 0")
  case False
  let ?xs = "sorted_list_of_fmap (fmfilter (\<lambda>i. f \<le> i) (items m))"
  have "shift_loop d ?xs (m\<lparr>items := fmfilter (\<lambda>i. i < f) (items m)\<rparr>) = (r, m')"
    using assms False by (simp add: shift_cached_indices_def)
  moreover have "items_all P (m\<lparr>items := fmfilter (\<lambda>i. i < f) (items m)\<rparr>)"
    using assms(2) by (simp add: items_all_def)
  moreover have "\<forall>x \<in> set ?xs. P (snd x)"
    using assms(2) by (simp add: items_all_def ball_sorted_list_of_fmap)
  ultimately show ?thesis by (rule shift_loop_all)
qed (use assms in \<open>simp add: shift_cached_indices_def\<close>)

lemma put_items_all:
  "put_items index i its m = (r, m') \<Longrightarrow> items_all P m \<Longrightarrow> \<forall>it \<in> set its. P it \<Longrightarrow> items_all P m'"
  by (induction index i its m rule: put_items.induct) (auto split: option.splits)

lemma update_at_all:
  assumes "model_ok m" "items_all P m" "P it"
  shows "items_all P (update_at t it m)"
  using assms(2,3) by (auto simp: items_all_def update_at_items [OF assms(1)] split: if_splits option.splits)

lemma update_loop_all:
  "update_loop index i its m = (r, m') \<Longrightarrow> model_ok m \<Longrightarrow> items_all P m \<Longrightarrow> \<forall>it \<in> set its. P it \<Longrightarrow>
   items_all P m'"
  by (induction index i its m rule: update_loop.induct)
     (auto simp: update_at_ok update_at_all update_by_id_ok split: option.splits if_splits)

lemma update_loop_frame:
  "update_loop index i its m = (r, m') \<Longrightarrow> m_id m' = m_id m \<and> model_type m' = model_type m"
  by (induction index i its m rule: update_loop.induct) (auto split: option.splits if_splits)

lemma insert_items_all:
  assumes "insert_items index its m = (r, m')" "items_all P m" "\<forall>it \<in> set its. P it"
  shows "items_all P m'"
  using assms
  by (auto simp: insert_items_def Let_def and_then_st_def split: if_splits option.splits prod.splits sum.splits
      dest!: shift_all put_items_all)

lemma delete_ids_all:
  "delete_ids ks m = (r, m') \<Longrightarrow> items_all P m \<Longrightarrow> items_all P m'"
proof (induction ks arbitrary: m)
  case (Cons k ks)
  show ?case
  proof (cases "fmlookup (id_to_index m) k")
    case None
    with Cons show ?thesis by auto
  next
    case (Some idx)
    let ?m1 = "m\<lparr>id_to_index := fmdrop k (id_to_index m), items := fmdrop idx (items m),
      item_count := saturating_sub (item_count m) 1\<rparr>"
    have m1: "items_all P ?m1" using Cons.prems(2) by (simp add: items_all_def)
    show ?thesis
    proof (cases "checked_add idx 1")
      case None
      with Some Cons.prems m1 show ?thesis by auto
    next
      case f: (Some f)
      obtain r2 m2 where sh: "shift_cached_indices f (- 1) ?m1 = (r2, m2)" by fastforce
      have "items_all P m2" using sh m1 by (rule shift_all)
      with Some f sh Cons show ?thesis by (cases r2) auto
    qed
  qed
qed auto

lemma delete_range_all:
  assumes "delete_range idx cnt m = (r, m')" "items_all P m"
  shows "items_all P m'"
  using assms
  by (auto simp: delete_range_def Let_def and_then_st_def items_all_remove
      split: if_splits option.splits prod.splits sum.splits dest!: shift_all)

lemma delete_items_all:
  assumes "delete_items index n ids m = (r, m')" "items_all P m"
  shows "items_all P m'"
  using assms
  by (auto simp: delete_items_def Let_def split: if_splits dest: delete_ids_all delete_range_all)

lemma reset_range_all:
  assumes "reset_range start_index its total_count m = (r, m')" "items_all P m" "\<forall>it \<in> set its. P it"
  shows "items_all P m'"
  using assms
  by (auto simp: reset_range_alt Let_def items_all_remove split: if_splits option.splits dest!: put_items_all [where P = P])

section \<open>The contract\<close>

definition models_ok :: "store_limits \<Rightarrow> (model_id, model) fmap \<Rightarrow> bool" where
  "models_ok l ms \<longleftrightarrow>
     (\<forall>i m. fmlookup ms i = Some m \<longrightarrow> m_id m = i \<and> model_ok m \<and> items_all (item_ok l) m)"

locale model_operation =
  fixes run :: "'a \<Rightarrow> store_limits \<Rightarrow> model \<Rightarrow> unit model_result"
    and valid :: "'a \<Rightarrow> store_limits \<Rightarrow> bool"
  assumes keeps_index: "valid a l \<Longrightarrow> run a l m = (r, m') \<Longrightarrow> r \<noteq> Inl Panic \<Longrightarrow> model_ok m \<Longrightarrow> model_ok m'"
    and keeps_identity: "valid a l \<Longrightarrow> run a l m = (r, m') \<Longrightarrow> r \<noteq> Inl Panic \<Longrightarrow> model_ok m \<Longrightarrow>
      m_id m' = m_id m \<and> model_type m' = model_type m"
    and keeps_items: "valid a l \<Longrightarrow> run a l m = (r, m') \<Longrightarrow> r \<noteq> Inl Panic \<Longrightarrow> model_ok m \<Longrightarrow>
      items_all (item_ok l) m \<Longrightarrow> items_all (item_ok l) m'"
    and ends: "valid a l \<Longrightarrow> run a l m = (r, m') \<Longrightarrow> r \<noteq> Inl Panic \<Longrightarrow> model_ok m \<Longrightarrow> r \<noteq> Inl Diverge"
begin

lemma with_model_ends:
  assumes "valid a (limits s)" "with_model i (run a (limits s)) s = (r, s')" "r \<noteq> Inl Panic"
    and "models_ok (limits s) (models s)"
  shows "r \<noteq> Inl Diverge"
  using assms ends [OF assms(1)]
  by (auto simp: with_model_def models_ok_def split: option.splits prod.splits)

lemma with_model_keeps:
  assumes "valid a (limits s)" "with_model i (run a (limits s)) s = (r, s')" "r \<noteq> Inl Panic"
    and "models_ok (limits s) (models s)"
  shows "models_ok (limits s) (models s')"
proof (cases "fmlookup (models s) i")
  case None
  with assms show ?thesis by (simp add: with_model_def)
next
  case (Some m)
  obtain m' where m': "run a (limits s) m = (r, m')" "s' = s\<lparr>models := fmupd i m' (models s)\<rparr>"
    using assms(2) Some by (auto simp: with_model_def split: prod.splits)
  have m: "m_id m = i" "model_ok m" "items_all (item_ok (limits s)) m"
    using assms(4) Some by (auto simp: models_ok_def)
  show ?thesis
    using assms(4) m keeps_index [OF assms(1) m'(1) assms(3) m(2)]
      keeps_identity [OF assms(1) m'(1) assms(3) m(2)] keeps_items [OF assms(1) m'(1) assms(3) m(2,3)]
    by (simp add: m'(2) models_ok_def)
qed

end

definition items_valid :: "model_item list \<Rightarrow> store_limits \<Rightarrow> bool" where
  "items_valid its l \<longleftrightarrow> length its < 2 ^ 63 \<and> (\<forall>it \<in> set its. item_ok l it)"

text \<open>The loops fail only by panicking.\<close>

lemma shift_loop_faults: "shift_loop d xs m = (Inl f, m') \<Longrightarrow> f = Panic"
  by (induction d xs m rule: shift_loop.induct) (auto split: option.splits)

lemma shift_faults: "shift_cached_indices i d m = (Inl f, m') \<Longrightarrow> f = Panic"
  by (auto simp: shift_cached_indices_def Let_def split: if_splits dest: shift_loop_faults)

lemma put_items_faults: "put_items index i its m = (Inl f, m') \<Longrightarrow> f = Panic"
  by (induction index i its m rule: put_items.induct) (auto split: option.splits)

lemma insert_items_faults:
  "insert_items index its m = (Inl f, m') \<Longrightarrow> f = Panic \<or> m' = m \<and> (\<exists>e. f = Err e)"
  by (auto simp: insert_items_def Let_def result_simps split: if_splits option.splits
      dest: shift_faults put_items_faults)

lemma delete_ids_faults: "delete_ids ks m = (Inl f, m') \<Longrightarrow> f = Panic"
  by (induction ks arbitrary: m) (auto simp: Let_def result_simps split: option.splits dest: shift_faults)

lemma delete_range_faults:
  "delete_range idx cnt m = (Inl f, m') \<Longrightarrow> f = Panic \<or> m' = m \<and> (\<exists>e. f = Err e)"
  by (auto simp: delete_range_def Let_def result_simps split: if_splits option.splits dest: shift_faults)

lemma delete_items_faults:
  "delete_items index n ids m = (Inl f, m') \<Longrightarrow> f = Panic \<or> m' = m \<and> (\<exists>e. f = Err e)"
  by (auto simp: delete_items_def Let_def split: if_splits dest: delete_ids_faults delete_range_faults)

lemma update_loop_ends: "update_loop index i its m = (Inl f, m') \<Longrightarrow> f \<noteq> Diverge"
  by (induction index i its m rule: update_loop.induct) (auto split: option.splits if_splits)

lemma reset_range_ends: "reset_range start_index its total_count m = (Inl f, m') \<Longrightarrow> f \<noteq> Diverge"
  by (auto simp: reset_range_alt Let_def split: option.splits if_splits dest: put_items_faults)

text \<open>One lemma per operation, in the form of the contract.\<close>

lemma cached_insert_keeps:
  assumes "cached_insert l index its m = (r, m')" "items_valid its l" "r \<noteq> Inl Panic" "model_ok m"
  shows "model_ok m' \<and> m_id m' = m_id m \<and> model_type m' = model_type m \<and>
    (items_all (item_ok l) m \<longrightarrow> items_all (item_ok l) m') \<and> r \<noteq> Inl Diverge"
proof (cases "insert_items index its m = (r, m')")
  case False
  with assms show ?thesis by (auto simp: cached_insert_def Let_def split: if_splits)
next
  case True
  note all = insert_items_all [OF True, of "item_ok l"]
  show ?thesis
  proof (cases r)
    case (Inl f)
    with insert_items_faults [of index its m f m'] True assms show ?thesis by auto
  next
    case (Inr u)
    with insert_items_refines [of index its m u m'] True assms all show ?thesis
      by (auto simp: items_valid_def)
  qed
qed

lemma delete_items_keeps:
  assumes "delete_items index n ids m = (r, m')" "r \<noteq> Inl Panic" "model_ok m"
  shows "model_ok m' \<and> m_id m' = m_id m \<and> model_type m' = model_type m \<and>
    (items_all (item_ok l) m \<longrightarrow> items_all (item_ok l) m') \<and> r \<noteq> Inl Diverge"
proof (cases r)
  case (Inl f)
  with delete_items_faults [of index n ids m f m'] assms show ?thesis by auto
next
  case (Inr u)
  with delete_items_Ok [of index n ids m u m'] assms delete_items_all [OF assms(1), of "item_ok l"]
  show ?thesis by auto
qed

lemma update_items_keeps:
  assumes "update_items index its m = (r, m')" "items_valid its l" "model_ok m"
  shows "model_ok m' \<and> m_id m' = m_id m \<and> model_type m' = model_type m \<and>
    (items_all (item_ok l) m \<longrightarrow> items_all (item_ok l) m') \<and> r \<noteq> Inl Diverge"
  using assms update_items_ok [OF assms(1,3)] update_loop_frame [of index 0 its m r m']
    update_loop_all [of index 0 its m r m' "item_ok l"] update_loop_ends [of index 0 its m _ m']
  by (auto simp: update_items_def items_valid_def)

lemma evict_all: "items_all P m \<Longrightarrow> items_all P (evict_farthest_outside ks ke n m)"
  by (simp add: evict_alt items_all_remove)

lemma reset_range_keeps:
  assumes rr: "reset_range start_index its total_count m = (r, m')" and "items_valid its l" "model_ok m"
  shows "model_ok m' \<and> m_id m' = m_id m \<and> model_type m' = model_type m \<and>
    (items_all (item_ok l) m \<longrightarrow> items_all (item_ok l) m') \<and> r \<noteq> Inl Diverge"
proof (cases r)
  case (Inl f)
  with reset_range_Err [of start_index its total_count m f m'] reset_range_ends [of start_index its total_count m f m']
    assms show ?thesis by (auto simp: items_valid_def)
next
  case (Inr u)
  with reset_range_Ok [of start_index its total_count m u m'] reset_range_all [OF rr, of "item_ok l"]
    assms show ?thesis by (auto simp: items_valid_def)
qed

lemma cached_reset_keeps:
  assumes "cached_reset l start_index its total_count m = (r, m')" "items_valid its l" "model_ok m"
  shows "model_ok m' \<and> m_id m' = m_id m \<and> model_type m' = model_type m \<and>
    (items_all (item_ok l) m \<longrightarrow> items_all (item_ok l) m') \<and> r \<noteq> Inl Diverge"
proof -
  obtain m1 where m1: "m1 = m \<or> (\<exists>ks ke n. m1 = evict_farthest_outside ks ke n m)"
    and res: "m' = m1 \<and> (\<exists>e. r = Error e) \<or> reset_range start_index its total_count m1 = (r, m')"
    using assms(1) by (auto simp: cached_reset_def Let_def split: if_splits)
  from m1 have k: "model_ok m1 \<and> m_id m1 = m_id m \<and> model_type m1 = model_type m \<and>
      (items_all (item_ok l) m \<longrightarrow> items_all (item_ok l) m1)"
    using assms(3) by (auto simp: evict_ok evict_all)
  from res show ?thesis
  proof
    assume "reset_range start_index its total_count m1 = (r, m')"
    from reset_range_keeps [OF this assms(2)] k show ?thesis by auto
  qed (use k in auto)
qed

interpretation ins: model_operation
  "\<lambda>(index, its) l. cached_insert l index its" "\<lambda>(index, its). items_valid its"
  by unfold_locales (auto dest: cached_insert_keeps)

interpretation del: model_operation
  "\<lambda>(index, n, ids) l. delete_items index n ids" "\<lambda>a l. True"
  by unfold_locales (auto dest: delete_items_keeps)

interpretation upd: model_operation
  "\<lambda>(index, its) l. update_items index its" "\<lambda>(index, its). items_valid its"
  by unfold_locales (auto dest: update_items_keeps)

interpretation rst: model_operation
  "\<lambda>(start_index, its, total) l. cached_reset l start_index its total"
  "\<lambda>(start_index, its, total). items_valid its"
  by unfold_locales (auto dest: cached_reset_keeps)

end
