(* ===== verification/Store_Invariant.thy ===== *)
theory Store_Invariant
  imports Model_Contract
begin

text \<open>
  The invariant of the store and its preservation by every operation.

  \<^item> \<open>store_ok\<close>: the node links form a forest (\<open>links_ok\<close>), no deeper than
    \<open>max_tree_depth\<close>, all property values respect the value limits, node and model counts
    respect theirs, no live id is missing from the set of used ids, every model satisfies
    the index invariant and holds only valid items.  Its last conjunct bounds the
    configured batch size by \<open>2 ^ 63\<close>, which every \<open>Vec\<close> respects.
  \<^item> \<open>refs_ok\<close>: every \<open>model_ref\<close> property names a live model.  \<open>delete_model\<close>, which no
    wire operation reaches, is the only operation that can break it.
\<close>

section \<open>The invariant\<close>

definition values_ok :: "store_limits \<Rightarrow> node_map \<Rightarrow> bool" where
  "values_ok l ns \<longleftrightarrow>
     (\<forall>i n p v. fmlookup ns i = Some n \<longrightarrow> fmlookup (properties n) p = Some v \<longrightarrow> value_ok l v)"

definition refs_ok :: "semantic_store \<Rightarrow> bool" where
  "refs_ok s \<longleftrightarrow>
     (\<forall>i n v. fmlookup (nodes s) i = Some n \<longrightarrow> fmlookup (properties n) MODEL_REF = Some v \<longrightarrow>
        (\<exists>mid. model_ref_value v = Some mid \<and> contains_model s mid))"

definition store_ok :: "semantic_store \<Rightarrow> bool" where
  "store_ok s \<longleftrightarrow>
     links_ok (nodes s) (roots s) \<and>
     depth_ok (max_tree_depth (limits s)) (nodes s) \<and>
     values_ok (limits s) (nodes s) \<and>
     fmdom (nodes s) |\<subseteq>| used_ids s \<and>
     len_map (nodes s) \<le> max_node_count (limits s) \<and>
     models_ok (limits s) (models s) \<and>
     fmdom (models s) |\<subseteq>| used_model_ids s \<and>
     len_map (models s) \<le> max_model_count (limits s) \<and>
     max_items_per_model_operation (limits s) < 2 ^ 63"

text \<open>
  What an operation must do with the store it changes.  The last four conjuncts are the
  identity discipline: used ids stay used, and an id that was used does not come to life.
\<close>

definition keeps :: "semantic_store \<Rightarrow> semantic_store \<Rightarrow> bool" where
  "keeps s s' \<longleftrightarrow>
     store_ok s' \<and> (refs_ok s \<longrightarrow> refs_ok s') \<and>
     limits s' = limits s \<and> revision s' = revision s \<and>
     used_ids s |\<subseteq>| used_ids s' \<and> used_model_ids s |\<subseteq>| used_model_ids s' \<and>
     fmdom (nodes s') |\<inter>| used_ids s |\<subseteq>| fmdom (nodes s) \<and>
     fmdom (models s') |\<inter>| used_model_ids s |\<subseteq>| fmdom (models s)"

lemma keeps_refl [simp]: "keeps s s \<longleftrightarrow> store_ok s"
  by (auto simp: keeps_def)

lemma keeps_trans: "keeps s t \<Longrightarrow> keeps t u \<Longrightarrow> keeps s u"
  by (auto simp: keeps_def)

lemma store_okD:
  assumes "store_ok s"
  shows "links_ok (nodes s) (roots s)" "depth_ok (max_tree_depth (limits s)) (nodes s)"
    "values_ok (limits s) (nodes s)" "fmdom (nodes s) |\<subseteq>| used_ids s"
    "len_map (nodes s) \<le> max_node_count (limits s)" "models_ok (limits s) (models s)"
    "fmdom (models s) |\<subseteq>| used_model_ids s" "len_map (models s) \<le> max_model_count (limits s)"
    "max_items_per_model_operation (limits s) < 2 ^ 63"
  using assms by (simp_all add: store_ok_def)

lemma store_ok_depth:
  assumes "store_ok s" "fmlookup (nodes s) i = Some n"
  obtains d where "has_depth (nodes s) i d" "d \<le> max_tree_depth (limits s)" "node_depth s i = Ok (Some d)"
  using store_okD(2) [OF assms(1)] assms(2) node_depth_eq by (auto simp: depth_ok_def)

lemma with_limits_ok:
  "max_items_per_model_operation l < 2 ^ 63 \<Longrightarrow> store_ok (with_limits_and_revision l r)"
  "refs_ok (with_limits_and_revision l r)"
  by (simp_all add: with_limits_and_revision_def store_ok_def links_ok_def depth_ok_def values_ok_def
      models_ok_def refs_ok_def fcard_fempty)

section \<open>Validation of properties\<close>

definition property_ok :: "semantic_store \<Rightarrow> property_ref \<Rightarrow> value_t \<Rightarrow> bool" where
  "property_ok s p v \<longleftrightarrow>
     value_ok (limits s) v \<and>
     (p = MODEL_REF \<longrightarrow> (\<exists>mid. model_ref_value v = Some mid \<and> contains_model s mid))"

lemma validate_references_iff:
  "validate_property_references s p v = Ok u \<longleftrightarrow>
     (p = MODEL_REF \<longrightarrow> (\<exists>mid. model_ref_value v = Some mid \<and> contains_model s mid))"
  by (auto simp: validate_property_references_def split: option.splits)

lemma validate_references_faults: "validate_property_references s p v = Inl f \<Longrightarrow> \<exists>e. f = Err e"
  by (auto simp: validate_property_references_def split: option.splits if_splits)

lemma validate_properties_iff:
  "validate_properties s ps = Ok u \<longleftrightarrow> (\<forall>p \<in> set ps. property_ok s (fst p) (snd p))"
  by (auto simp: validate_properties_def result_simps validate_value_iff validate_references_iff property_ok_def)

lemma validate_properties_faults: "validate_properties s ps = Inl f \<Longrightarrow> \<exists>e. f = Err e"
  by (auto simp: validate_properties_def result_simps
      dest!: for_each_fault dest: validate_value_faults validate_references_faults)

lemma collect_properties_lookup:
  "fmlookup (collect_properties ps m) p = Some v \<Longrightarrow> fmlookup m p = Some v \<or> (p, v) \<in> set ps"
  unfolding collect_properties_def
  by (induction ps arbitrary: m) (fastforce split: if_splits)+

text \<open>Writing a node whose links stay and whose properties are valid.\<close>

lemma write_properties_keeps:
  assumes ok: "store_ok s" and i: "fmlookup (nodes s) i = Some n"
    and ps: "\<And>p v. fmlookup ps p = Some v \<Longrightarrow> fmlookup (properties n) p = Some v \<or> property_ok s p v"
  shows "keeps s (s\<lparr>nodes := fmupd i (n\<lparr>properties := ps\<rparr>) (nodes s)\<rparr>)"
proof -
  let ?n = "n\<lparr>properties := ps\<rparr>" and ?ns = "fmupd i (n\<lparr>properties := ps\<rparr>) (nodes s)"
  note D = store_okD [OF ok]
  have same: "same_links (nodes s) ?ns" using i by (rule same_links_upd) (simp add: skel_def)
  have "value_ok (limits s) v" if "fmlookup ps p = Some v" for p v
    using ps [OF that] i D(3) by (auto simp: property_ok_def values_ok_def)
  then have "values_ok (limits s) ?ns" using D(3) by (simp add: values_ok_def)
  moreover have "finsert i (fmdom (nodes s)) = fmdom (nodes s)" using i by (simp add: fmdomI finsert_absorb)
  moreover have "refs_ok (s\<lparr>nodes := ?ns\<rparr>)" if "refs_ok s"
  proof -
    have "\<exists>mid. model_ref_value v = Some mid \<and> contains_model s mid" if "fmlookup ps MODEL_REF = Some v" for v
      using ps [OF that] i \<open>refs_ok s\<close> by (auto simp: property_ok_def refs_ok_def)
    then show ?thesis using that by (simp add: refs_ok_def contains_model_def)
  qed
  ultimately show ?thesis
    using D links_ok_same [OF same D(1)] depth_ok_same [OF same D(2)]
    by (simp add: keeps_def store_ok_def)
qed

lemma set_property_keeps:
  assumes "set_property i p v s = (r, s')" "store_ok s"
  shows "keeps s s' \<and> ((\<exists>x. r = Ok x) \<or> (\<exists>e. r = Error e) \<and> s' = s)"
proof -
  consider f where "r = Inl f" "s' = s" "\<exists>e. f = Err e"
    | n where "property_ok s p v" "fmlookup (nodes s) i = Some n" "r = Ok (fmlookup (properties n) p)"
      "s' = s\<lparr>nodes := fmupd i (n\<lparr>properties := fmupd p v (properties n)\<rparr>) (nodes s)\<rparr>"
    using assms(1)
    by (cases r) (auto simp: set_property_def result_simps property_ok_def validate_value_iff
        validate_references_iff split: option.splits dest: validate_value_faults validate_references_faults)
  then show ?thesis
  proof cases
    case 2
    have "keeps s s'" unfolding 2(4)
      by (rule write_properties_keeps [OF assms(2) 2(2)]) (use 2(1) in \<open>auto split: if_splits\<close>)
    with 2 show ?thesis by simp
  qed (use assms in auto)
qed

lemma clear_property_keeps:
  assumes "clear_property i p s = (r, s')" "store_ok s"
  shows "keeps s s' \<and> ((\<exists>x. r = Ok x) \<or> (\<exists>e. r = Error e) \<and> s' = s)"
proof (cases "fmlookup (nodes s) i")
  case (Some n)
  have "keeps s (s\<lparr>nodes := fmupd i (n\<lparr>properties := fmdrop p (properties n)\<rparr>) (nodes s)\<rparr>)"
    by (rule write_properties_keeps [OF assms(2) Some]) (auto split: if_splits)
  with Some assms show ?thesis by (auto simp: clear_property_def)
qed (use assms in \<open>auto simp: clear_property_def\<close>)

lemma batch_property_set_keeps:
  assumes "batch_property_set i ps s = (r, s')" "store_ok s"
  shows "keeps s s' \<and> ((\<exists>x. r = Ok x) \<or> (\<exists>e. r = Error e) \<and> s' = s)"
proof -
  consider f where "r = Inl f" "s' = s" "\<exists>e. f = Err e"
    | n where "\<forall>p \<in> set ps. property_ok s (fst p) (snd p)" "fmlookup (nodes s) i = Some n" "r = Ok ()"
      "s' = s\<lparr>nodes := fmupd i (n\<lparr>properties := collect_properties ps (properties n)\<rparr>) (nodes s)\<rparr>"
    using assms(1)
    by (cases r) (auto simp: batch_property_set_def result_simps validate_properties_iff
        split: option.splits dest: validate_properties_faults)
  then show ?thesis
  proof cases
    case 2
    have "keeps s s'" unfolding 2(4)
      by (rule write_properties_keeps [OF assms(2) 2(2)])
         (use 2(1) collect_properties_lookup in fastforce)
    with 2 show ?thesis by simp
  qed (use assms in auto)
qed

section \<open>Nodes\<close>

text \<open>
  A change of the node map: no new id beyond the used ones, each node comes with the
  properties of an old one.
\<close>

lemma change_graph_keeps:
  assumes ok: "store_ok s"
    and links: "links_ok ns rts" and depth: "depth_ok (max_tree_depth (limits s)) ns"
    and old: "\<And>j m'. fmlookup ns j = Some m' \<Longrightarrow> \<exists>m. fmlookup (nodes s) j = Some m \<and> properties m' = properties m"
  shows "keeps s (s\<lparr>nodes := ns, roots := rts\<rparr>)"
proof -
  note D = store_okD [OF ok]
  have sub: "fmdom ns |\<subseteq>| fmdom (nodes s)"
    by (rule fsubsetI) (metis fmdomE fmdomI old)
  then have "len_map ns \<le> len_map (nodes s)" by (rule fcard_mono)
  moreover have "values_ok (limits s) ns" using D(3) old unfolding values_ok_def by metis
  moreover have "refs_ok (s\<lparr>nodes := ns, roots := rts\<rparr>)" if "refs_ok s"
    using that old unfolding refs_ok_def contains_model_def by simp metis
  ultimately show ?thesis using D links depth sub by (auto simp: keeps_def store_ok_def)
qed

lemma delete_node_spec:
  assumes ok: "store_ok s" and i: "fmlookup (nodes s) i = Some n"
  obtains ns' deleted where
    "delete_node i s = (Ok deleted, s\<lparr>nodes := ns', roots := retain_not i (roots s)\<rparr>)"
    "distinct deleted" "set deleted = {j. \<exists>k. desc (nodes s) i j k}"
    "\<And>j. fmlookup ns' j = (if \<exists>k. desc (nodes s) i j k then None else map_option (strip i) (fmlookup (nodes s) j))"
proof -
  note D = store_okD [OF ok]
  obtain d where d: "has_depth (nodes s) i d" using store_ok_depth [OF ok i] .
  obtain ns' deleted where ds: "delete_subtrees [i] (fmmap (strip i) (nodes s), []) = (ns', deleted)"
    by (cases "delete_subtrees [i] (fmmap (strip i) (nodes s), [])")
  let ?s1 = "detach i (parent_id n) s"
  have "?s1\<lparr>nodes := ns'\<rparr> = s\<lparr>nodes := ns', roots := retain_not i (roots s)\<rparr>"
    using detach_eq(2) [OF D(1) i] by (intro semantic_store.equality) simp_all
  then have "delete_node i s = (Ok deleted, s\<lparr>nodes := ns', roots := retain_not i (roots s)\<rparr>)"
    using i ds detach_eq(1) [OF D(1) i] by (simp add: delete_node_def delete_subtree_recursive_def)
  with delete_stripped [OF D(1) i d ds] show thesis by (rule_tac that) auto
qed

lemma delete_node_keeps:
  assumes del: "delete_node i s = (r, s')" and ok: "store_ok s"
  shows "keeps s s' \<and> ((\<exists>x. r = Ok x) \<or> (\<exists>e. r = Error e) \<and> s' = s)"
proof (cases "fmlookup (nodes s) i")
  case None
  with assms show ?thesis by (auto simp: delete_node_def)
next
  case (Some n)
  note D = store_okD [OF ok]
  obtain d where d: "has_depth (nodes s) i d" using store_ok_depth [OF ok Some] .
  obtain ns' deleted where *:
    "delete_node i s = (Ok deleted, s\<lparr>nodes := ns', roots := retain_not i (roots s)\<rparr>)"
    "distinct deleted" "set deleted = {j. \<exists>k. desc (nodes s) i j k}"
    and L: "\<And>j. fmlookup ns' j = (if \<exists>k. desc (nodes s) i j k then None else map_option (strip i) (fmlookup (nodes s) j))"
    by (rule delete_node_spec [OF ok Some]) blast
  have "keeps s (s\<lparr>nodes := ns', roots := retain_not i (roots s)\<rparr>)"
  proof (rule change_graph_keeps [OF ok])
    show "links_ok ns' (retain_not i (roots s))" using D(1) Some d L by (rule delete_links(1))
    show "depth_ok (max_tree_depth (limits s)) ns'" using D(1) Some d L D(2) by (rule delete_links(2))
    show "\<exists>m. fmlookup (nodes s) j = Some m \<and> properties m' = properties m" if "fmlookup ns' j = Some m'" for j m'
      using that by (auto simp: L split: if_splits)
  qed
  with * del show ?thesis by simp
qed

text \<open>Reordering.\<close>

lemma check_permutation_Ok:
  "check_permutation pid cs seen xs = Ok u \<longleftrightarrow> set xs \<subseteq> cs \<and> distinct xs \<and> set xs \<inter> seen = {}"
  by (induction pid cs seen xs rule: check_permutation.induct) auto

lemma check_permutation_faults: "check_permutation pid cs seen xs = Inl f \<Longrightarrow> \<exists>e. f = Err e"
  by (induction pid cs seen xs rule: check_permutation.induct) (auto split: if_splits)

lemma children_permutation:
  assumes "set xs \<subseteq> set cs" "distinct xs" "length xs = length cs"
  shows "set xs = set cs"
  using assms by (metis List.finite_set card_length card_seteq distinct_card)

lemma set_children_keeps:
  assumes ok: "store_ok s" and p: "fmlookup (nodes s) pid = Some pn"
    and cs: "set cs = set (ordered_children pn)" "distinct cs"
  shows "keeps s (set_children pid cs pn s)"
proof -
  note D = store_okD [OF ok]
  let ?ns = "fmupd pid (pn\<lparr>ordered_children := cs\<rparr>) (nodes s)"
  have fwd: "\<exists>m'. fmlookup ?ns j = Some m' \<and> n_id m' = n_id m \<and> parent_id m' = parent_id m \<and>
      set (ordered_children m') = set (ordered_children m) \<and> properties m' = properties m"
    if "fmlookup (nodes s) j = Some m" for j m
    using that p cs(1) by (cases "j = pid") simp_all
  have bwd: "\<exists>m. fmlookup (nodes s) j = Some m \<and> n_id m' = n_id m \<and> parent_id m' = parent_id m \<and>
      set (ordered_children m') = set (ordered_children m) \<and> properties m' = properties m \<and>
      distinct (ordered_children m')"
    if jm': "fmlookup ?ns j = Some m'" for j m'
  proof (cases "j = pid")
    case True
    then have "m' = pn\<lparr>ordered_children := cs\<rparr>" using jm' by simp
    with True p cs show ?thesis by simp
  next
    case False
    then have j: "fmlookup (nodes s) j = Some m'" using jm' by simp
    with links_okD(2) [OF D(1) j] show ?thesis by simp
  qed
  have "links_ok ?ns (roots s)"
  proof (rule links_okI)
    fix j m'
    assume "fmlookup ?ns j = Some m'"
    then obtain m where m: "fmlookup (nodes s) j = Some m" "n_id m' = n_id m" "parent_id m' = parent_id m"
        "set (ordered_children m') = set (ordered_children m)" "distinct (ordered_children m')"
      using bwd by blast
    show "n_id m' = j \<and> distinct (ordered_children m')" using m links_okD(1) [OF D(1)] by simp
    show "parent_id m' = None \<Longrightarrow> j \<in> set (roots s)" using m links_okD(3) [OF D(1)] by simp
    show "\<exists>qn. fmlookup ?ns q = Some qn \<and> j \<in> set (ordered_children qn)" if q: "parent_id m' = Some q" for q
    proof -
      obtain qn where qn: "fmlookup (nodes s) q = Some qn" "j \<in> set (ordered_children qn)"
        using links_okD(4) [OF D(1) m(1), of q] m(3) q by auto
      from fwd [OF qn(1)] qn(2) show ?thesis by auto
    qed
    show "\<exists>cn. fmlookup ?ns c = Some cn \<and> parent_id cn = Some j" if c: "c \<in> set (ordered_children m')" for c
    proof -
      have "c \<in> set (ordered_children m)" using c m(4) by simp
      then obtain cn where cn: "fmlookup (nodes s) c = Some cn" "parent_id cn = Some j"
        using links_okD(5) [OF D(1) m(1)] by blast
      from fwd [OF cn(1)] cn(2) show ?thesis by auto
    qed
  next
    show "\<exists>m. fmlookup ?ns x = Some m \<and> parent_id m = None" if "x \<in> set (roots s)" for x
      using links_okD(6) [OF D(1) that] fwd by metis
  qed (rule links_okD(7) [OF D(1)])
  moreover have "depth_ok (max_tree_depth (limits s)) ?ns"
    unfolding depth_ok_def
  proof (intro allI impI)
    fix j m'
    assume "fmlookup ?ns j = Some m'"
    then obtain m where "fmlookup (nodes s) j = Some m" using bwd by blast
    then obtain d where "d \<le> max_tree_depth (limits s)" "has_depth (nodes s) j d"
      using D(2) by (auto simp: depth_ok_def)
    moreover have "has_depth ?ns j d" by (rule has_depth_parents [OF \<open>has_depth (nodes s) j d\<close>]) (use fwd in blast)
    ultimately show "\<exists>d \<le> max_tree_depth (limits s). has_depth ?ns j d" by blast
  qed
  ultimately have "keeps s (s\<lparr>nodes := ?ns, roots := roots s\<rparr>)"
    by (rule change_graph_keeps [OF ok]) (use bwd in blast)
  then show ?thesis by (simp add: set_children_def)
qed

lemma reorder_children_keeps:
  assumes "reorder_children pid new_order s = (r, s')" "store_ok s"
  shows "keeps s s' \<and> ((\<exists>x. r = Ok x) \<or> (\<exists>e. r = Error e) \<and> s' = s)"
proof (cases "\<exists>u. r = Ok u")
  case False
  with assms show ?thesis
    by (cases r) (auto simp: reorder_children_def result_simps split: option.splits if_splits
        dest: check_permutation_faults)
next
  case True
  with assms obtain pn where pn: "fmlookup (nodes s) pid = Some pn" "length new_order = length (ordered_children pn)"
      "set new_order \<subseteq> set (ordered_children pn)" "distinct new_order" "s' = set_children pid new_order pn s"
    by (auto simp: reorder_children_def result_simps check_permutation_Ok split: option.splits if_splits)
  have "set new_order = set (ordered_children pn)" using pn(3,4,2) by (rule children_permutation)
  with set_children_keeps [OF assms(2) pn(1)] pn True show ?thesis by auto
qed

text \<open>Creation.\<close>

lemma new_node_depth_Ok:
  assumes ok: "store_ok s" and d: "new_node_depth s parent = Ok d"
  shows "d \<le> max_tree_depth (limits s) \<or> parent = None \<and> d = 1"
    and "\<And>p. parent = Some p \<Longrightarrow> \<exists>pn e. fmlookup (nodes s) p = Some pn \<and> has_depth (nodes s) p e \<and> d = Suc e"
proof -
  show "d \<le> max_tree_depth (limits s) \<or> parent = None \<and> d = 1"
    using d by (auto simp: new_node_depth_def result_simps split: option.splits if_splits)
  show "\<exists>pn e. fmlookup (nodes s) p = Some pn \<and> has_depth (nodes s) p e \<and> d = Suc e" if p: "parent = Some p" for p
  proof (cases "fmlookup (nodes s) p")
    case None
    then have "node_depth s p = Ok None" by (simp add: node_depth_missing contains_node_def)
    with d p show ?thesis by (simp add: new_node_depth_def)
  next
    case (Some pn)
    obtain e where "has_depth (nodes s) p e" "node_depth s p = Ok (Some e)" using store_ok_depth [OF ok Some] .
    with d p Some show ?thesis by (auto simp: new_node_depth_def split: if_splits)
  qed
qed

lemma new_node_depth_faults:
  assumes ok: "store_ok s" and d: "new_node_depth s parent = Inl f"
  shows "\<exists>e. f = Err e"
proof (cases parent)
  case (Some p)
  show ?thesis
  proof (cases "fmlookup (nodes s) p")
    case None
    then have "node_depth s p = Ok None" by (simp add: node_depth_missing contains_node_def)
    with d Some show ?thesis by (auto simp: new_node_depth_def)
  next
    case pn: (Some pn)
    obtain e where "node_depth s p = Ok (Some e)" using store_ok_depth [OF ok pn] .
    with d Some show ?thesis by (auto simp: new_node_depth_def split: if_splits)
  qed
qed (use d in \<open>simp add: new_node_depth_def\<close>)

lemma place_child_set:
  "set (place_child i idx cs) = insert i (set cs)"
  "distinct (place_child i idx cs) \<longleftrightarrow> i \<notin> set cs \<and> distinct cs"
  by (auto simp: place_child_def split: option.splits)

text \<open>The store after a successful creation.\<close>

definition created :: "node_id \<Rightarrow> type_ref \<Rightarrow> node_id option \<Rightarrow> usize option \<Rightarrow> (property_ref \<times> value_t) list \<Rightarrow>
    semantic_store \<Rightarrow> semantic_store" where
  "created i ty parent child_index ps s =
     s\<lparr>nodes := fmupd i (node_new i ty parent ps)
         (case parent of
            None \<Rightarrow> nodes s
          | Some p \<Rightarrow> (case fmlookup (nodes s) p of
               None \<Rightarrow> nodes s
             | Some pn \<Rightarrow> fmupd p (pn\<lparr>ordered_children := place_child i child_index (ordered_children pn)\<rparr>) (nodes s))),
       roots := (if parent = None then place_child i child_index (roots s) else roots s),
       used_ids := finsert i (used_ids s)\<rparr>"

lemma create_node_cases:
  assumes "create_node i ty parent child_index ps s = (r, s')" and ok: "store_ok s"
  obtains e where "r = Error e" "s' = s"
  | d where "r = Ok ()" "s' = created i ty parent child_index ps s" "i |\<notin>| used_ids s"
      "len_map (nodes s) < max_node_count (limits s)" "new_node_depth s parent = Ok d"
      "d \<le> max_tree_depth (limits s)" "\<forall>p \<in> set ps. property_ok s (fst p) (snd p)"
proof (cases "i |\<in>| used_ids s \<or> len_map (nodes s) \<ge> max_node_count (limits s)")
  case True
  with assms that(1) show thesis by (auto simp: create_node_def split: if_splits)
next
  case False
  show thesis
  proof (cases "new_node_depth s parent")
    case (Inl f)
    with new_node_depth_faults [OF ok Inl] assms False that(1) show thesis by (auto simp: create_node_def)
  next
    case (Inr d)
    show thesis
    proof (cases "d > max_tree_depth (limits s)")
      case True
      with Inr assms False that(1) show thesis by (auto simp: create_node_def)
    next
      case depth: False
      show thesis
      proof (cases "validate_properties s ps")
        case (Inl f)
        then obtain e where "validate_properties s ps = Error e" using validate_properties_faults by blast
        with Inr depth assms False have "r = Error e \<and> s' = s" by (simp add: create_node_def)
        with that(1) show thesis by blast
      next
        case props: (Inr u)
        have pn: "\<exists>pn. fmlookup (nodes s) p = Some pn" if "parent = Some p" for p
          using new_node_depth_Ok(2) [OF ok Inr that] by blast
        have eq: "create_node i ty parent child_index ps s =
            and_then_st (check_child_index s parent child_index, s) (\<lambda>_ s.
            and_then_st (attach_new_node i parent child_index s) (\<lambda>_ s.
              (Ok (), s\<lparr>nodes := fmupd i (node_new i ty parent ps) (nodes s),
                        used_ids := finsert i (used_ids s)\<rparr>)))"
          using False Inr depth props by (simp add: create_node_def)
        have "(\<exists>e. r = Error e \<and> s' = s) \<or> r = Ok () \<and> s' = created i ty parent child_index ps s"
          using assms(1) pn unfolding eq
          by (cases parent; cases child_index)
             (auto simp: check_child_index_def attach_new_node_def created_def set_children_def
               place_child_def split: if_splits)
        with that props Inr depth False show thesis by (auto simp: validate_properties_iff)
      qed
    qed
  qed
qed

lemma created_keeps:
  assumes ok: "store_ok s" and i: "i |\<notin>| used_ids s" and n: "len_map (nodes s) < max_node_count (limits s)"
    and d: "new_node_depth s parent = Ok d" "d \<le> max_tree_depth (limits s)"
    and ps: "\<forall>p \<in> set ps. property_ok s (fst p) (snd p)"
  shows "keeps s (created i ty parent child_index ps s)"
proof -
  note D = store_okD [OF ok]
  let ?n = "node_new i ty parent ps"
  let ?s' = "created i ty parent child_index ps s"
  have fresh: "fmlookup (nodes s) i = None"
    using i D(4) by (meson fmdom_notD fsubsetD)
  have pn: "\<exists>pn. fmlookup (nodes s) p = Some pn \<and> p \<noteq> i" if "parent = Some p" for p
    using new_node_depth_Ok(2) [OF ok d(1) that] fresh by auto
  have look: "fmlookup (nodes ?s') j =
      (if j = i then Some ?n
       else map_option (\<lambda>m. if parent = Some j
         then m\<lparr>ordered_children := place_child i child_index (ordered_children m)\<rparr> else m) (fmlookup (nodes s) j))" for j
    using pn by (cases parent) (auto simp: created_def option.map_ident)
  have loose: "loose i (fmupd i ?n (nodes s)) (roots s)"
    by (rule loose_new [OF D(1) fresh]) (simp_all add: node_new_def)
  have noti: "i \<notin> set (ordered_children m)" if "fmlookup (nodes s) j = Some m" for j m
    using links_okD(5) [OF D(1) that, of i] fresh by auto
  have links: "links_ok (nodes ?s') (roots ?s')"
  proof (rule attach_links [OF loose, of ?n parent _ ?n])
    show "\<exists>cs. fmlookup (nodes ?s') p = Some (pn\<lparr>ordered_children := cs\<rparr>) \<and>
        set cs = insert i (set (ordered_children pn)) \<and> distinct cs"
      if "parent = Some p" "fmlookup (fmupd i ?n (nodes s)) p = Some pn" for p pn
      using that pn [OF that(1)] noti [of p pn] links_okD(2) [OF D(1), of p pn] look [of p]
      by (intro exI [of _ "place_child i child_index (ordered_children pn)"])
         (simp add: place_child_set split: if_splits)
    have "i \<notin> set (roots s)" using links_okD(6) [OF D(1), of i] fresh by auto
    then show "distinct (roots ?s')" using links_okD(7) [OF D(1)] by (simp add: created_def place_child_set)
    show "set (roots ?s') = (if parent = None then insert i (set (roots s)) else set (roots s))"
      by (simp add: created_def place_child_set)
  qed (use pn in \<open>auto simp: look node_new_def option.map_ident\<close>)
  have old: "has_depth (nodes ?s') j e" if "has_depth (nodes s) j e" for j e
    using that by (rule has_depth_parents) (use fresh in \<open>auto simp: look\<close>)
  have new: "has_depth (nodes ?s') i d"
  proof (cases parent)
    case None
    with d(1) have "d = Suc 0" by (simp add: new_node_depth_def)
    with None look [of i] show ?thesis by (auto simp: node_new_def intro: has_depth.root)
  next
    case (Some p)
    then obtain e where "has_depth (nodes s) p e" "d = Suc e" using new_node_depth_Ok(2) [OF ok d(1)] by blast
    with Some old [of p e] look [of i] show ?thesis by (auto simp: node_new_def intro: has_depth.child)
  qed
  have "depth_ok (max_tree_depth (limits s)) (nodes ?s')"
    unfolding depth_ok_def
  proof (intro allI impI)
    fix j m'
    assume "fmlookup (nodes ?s') j = Some m'"
    then have "j = i \<or> (\<exists>m. fmlookup (nodes s) j = Some m)" by (auto simp: look split: if_splits)
    then show "\<exists>e \<le> max_tree_depth (limits s). has_depth (nodes ?s') j e"
      using new d(2) old D(2) unfolding depth_ok_def by metis
  qed
  moreover have props: "fmlookup (properties m') p = Some v \<Longrightarrow> fmlookup (nodes ?s') j = Some m' \<Longrightarrow>
      property_ok s p v \<or> (\<exists>m. fmlookup (nodes s) j = Some m \<and> fmlookup (properties m) p = Some v)" for j m' p v
    using ps collect_properties_lookup [of ps fmempty p v]
    by (fastforce simp: look node_new_def split: if_splits)
  then have "values_ok (limits s) (nodes ?s')"
    using D(3) unfolding values_ok_def property_ok_def by metis
  moreover have "refs_ok ?s'" if refs: "refs_ok s"
  proof -
    have mods: "contains_model ?s' mid = contains_model s mid" for mid
      by (simp add: contains_model_def created_def)
    show ?thesis
      unfolding refs_ok_def mods
    proof (intro allI impI)
      fix j m' v
      assume "fmlookup (nodes ?s') j = Some m'" "fmlookup (properties m') MODEL_REF = Some v"
      from props [OF this(2,1)] show "\<exists>mid. model_ref_value v = Some mid \<and> contains_model s mid"
        using refs by (auto simp: property_ok_def refs_ok_def)
    qed
  qed
  moreover have dom: "fmdom (nodes ?s') = finsert i (fmdom (nodes s))"
    by (rule fset_eqI) (auto simp: look fmlookup_dom_iff)
  moreover have "len_map (nodes ?s') \<le> max_node_count (limits s)"
    using n fresh by (simp add: dom fcard_finsert_disjoint fmdom_notI)
  ultimately show ?thesis
    using D links i by (auto simp: keeps_def store_ok_def created_def)
qed

lemma create_node_keeps:
  assumes "create_node i ty parent child_index ps s = (r, s')" "store_ok s"
  shows "keeps s s' \<and> ((\<exists>x. r = Ok x) \<or> (\<exists>e. r = Error e) \<and> s' = s)"
  using assms(1)
proof (cases rule: create_node_cases [OF _ assms(2), consumes 1, case_names err ok])
  case (ok d)
  with created_keeps [OF assms(2) ok(3-7)] show ?thesis by simp
qed (use assms(2) in simp_all)

text \<open>Moving.\<close>

lemma place_moved_set:
  "set (place_moved i idx cs) = insert i (set cs)"
  "distinct (place_moved i idx cs) \<longleftrightarrow> i \<notin> set cs \<and> distinct cs"
  by (auto simp: place_moved_def split: option.splits)

text \<open>The store after a successful move.\<close>

definition moved :: "node_id \<Rightarrow> node_id option \<Rightarrow> usize option \<Rightarrow> semantic_store \<Rightarrow> semantic_store" where
  "moved i q child_index s =
     (let stripped = fmmap (strip i) (nodes s);
          rts = retain_not i (roots s);
          placed = (case q of
             None \<Rightarrow> stripped
           | Some p \<Rightarrow> (case fmlookup stripped p of
                None \<Rightarrow> stripped
              | Some pn \<Rightarrow> fmupd p (pn\<lparr>ordered_children := place_moved i child_index (ordered_children pn)\<rparr>) stripped))
      in s\<lparr>nodes := (case fmlookup placed i of
                 None \<Rightarrow> placed | Some n \<Rightarrow> fmupd i (n\<lparr>parent_id := q\<rparr>) placed),
           roots := (if q = None then place_moved i child_index rts else rts)\<rparr>)"

lemma check_no_cycle_result:
  assumes ok: "store_ok s" and i: "fmlookup (nodes s) i = Some n"
  shows "(\<exists>e. check_no_cycle s i q = Error e) \<or>
    check_no_cycle s i q = Ok () \<and> (\<forall>p k. q = Some p \<longrightarrow> p \<noteq> i \<and> \<not> desc (nodes s) i p k)"
proof (cases q)
  case (Some p)
  show ?thesis
  proof (cases "p = i")
    case False
    show ?thesis
    proof (cases "fmlookup (nodes s) p")
      case None
      then have "\<not> desc (nodes s) i p k" for k using desc_lookup by fastforce
      with None Some False show ?thesis by (simp add: check_no_cycle_def graph_fuel_def)
    next
      case pn: (Some pn)
      obtain d where d: "has_depth (nodes s) p d" using store_ok_depth [OF ok pn] .
      have "meets_ancestor (graph_fuel (nodes s)) (nodes s) i p = Ok (\<exists>k. desc (nodes s) i p k)"
        by (rule meets_ancestor_iff [OF d _ False i]) (use has_depth_bound [OF d] in \<open>simp add: graph_fuel_def\<close>)
      with Some False show ?thesis by (auto simp: check_no_cycle_def)
    qed
  qed (use Some in \<open>simp add: check_no_cycle_def\<close>)
qed (simp add: check_no_cycle_def)

lemma parent_depth_result:
  assumes ok: "store_ok s"
  shows "(\<exists>e. parent_depth_of s q = Error e) \<or>
    (\<exists>pd. parent_depth_of s q = Ok pd \<and>
       (case q of None \<Rightarrow> pd = 0 | Some p \<Rightarrow> has_depth (nodes s) p pd \<and> (\<exists>pn. fmlookup (nodes s) p = Some pn)))"
proof (cases q)
  case (Some p)
  show ?thesis
  proof (cases "fmlookup (nodes s) p")
    case None
    then have "node_depth s p = Ok None" by (simp add: node_depth_missing contains_node_def)
    with Some show ?thesis by (simp add: parent_depth_of_def)
  next
    case pn: (Some pn)
    obtain d where "has_depth (nodes s) p d" "node_depth s p = Ok (Some d)" using store_ok_depth [OF ok pn] .
    with Some pn show ?thesis by (simp add: parent_depth_of_def)
  qed
qed (simp add: parent_depth_of_def)

lemma move_final:
  assumes ok: "store_ok s" and i: "fmlookup (nodes s) i = Some n"
    and q: "\<And>p. q = Some p \<Longrightarrow> p \<noteq> i \<and> (\<exists>pn. fmlookup (nodes s) p = Some pn)"
  shows "and_then_st (attach_moved i q child_index (detach i (parent_id n) s)) (\<lambda>_. set_parent i q)
    = (Ok (), moved i q child_index s)"
proof -
  have dn: "nodes (detach i (parent_id n) s) = fmmap (strip i) (nodes s)"
    and dr: "roots (detach i (parent_id n) s) = retain_not i (roots s)"
    using detach_eq [OF store_okD(1) [OF ok] i] by auto
  show ?thesis
  proof (cases q)
    case None
    with dn dr i show ?thesis
      by (auto simp: attach_moved_def set_parent_def moved_def Let_def intro!: semantic_store.equality)
  next
    case (Some p)
    with q obtain pn where "p \<noteq> i" "fmlookup (nodes s) p = Some pn" by blast
    with Some dn dr i show ?thesis
      by (auto simp: attach_moved_def set_parent_def moved_def set_children_def Let_def
          intro!: semantic_store.equality)
  qed
qed

lemma move_node_cases:
  assumes mv: "move_node i q child_index s = (r, s')" and ok: "store_ok s"
  obtains (err) e where "r = Error e" "s' = s"
  | (success) n h pd where "r = Ok ()" "s' = moved i q child_index s" "fmlookup (nodes s) i = Some n"
      "is_height (nodes s) i h" "pd + h \<le> max_tree_depth (limits s)"
      "case q of None \<Rightarrow> pd = 0 | Some p \<Rightarrow> has_depth (nodes s) p pd \<and> (\<forall>k. \<not> desc (nodes s) i p k)"
      "\<And>p. q = Some p \<Longrightarrow> p \<noteq> i \<and> (\<exists>pn. fmlookup (nodes s) p = Some pn)"
proof (cases "fmlookup (nodes s) i")
  case None
  with mv err show thesis by (auto simp: move_node_def contains_node_def)
next
  case (Some n)
  obtain d where d: "has_depth (nodes s) i d" using store_ok_depth [OF ok Some] .
  obtain h where h: "subtree_depth s i = Ok h" "is_height (nodes s) i h"
    using subtree_depth_height [OF store_okD(1) [OF ok] d] by blast
  from check_no_cycle_result [OF ok Some, of q]
  consider e where "check_no_cycle s i q = Error e"
    | "check_no_cycle s i q = Ok ()" "\<forall>p k. q = Some p \<longrightarrow> p \<noteq> i \<and> \<not> desc (nodes s) i p k" by blast
  then show thesis
  proof cases
    case 1
    with mv Some have "r = Error e \<and> s' = s" by (simp add: move_node_def contains_node_def)
    with err show thesis by blast
  next
    case 2
    from parent_depth_result [OF ok, of q]
    consider e where "parent_depth_of s q = Error e"
      | pd where "parent_depth_of s q = Ok pd"
        "case q of None \<Rightarrow> pd = 0 | Some p \<Rightarrow> has_depth (nodes s) p pd \<and> (\<exists>pn. fmlookup (nodes s) p = Some pn)"
      by blast
    then show thesis
    proof cases
      case 1
      with mv Some 2(1) h have "r = Error e \<and> s' = s" by (simp add: move_node_def contains_node_def)
      with err show thesis by blast
    next
      case pd: (2 pd)
      have qq: "\<And>p. q = Some p \<Longrightarrow> p \<noteq> i \<and> (\<exists>pn. fmlookup (nodes s) p = Some pn)"
        using pd(2) 2(2) by auto
      then obtain len where len: "dest_len s q = Ok len" by (cases q) (auto simp: dest_len_def)
      show thesis
      proof (cases "pd + h > max_tree_depth (limits s)")
        case True
        with mv Some 2(1) h pd(1) err show thesis by (auto simp: move_node_def contains_node_def)
      next
        case False
        have "(\<exists>e. r = Error e \<and> s' = s) \<or> r = Ok () \<and> s' = moved i q child_index s"
          using mv Some 2(1) h pd(1) False len move_final [OF ok Some qq]
          by (cases child_index) (auto simp: move_node_def contains_node_def split: if_splits)
        then show thesis
        proof
          assume "r = Ok () \<and> s' = moved i q child_index s"
          then show thesis using False pd(2) 2(2) qq h(2) Some by (intro success [of n h pd]) (auto split: option.splits)
        qed (use err in blast)
      qed
    qed
  qed
qed

lemma moved_keeps:
  assumes ok: "store_ok s" and i: "fmlookup (nodes s) i = Some n"
    and h: "is_height (nodes s) i h" and fits: "pd + h \<le> max_tree_depth (limits s)"
    and q: "case q of None \<Rightarrow> pd = 0 | Some p \<Rightarrow> has_depth (nodes s) p pd \<and> (\<forall>k. \<not> desc (nodes s) i p k)"
    and qq: "\<And>p. q = Some p \<Longrightarrow> p \<noteq> i \<and> (\<exists>pn. fmlookup (nodes s) p = Some pn)"
  shows "keeps s (moved i q child_index s)"
proof -
  note D = store_okD [OF ok]
  let ?ns = "fmmap (strip i) (nodes s)" and ?s' = "moved i q child_index s"
  obtain d where d: "has_depth (nodes s) i d" using store_ok_depth [OF ok i] .
  have look: "fmlookup (nodes ?s') j =
      (if j = i then Some ((strip i n)\<lparr>parent_id := q\<rparr>)
       else map_option (\<lambda>m. if q = Some j
         then m\<lparr>ordered_children := place_moved i child_index (ordered_children m)\<rparr> else m) (fmlookup ?ns j))" for j
    using qq i by (cases q) (auto simp: moved_def Let_def option.map_ident)
  have loose: "loose i ?ns (retain_not i (roots s))" using D(1) i d by (rule loose_stripped)
  have links: "links_ok (nodes ?s') (roots ?s')"
  proof (rule attach_links [OF loose, of "strip i n" q _ "(strip i n)\<lparr>parent_id := q\<rparr>"])
    show "\<exists>cs. fmlookup (nodes ?s') p = Some (pn\<lparr>ordered_children := cs\<rparr>) \<and>
        set cs = insert i (set (ordered_children pn)) \<and> distinct cs"
      if "q = Some p" "fmlookup ?ns p = Some pn" for p pn
      using that qq [OF that(1)] looseD(1) [OF loose that(2)] look [of p]
      by (intro exI [of _ "place_moved i child_index (ordered_children pn)"])
         (auto simp: place_moved_set)
    show "distinct (roots ?s')" using links_okD(7) [OF D(1)] by (simp add: moved_def Let_def place_moved_set)
    show "set (roots ?s') = (if q = None then insert i (set (retain_not i (roots s))) else set (retain_not i (roots s)))"
      by (simp add: moved_def Let_def place_moved_set)
    show "n_id ((strip i n)\<lparr>parent_id := q\<rparr>) = i" using links_okD(1) [OF D(1) i] by simp
  qed (use qq i in \<open>auto simp: look option.map_ident\<close>)
  have par: "\<exists>m'. fmlookup (nodes ?s') j = Some m' \<and> parent_id m' = (if j = i then q else parent_id m)"
    if "fmlookup (nodes s) j = Some m" for j m
    using that by (auto simp: look)
  have bwd: "\<exists>m. fmlookup (nodes s) j = Some m \<and> properties m' = properties m"
    if "fmlookup (nodes ?s') j = Some m'" for j m'
    using that i by (auto simp: look split: if_splits)
  have "depth_ok (max_tree_depth (limits s)) (nodes ?s')"
    by (rule move_depth [OF i d D(2) h q fits par]) (use bwd in fastforce)+
  with links have "keeps s (s\<lparr>nodes := nodes ?s', roots := roots ?s'\<rparr>)"
    by (rule change_graph_keeps [OF ok _ _ bwd])
  moreover have "s\<lparr>nodes := nodes ?s', roots := roots ?s'\<rparr> = ?s'" by (simp add: moved_def Let_def)
  ultimately show ?thesis by simp
qed

lemma move_node_keeps:
  assumes "move_node i q child_index s = (r, s')" "store_ok s"
  shows "keeps s s' \<and> ((\<exists>x. r = Ok x) \<or> (\<exists>e. r = Error e) \<and> s' = s)"
  using assms(1)
proof (cases rule: move_node_cases [OF _ assms(2), consumes 1, case_names err ok])
  case (ok n h pd)
  with moved_keeps [OF assms(2) ok(3-7)] show ?thesis by simp
qed (use assms(2) in simp_all)

section \<open>Models\<close>

lemma create_model_keeps:
  assumes "create_model i ty n s = (r, s')" "store_ok s"
  shows "keeps s s' \<and> ((\<exists>x. r = Ok x) \<or> (\<exists>e. r = Error e) \<and> s' = s)"
proof (cases "r = Ok ()")
  case True
  note D = store_okD [OF assms(2)]
  from True assms have i: "i |\<notin>| used_model_ids s" "len_map (models s) < max_model_count (limits s)"
      "s' = s\<lparr>models := fmupd i (model_new i ty n) (models s), used_model_ids := finsert i (used_model_ids s)\<rparr>"
    by (auto simp: create_model_def split: if_splits)
  have "fmlookup (models s) i = None" using i(1) D(7) by (meson fmdom_notD fsubsetD)
  then have "len_map (fmupd i (model_new i ty n) (models s)) \<le> max_model_count (limits s)"
    using i(2) by (simp only: len_map_fmupd_new)
  moreover have "models_ok (limits s) (fmupd i (model_new i ty n) (models s))"
    using D(6) by (simp add: models_ok_def items_all_def model_new_def) (simp add: model_ok_def)
  moreover have "refs_ok s'" if "refs_ok s"
    using that i(3) by (fastforce simp: refs_ok_def contains_model_def)
  ultimately show ?thesis using D i True by (auto simp: keeps_def store_ok_def)
qed (use assms in \<open>auto simp: create_model_def split: if_splits\<close>)

lemma delete_model_ok:
  assumes "delete_model i s = (r, s')" "store_ok s"
  shows "store_ok s'"
proof (cases "contains_model s i")
  case True
  note D = store_okD [OF assms(2)]
  have "len_map (fmdrop i (models s)) \<le> max_model_count (limits s)"
    using len_map_fmdrop_le [of i "models s"] D(8) by (rule le_trans)
  moreover have "models_ok (limits s) (fmdrop i (models s))"
    using D(6) by (auto simp: models_ok_def split: if_splits)
  ultimately show ?thesis
    using D True assms(1) by (auto simp: delete_model_def store_ok_def)
qed (use assms in \<open>simp add: delete_model_def\<close>)

lemma with_model_frame:
  assumes "with_model i f s = (r, s')"
  shows "nodes s' = nodes s" "roots s' = roots s" "used_ids s' = used_ids s" "limits s' = limits s"
    "used_model_ids s' = used_model_ids s" "revision s' = revision s" "fmdom (models s') = fmdom (models s)"
  using assms by (auto simp: with_model_def fmdomI finsert_absorb split: option.splits prod.splits)

text \<open>A model operation with the contract keeps the invariant of the store.\<close>

lemma with_model_store:
  assumes "with_model i f s = (r, s')" "store_ok s" "models_ok (limits s) (models s')"
  shows "keeps s s'"
proof -
  note F = with_model_frame [OF assms(1)]
  have "contains_model s' m \<longleftrightarrow> contains_model s m" for m
    using F(7) by (metis contains_model_def fmdom_notD fmdom_notI)
  then have "refs_ok s'" if "refs_ok s" using that by (simp add: refs_ok_def F)
  then show ?thesis
    using assms(3) store_okD [OF assms(2)] by (simp add: keeps_def store_ok_def F)
qed

lemma items_valid_if: "store_ok s \<Longrightarrow> validate_items (limits s) its = Ok u \<Longrightarrow> items_valid its (limits s)"
  using store_okD(9) [of s] by (auto simp: validate_items_iff items_valid_def)

lemma model_insert_keeps:
  assumes "model_insert i index its s = (r, s')" "store_ok s" "r \<noteq> Inl Panic"
  shows "keeps s s' \<and> r \<noteq> Inl Diverge"
proof (cases "validate_items (limits s) its")
  case (Inl f)
  with assms validate_items_faults [OF Inl] show ?thesis by (auto simp: model_insert_def)
next
  case (Inr u)
  then have w: "with_model i (cached_insert (limits s) index its) s = (r, s')"
    using assms(1) by (simp add: model_insert_def)
  have v: "items_valid its (limits s)" using assms(2) Inr by (rule items_valid_if)
  have "models_ok (limits s) (models s')" "r \<noteq> Inl Diverge"
    using ins.with_model_keeps [of "(index, its)" s i r s'] ins.with_model_ends [of "(index, its)" s i r s']
      v w assms(3) store_okD(6) [OF assms(2)] by auto
  with with_model_store [OF w assms(2)] show ?thesis by blast
qed

lemma model_delete_keeps:
  assumes "model_delete i index n ids s = (r, s')" "store_ok s" "r \<noteq> Inl Panic"
  shows "keeps s s' \<and> r \<noteq> Inl Diverge"
proof (cases "validate_model_items_batch (limits s) (length ids)")
  case (Inl f)
  with assms show ?thesis by (auto simp: model_delete_def validate_model_items_batch_def split: if_splits)
next
  case (Inr u)
  then have w: "with_model i (delete_items index n ids) s = (r, s')"
    using assms(1) by (simp add: model_delete_def del: validate_model_items_batch_iff)
  have "models_ok (limits s) (models s')" "r \<noteq> Inl Diverge"
    using del.with_model_keeps [of i "(index, n, ids)" s r s'] del.with_model_ends [of i "(index, n, ids)" s r s']
      w assms(3) store_okD(6) [OF assms(2)] by auto
  with with_model_store [OF w assms(2)] show ?thesis by blast
qed

lemma model_update_keeps:
  assumes "model_update i index its s = (r, s')" "store_ok s" "r \<noteq> Inl Panic"
  shows "keeps s s' \<and> r \<noteq> Inl Diverge"
proof (cases "validate_items (limits s) its")
  case (Inl f)
  with assms validate_items_faults [OF Inl] show ?thesis by (auto simp: model_update_def)
next
  case (Inr u)
  then have w: "with_model i (update_items index its) s = (r, s')"
    using assms(1) by (simp add: model_update_def)
  have v: "items_valid its (limits s)" using assms(2) Inr by (rule items_valid_if)
  have "models_ok (limits s) (models s')" "r \<noteq> Inl Diverge"
    using upd.with_model_keeps [of "(index, its)" s i r s'] upd.with_model_ends [of "(index, its)" s i r s']
      v w assms(3) store_okD(6) [OF assms(2)] by auto
  with with_model_store [OF w assms(2)] show ?thesis by blast
qed

lemma model_reset_range_keeps:
  assumes "model_reset_range i start_index its total_count s = (r, s')" "store_ok s" "r \<noteq> Inl Panic"
  shows "keeps s s' \<and> r \<noteq> Inl Diverge"
proof (cases "validate_items (limits s) its")
  case (Inl f)
  with assms validate_items_faults [OF Inl] show ?thesis by (auto simp: model_reset_range_def)
next
  case (Inr u)
  then have w: "with_model i (cached_reset (limits s) start_index its total_count) s = (r, s')"
    using assms(1) by (simp add: model_reset_range_def)
  have v: "items_valid its (limits s)" using assms(2) Inr by (rule items_valid_if)
  have "models_ok (limits s) (models s')" "r \<noteq> Inl Diverge"
    using rst.with_model_keeps [of "(start_index, its, total_count)" s i r s']
      rst.with_model_ends [of "(start_index, its, total_count)" s i r s']
      v w assms(3) store_okD(6) [OF assms(2)] by auto
  with with_model_store [OF w assms(2)] show ?thesis by blast
qed

section \<open>Properties\<close>

text \<open>Two nodes, one below the other, for the examples.\<close>

definition node_pair :: semantic_store where
  "node_pair = snd (create_node 2 (standard_type 2) (Some 1) None []
     (snd (create_node 1 (standard_type 1) None None [] store_new)))"

lemmas limits_eval =
  default_limits_def DEFAULT_MAX_TRANSACTION_OPERATIONS_def DEFAULT_MAX_MODEL_COUNT_def
  DEFAULT_MAX_CACHED_ITEMS_PER_MODEL_def DEFAULT_MAX_ITEMS_PER_MODEL_OPERATION_def

lemmas create_eval =
  store_new_def with_limits_def with_limits_and_revision_def limits_eval
  create_node_def create_model_def new_node_depth_def node_depth_def graph_fuel_def
  validate_properties_def validate_value_def validate_value_inner.simps
  validate_property_references_def model_ref_value_def contains_model_def
  check_child_index_def attach_new_node_def set_children_def place_child_def vec_insert_def
  node_new_def model_new_def collect_properties_def fcard_finsert_if fcard_fempty

lemma store_new_ok: "store_ok store_new" "refs_ok store_new"
  by (simp_all add: store_new_def with_limits_def with_limits_ok limits_eval)

lemma create_node_ok: "store_ok s \<Longrightarrow> store_ok (snd (create_node i ty parent child_index ps s))"
  using create_node_keeps [of i ty parent child_index ps s]
  by (cases "create_node i ty parent child_index ps s") (simp add: keeps_def)

lemma node_pair_ok: "store_ok node_pair"
  by (simp add: node_pair_def create_node_ok store_new_ok)

lemma node_pair_nodes:
  "fmlookup (nodes node_pair) 1 = Some \<lparr>n_id = 1, node_type = standard_type 1, parent_id = None,
     ordered_children = [2], properties = fmempty\<rparr>"
  "fmlookup (nodes node_pair) 2 = Some \<lparr>n_id = 2, node_type = standard_type 2, parent_id = Some 1,
     ordered_children = [], properties = fmempty\<rparr>"
  by (simp_all add: node_pair_def create_eval)

text \<open>
  On a well-formed store the walk to the root and the recursion over the subtree terminate
  for every id, with fuel one more than the number of nodes: \<open>node_depth\<close> returns the length of
  the path to the root, at most \<open>max_tree_depth\<close>, and nothing exactly for a dead id;
  \<open>subtree_depth\<close> of a live node is one more than the distance to its farthest descendant.
\<close>

theorem graph_walks_terminate:
  assumes "store_ok s"
  shows "(case fmlookup (nodes s) i of
      None \<Rightarrow> node_depth s i = Ok None
    | Some _ \<Rightarrow> \<exists>d h. node_depth s i = Ok (Some d) \<and> has_depth (nodes s) i d \<and> d \<le> max_tree_depth (limits s) \<and>
        subtree_depth s i = Ok h \<and> is_height (nodes s) i h)"
proof (cases "fmlookup (nodes s) i")
  case None
  then show ?thesis using node_depth_missing by (simp add: contains_node_def)
next
  case (Some n)
  from store_ok_depth [OF assms Some] obtain d where
    d: "has_depth (nodes s) i d" "d \<le> max_tree_depth (limits s)" "node_depth s i = Ok (Some d)" by blast
  with subtree_depth_height [OF store_okD(1) [OF assms] d(1)] Some show ?thesis by auto
qed

theorem graph_walks_terminate_witness:
  "\<exists>d. node_depth node_pair 2 = Ok (Some d) \<and> has_depth (nodes node_pair) 2 d"
  using graph_walks_terminate [OF node_pair_ok, of 2] by (auto simp: node_pair_nodes)

text \<open>
  A node is created under its requested parent at its requested place, with its properties,
  and nothing else changes; this happens only for an id never used before, within the limits on
  nodes and depth, with valid properties.  Every other call is refused with the store unchanged.
\<close>

theorem create_node_correct:
  assumes "create_node i ty parent child_index ps s = (r, s')" "store_ok s"
  shows "(\<exists>e. r = Error e) \<and> s' = s \<or>
    r = Ok () \<and> s' = created i ty parent child_index ps s \<and> store_ok s' \<and> i |\<notin>| used_ids s \<and>
    len_map (nodes s) < max_node_count (limits s) \<and> (\<forall>p \<in> set ps. property_ok s (fst p) (snd p)) \<and>
    (\<exists>d. new_node_depth s parent = Ok d \<and> d \<le> max_tree_depth (limits s))"
  using assms(1,2)
proof (cases rule: create_node_cases)
  case (2 d)
  then have "store_ok (created i ty parent child_index ps s)"
    using created_keeps [OF assms(2)] by (simp add: keeps_def)
  with 2 show ?thesis by blast
qed simp

theorem create_node_correct_witness:
  "snd (create_node 3 (standard_type 1) (Some 2) (Some 0) [] node_pair) =
     created 3 (standard_type 1) (Some 2) (Some 0) [] node_pair"
proof -
  have "fst (create_node 3 (standard_type 1) (Some 2) (Some 0) [] node_pair) = Ok ()"
    by (simp add: node_pair_def create_eval)
  then show ?thesis
    using create_node_correct [OF _ node_pair_ok, of 3 "standard_type 1" "Some 2" "Some 0" "[]"]
    by (cases "create_node 3 (standard_type 1) (Some 2) (Some 0) [] node_pair") auto
qed

text \<open>
  C34: Deleting a live node deletes exactly the node and its descendants, each once, and takes
  the node out of its parent's children or the roots; all other nodes keep their type, parent,
  properties and the order of their children.
\<close>

theorem delete_node_correct:
  assumes "store_ok s" "fmlookup (nodes s) i = Some n"
  shows "\<exists>deleted s'. delete_node i s = (Ok deleted, s') \<and> store_ok s' \<and>
    distinct deleted \<and> set deleted = {j. \<exists>k. desc (nodes s) i j k} \<and>
    (\<forall>j. fmlookup (nodes s') j =
       (if j \<in> set deleted then None else map_option (strip i) (fmlookup (nodes s) j))) \<and>
    roots s' = retain_not i (roots s) \<and> models s' = models s \<and> used_ids s' = used_ids s"
proof -
  obtain ns' deleted where *:
    "delete_node i s = (Ok deleted, s\<lparr>nodes := ns', roots := retain_not i (roots s)\<rparr>)"
    "distinct deleted" "set deleted = {j. \<exists>k. desc (nodes s) i j k}"
    "\<And>j. fmlookup ns' j = (if \<exists>k. desc (nodes s) i j k then None else map_option (strip i) (fmlookup (nodes s) j))"
    by (rule delete_node_spec [OF assms]) blast
  moreover have "store_ok (s\<lparr>nodes := ns', roots := retain_not i (roots s)\<rparr>)"
    using delete_node_keeps [OF *(1) assms(1)] by (simp add: keeps_def)
  ultimately show ?thesis by auto
qed

theorem delete_node_correct_witness:
  "\<exists>deleted s'. delete_node 1 node_pair = (Ok deleted, s') \<and> store_ok s' \<and> 1 \<in> set deleted"
proof -
  have "desc (nodes node_pair) 1 1 0" by (rule desc.self) (rule node_pair_nodes)
  then show ?thesis using delete_node_correct [OF node_pair_ok node_pair_nodes(1)] by blast
qed

lemma desc_source: "desc ns i j k \<Longrightarrow> \<exists>n. fmlookup ns i = Some n"
  by (induction rule: desc.induct) auto

lemma check_no_cycle_rejects:
  assumes "store_ok s" "desc (nodes s) i p k"
  shows "check_no_cycle s i (Some p) = Error (CycleDetected i p)"
proof (cases "p = i")
  case False
  obtain n pn where n: "fmlookup (nodes s) i = Some n" "fmlookup (nodes s) p = Some pn"
    using desc_source [OF assms(2)] desc_lookup [OF assms(2)] by blast
  obtain d where d: "has_depth (nodes s) p d" using store_ok_depth [OF assms(1) n(2)] .
  have "meets_ancestor (graph_fuel (nodes s)) (nodes s) i p = Ok (\<exists>k. desc (nodes s) i p k)"
    by (rule meets_ancestor_iff [OF d _ False n(1)]) (use has_depth_bound [OF d] in \<open>simp add: graph_fuel_def\<close>)
  with False assms(2) show ?thesis by (auto simp: check_no_cycle_def)
qed (simp add: check_no_cycle_def)

text \<open>
  C15: Moving a node never creates a cycle: a target that is the node itself or one of its
  descendants is refused with \<open>CycleDetected\<close>.  Any other refusal leaves the store unchanged
  too.  A successful move hangs the node, with its whole subtree, under the live target at the
  requested place and changes nothing else; the tree stays within its depth limit.
\<close>

theorem move_node_correct:
  assumes "move_node i q child_index s = (r, s')" "store_ok s" "contains_node s i"
  shows "(\<forall>p k. q = Some p \<longrightarrow> desc (nodes s) i p k \<longrightarrow> r = Error (CycleDetected i p)) \<and>
    ((\<exists>e. r = Error e) \<and> s' = s \<or>
     r = Ok () \<and> s' = moved i q child_index s \<and> store_ok s' \<and>
     (\<forall>p. q = Some p \<longrightarrow> contains_node s p \<and> (\<forall>k. \<not> desc (nodes s) i p k)))"
proof
  show "\<forall>p k. q = Some p \<longrightarrow> desc (nodes s) i p k \<longrightarrow> r = Error (CycleDetected i p)"
    using assms check_no_cycle_rejects by (auto simp: move_node_def)
  from assms(1,2) show "(\<exists>e. r = Error e) \<and> s' = s \<or>
     r = Ok () \<and> s' = moved i q child_index s \<and> store_ok s' \<and>
     (\<forall>p. q = Some p \<longrightarrow> contains_node s p \<and> (\<forall>k. \<not> desc (nodes s) i p k))"
  proof (cases rule: move_node_cases)
    case (success n h pd)
    then have "store_ok (moved i q child_index s)"
      using moved_keeps [OF assms(2) success(3,4,5,6)] by (simp add: keeps_def)
    with success show ?thesis by (auto simp: contains_node_def)
  qed simp
qed

theorem move_node_correct_witness:
  "fst (move_node 1 (Some 2) None node_pair) = Error (CycleDetected 1 2)"
proof -
  have "desc (nodes node_pair) 1 2 (Suc 0)"
    using desc.below [OF desc.self [OF node_pair_nodes(1)] node_pair_nodes(2)] by simp
  then show ?thesis
    using move_node_correct [OF _ node_pair_ok, of 1 "Some 2" None]
    by (cases "move_node 1 (Some 2) None node_pair") (auto simp: contains_node_def node_pair_nodes)
qed

end
