(* ===== verification/Text_Edit_Tracker.thy ===== *)
theory Text_Edit_Tracker
  imports Store_Invariant
begin

text \<open>
  The table of editor sequences: \<open>TextEditTracker\<close> of
  \<^verbatim>\<open>sessiond/src/session/text_edit.rs\<close>.  One entry per client holds the editor streams of
  its nodes and the edits whose handlers still run.  \<open>stream_count\<close> caches the number of
  streams; the subtractions from it are checked here, and the invariant \<open>tracker_ok\<close> shows
  that they never underflow.

  The event message enters as its fields.  Whether a client still has event-sequence history
  is a question to the deduplicator, so \<open>reclaim_departed_clients\<close> takes the answer as an
  argument.
\<close>

section \<open>Data\<close>

type_synonym client_id = "u8 list"

record editor_stream =
  last_terminal_edit_seq :: u64
  in_flight_edit_seqs :: "u64 fset"
  generation :: u64

record committed_handler_text_edit =
  ch_node_id :: u64
  ch_edit_seq :: u64

record client_text_edit_state =
  editor_streams :: "(u64, editor_stream) fmap"
  committed_handler_edits :: "(u64, committed_handler_text_edit) fmap"

record text_edit_tracker =
  streams :: "(client_id, client_text_edit_state) fmap"
  stream_count :: usize
  max_streams :: usize

datatype text_edit_error =
    StaleEditSeq u64 u64
  | GenerationOverflow
  | TextTrackerFull usize

definition client_default :: client_text_edit_state where
  "client_default = \<lparr>editor_streams = fmempty, committed_handler_edits = fmempty\<rparr>"

definition tracker_new :: "usize \<Rightarrow> text_edit_tracker" where
  "tracker_new n = \<lparr>streams = fmempty, stream_count = 0, max_streams = max n 1\<rparr>"

section \<open>Operations\<close>

definition find_stream :: "text_edit_tracker \<Rightarrow> client_id \<Rightarrow> node_id \<Rightarrow> (client_text_edit_state \<times> editor_stream) option" where
  "find_stream t cid nid =
     (case fmlookup (streams t) cid of
        None \<Rightarrow> None
      | Some c \<Rightarrow> (case fmlookup (editor_streams c) nid of None \<Rightarrow> None | Some st \<Rightarrow> Some (c, st)))"

definition put_stream ::
  "client_id \<Rightarrow> node_id \<Rightarrow> client_text_edit_state \<Rightarrow> editor_stream \<Rightarrow> text_edit_tracker \<Rightarrow> text_edit_tracker" where
  "put_stream cid nid c st t =
     t\<lparr>streams := fmupd cid (c\<lparr>editor_streams := fmupd nid st (editor_streams c)\<rparr>) (streams t)\<rparr>"

text \<open>The greatest sequence in flight, if there is one.\<close>

definition last_in_flight :: "editor_stream \<Rightarrow> u64 option" where
  "last_in_flight st =
     (if in_flight_edit_seqs st = {||} then None else Some (fMax (in_flight_edit_seqs st)))"

definition watermark :: "editor_stream \<Rightarrow> u64" where
  "watermark st =
     max (case last_in_flight st of Some x \<Rightarrow> x | None \<Rightarrow> last_terminal_edit_seq st)
       (last_terminal_edit_seq st)"

definition reserve ::
  "client_id \<Rightarrow> node_id \<Rightarrow> u64 \<Rightarrow> text_edit_tracker \<Rightarrow> (text_edit_error, u64) result \<times> text_edit_tracker" where
  "reserve cid nid edit_seq t =
     (case find_stream t cid nid of
        Some (c, st) \<Rightarrow>
          if edit_seq \<le> watermark st then (Error (StaleEditSeq edit_seq (watermark st)), t)
          else (case checked_add (generation st) 1 of
              None \<Rightarrow> (Error GenerationOverflow, t)
            | Some g \<Rightarrow>
                (Ok g, put_stream cid nid c
                   (st\<lparr>generation := g, in_flight_edit_seqs := finsert edit_seq (in_flight_edit_seqs st)\<rparr>) t))
      | None \<Rightarrow>
          if stream_count t \<ge> max_streams t then (Error (TextTrackerFull (max_streams t)), t)
          else let c = (case fmlookup (streams t) cid of Some c \<Rightarrow> c | None \<Rightarrow> client_default);
                   st = \<lparr>last_terminal_edit_seq = 0, in_flight_edit_seqs = {|edit_seq|}, generation = 1\<rparr>
               in (Ok 1, (put_stream cid nid c st t)\<lparr>stream_count := stream_count t + 1\<rparr>))"

definition last_terminal_of :: "text_edit_tracker \<Rightarrow> client_id \<Rightarrow> node_id \<Rightarrow> u64 option" where
  "last_terminal_of t cid nid = map_option (\<lambda>x. last_terminal_edit_seq (snd x)) (find_stream t cid nid)"

definition generation_of :: "text_edit_tracker \<Rightarrow> client_id \<Rightarrow> node_id \<Rightarrow> u64 option" where
  "generation_of t cid nid = map_option (\<lambda>x. generation (snd x)) (find_stream t cid nid)"

definition mark_terminal :: "client_id \<Rightarrow> node_id \<Rightarrow> u64 \<Rightarrow> text_edit_tracker \<Rightarrow> text_edit_tracker" where
  "mark_terminal cid nid edit_seq t =
     (case find_stream t cid nid of
        None \<Rightarrow> t
      | Some (c, st) \<Rightarrow>
          put_stream cid nid c
            (st\<lparr>in_flight_edit_seqs := in_flight_edit_seqs st |-| {|edit_seq|},
                last_terminal_edit_seq := max (last_terminal_edit_seq st) edit_seq\<rparr>) t)"

definition abandon_reservation :: "client_id \<Rightarrow> node_id \<Rightarrow> u64 \<Rightarrow> text_edit_tracker \<Rightarrow> text_edit_tracker" where
  "abandon_reservation cid nid edit_seq t =
     (case find_stream t cid nid of
        None \<Rightarrow> t
      | Some (c, st) \<Rightarrow>
          put_stream cid nid c (st\<lparr>in_flight_edit_seqs := in_flight_edit_seqs st |-| {|edit_seq|}\<rparr>) t)"

definition begin_committed_handler_dispatch ::
  "client_id \<Rightarrow> u64 \<Rightarrow> u64 \<Rightarrow> u64 \<Rightarrow> text_edit_tracker \<Rightarrow> (text_edit_error, unit) result \<times> text_edit_tracker" where
  "begin_committed_handler_dispatch cid event_seq nid edit_seq t =
     (case fmlookup (streams t) cid of
        None \<Rightarrow> (Inl Panic, t)
      | Some c \<Rightarrow>
          let t' = t\<lparr>streams := fmupd cid (c\<lparr>committed_handler_edits :=
                fmupd event_seq \<lparr>ch_node_id = nid, ch_edit_seq = edit_seq\<rparr> (committed_handler_edits c)\<rparr>) (streams t)\<rparr>
          in if fmlookup (committed_handler_edits c) event_seq \<noteq> None then (Inl Panic, t') else (Ok (), t'))"

definition client_is_empty :: "client_text_edit_state \<Rightarrow> bool" where
  "client_is_empty c \<longleftrightarrow> editor_streams c = fmempty \<and> committed_handler_edits c = fmempty"

definition finish_committed_handler_dispatch :: "client_id \<Rightarrow> u64 \<Rightarrow> text_edit_tracker \<Rightarrow> text_edit_tracker" where
  "finish_committed_handler_dispatch cid event_seq t =
     (case fmlookup (streams t) cid of
        None \<Rightarrow> t
      | Some c \<Rightarrow>
          let c' = c\<lparr>committed_handler_edits := fmdrop event_seq (committed_handler_edits c)\<rparr>
          in if client_is_empty c' then t\<lparr>streams := fmdrop cid (streams t)\<rparr>
             else t\<lparr>streams := fmupd cid c' (streams t)\<rparr>)"

definition committed_handler_identity_matches ::
  "text_edit_tracker \<Rightarrow> client_id \<Rightarrow> u64 \<Rightarrow> u64 \<Rightarrow> u64 \<Rightarrow> bool option" where
  "committed_handler_identity_matches t cid event_seq nid edit_seq =
     (case fmlookup (streams t) cid of
        None \<Rightarrow> None
      | Some c \<Rightarrow> map_option (\<lambda>e. ch_node_id e = nid \<and> ch_edit_seq e = edit_seq)
                   (fmlookup (committed_handler_edits c) event_seq))"

text \<open>Number of streams, counted.\<close>

definition client_streams :: "(client_id, client_text_edit_state) fmap \<Rightarrow> client_id \<Rightarrow> nat" where
  "client_streams ts cid = (case fmlookup ts cid of None \<Rightarrow> 0 | Some c \<Rightarrow> len_map (editor_streams c))"

definition total_streams :: "(client_id, client_text_edit_state) fmap \<Rightarrow> nat" where
  "total_streams ts = (\<Sum>cid \<in> fmdom' ts. client_streams ts cid)"

text \<open>
  \<open>HashMap::retain\<close> with a closure that changes the entry and says whether it stays, and
  the subtraction of what it removed from \<open>stream_count\<close>.
\<close>

definition retain_clients ::
  "(client_id \<Rightarrow> client_text_edit_state \<Rightarrow> client_text_edit_state) \<Rightarrow>
   (client_id \<Rightarrow> client_text_edit_state \<Rightarrow> bool) \<Rightarrow>
   (client_id, client_text_edit_state) fmap \<Rightarrow> (client_id, client_text_edit_state) fmap" where
  "retain_clients change keep ts =
     (let ts' = fmmap_keys change ts
      in fmfilter (\<lambda>cid. case fmlookup ts' cid of None \<Rightarrow> False | Some c \<Rightarrow> keep cid c) ts')"

definition subtract_streams ::
  "nat \<Rightarrow> text_edit_tracker \<Rightarrow> (text_edit_error, unit) result \<times> text_edit_tracker" where
  "subtract_streams removed t =
     (if removed > stream_count t then (Inl Panic, t)
      else (Ok (), t\<lparr>stream_count := stream_count t - removed\<rparr>))"

definition reclaim_node :: "node_id \<Rightarrow> text_edit_tracker \<Rightarrow> (text_edit_error, unit) result \<times> text_edit_tracker" where
  "reclaim_node nid t =
     (let removed = (\<Sum>cid \<in> fmdom' (streams t). case fmlookup (streams t) cid of
             None \<Rightarrow> 0 | Some c \<Rightarrow> if fmlookup (editor_streams c) nid \<noteq> None then 1 else 0)
      in subtract_streams removed
           (t\<lparr>streams := retain_clients (\<lambda>_ c. c\<lparr>editor_streams := fmdrop nid (editor_streams c)\<rparr>)
                (\<lambda>_ c. \<not> client_is_empty c) (streams t)\<rparr>))"

definition reclaim_missing_nodes ::
  "semantic_store \<Rightarrow> text_edit_tracker \<Rightarrow> (text_edit_error, unit) result \<times> text_edit_tracker" where
  "reclaim_missing_nodes s t =
     (let change = (\<lambda>c. c\<lparr>editor_streams := fmfilter (contains_node s) (editor_streams c)\<rparr>);
          removed = (\<Sum>cid \<in> fmdom' (streams t). case fmlookup (streams t) cid of
             None \<Rightarrow> 0 | Some c \<Rightarrow> len_map (editor_streams c) - len_map (editor_streams (change c)))
      in subtract_streams removed
           (t\<lparr>streams := retain_clients (\<lambda>_. change) (\<lambda>_ c. \<not> client_is_empty c) (streams t)\<rparr>))"

definition reclaim_nodes ::
  "node_id list \<Rightarrow> text_edit_tracker \<Rightarrow> (text_edit_error, unit) result \<times> text_edit_tracker" where
  "reclaim_nodes doomed t =
     (if doomed = [] then (Ok (), t)
      else let change = (\<lambda>c. c\<lparr>editor_streams := fmfilter (\<lambda>nid. nid \<notin> set doomed) (editor_streams c)\<rparr>);
               removed = (\<Sum>cid \<in> fmdom' (streams t). case fmlookup (streams t) cid of
                  None \<Rightarrow> 0 | Some c \<Rightarrow> len_map (editor_streams c) - len_map (editor_streams (change c)))
           in subtract_streams removed
                (t\<lparr>streams := retain_clients (\<lambda>_. change) (\<lambda>_ c. \<not> client_is_empty c) (streams t)\<rparr>))"

definition client_pinned :: "client_text_edit_state \<Rightarrow> bool" where
  "client_pinned c \<longleftrightarrow>
     committed_handler_edits c \<noteq> fmempty \<or>
     fmdom (fmfilter (\<lambda>nid. case fmlookup (editor_streams c) nid of
         None \<Rightarrow> False | Some st \<Rightarrow> in_flight_edit_seqs st \<noteq> {||}) (editor_streams c)) \<noteq> {||}"

definition reclaim_departed_clients ::
  "(client_id \<Rightarrow> bool) \<Rightarrow> text_edit_tracker \<Rightarrow> (text_edit_error, unit) result \<times> text_edit_tracker" where
  "reclaim_departed_clients has_event_sequence_history t =
     (let keep = (\<lambda>cid c. has_event_sequence_history cid \<or> client_pinned c);
          removed = (\<Sum>cid \<in> fmdom' (streams t). case fmlookup (streams t) cid of
             None \<Rightarrow> 0 | Some c \<Rightarrow> if keep cid c then 0 else len_map (editor_streams c))
      in subtract_streams removed (t\<lparr>streams := retain_clients (\<lambda>_ c. c) keep (streams t)\<rparr>))"

section \<open>The invariant\<close>

definition tracker_ok :: "text_edit_tracker \<Rightarrow> bool" where
  "tracker_ok t \<longleftrightarrow>
     stream_count t = total_streams (streams t) \<and> stream_count t \<le> max_streams t"

lemma tracker_new_ok: "tracker_ok (tracker_new n)"
  by (simp add: tracker_ok_def tracker_new_def total_streams_def)

lemma client_streams_Some [simp]: "fmlookup ts cid = Some c \<Longrightarrow> client_streams ts cid = len_map (editor_streams c)"
  by (simp add: client_streams_def)

lemma client_streams_None [simp]: "fmlookup ts cid = None \<Longrightarrow> client_streams ts cid = 0"
  by (simp add: client_streams_def)

lemma total_streams_upd:
  "total_streams (fmupd cid c ts) + client_streams ts cid = total_streams ts + len_map (editor_streams c)"
proof -
  let ?D = "fmdom' ts - {cid}"
  have new: "total_streams (fmupd cid c ts) = len_map (editor_streams c) + (\<Sum>x \<in> ?D. client_streams ts x)"
  proof -
    have D: "fmdom' (fmupd cid c ts) = insert cid ?D" by auto
    have eq: "(\<Sum>x \<in> ?D. client_streams (fmupd cid c ts) x) = (\<Sum>x \<in> ?D. client_streams ts x)"
      by (rule sum.cong) (auto simp: client_streams_def)
    show ?thesis unfolding total_streams_def D using eq by (subst sum.insert) simp_all
  qed
  have old: "total_streams ts = client_streams ts cid + (\<Sum>x \<in> ?D. client_streams ts x)"
  proof (cases "cid \<in> fmdom' ts")
    case True
    then show ?thesis by (simp add: total_streams_def sum.remove)
  next
    case False
    then have "client_streams ts cid = 0" by (simp add: client_streams_def fmdom'_notD)
    with False show ?thesis by (simp add: total_streams_def)
  qed
  show ?thesis using new old by simp
qed

lemma find_stream_Some:
  "find_stream t cid nid = Some (c, st) \<longleftrightarrow>
     fmlookup (streams t) cid = Some c \<and> fmlookup (editor_streams c) nid = Some st"
  by (auto simp: find_stream_def split: option.splits)

lemma put_stream_old_ok:
  assumes "tracker_ok t" "find_stream t cid nid = Some (c, st)"
  shows "tracker_ok (put_stream cid nid c st' t)"
proof -
  from assms(2) have c: "fmlookup (streams t) cid = Some c" "fmlookup (editor_streams c) nid = Some st"
    by (auto simp: find_stream_Some)
  then have "len_map (fmupd nid st' (editor_streams c)) = client_streams (streams t) cid"
    using len_map_fmupd_old [OF c(2), of st'] by simp
  with total_streams_upd [of cid "c\<lparr>editor_streams := fmupd nid st' (editor_streams c)\<rparr>" "streams t"] assms(1)
  show ?thesis by (simp add: put_stream_def tracker_ok_def)
qed

lemma reserve_ok:
  assumes "reserve cid nid edit_seq t = (r, t')" "tracker_ok t"
  shows "tracker_ok t'"
proof (cases "find_stream t cid nid")
  case (Some x)
  then show ?thesis
    using assms put_stream_old_ok [OF assms(2)]
    by (cases x) (auto simp: reserve_def split: if_splits option.splits)
next
  case None
  show ?thesis
  proof (cases "stream_count t \<ge> max_streams t")
    case True
    with None assms show ?thesis by (simp add: reserve_def)
  next
    case False
    define c where "c = (case fmlookup (streams t) cid of Some c \<Rightarrow> c | None \<Rightarrow> client_default)"
    define st where "st = \<lparr>last_terminal_edit_seq = 0, in_flight_edit_seqs = {|edit_seq|}, generation = (1 :: u64)\<rparr>"
    have t': "t' = (put_stream cid nid c st t)\<lparr>stream_count := stream_count t + 1\<rparr>"
      using assms(1) None False by (simp add: reserve_def Let_def c_def st_def)
    have "fmlookup (editor_streams c) nid = None"
      using None by (auto simp: c_def find_stream_def client_default_def split: option.splits)
    then have "len_map (fmupd nid st (editor_streams c)) = Suc (len_map (editor_streams c))"
      by (rule len_map_fmupd_new)
    moreover have "len_map (editor_streams c) = client_streams (streams t) cid"
      by (auto simp: c_def client_streams_def client_default_def fcard_fempty split: option.splits)
    ultimately have "total_streams (fmupd cid (c\<lparr>editor_streams := fmupd nid st (editor_streams c)\<rparr>) (streams t))
        = Suc (total_streams (streams t))"
      using total_streams_upd [of cid "c\<lparr>editor_streams := fmupd nid st (editor_streams c)\<rparr>" "streams t"] by simp
    with assms(2) False t' show ?thesis by (simp add: put_stream_def tracker_ok_def)
  qed
qed

lemma mark_terminal_ok: "tracker_ok t \<Longrightarrow> tracker_ok (mark_terminal cid nid e t)"
  by (auto simp: mark_terminal_def intro: put_stream_old_ok split: option.splits)

lemma abandon_reservation_ok: "tracker_ok t \<Longrightarrow> tracker_ok (abandon_reservation cid nid e t)"
  by (auto simp: abandon_reservation_def intro: put_stream_old_ok split: option.splits)

lemma handler_edits_total:
  assumes "fmlookup (streams t) cid = Some c"
  shows "total_streams (fmupd cid (c\<lparr>committed_handler_edits := hs\<rparr>) (streams t)) = total_streams (streams t)"
  using total_streams_upd [of cid "c\<lparr>committed_handler_edits := hs\<rparr>" "streams t"] assms
  by (simp add: client_streams_def)

lemma begin_dispatch_ok:
  assumes "begin_committed_handler_dispatch cid e nid es t = (r, t')" "tracker_ok t"
  shows "tracker_ok t'"
  using assms by (auto simp: begin_committed_handler_dispatch_def Let_def tracker_ok_def handler_edits_total
      split: option.splits if_splits)

lemma total_streams_superset:
  assumes "finite D" "fmdom' ts \<subseteq> D"
  shows "total_streams ts = (\<Sum>cid \<in> D. client_streams ts cid)"
  unfolding total_streams_def
  by (rule sum.mono_neutral_left [OF assms]) (auto simp: client_streams_def fmdom'_notD)

lemma total_streams_split:
  assumes "fmdom' us \<subseteq> fmdom' ts" "\<And>cid. client_streams us cid \<le> client_streams ts cid"
  shows "total_streams us + (\<Sum>cid \<in> fmdom' ts. client_streams ts cid - client_streams us cid) = total_streams ts"
proof -
  have "total_streams us = (\<Sum>cid \<in> fmdom' ts. client_streams us cid)"
    by (rule total_streams_superset) (use assms(1) in auto)
  then show ?thesis
    using assms(2) by (simp add: total_streams_def flip: sum.distrib)
qed

lemma retain_clients_lookup:
  "fmlookup (retain_clients change keep ts) cid =
     (case fmlookup ts cid of
        None \<Rightarrow> None
      | Some c \<Rightarrow> if keep cid (change cid c) then Some (change cid c) else None)"
  by (auto simp: retain_clients_def Let_def split: option.splits)

text \<open>
  A retain that leaves no client more streams than it had, followed by the subtraction of the
  difference, keeps the count exact and cannot underflow.
\<close>

lemma retain_subtract:
  assumes ok: "tracker_ok t"
    and less: "\<And>cid c. fmlookup (streams t) cid = Some c \<Longrightarrow>
      len_map (editor_streams (change cid c)) \<le> len_map (editor_streams c)"
    and removed: "removed = (\<Sum>cid \<in> fmdom' (streams t).
      client_streams (streams t) cid - client_streams (retain_clients change keep (streams t)) cid)"
  shows "\<exists>t'. subtract_streams removed (t\<lparr>streams := retain_clients change keep (streams t)\<rparr>) = (Ok (), t') \<and>
    tracker_ok t' \<and> streams t' = retain_clients change keep (streams t)"
proof -
  let ?us = "retain_clients change keep (streams t)"
  have "fmdom' ?us \<subseteq> fmdom' (streams t)"
    by (auto simp: fmlookup_dom'_iff retain_clients_lookup split: option.splits)
  moreover have "client_streams ?us cid \<le> client_streams (streams t) cid" for cid
    using less [of cid] by (auto simp: client_streams_def retain_clients_lookup split: option.splits)
  ultimately have "total_streams ?us + removed = total_streams (streams t)"
    unfolding removed by (rule total_streams_split)
  with ok show ?thesis by (auto simp: subtract_streams_def tracker_ok_def)
qed

lemma client_is_empty_streams: "client_is_empty c \<Longrightarrow> len_map (editor_streams c) = 0"
  by (simp add: client_is_empty_def fcard_fempty)

lemma len_map_fmfilter_le: "len_map (fmfilter P m) \<le> len_map m"
  by (rule fcard_mono) (auto simp: fmlookup_dom_iff intro!: fsubsetI split: if_splits)

lemma retain_nonempty_diff:
  assumes "fmlookup ts cid = Some c"
  shows "client_streams (retain_clients change (\<lambda>_ c. \<not> client_is_empty c) ts) cid = len_map (editor_streams (change cid c))"
  using assms by (simp add: client_streams_def retain_clients_lookup client_is_empty_streams)

lemma reclaim_missing_nodes_ok:
  assumes "tracker_ok t"
  shows "\<exists>t'. reclaim_missing_nodes s t = (Ok (), t') \<and> tracker_ok t'"
proof -
  let ?change = "\<lambda>(_ :: client_id) c. c\<lparr>editor_streams := fmfilter (contains_node s) (editor_streams c)\<rparr>"
  have "(\<Sum>cid \<in> fmdom' (streams t). case fmlookup (streams t) cid of None \<Rightarrow> 0
        | Some c \<Rightarrow> len_map (editor_streams c) - len_map (editor_streams (?change cid c)))
      = (\<Sum>cid \<in> fmdom' (streams t). client_streams (streams t) cid -
          client_streams (retain_clients ?change (\<lambda>_ c. \<not> client_is_empty c) (streams t)) cid)"
    by (rule sum.cong) (auto simp: fmlookup_dom'_iff retain_nonempty_diff)
  moreover have "len_map (editor_streams (?change cid c)) \<le> len_map (editor_streams c)" for cid c
    using len_map_fmfilter_le by simp
  ultimately show ?thesis
    using retain_subtract [OF assms, of ?change] unfolding reclaim_missing_nodes_def Let_def by blast
qed

lemma reclaim_nodes_ok:
  assumes "tracker_ok t"
  shows "\<exists>t'. reclaim_nodes doomed t = (Ok (), t') \<and> tracker_ok t'"
proof -
  let ?change = "\<lambda>(_ :: client_id) c. c\<lparr>editor_streams := fmfilter (\<lambda>nid. nid \<notin> set doomed) (editor_streams c)\<rparr>"
  have "(\<Sum>cid \<in> fmdom' (streams t). case fmlookup (streams t) cid of None \<Rightarrow> 0
        | Some c \<Rightarrow> len_map (editor_streams c) - len_map (editor_streams (?change cid c)))
      = (\<Sum>cid \<in> fmdom' (streams t). client_streams (streams t) cid -
          client_streams (retain_clients ?change (\<lambda>_ c. \<not> client_is_empty c) (streams t)) cid)"
    by (rule sum.cong) (auto simp: fmlookup_dom'_iff retain_nonempty_diff)
  moreover have "len_map (editor_streams (?change cid c)) \<le> len_map (editor_streams c)" for cid c
    using len_map_fmfilter_le by simp
  ultimately show ?thesis
    using retain_subtract [OF assms, of ?change] assms
    by (cases "doomed = []") (simp add: reclaim_nodes_def, simp only: reclaim_nodes_def Let_def if_False, blast)
qed

lemma reclaim_node_ok:
  assumes "tracker_ok t"
  shows "\<exists>t'. reclaim_node nid t = (Ok (), t') \<and> tracker_ok t'"
proof -
  let ?change = "\<lambda>(_ :: client_id) c. c\<lparr>editor_streams := fmdrop nid (editor_streams c)\<rparr>"
  have one: "len_map es - len_map (fmdrop nid es) = (if fmlookup es nid \<noteq> None then 1 else 0)"
    for es :: "(u64, editor_stream) fmap"
  proof (cases "fmlookup es nid")
    case None
    then have "fmdrop nid es = es" by (intro fmap_ext) simp
    with None show ?thesis by simp
  next
    case (Some v)
    then show ?thesis using len_map_fmdrop [OF Some] by simp
  qed
  have "(\<Sum>cid \<in> fmdom' (streams t). case fmlookup (streams t) cid of None \<Rightarrow> 0
        | Some c \<Rightarrow> if fmlookup (editor_streams c) nid \<noteq> None then 1 else 0)
      = (\<Sum>cid \<in> fmdom' (streams t). client_streams (streams t) cid -
          client_streams (retain_clients ?change (\<lambda>_ c. \<not> client_is_empty c) (streams t)) cid)"
    by (rule sum.cong) (auto simp: fmlookup_dom'_iff retain_nonempty_diff one simp del: fmdom_drop)
  moreover have "len_map (editor_streams (?change cid c)) \<le> len_map (editor_streams c)" for cid c
    using len_map_fmdrop_le [of nid "editor_streams c"] by simp
  ultimately show ?thesis
    using retain_subtract [OF assms, of ?change] unfolding reclaim_node_def Let_def by blast
qed

lemma reclaim_departed_clients_ok:
  assumes "tracker_ok t"
  shows "\<exists>t'. reclaim_departed_clients hist t = (Ok (), t') \<and> tracker_ok t'"
proof -
  let ?keep = "\<lambda>cid c. hist cid \<or> client_pinned c"
  have "(\<Sum>cid \<in> fmdom' (streams t). case fmlookup (streams t) cid of None \<Rightarrow> 0
        | Some c \<Rightarrow> if ?keep cid c then 0 else len_map (editor_streams c))
      = (\<Sum>cid \<in> fmdom' (streams t). client_streams (streams t) cid -
          client_streams (retain_clients (\<lambda>_ c. c) ?keep (streams t)) cid)"
    by (rule sum.cong) (auto simp: fmlookup_dom'_iff client_streams_def retain_clients_lookup)
  then show ?thesis
    using retain_subtract [OF assms, of "\<lambda>_ c. c"] unfolding reclaim_departed_clients_def Let_def by blast
qed

lemma finish_dispatch_ok: "tracker_ok t \<Longrightarrow> tracker_ok (finish_committed_handler_dispatch cid e t)"
proof (cases "fmlookup (streams t) cid")
  case (Some c)
  assume ok: "tracker_ok t"
  let ?c = "c\<lparr>committed_handler_edits := fmdrop e (committed_handler_edits c)\<rparr>"
  show ?thesis
  proof (cases "client_is_empty ?c")
    case True
    have "total_streams (fmdrop cid (streams t)) + client_streams (streams t) cid = total_streams (streams t)"
    proof -
      have "fmdom' (streams t) = insert cid (fmdom' (streams t) - {cid})" using Some by (auto intro: fmdom'I)
      moreover have "(\<Sum>x \<in> fmdom' (streams t) - {cid}. client_streams (fmdrop cid (streams t)) x)
          = (\<Sum>x \<in> fmdom' (streams t) - {cid}. client_streams (streams t) x)"
        by (rule sum.cong) (auto simp: client_streams_def)
      ultimately show ?thesis
        using Some by (simp add: total_streams_def sum.remove [of "fmdom' (streams t)" cid] fmdom'I)
    qed
    moreover have "client_streams (streams t) cid = 0"
      using Some client_is_empty_streams [OF True] by simp
    ultimately have "total_streams (fmdrop cid (streams t)) = total_streams (streams t)" by simp
    with ok Some True show ?thesis
      by (simp add: finish_committed_handler_dispatch_def tracker_ok_def)
  next
    case False
    with ok Some show ?thesis
      by (simp add: finish_committed_handler_dispatch_def Let_def tracker_ok_def handler_edits_total)
  qed
qed (simp add: finish_committed_handler_dispatch_def)

text \<open>
  A reservation is granted only above everything terminal or in flight, and raises the
  watermark to itself.
\<close>

lemma watermark_insert:
  assumes "watermark st < e"
  shows "watermark (st\<lparr>generation := g, in_flight_edit_seqs := finsert e (in_flight_edit_seqs st)\<rparr>) = e"
proof (cases "in_flight_edit_seqs st = {||}")
  case True
  with assms show ?thesis by (simp add: watermark_def last_in_flight_def)
next
  case False
  then have "fMax (finsert e (in_flight_edit_seqs st)) = max e (fMax (in_flight_edit_seqs st))"
    by (simp add: fMax_finsert)
  moreover have "fMax (in_flight_edit_seqs st) < e" "last_terminal_edit_seq st < e"
    using assms False by (auto simp: watermark_def last_in_flight_def)
  ultimately show ?thesis using False
    by (simp add: watermark_def last_in_flight_def max.absorb1 less_imp_le)
qed

lemma reserve_Ok:
  assumes "reserve cid nid edit_seq t = (Inr g, t')"
  shows "\<exists>c st. find_stream t' cid nid = Some (c, st) \<and> watermark st = edit_seq \<and> generation st = g \<and>
    edit_seq |\<in>| in_flight_edit_seqs st"
    and "\<And>c st. find_stream t cid nid = Some (c, st) \<Longrightarrow>
      watermark st < edit_seq \<and> unat g = unat (generation st) + 1"
proof -
  have "(\<exists>c st. find_stream t' cid nid = Some (c, st) \<and> watermark st = edit_seq \<and> generation st = g \<and>
      edit_seq |\<in>| in_flight_edit_seqs st) \<and>
    (\<forall>c st. find_stream t cid nid = Some (c, st) \<longrightarrow>
      watermark st < edit_seq \<and> unat g = unat (generation st) + 1)"
  proof (cases "find_stream t cid nid")
    case (Some x)
    obtain c st where x: "x = (c, st)" by (cases x)
    with assms Some have w: "watermark st < edit_seq" and g: "checked_add (generation st) 1 = Some g"
      and t': "t' = put_stream cid nid c
        (st\<lparr>generation := g, in_flight_edit_seqs := finsert edit_seq (in_flight_edit_seqs st)\<rparr>) t"
      by (auto simp: reserve_def split: if_splits option.splits)
    have "unat g = unat (generation st) + 1" using g checked_add_of_nat(1) [of 1 "generation st" g] by simp
    with w g t' Some x watermark_insert [OF w, of g] show ?thesis
      by (auto simp: put_stream_def find_stream_Some)
  next
    case None
    define c where "c = (case fmlookup (streams t) cid of Some c \<Rightarrow> c | None \<Rightarrow> client_default)"
    define st where "st = \<lparr>last_terminal_edit_seq = 0, in_flight_edit_seqs = {|edit_seq|}, generation = (1 :: u64)\<rparr>"
    have "t' = (put_stream cid nid c st t)\<lparr>stream_count := stream_count t + 1\<rparr>" "g = 1"
      using assms None by (auto simp: reserve_def Let_def c_def st_def split: if_splits)
    then have "find_stream t' cid nid = Some (c\<lparr>editor_streams := fmupd nid st (editor_streams c)\<rparr>, st)"
      by (simp add: find_stream_Some put_stream_def)
    moreover have "watermark st = edit_seq" by (simp add: st_def watermark_def last_in_flight_def)
    ultimately show ?thesis using None \<open>g = 1\<close> by (auto simp: st_def)
  qed
  then show "\<exists>c st. find_stream t' cid nid = Some (c, st) \<and> watermark st = edit_seq \<and> generation st = g \<and>
      edit_seq |\<in>| in_flight_edit_seqs st"
    "\<And>c st. find_stream t cid nid = Some (c, st) \<Longrightarrow>
      watermark st < edit_seq \<and> unat g = unat (generation st) + 1" by blast+
qed

section \<open>Properties\<close>

text \<open>
  C39: Every operation of the editor-sequence table keeps its stream count exact and within
  \<open>max_streams\<close>, and no reclamation underflows the count.
\<close>

theorem tracker_invariant:
  assumes "tracker_ok t"
  shows "tracker_ok (snd (reserve cid nid e t)) \<and> tracker_ok (mark_terminal cid nid e t) \<and>
    tracker_ok (abandon_reservation cid nid e t) \<and>
    tracker_ok (snd (begin_committed_handler_dispatch cid seq nid e t)) \<and>
    tracker_ok (finish_committed_handler_dispatch cid seq t) \<and>
    (\<exists>t'. reclaim_node nid t = (Ok (), t') \<and> tracker_ok t') \<and>
    (\<exists>t'. reclaim_nodes doomed t = (Ok (), t') \<and> tracker_ok t') \<and>
    (\<exists>t'. reclaim_missing_nodes s t = (Ok (), t') \<and> tracker_ok t') \<and>
    (\<exists>t'. reclaim_departed_clients hist t = (Ok (), t') \<and> tracker_ok t')"
proof -
  have "tracker_ok (snd (reserve cid nid e t))"
    using reserve_ok [OF _ assms] by (cases "reserve cid nid e t") simp
  moreover have "tracker_ok (snd (begin_committed_handler_dispatch cid seq nid e t))"
    using begin_dispatch_ok [OF _ assms] by (cases "begin_committed_handler_dispatch cid seq nid e t") simp
  ultimately show ?thesis
    using assms by (simp add: mark_terminal_ok abandon_reservation_ok finish_dispatch_ok
        reclaim_node_ok reclaim_nodes_ok reclaim_missing_nodes_ok reclaim_departed_clients_ok)
qed

theorem tracker_invariant_witness: "tracker_ok (snd (reserve [1] 5 1 (tracker_new 8)))"
  using tracker_invariant [of "tracker_new 8" "[1]" 5 1, OF tracker_new_ok] by simp

text \<open>
  Edit sequences are admitted in strictly increasing order per client and node: a reservation
  that succeeds is above every sequence still in flight or already terminal, becomes the new
  watermark, and carries a generation one above the last one; a sequence at or below the
  watermark is refused and changes nothing.
\<close>

theorem reserve_monotone:
  assumes "find_stream t cid nid = Some (c, st)"
  shows "case reserve cid nid e t of
      (Inr g, t') \<Rightarrow> watermark st < e \<and> unat g = unat (generation st) + 1 \<and>
        (\<exists>c' st'. find_stream t' cid nid = Some (c', st') \<and> watermark st' = e \<and> generation st' = g)
    | (Inl f, t') \<Rightarrow> t' = t \<and> (e \<le> watermark st \<longrightarrow> f = Err (StaleEditSeq e (watermark st)))"
proof (cases "reserve cid nid e t")
  case (Pair r t')
  show ?thesis
  proof (cases r)
    case (Inr g)
    then show ?thesis using reserve_Ok [OF Pair [unfolded Inr]] assms Pair by fastforce
  next
    case (Inl f)
    then show ?thesis using Pair assms by (auto simp: reserve_def split: if_splits option.splits)
  qed
qed

theorem reserve_monotone_witness:
  "\<exists>t' g. reserve [1] 5 2 (snd (reserve [1] 5 1 (tracker_new 8))) = (Ok g, t') \<and> unat g = 2"
proof -
  let ?t = "snd (reserve [1] 5 1 (tracker_new 8))"
  let ?st = "\<lparr>last_terminal_edit_seq = 0, in_flight_edit_seqs = {|1|}, generation = 1\<rparr>"
  have f: "\<exists>c. find_stream ?t [1] 5 = Some (c, ?st)"
    by (simp add: reserve_def find_stream_def tracker_new_def put_stream_def client_default_def)
  then obtain c where c: "find_stream ?t [1] 5 = Some (c, ?st)" by blast
  have "watermark ?st = 1" by (simp add: watermark_def last_in_flight_def)
  then have "\<exists>g t'. reserve [1] 5 2 ?t = (Ok g, t')"
    by (subst reserve_def) (simp add: c checked_add_def word_le_nat_alt)
  then show ?thesis using reserve_monotone [OF c, of 2] by auto
qed

end
