(* ===== verification/Transaction.thy ===== *)
theory Transaction
  imports Store_Invariant
begin

text \<open>
  Operations, transactions and their application:
  \<^verbatim>\<open>semantic-tree/src/transaction/{operation,record,kinds,error,apply}.rs\<close>.

  A transaction is applied to a staging copy and committed whole.  The entry points that
  take wire messages are in theory \<open>Wire\<close>.  \<open>WireError\<close> carries a message for people; the
  model keeps the literal, or the conversion error the message prints.
\<close>

section \<open>Data\<close>

datatype operation =
    CreateNode node_id type_ref "node_id option" "usize option" "(property_ref \<times> value_t) list"
  | DeleteNode node_id
  | SetProperty node_id property_ref "value_t"
  | ClearProperty node_id property_ref
  | MoveNode node_id "node_id option" "usize option"
  | ReorderChildren node_id "node_id list"
  | BatchPropertySet node_id "(property_ref \<times> value_t) list"
  | CreateModel model_id type_ref u64
  | ModelInsert model_id u64 "model_item list"
  | ModelDelete model_id "u64 option" "u64 option" "item_id list"
  | ModelUpdate model_id "u64 option" "model_item list"
  | ModelResetRange model_id u64 "model_item list" "u64 option"

record transaction =
  base_revision :: u64
  new_revision :: u64
  operations :: "operation list"
  priority :: u32

datatype value_conversion_error =
    MissingField string
  | InvalidResourceHashLength usize

datatype wire_reason = Message string | Conversion value_conversion_error

datatype txn_error =
    StaleBaseRevision u64 u64
  | InvalidNewRevision u64 u64
  | RevisionExhausted u64
  | MaxOperationsExceeded usize usize
  | OpFailed usize store_error
  | WireError wire_reason

fun txn_conformance_code :: "txn_error \<Rightarrow> string option" where
  "txn_conformance_code (StaleBaseRevision _ _) = Some ''stale_base_revision''"
| "txn_conformance_code (InvalidNewRevision _ _) = Some ''invalid_new_revision''"
| "txn_conformance_code (RevisionExhausted _) = Some ''revision_exhausted''"
| "txn_conformance_code (MaxOperationsExceeded _ _) = Some ''max_operations_exceeded''"
| "txn_conformance_code (OpFailed _ source) = Some (store_conformance_code source)"
| "txn_conformance_code (WireError _) = None"

section \<open>Revisions and transaction records\<close>

definition INITIAL :: u64 where
  "INITIAL = 0"

definition checked_next :: "u64 \<Rightarrow> u64 option" where
  "checked_next self = checked_add self 1"

definition revision_next :: "u64 \<Rightarrow> (txn_error, u64) result" where
  "revision_next self = expect (checked_add self 1)"

definition with_revisions :: "u64 \<Rightarrow> u64 \<Rightarrow> operation list \<Rightarrow> u32 \<Rightarrow> transaction" where
  "with_revisions base new ops prio =
     \<lparr>base_revision = base, new_revision = new, operations = ops, priority = prio\<rparr>"

definition transaction_new :: "u64 \<Rightarrow> operation list \<Rightarrow> (txn_error, transaction) result" where
  "transaction_new base ops =
     and_then (revision_next base) (\<lambda>new.
       Ok \<lparr>base_revision = base, new_revision = new, operations = ops, priority = 0\<rparr>)"

definition is_coalesceable :: "transaction \<Rightarrow> bool" where
  "is_coalesceable txn \<longleftrightarrow>
     operations txn \<noteq> [] \<and>
     list_all (\<lambda>op. case op of SetProperty _ _ v \<Rightarrow> is_scalar v | _ \<Rightarrow> False) (operations txn)"

section \<open>Applying one operation\<close>

text \<open>\<open>.map(|_| ())\<close> on the result.\<close>

definition discard :: "'a store_result \<Rightarrow> unit store_result" where
  "discard rs = (case rs of (Inl f, s) \<Rightarrow> (Inl f, s) | (Inr _, s) \<Rightarrow> (Ok (), s))"

fun operation_apply :: "operation \<Rightarrow> semantic_store \<Rightarrow> unit store_result" where
  "operation_apply (CreateNode i ty parent child_index ps) s = create_node i ty parent child_index ps s"
| "operation_apply (DeleteNode i) s = discard (delete_node i s)"
| "operation_apply (SetProperty i prop val) s = discard (set_property i prop val s)"
| "operation_apply (ClearProperty i prop) s = discard (clear_property i prop s)"
| "operation_apply (MoveNode i parent child_index) s = move_node i parent child_index s"
| "operation_apply (ReorderChildren pid order) s = reorder_children pid order s"
| "operation_apply (BatchPropertySet i ps) s = batch_property_set i ps s"
| "operation_apply (CreateModel i ty n) s = create_model i ty n s"
| "operation_apply (ModelInsert i index its) s = model_insert i index its s"
| "operation_apply (ModelDelete i index n ids) s = model_delete i index n ids s"
| "operation_apply (ModelUpdate i index its) s = model_update i index its s"
| "operation_apply (ModelResetRange i start its total_count) s = model_reset_range i start its total_count s"

fun operation_apply_owned :: "operation \<Rightarrow> semantic_store \<Rightarrow> unit store_result" where
  "operation_apply_owned (CreateNode i ty parent child_index ps) s = create_node i ty parent child_index ps s"
| "operation_apply_owned (DeleteNode i) s = discard (delete_node i s)"
| "operation_apply_owned (SetProperty i prop val) s = discard (set_property i prop val s)"
| "operation_apply_owned (ClearProperty i prop) s = discard (clear_property i prop s)"
| "operation_apply_owned (MoveNode i parent child_index) s = move_node i parent child_index s"
| "operation_apply_owned (ReorderChildren pid order) s = reorder_children pid order s"
| "operation_apply_owned (BatchPropertySet i ps) s = batch_property_set i ps s"
| "operation_apply_owned (CreateModel i ty n) s = create_model i ty n s"
| "operation_apply_owned (ModelInsert i index its) s = model_insert i index its s"
| "operation_apply_owned (ModelDelete i index n ids) s = model_delete i index n ids s"
| "operation_apply_owned (ModelUpdate i index its) s = model_update i index its s"
| "operation_apply_owned (ModelResetRange i start its total_count) s = model_reset_range i start its total_count s"

section \<open>Delivery forms\<close>

datatype authoritative_commit = AuthoritativeCommit (commit_transaction: transaction)
datatype coalesced_scalar_delta = CoalescedScalarDelta (delta_transaction: transaction)
datatype resync_snapshot = ResyncSnapshot (snapshot_transaction: transaction)
datatype delivered_transaction = Commit authoritative_commit | Delta coalesced_scalar_delta

definition commit_new :: "u64 \<Rightarrow> operation list \<Rightarrow> (txn_error, authoritative_commit) result" where
  "commit_new base ops = and_then (transaction_new base ops) (\<lambda>txn. Ok (AuthoritativeCommit txn))"

definition validate_commit :: "transaction \<Rightarrow> (txn_error, unit) result" where
  "validate_commit txn =
     (case checked_next (base_revision txn) of
        None \<Rightarrow> Error (RevisionExhausted (base_revision txn))
      | Some expected \<Rightarrow>
          if new_revision txn \<noteq> expected
          then Error (InvalidNewRevision expected (new_revision txn))
          else Ok ())"

definition commit_try_from :: "transaction \<Rightarrow> (txn_error, authoritative_commit) result" where
  "commit_try_from txn = and_then (validate_commit txn) (\<lambda>_. Ok (AuthoritativeCommit txn))"

definition validate_delta :: "transaction \<Rightarrow> (txn_error, unit) result" where
  "validate_delta txn =
     (case checked_next (base_revision txn) of
        None \<Rightarrow> Error (RevisionExhausted (base_revision txn))
      | Some expected \<Rightarrow>
          if new_revision txn \<le> base_revision txn \<or> \<not> is_coalesceable txn
          then Error (InvalidNewRevision expected (new_revision txn))
          else Ok ())"

definition delta_try_from :: "transaction \<Rightarrow> (txn_error, coalesced_scalar_delta) result" where
  "delta_try_from txn = and_then (validate_delta txn) (\<lambda>_. Ok (CoalescedScalarDelta txn))"

definition snapshot_try_from :: "transaction \<Rightarrow> (txn_error, resync_snapshot) result" where
  "snapshot_try_from txn =
     (if base_revision txn \<noteq> INITIAL
      then Error (StaleBaseRevision INITIAL (base_revision txn))
      else Ok (ResyncSnapshot txn))"

definition delivered_try_from :: "transaction \<Rightarrow> (txn_error, delivered_transaction) result" where
  "delivered_try_from txn =
     (case checked_next (base_revision txn) of
        None \<Rightarrow> Error (RevisionExhausted (base_revision txn))
      | Some next \<Rightarrow>
          if new_revision txn = next then Ok (Commit (AuthoritativeCommit txn))
          else and_then (delta_try_from txn) (\<lambda>d. Ok (Delta d)))"

section \<open>Applying transactions\<close>

type_synonym 'a txn_result = "(txn_error, 'a) result \<times> semantic_store"

text \<open>The loop over the operations, the same in all four places of the source.\<close>

fun apply_loop ::
  "('a \<Rightarrow> semantic_store \<Rightarrow> unit store_result) \<Rightarrow> nat \<Rightarrow> 'a list \<Rightarrow> semantic_store \<Rightarrow> unit txn_result" where
  "apply_loop run idx [] staged = (Ok (), staged)"
| "apply_loop run idx (op # ops) staged =
     (case run op staged of
        (Inr _, staged') \<Rightarrow> apply_loop run (Suc idx) ops staged'
      | (Inl (Err source), staged') \<Rightarrow> (Error (OpFailed idx source), staged')
      | (Inl Panic, staged') \<Rightarrow> (Inl Panic, staged')
      | (Inl Diverge, staged') \<Rightarrow> (Inl Diverge, staged'))"

text \<open>The operation limit and the loop on a staging store.\<close>

definition stage ::
  "(operation \<Rightarrow> semantic_store \<Rightarrow> unit store_result) \<Rightarrow> store_limits \<Rightarrow> operation list \<Rightarrow>
   semantic_store \<Rightarrow> (txn_error, semantic_store) result" where
  "stage run l ops staged =
     (if length ops > max_transaction_operations l
      then Error (MaxOperationsExceeded (max_transaction_operations l) (length ops))
      else (case apply_loop run 0 ops staged of
          (Inl f, _) \<Rightarrow> Inl f
        | (Inr _, staged') \<Rightarrow> Ok staged'))"

definition apply_staged :: "operation list \<Rightarrow> u64 \<Rightarrow> semantic_store \<Rightarrow> u64 txn_result" where
  "apply_staged ops new s =
     (case stage operation_apply (limits s) ops (clone_staging s) of
        Inl f \<Rightarrow> (Inl f, s)
      | Inr staged \<Rightarrow> (Ok new, commit_staging staged new s))"

definition apply_staged_owned :: "operation list \<Rightarrow> u64 \<Rightarrow> semantic_store \<Rightarrow> u64 txn_result" where
  "apply_staged_owned ops new s =
     (case stage operation_apply_owned (limits s) ops (clone_staging s) of
        Inl f \<Rightarrow> (Inl f, s)
      | Inr staged \<Rightarrow> (Ok new, commit_staging staged new s))"

definition check_base_revision :: "semantic_store \<Rightarrow> u64 \<Rightarrow> (txn_error, unit) result" where
  "check_base_revision s base =
     (if base \<noteq> revision s then Error (StaleBaseRevision (revision s) base) else Ok ())"

definition apply_transaction :: "u64 \<Rightarrow> operation list \<Rightarrow> semantic_store \<Rightarrow> u64 txn_result" where
  "apply_transaction base ops s =
     (if base \<noteq> revision s then (Error (StaleBaseRevision (revision s) base), s)
      else and_then_st (ok_or (RevisionExhausted base) (checked_next base), s) (\<lambda>new.
             apply_staged_owned ops new))"

definition apply_transaction_record :: "transaction \<Rightarrow> semantic_store \<Rightarrow> u64 txn_result" where
  "apply_transaction_record txn s =
     and_then_st (validate_commit txn, s) (\<lambda>_ s.
     and_then_st (check_base_revision s (base_revision txn), s) (\<lambda>_.
       apply_staged (operations txn) (new_revision txn)))"

definition apply_authoritative :: "authoritative_commit \<Rightarrow> semantic_store \<Rightarrow> u64 txn_result" where
  "apply_authoritative commit s =
     (let txn = commit_transaction commit
      in and_then_st (check_base_revision s (base_revision txn), s) (\<lambda>_.
           apply_staged (operations txn) (new_revision txn)))"

definition apply_coalesced_delta :: "coalesced_scalar_delta \<Rightarrow> semantic_store \<Rightarrow> u64 txn_result" where
  "apply_coalesced_delta delta s =
     (let txn = delta_transaction delta
      in and_then_st (check_base_revision s (base_revision txn), s) (\<lambda>_.
           apply_staged (operations txn) (new_revision txn)))"

definition replace_from_snapshot :: "resync_snapshot \<Rightarrow> semantic_store \<Rightarrow> u64 txn_result" where
  "replace_from_snapshot snapshot s =
     (let txn = snapshot_transaction snapshot
      in if new_revision txn < revision s
         then (Error (InvalidNewRevision (revision s) (new_revision txn)), s)
         else (case stage operation_apply (limits s) (operations txn)
                      (with_limits_and_revision (limits s) INITIAL) of
             Inl f \<Rightarrow> (Inl f, s)
           | Inr staged \<Rightarrow>
               (Ok (new_revision txn),
                commit_staging staged (new_revision txn)
                  (with_limits_and_revision (limits s) INITIAL))))"

record staged_commit =
  sc_staged :: semantic_store
  sc_base_revision :: u64
  sc_new_revision :: u64

definition prepare_commit :: "authoritative_commit \<Rightarrow> semantic_store \<Rightarrow> (txn_error, staged_commit) result" where
  "prepare_commit commit s =
     (let txn = commit_transaction commit
      in and_then (check_base_revision s (base_revision txn)) (\<lambda>_.
         and_then (stage operation_apply (limits s) (operations txn) (clone_staging s)) (\<lambda>staged.
           Ok \<lparr>sc_staged = staged, sc_base_revision = base_revision txn,
               sc_new_revision = new_revision txn\<rparr>)))"

text \<open>\<open>commit_prepared\<close> checks in debug builds that the store is still where it was.\<close>

definition commit_prepared :: "staged_commit \<Rightarrow> semantic_store \<Rightarrow> unit txn_result" where
  "commit_prepared sc s =
     (if revision s \<noteq> sc_base_revision sc then (Inl Panic, s)
      else (Ok (), commit_staging (sc_staged sc) (sc_new_revision sc) s))"

section \<open>The contract of a store operation\<close>

locale store_operation =
  fixes run :: "'a \<Rightarrow> semantic_store \<Rightarrow> unit store_result"
  assumes run_keeps: "run a s = (r, s') \<Longrightarrow> store_ok s \<Longrightarrow> r \<noteq> Inl Panic \<Longrightarrow> keeps s s' \<and> r \<noteq> Inl Diverge"
begin

lemma apply_loop_keeps:
  "apply_loop run idx ops s = (Inr u, s') \<Longrightarrow> store_ok s \<Longrightarrow> keeps s s'"
proof (induction ops arbitrary: idx s)
  case (Cons op ops)
  obtain r t where t: "run op s = (r, t)" by fastforce
  with Cons.prems(1) obtain u where r: "r = Inr u" by (auto split: sum.splits fault.splits)
  have k: "keeps s t" using run_keeps [OF t Cons.prems(2)] r by simp
  then have "store_ok t" by (simp add: keeps_def)
  with Cons.IH [of "Suc idx" t] Cons.prems t r have "keeps t s'" by simp
  with k show ?case by (rule keeps_trans)
qed simp

lemma apply_loop_ends:
  "apply_loop run idx ops s = (Inl f, s') \<Longrightarrow> store_ok s \<Longrightarrow> f \<noteq> Diverge"
proof (induction ops arbitrary: idx s)
  case (Cons op ops)
  obtain r t where t: "run op s = (r, t)" by fastforce
  have k: "r \<noteq> Inl Panic \<Longrightarrow> keeps s t \<and> r \<noteq> Inl Diverge" using run_keeps [OF t Cons.prems(2)] .
  show ?case
  proof (cases r)
    case (Inl g)
    with k t Cons.prems(1) show ?thesis by (cases g) auto
  next
    case (Inr u)
    with k have "store_ok t" by (simp add: keeps_def)
    with Inr t Cons show ?thesis by simp
  qed
qed simp

end

lemma discard_iff:
  "discard (run s) = (r, s') \<longleftrightarrow>
     (\<exists>r0. run s = (r0, s') \<and> r = (case r0 of Inl f \<Rightarrow> Inl f | Inr _ \<Rightarrow> Ok ()))"
  by (cases "run s"; cases "fst (run s)") (auto simp: discard_def)

lemma operation_keeps:
  assumes "operation_apply op s = (r, s')" "store_ok s" "r \<noteq> Inl Panic"
  shows "keeps s s' \<and> r \<noteq> Inl Diverge"
proof (cases op)
  case (DeleteNode i)
  with assms show ?thesis by (auto simp: discard_iff [of "delete_node i"] dest: delete_node_keeps)
next
  case (SetProperty i p v)
  with assms show ?thesis by (auto simp: discard_iff [of "set_property i p v"] dest: set_property_keeps)
next
  case (ClearProperty i p)
  with assms show ?thesis by (auto simp: discard_iff [of "clear_property i p"] dest: clear_property_keeps)
qed (use assms create_node_keeps move_node_keeps reorder_children_keeps batch_property_set_keeps
    create_model_keeps model_insert_keeps model_delete_keeps model_update_keeps
    model_reset_range_keeps in \<open>fastforce+\<close>)

lemma operation_apply_owned_eq: "operation_apply_owned op s = operation_apply op s"
  by (cases op) simp_all

interpretation applied: store_operation operation_apply
  by unfold_locales (rule operation_keeps)

interpretation owned: store_operation operation_apply_owned
  by unfold_locales (simp only: operation_apply_owned_eq, rule operation_keeps)

section \<open>What a transaction does\<close>

lemma clone_staging_id [simp]: "clone_staging s = s"
  by (simp add: clone_staging_def)

lemma commit_staging_keeps:
  assumes "keeps s staged"
  shows "commit_staging staged new s = staged\<lparr>revision := new\<rparr>"
  using assms by (intro semantic_store.equality) (auto simp: commit_staging_def keeps_def)

lemma store_ok_revision [simp]:
  "store_ok (s\<lparr>revision := r\<rparr>) \<longleftrightarrow> store_ok s" "refs_ok (s\<lparr>revision := r\<rparr>) \<longleftrightarrow> refs_ok s"
  by (simp_all add: store_ok_def refs_ok_def contains_model_def)

lemma stage_owned: "stage operation_apply_owned l ops s = stage operation_apply l ops s"
proof -
  have "operation_apply_owned = operation_apply" by (intro ext) (rule operation_apply_owned_eq)
  then show ?thesis by simp
qed

lemma apply_staged_owned_eq: "apply_staged_owned ops new s = apply_staged ops new s"
  by (simp add: apply_staged_owned_def apply_staged_def stage_owned)

lemma stage_keeps:
  "stage operation_apply l ops s = Inr t \<Longrightarrow> store_ok s \<Longrightarrow> keeps s t"
  by (auto simp: stage_def split: if_splits prod.splits sum.splits dest: applied.apply_loop_keeps)

lemma stage_ends:
  "stage operation_apply l ops s = Inl f \<Longrightarrow> store_ok s \<Longrightarrow> f \<noteq> Diverge"
  by (auto simp: stage_def split: if_splits prod.splits sum.splits dest: applied.apply_loop_ends)

lemma apply_staged_fail: "apply_staged ops new s = (Inl f, s') \<Longrightarrow> s' = s"
  by (auto simp: apply_staged_def split: sum.splits)

lemma apply_staged_Ok:
  assumes "apply_staged ops new s = (Inr r, s')" "store_ok s"
  shows "\<exists>t. stage operation_apply (limits s) ops s = Ok t \<and> keeps s t \<and> s' = t\<lparr>revision := new\<rparr> \<and> r = new"
  using assms stage_keeps [OF _ assms(2)] commit_staging_keeps [of s]
  by (auto simp: apply_staged_def split: sum.splits)

lemma checked_next_Some: "checked_next b = Some n \<longleftrightarrow> unat n = unat b + 1"
  using checked_add_of_nat(1) [of 1 b n] by (simp add: checked_next_def)

lemma checked_next_None: "checked_next b = None \<longleftrightarrow> unat b = 2 ^ 64 - 1"
  using checked_add_of_nat(2) [of 1 b] unat_u64_bound [of b]
  by (simp add: checked_next_def del: unat_u64_bound) linarith

lemma validate_commit_Ok: "validate_commit txn = Ok u \<longleftrightarrow> checked_next (base_revision txn) = Some (new_revision txn)"
  by (auto simp: validate_commit_def split: option.splits)

text \<open>The single-step shape every value of \<open>AuthoritativeCommit\<close> has.\<close>

definition commit_ok :: "authoritative_commit \<Rightarrow> bool" where
  "commit_ok c \<longleftrightarrow> checked_next (base_revision (commit_transaction c)) = Some (new_revision (commit_transaction c))"

lemma commit_try_from_ok: "commit_try_from txn = Ok c \<longleftrightarrow> c = AuthoritativeCommit txn \<and> commit_ok c"
  by (auto simp: commit_try_from_def result_simps validate_commit_Ok commit_ok_def)

lemma commit_new_ok: "commit_new base ops = Ok c \<Longrightarrow> commit_ok c"
  by (auto simp: commit_new_def transaction_new_def revision_next_def result_simps commit_ok_def checked_next_def)

lemma apply_authoritative_Ok:
  assumes "apply_authoritative c s = (Inr r, s')" "store_ok s"
  shows "base_revision (commit_transaction c) = revision s"
    and "\<exists>t. stage operation_apply (limits s) (operations (commit_transaction c)) s = Ok t \<and> keeps s t \<and>
       s' = t\<lparr>revision := new_revision (commit_transaction c)\<rparr> \<and> r = new_revision (commit_transaction c)"
  using assms apply_staged_Ok [OF _ assms(2)]
  by (auto simp: apply_authoritative_def check_base_revision_def Let_def split: if_splits)

lemma apply_authoritative_fail: "apply_authoritative c s = (Inl f, s') \<Longrightarrow> s' = s"
  by (auto simp: apply_authoritative_def check_base_revision_def Let_def split: if_splits dest: apply_staged_fail)

text \<open>Preparing and committing is the same as applying.\<close>

lemma prepare_commit_Ok:
  "prepare_commit c s = Ok sc \<longleftrightarrow>
     base_revision (commit_transaction c) = revision s \<and>
     stage operation_apply (limits s) (operations (commit_transaction c)) s = Ok (sc_staged sc) \<and>
     sc_base_revision sc = revision s \<and> sc_new_revision sc = new_revision (commit_transaction c)"
  by (auto simp: prepare_commit_def check_base_revision_def Let_def result_simps split: if_splits)

lemma prepare_commit_fail:
  "prepare_commit c s = Inl f \<longleftrightarrow> fst (apply_authoritative c s) = Inl f"
  by (auto simp: prepare_commit_def apply_authoritative_def check_base_revision_def apply_staged_def Let_def
      result_simps split: if_splits sum.splits)

lemma commit_prepared_applies:
  assumes "prepare_commit c s = Ok sc"
  shows "\<exists>s'. commit_prepared sc s = (Ok (), s') \<and>
    apply_authoritative c s = (Ok (new_revision (commit_transaction c)), s')"
  using assms
  by (auto simp: prepare_commit_Ok commit_prepared_def apply_authoritative_def check_base_revision_def
      apply_staged_def Let_def)

section \<open>Histories of commits\<close>

text \<open>The stores an authoritative session goes through: \<open>n\<close> successful commits lead from one to the other.\<close>

inductive commits :: "semantic_store \<Rightarrow> nat \<Rightarrow> semantic_store \<Rightarrow> bool" where
  start: "commits s 0 s"
| step: "commits s n t \<Longrightarrow> commit_ok c \<Longrightarrow> apply_authoritative c t = (Inr r, u) \<Longrightarrow> commits s (Suc n) u"

inductive_cases commitsE: "commits s n t"

lemma commits_keeps:
  assumes "commits s n t" "store_ok s"
  shows "store_ok t \<and> (refs_ok s \<longrightarrow> refs_ok t) \<and> limits t = limits s \<and>
    used_ids s |\<subseteq>| used_ids t \<and> used_model_ids s |\<subseteq>| used_model_ids t \<and>
    fmdom (nodes t) |\<inter>| used_ids s |\<subseteq>| fmdom (nodes s) \<and>
    fmdom (models t) |\<inter>| used_model_ids s |\<subseteq>| fmdom (models s) \<and>
    unat (revision t) = unat (revision s) + n"
  using assms
proof induction
  case (step s n t c r u)
  then have t: "store_ok t" "unat (revision t) = unat (revision s) + n" by auto
  obtain v where v: "keeps t v" "u = v\<lparr>revision := new_revision (commit_transaction c)\<rparr>"
    using apply_authoritative_Ok(2) [OF step.hyps(3) t(1)] by blast
  have "unat (revision u) = unat (revision t) + 1"
    using step.hyps(2) apply_authoritative_Ok(1) [OF step.hyps(3) t(1)] v(2)
    by (simp add: commit_ok_def checked_next_Some)
  with step.IH [OF step.prems] v t show ?case by (auto simp: keeps_def)
qed simp

section \<open>Properties\<close>

text \<open>A commit on the empty store, for the examples.\<close>

definition first_commit :: authoritative_commit where
  "first_commit = AuthoritativeCommit (with_revisions 0 1
     [CreateModel 7 (standard_type 9) 3, CreateNode 1 (standard_type 1) None None [],
      CreateNode 2 (standard_type 2) (Some 1) (Some 0) [(MODEL_REF, VUnsignedInt 7)]] 0)"

lemmas store_eval =
  apply_authoritative_def check_base_revision_def apply_staged_def stage_def create_eval
  commit_staging_def with_revisions_def

lemma first_commit_ok: "commit_ok first_commit"
  by (simp add: commit_ok_def first_commit_def with_revisions_def checked_next_def checked_add_def)

lemma first_commit_applies: "\<exists>s'. apply_authoritative first_commit store_new = (Ok 1, s')"
  by (simp add: first_commit_def store_eval)

text \<open>
  C1: Transactions are atomic.  Applying an authoritative commit to a well-formed store ends;
  when it fails, for whatever reason, the store is unchanged; when it succeeds, the commit was
  based on the current revision, respected the operation limit, and the new store is the result
  of all its operations in order, again well-formed, at exactly the revision it names.
\<close>

theorem transaction_atomic:
  assumes "apply_authoritative c s = (r, s')" "store_ok s"
  shows "case r of
      Inl f \<Rightarrow> s' = s \<and> f \<noteq> Diverge
    | Inr new \<Rightarrow> base_revision (commit_transaction c) = revision s \<and>
        new = new_revision (commit_transaction c) \<and>
        length (operations (commit_transaction c)) \<le> max_transaction_operations (limits s) \<and>
        (\<exists>t. apply_loop operation_apply 0 (operations (commit_transaction c)) s = (Ok (), t) \<and>
           keeps s t \<and> s' = t\<lparr>revision := new\<rparr>)"
proof (cases r)
  case (Inl f)
  have "s' = s" using apply_authoritative_fail assms Inl by blast
  moreover have "f \<noteq> Diverge"
    using assms Inl stage_ends
    by (auto simp: apply_authoritative_def apply_staged_def check_base_revision_def Let_def
        split: if_splits sum.splits)
  ultimately show ?thesis using Inl by simp
next
  case (Inr new)
  from apply_authoritative_Ok [OF assms(1) [unfolded Inr] assms(2)] obtain t where
    "base_revision (commit_transaction c) = revision s"
    "stage operation_apply (limits s) (operations (commit_transaction c)) s = Ok t" "keeps s t"
    "s' = t\<lparr>revision := new_revision (commit_transaction c)\<rparr>" "new = new_revision (commit_transaction c)"
    by blast
  then show ?thesis
    using Inr by (auto simp: stage_def split: if_splits sum.splits prod.splits)
qed

theorem transaction_atomic_witness:
  "\<exists>s'. apply_authoritative first_commit store_new = (Ok 1, s') \<and>
     (\<exists>t. keeps store_new t \<and> s' = t\<lparr>revision := 1\<rparr>)"
proof -
  obtain s' where "apply_authoritative first_commit store_new = (Ok 1, s')"
    using first_commit_applies by blast
  with transaction_atomic [OF this store_new_ok(1)] show ?thesis by auto
qed

text \<open>
  C11: Node and model identities are never reused.  Along every history of commits from a
  well-formed store the invariant of the store holds, the limits stay, the revision counts the commits, the sets of used ids grow, and an id
  that was used and is not alive at one point is not alive at any later point.
\<close>

theorem commit_history_invariant:
  assumes "commits s n t" "store_ok s"
  shows "store_ok t \<and> limits t = limits s \<and>
    unat (revision t) = unat (revision s) + n \<and>
    used_ids s |\<subseteq>| used_ids t \<and> used_model_ids s |\<subseteq>| used_model_ids t \<and>
    (\<forall>i. i |\<in>| used_ids s \<longrightarrow> \<not> contains_node s i \<longrightarrow> \<not> contains_node t i) \<and>
    (\<forall>i. i |\<in>| used_model_ids s \<longrightarrow> \<not> contains_model s i \<longrightarrow> \<not> contains_model t i)"
proof -
  note k = commits_keeps [OF assms]
  have "i |\<in>| used_ids s \<Longrightarrow> \<not> contains_node s i \<Longrightarrow> \<not> contains_node t i" for i
    using k by (fastforce simp: contains_node_def fmlookup_dom_iff)
  moreover have "i |\<in>| used_model_ids s \<Longrightarrow> \<not> contains_model s i \<Longrightarrow> \<not> contains_model t i" for i
    using k by (fastforce simp: contains_model_def fmlookup_dom_iff)
  ultimately show ?thesis using k by simp
qed

theorem commit_history_invariant_witness:
  "\<exists>t. commits store_new 1 t \<and> store_ok t \<and> unat (revision t) = 1"
proof -
  obtain t where "apply_authoritative first_commit store_new = (Ok 1, t)"
    using first_commit_applies by blast
  then have "commits store_new 1 t"
    using commits.step [OF commits.start first_commit_ok] by auto
  with commit_history_invariant [OF this store_new_ok(1)] store_new_ok(2) show ?thesis
    by (auto simp: store_new_def with_limits_def with_limits_and_revision_def)
qed

text \<open>
  The two-phase path of the session, \<open>prepare_commit\<close> and then \<open>commit_prepared\<close> on the
  unchanged store, does exactly what \<open>apply_authoritative\<close> does in one call: it fails with the
  same fault or leaves the same store, and the second phase cannot fail.
\<close>

theorem two_phase_commit:
  "case prepare_commit c s of
     Inl f \<Rightarrow> apply_authoritative c s = (Inl f, s)
   | Inr sc \<Rightarrow> \<exists>s'. commit_prepared sc s = (Ok (), s') \<and>
       apply_authoritative c s = (Ok (new_revision (commit_transaction c)), s')"
proof (cases "prepare_commit c s")
  case (Inl f)
  then have "fst (apply_authoritative c s) = Inl f" using prepare_commit_fail by blast
  then show ?thesis
    using Inl apply_authoritative_fail [of c s f] by (cases "apply_authoritative c s") auto
next
  case (Inr sc)
  then show ?thesis using commit_prepared_applies [OF Inr] by simp
qed

text \<open>
  The owned application path, which moves its operations instead of cloning them, has the
  same effect and the same errors as the borrowing one.
\<close>

theorem owned_path_equivalent:
  "apply_staged_owned ops new s = apply_staged ops new s"
  by (simp add: apply_staged_owned_def apply_staged_def stage_owned)

text \<open>
  Every operation preserves the invariant of the store, also when it returns an error, and
  every graph walk inside it terminates; it touches neither limits nor revision.
\<close>

theorem operation_preserves_invariant:
  assumes "operation_apply op s = (r, s')" "store_ok s" "r \<noteq> Inl Panic"
  shows "store_ok s' \<and> (refs_ok s \<longrightarrow> refs_ok s') \<and> r \<noteq> Inl Diverge \<and>
    limits s' = limits s \<and> revision s' = revision s"
  using operation_keeps [OF assms] by (simp add: keeps_def)

theorem operation_preserves_invariant_witness:
  "\<exists>s'. operation_apply (CreateNode 1 (standard_type 1) None None []) store_new = (Ok (), s') \<and> store_ok s'"
proof -
  have "\<exists>s'. operation_apply (CreateNode 1 (standard_type 1) None None []) store_new = (Ok (), s')"
    by (simp add: store_eval)
  then obtain s' where "operation_apply (CreateNode 1 (standard_type 1) None None []) store_new = (Ok (), s')"
    by blast
  with operation_preserves_invariant [OF this store_new_ok(1)] show ?thesis by auto
qed

end
