(* ===== verification/Wire.thy ===== *)
theory Wire
  imports Transaction
begin

text \<open>
  The protobuf messages a transaction travels in and the conversions to and from them:
  \<^verbatim>\<open>semantic-tree/src/value/wire.rs\<close>, \<^verbatim>\<open>semantic-tree/src/transaction/wire.rs\<close>, the
  conversions of \<^verbatim>\<open>model.rs\<close>, and the entry points of \<^verbatim>\<open>apply.rs\<close> that take a message.

  The message types are those of \<^verbatim>\<open>protocol/srui.proto\<close>: a message field is an option, a
  \<open>repeated\<close> field a list.  \<open>TypeRef\<close> and \<open>PropertyRef\<close> have the same two fields on both
  sides and are one type here.  The properties of a model item are written in key order.
\<close>

section \<open>Messages\<close>

datatype wire_value = WireValue "wire_inner option"
and wire_inner =
    WNull u32
  | WBool bool
  | WInt u64
  | WUint u64
  | WFloat f64
  | WString "u8 list"
  | WNodeId u64
  | WItemId u64
  | WResourceHash "u8 list"
  | WEnum u32 u32
  | WSize f64 f64
  | WPoint f64 f64
  | WRange u64 u64
  | WRect f64 f64 f64 f64
  | WInsets f64 f64 f64 f64
  | WList "wire_value list"
  | WRecord "type_ref option" "wire_property list"
and wire_property = WireProperty "property_ref option" "wire_value option"

record wire_model_item =
  wi_item_id :: u64
  wi_value :: "wire_value option"
  wi_properties :: "wire_property list"

record wire_node_record =
  wn_node_id :: u64
  wn_type :: "type_ref option"
  wn_parent_id :: u64
  wn_child_index :: u32
  wn_properties :: "wire_property list"

datatype wire_op =
    WCreateNode "wire_node_record option"
  | WDeleteNode u64
  | WSetProperty u64 "property_ref option" "wire_value option"
  | WClearProperty u64 "property_ref option"
  | WCommit u64
  | WCreateModel u64 "type_ref option" u64
  | WModelInsert u64 u64 "wire_model_item list"
  | WModelDelete u64 u64 u64 "u64 list"
  | WModelUpdate u64 u64 "wire_model_item list"
  | WModelResetRange u64 u64 "wire_model_item list" u64
  | WMoveNode u64 u64 u32
  | WReorderChildren u64 "u64 list"
  | WBatchPropertySet u64 "wire_property list"

type_synonym wire_operation = "wire_op option"

record wire_transaction =
  w_base_revision :: u64
  w_new_revision :: u64
  w_operations :: "wire_operation list"
  w_priority :: u32

section \<open>Values\<close>

fun value_to_wire :: "value_t \<Rightarrow> wire_value" where
  "value_to_wire VNull = WireValue (Some (WNull 0))"
| "value_to_wire (VBool b) = WireValue (Some (WBool b))"
| "value_to_wire (VSignedInt i) = WireValue (Some (WInt i))"
| "value_to_wire (VUnsignedInt u) = WireValue (Some (WUint u))"
| "value_to_wire (VFloat64 f) = WireValue (Some (WFloat f))"
| "value_to_wire (VString s) = WireValue (Some (WString s))"
| "value_to_wire (VNodeId i) = WireValue (Some (WNodeId i))"
| "value_to_wire (VItemId i) = WireValue (Some (WItemId i))"
| "value_to_wire (VResourceHash h) = WireValue (Some (WResourceHash h))"
| "value_to_wire (VEnumToken e v) = WireValue (Some (WEnum e v))"
| "value_to_wire (VSize w h) = WireValue (Some (WSize w h))"
| "value_to_wire (VPoint x y) = WireValue (Some (WPoint x y))"
| "value_to_wire (VRange s l) = WireValue (Some (WRange s l))"
| "value_to_wire (VRect x y w h) = WireValue (Some (WRect x y w h))"
| "value_to_wire (VEdgeInsets t l b r) = WireValue (Some (WInsets t l b r))"
| "value_to_wire (VList xs) = WireValue (Some (WList (map value_to_wire xs)))"
| "value_to_wire (VRecord ty ps) =
     WireValue (Some (WRecord (Some ty)
       (map (\<lambda>p. WireProperty (Some (fst p)) (Some (value_to_wire (snd p)))) ps)))"

definition property_to_wire :: "property_ref \<times> value_t \<Rightarrow> wire_property" where
  "property_to_wire p = WireProperty (Some (fst p)) (Some (value_to_wire (snd p)))"

fun value_from_wire :: "wire_value \<Rightarrow> (value_conversion_error, value_t) result"
and property_from_wire :: "wire_property \<Rightarrow> (value_conversion_error, property_ref \<times> value_t) result" where
  "value_from_wire (WireValue None) = Error (MissingField ''value'')"
| "value_from_wire (WireValue (Some (WNull _))) = Ok VNull"
| "value_from_wire (WireValue (Some (WBool b))) = Ok (VBool b)"
| "value_from_wire (WireValue (Some (WInt i))) = Ok (VSignedInt i)"
| "value_from_wire (WireValue (Some (WUint u))) = Ok (VUnsignedInt u)"
| "value_from_wire (WireValue (Some (WFloat f))) = Ok (VFloat64 f)"
| "value_from_wire (WireValue (Some (WString s))) = Ok (VString s)"
| "value_from_wire (WireValue (Some (WNodeId i))) = Ok (VNodeId i)"
| "value_from_wire (WireValue (Some (WItemId i))) = Ok (VItemId i)"
| "value_from_wire (WireValue (Some (WResourceHash bytes))) =
     (if length bytes \<noteq> 32 then Error (InvalidResourceHashLength (length bytes))
      else Ok (VResourceHash bytes))"
| "value_from_wire (WireValue (Some (WEnum e v))) = Ok (VEnumToken e v)"
| "value_from_wire (WireValue (Some (WSize w h))) = Ok (VSize w h)"
| "value_from_wire (WireValue (Some (WPoint x y))) = Ok (VPoint x y)"
| "value_from_wire (WireValue (Some (WRange s l))) = Ok (VRange s l)"
| "value_from_wire (WireValue (Some (WRect x y w h))) = Ok (VRect x y w h)"
| "value_from_wire (WireValue (Some (WInsets t l b r))) = Ok (VEdgeInsets t l b r)"
| "value_from_wire (WireValue (Some (WList vs))) =
     and_then (traverse value_from_wire vs) (\<lambda>xs. Ok (VList xs))"
| "value_from_wire (WireValue (Some (WRecord ty ps))) =
     and_then (ok_or (MissingField ''record.type'') ty) (\<lambda>type_ref.
     and_then (traverse property_from_wire ps) (\<lambda>props. Ok (VRecord type_ref props)))"
| "property_from_wire (WireProperty prop val) =
     and_then (ok_or (MissingField ''property'') prop) (\<lambda>p.
       (case val of
          None \<Rightarrow> Ok (p, VNull)
        | Some v \<Rightarrow> and_then (value_from_wire v) (\<lambda>x. Ok (p, x))))"

definition item_to_wire :: "model_item \<Rightarrow> wire_model_item" where
  "item_to_wire it =
     \<lparr>wi_item_id = item_id it, wi_value = Some (value_to_wire (item_value it)),
      wi_properties = map property_to_wire (sorted_list_of_fmap (item_properties it))\<rparr>"

definition item_from_wire :: "wire_model_item \<Rightarrow> (value_conversion_error, model_item) result" where
  "item_from_wire w =
     and_then (case wi_value w of Some v \<Rightarrow> value_from_wire v | None \<Rightarrow> Ok VNull) (\<lambda>v.
     and_then (traverse property_from_wire (wi_properties w)) (\<lambda>ps.
       Ok \<lparr>item_id = wi_item_id w, item_value = v, item_properties = collect_properties ps fmempty\<rparr>))"

section \<open>Operations and transactions\<close>

definition opt_parent :: "u64 \<Rightarrow> node_id option" where
  "opt_parent p = (if p = 0 then None else Some p)"

definition opt_child_index :: "u32 \<Rightarrow> usize option" where
  "opt_child_index i = (if i = - 1 then None else Some (unat i))"

definition wire_error :: "value_conversion_error \<Rightarrow> txn_error" where
  "wire_error e = WireError (Conversion e)"

fun operation_from_wire_op :: "wire_op \<Rightarrow> (txn_error, operation) result" where
  "operation_from_wire_op (WCreateNode node) =
     and_then (ok_or (WireError (Message ''missing NodeRecord in CreateNodeOp'')) node) (\<lambda>r.
     and_then (ok_or (WireError (Message ''missing TypeRef in CreateNodeOp'')) (wn_type r)) (\<lambda>ty.
     and_then (map_err wire_error (traverse property_from_wire (wn_properties r))) (\<lambda>ps.
       Ok (CreateNode (wn_node_id r) ty (opt_parent (wn_parent_id r))
             (opt_child_index (wn_child_index r)) ps))))"
| "operation_from_wire_op (WDeleteNode i) = Ok (DeleteNode i)"
| "operation_from_wire_op (WSetProperty i prop val) =
     and_then (ok_or (WireError (Message ''missing PropertyRef in SetPropertyOp'')) prop) (\<lambda>p.
     and_then (case val of Some v \<Rightarrow> map_err wire_error (value_from_wire v) | None \<Rightarrow> Ok VNull) (\<lambda>v.
       Ok (SetProperty i p v)))"
| "operation_from_wire_op (WClearProperty i prop) =
     and_then (ok_or (WireError (Message ''missing PropertyRef in ClearPropertyOp'')) prop) (\<lambda>p.
       Ok (ClearProperty i p))"
| "operation_from_wire_op (WMoveNode i parent idx) =
     Ok (MoveNode i (opt_parent parent) (opt_child_index idx))"
| "operation_from_wire_op (WReorderChildren parent ids) = Ok (ReorderChildren parent ids)"
| "operation_from_wire_op (WBatchPropertySet i props) =
     and_then (map_err wire_error (traverse property_from_wire props)) (\<lambda>ps. Ok (BatchPropertySet i ps))"
| "operation_from_wire_op (WCreateModel i ty n) =
     and_then (ok_or (WireError (Message ''missing TypeRef in CreateModelOp'')) ty) (\<lambda>t.
       Ok (CreateModel i t n))"
| "operation_from_wire_op (WModelInsert i index its) =
     and_then (map_err wire_error (traverse item_from_wire its)) (\<lambda>xs. Ok (ModelInsert i index xs))"
| "operation_from_wire_op (WModelDelete i index n ids) =
     Ok (ModelDelete i (if n > 0 then Some index else None) (if n > 0 then Some n else None) ids)"
| "operation_from_wire_op (WModelUpdate i index its) =
     and_then (map_err wire_error (traverse item_from_wire its)) (\<lambda>xs.
       Ok (ModelUpdate i (if index = - 1 then None else Some index) xs))"
| "operation_from_wire_op (WModelResetRange i start its n) =
     and_then (map_err wire_error (traverse item_from_wire its)) (\<lambda>xs.
       Ok (ModelResetRange i start xs (if n > 0 then Some n else None)))"
| "operation_from_wire_op (WCommit _) =
     Error (WireError (Message ''unsupported operation variant for tree mutation''))"

definition operation_from_wire :: "wire_operation \<Rightarrow> (txn_error, operation) result" where
  "operation_from_wire op =
     and_then (ok_or (WireError (Message ''empty operation payload in wire Operation'')) op)
       operation_from_wire_op"

definition or_zero :: "u64 option \<Rightarrow> u64" where
  "or_zero x = (case x of Some v \<Rightarrow> v | None \<Rightarrow> 0)"

definition child_index_u32 :: "usize option \<Rightarrow> u32" where
  "child_index_u32 x = (case x of Some idx \<Rightarrow> of_nat idx | None \<Rightarrow> - 1)"

fun operation_to_wire :: "operation \<Rightarrow> wire_operation" where
  "operation_to_wire (CreateNode i ty parent child_index ps) =
     Some (WCreateNode (Some \<lparr>wn_node_id = i, wn_type = Some ty, wn_parent_id = or_zero parent,
       wn_child_index = child_index_u32 child_index, wn_properties = map property_to_wire ps\<rparr>))"
| "operation_to_wire (DeleteNode i) = Some (WDeleteNode i)"
| "operation_to_wire (SetProperty i p v) = Some (WSetProperty i (Some p) (Some (value_to_wire v)))"
| "operation_to_wire (ClearProperty i p) = Some (WClearProperty i (Some p))"
| "operation_to_wire (MoveNode i parent child_index) =
     Some (WMoveNode i (or_zero parent) (child_index_u32 child_index))"
| "operation_to_wire (ReorderChildren parent order) = Some (WReorderChildren parent order)"
| "operation_to_wire (BatchPropertySet i ps) = Some (WBatchPropertySet i (map property_to_wire ps))"
| "operation_to_wire (CreateModel i ty n) = Some (WCreateModel i (Some ty) n)"
| "operation_to_wire (ModelInsert i index its) = Some (WModelInsert i index (map item_to_wire its))"
| "operation_to_wire (ModelDelete i index n ids) = Some (WModelDelete i (or_zero index) (or_zero n) ids)"
| "operation_to_wire (ModelUpdate i index its) =
     Some (WModelUpdate i (case index of Some x \<Rightarrow> x | None \<Rightarrow> - 1) (map item_to_wire its))"
| "operation_to_wire (ModelResetRange i start its n) =
     Some (WModelResetRange i start (map item_to_wire its) (or_zero n))"

definition transaction_from_wire :: "wire_transaction \<Rightarrow> (txn_error, transaction) result" where
  "transaction_from_wire w =
     and_then (traverse operation_from_wire (w_operations w)) (\<lambda>ops.
       Ok \<lparr>base_revision = w_base_revision w, new_revision = w_new_revision w,
           operations = ops, priority = w_priority w\<rparr>)"

definition transaction_to_wire :: "transaction \<Rightarrow> wire_transaction" where
  "transaction_to_wire txn =
     \<lparr>w_base_revision = base_revision txn, w_new_revision = new_revision txn,
      w_operations = map operation_to_wire (operations txn), w_priority = priority txn\<rparr>"

section \<open>Applying messages\<close>

definition commit_from_wire :: "wire_transaction \<Rightarrow> (txn_error, authoritative_commit) result" where
  "commit_from_wire w = and_then (transaction_from_wire w) commit_try_from"

definition delta_from_wire :: "wire_transaction \<Rightarrow> (txn_error, coalesced_scalar_delta) result" where
  "delta_from_wire w = and_then (transaction_from_wire w) delta_try_from"

definition snapshot_from_wire :: "wire_transaction \<Rightarrow> (txn_error, resync_snapshot) result" where
  "snapshot_from_wire w = and_then (transaction_from_wire w) snapshot_try_from"

definition delivered_from_wire :: "wire_transaction \<Rightarrow> (txn_error, delivered_transaction) result" where
  "delivered_from_wire w = and_then (transaction_from_wire w) delivered_try_from"

definition apply_wire_transaction :: "wire_transaction \<Rightarrow> semantic_store \<Rightarrow> u64 txn_result" where
  "apply_wire_transaction w s =
     and_then_st (transaction_from_wire w, s) (\<lambda>txn s.
     and_then_st (validate_commit txn, s) (\<lambda>_ s.
     and_then_st (check_base_revision s (base_revision txn), s) (\<lambda>_.
       apply_staged_owned (operations txn) (new_revision txn))))"

definition apply_delivered_transaction :: "wire_transaction \<Rightarrow> semantic_store \<Rightarrow> u64 txn_result" where
  "apply_delivered_transaction w s =
     and_then_st (delivered_from_wire w, s) (\<lambda>d s.
       (case d of
          Commit commit \<Rightarrow> apply_authoritative commit s
        | Delta delta \<Rightarrow> apply_coalesced_delta delta s))"

definition store_apply_operation :: "wire_operation \<Rightarrow> semantic_store \<Rightarrow> unit store_result" where
  "store_apply_operation op s =
     and_then_st (map_err (\<lambda>_. OperationError WireConversionFailed) (operation_from_wire op), s)
       operation_apply"

section \<open>Round trips\<close>

text \<open>Every hash in the value is 32 bytes long, as the type \<open>ResourceHash\<close> guarantees.\<close>

definition hashes_wf :: "value_t \<Rightarrow> bool" where
  "hashes_wf v \<longleftrightarrow> (\<forall>h. nested_hash h v \<longrightarrow> resource_hash_wf h)"

lemma hashes_wf_nested:
  "hashes_wf (VList xs) \<Longrightarrow> x \<in> set xs \<Longrightarrow> hashes_wf x"
  "hashes_wf (VRecord ty ps) \<Longrightarrow> p \<in> set ps \<Longrightarrow> hashes_wf (snd p)"
  by (cases p; fastforce simp: hashes_wf_def)+

lemma value_round_trip: "hashes_wf v \<Longrightarrow> value_from_wire (value_to_wire v) = Ok v"
proof (induction v rule: value_to_wire.induct)
  case (16 xs)
  have "traverse value_from_wire (map value_to_wire xs) = Ok (map id xs)"
    by (rule traverse_map) (use 16 hashes_wf_nested(1) in simp)
  then show ?case by simp
next
  case (17 ty ps)
  have "traverse property_from_wire
      (map (\<lambda>p. WireProperty (Some (fst p)) (Some (value_to_wire (snd p)))) ps) = Ok (map id ps)"
    by (rule traverse_map) (use 17 hashes_wf_nested(2) in simp)
  then show ?case by simp
qed (simp_all add: resource_hash_wf_def hashes_wf_def)

lemma properties_round_trip:
  "\<forall>p \<in> set ps. hashes_wf (snd p) \<Longrightarrow> traverse property_from_wire (map property_to_wire ps) = Ok ps"
  using traverse_map [of ps property_from_wire property_to_wire id]
  by (simp add: property_to_wire_def value_round_trip)

lemma collect_sorted: "collect_properties (sorted_list_of_fmap m) fmempty = m"
proof (rule fmap_ext)
  fix p
  let ?xs = "sorted_list_of_fmap m"
  show "fmlookup (collect_properties ?xs fmempty) p = fmlookup m p"
  proof (cases "fmlookup m p")
    case None
    then have "p \<notin> fst ` set ?xs" by (auto simp: set_sorted_list_of_fmap)
    with None show ?thesis using fold_fmupd_out [of p fst ?xs snd fmempty] by (simp add: collect_properties_def)
  next
    case (Some v)
    then have "(p, v) \<in> set ?xs" by (simp add: set_sorted_list_of_fmap)
    with Some show ?thesis
      using fold_fmupd_in [of fst ?xs "(p, v)" snd fmempty] by (simp add: collect_properties_def)
  qed
qed

definition item_hashes_wf :: "model_item \<Rightarrow> bool" where
  "item_hashes_wf it \<longleftrightarrow>
     hashes_wf (item_value it) \<and> (\<forall>p v. fmlookup (item_properties it) p = Some v \<longrightarrow> hashes_wf v)"

lemma item_round_trip: "item_hashes_wf it \<Longrightarrow> item_from_wire (item_to_wire it) = Ok it"
  using properties_round_trip [of "sorted_list_of_fmap (item_properties it)"]
  by (simp add: item_from_wire_def item_to_wire_def item_hashes_wf_def value_round_trip
      ball_sorted_list_of_fmap collect_sorted)

lemma items_round_trip:
  "\<forall>it \<in> set its. item_hashes_wf it \<Longrightarrow> traverse item_from_wire (map item_to_wire its) = Ok its"
  using traverse_map [of its item_from_wire item_to_wire id] by (simp add: item_round_trip)

text \<open>
  The operations whose wire form means the same: the wire reserves parent 0 for a root, child
  index \<open>u32::MAX\<close> for the last place and item index \<open>u64::MAX\<close> for an update by identity,
  and carries child indices in 32 bits.
\<close>

fun wire_faithful :: "operation \<Rightarrow> bool" where
  "wire_faithful (CreateNode i ty parent child_index ps) \<longleftrightarrow>
     parent \<noteq> Some 0 \<and> (\<forall>idx. child_index = Some idx \<longrightarrow> idx < 2 ^ 32 - 1) \<and>
     (\<forall>p \<in> set ps. hashes_wf (snd p))"
| "wire_faithful (SetProperty i p v) \<longleftrightarrow> hashes_wf v"
| "wire_faithful (MoveNode i parent child_index) \<longleftrightarrow>
     parent \<noteq> Some 0 \<and> (\<forall>idx. child_index = Some idx \<longrightarrow> idx < 2 ^ 32 - 1)"
| "wire_faithful (BatchPropertySet i ps) \<longleftrightarrow> (\<forall>p \<in> set ps. hashes_wf (snd p))"
| "wire_faithful (ModelInsert i index its) \<longleftrightarrow> (\<forall>it \<in> set its. item_hashes_wf it)"
| "wire_faithful (ModelUpdate i index its) \<longleftrightarrow> index \<noteq> Some (- 1) \<and> (\<forall>it \<in> set its. item_hashes_wf it)"
| "wire_faithful (ModelResetRange i start its n) \<longleftrightarrow> (\<forall>it \<in> set its. item_hashes_wf it)"
| "wire_faithful _ \<longleftrightarrow> True"

lemma opt_parent_round_trip: "parent \<noteq> Some 0 \<Longrightarrow> opt_parent (or_zero parent) = parent"
  by (auto simp: opt_parent_def or_zero_def split: option.splits)

lemma opt_child_index_round_trip:
  assumes "\<forall>idx. child_index = Some idx \<longrightarrow> idx < 2 ^ 32 - 1"
  shows "opt_child_index (child_index_u32 child_index) = child_index"
proof (cases child_index)
  case (Some idx)
  then have idx: "idx < 2 ^ 32 - 1" using assms by blast
  then have u: "unat (of_nat idx :: u32) = idx" by (simp add: unsigned_of_nat take_bit_nat_eq_self)
  have "unat (- 1 :: u32) = 2 ^ 32 - 1" by (simp add: unsigned_minus_1_eq_mask mask_eq_exp_minus_1)
  with u idx have "(of_nat idx :: u32) \<noteq> - 1" by auto
  with u Some show ?thesis by (simp add: opt_child_index_def child_index_u32_def)
qed (simp add: opt_child_index_def child_index_u32_def)

lemma delete_items_normal:
  "delete_items (if or_zero n > 0 then Some (or_zero index) else None)
     (if or_zero n > 0 then Some (or_zero n) else None) ids m = delete_items index n ids m"
  by (auto simp: delete_items_def or_zero_def Let_def split: option.splits)

lemma reset_total_normal:
  "reset_range start_index its (if or_zero n > 0 then Some (or_zero n) else None) m = reset_range start_index its n m"
  by (auto simp: reset_range_def or_zero_def Let_def split: option.splits)

lemma cached_reset_total_normal:
  "cached_reset l start_index its (if or_zero n > 0 then Some (or_zero n) else None) = cached_reset l start_index its n"
proof -
  define k where "k = (if or_zero n > 0 then Some (or_zero n) else None)"
  have "reset_range start_index its k = reset_range start_index its n"
    unfolding k_def by (rule ext) (rule reset_total_normal)
  then show ?thesis by (intro ext) (simp add: cached_reset_def Let_def flip: k_def)
qed

text \<open>The store cannot tell a decoded operation from the one that was encoded.\<close>

lemma operation_round_trip:
  assumes "wire_faithful op"
  shows "\<exists>op'. operation_from_wire (operation_to_wire op) = Ok op' \<and> operation_apply op' = operation_apply op"
proof (cases op)
  case (ModelDelete i index n ids)
  define j where "j = (if or_zero n > 0 then Some (or_zero index) else None)"
  define k where "k = (if or_zero n > 0 then Some (or_zero n) else None)"
  have "delete_items j k ids = delete_items index n ids"
    unfolding j_def k_def by (rule ext) (rule delete_items_normal)
  moreover have "operation_from_wire (operation_to_wire op) = Ok (ModelDelete i j k ids)"
    using ModelDelete by (simp add: operation_from_wire_def j_def k_def)
  moreover have "operation_apply (ModelDelete i j k ids) = operation_apply op"
    using calculation(1) ModelDelete by (intro ext) (simp add: model_delete_def)
  ultimately show ?thesis by blast
next
  case (ModelResetRange i start its n)
  define k where "k = (if or_zero n > 0 then Some (or_zero n) else None)"
  have "cached_reset l start its k = cached_reset l start its n" for l
    unfolding k_def by (rule cached_reset_total_normal)
  moreover have "operation_from_wire (operation_to_wire op) = Ok (ModelResetRange i start its k)"
    using ModelResetRange assms by (simp add: operation_from_wire_def k_def items_round_trip)
  moreover have "operation_apply (ModelResetRange i start its k) = operation_apply op"
    using calculation(1) ModelResetRange by (intro ext) (simp add: model_reset_range_def)
  ultimately show ?thesis by blast
qed (use assms in \<open>auto simp: operation_from_wire_def properties_round_trip items_round_trip value_round_trip
      opt_parent_round_trip opt_child_index_round_trip split: option.splits\<close>)

text \<open>Whole transactions: decoding an encoded transaction gives one with the same effect.\<close>

lemma operations_round_trip:
  "\<forall>op \<in> set ops. wire_faithful op \<Longrightarrow>
   \<exists>ops'. traverse operation_from_wire (map operation_to_wire ops) = Ok ops' \<and>
     map operation_apply ops' = map operation_apply ops"
proof (induction ops)
  case (Cons op ops)
  then obtain ops' where "traverse operation_from_wire (map operation_to_wire ops) = Ok ops'"
      "map operation_apply ops' = map operation_apply ops" by auto
  moreover obtain op' where "operation_from_wire (operation_to_wire op) = Ok op'"
      "operation_apply op' = operation_apply op" using operation_round_trip Cons.prems by auto
  ultimately show ?case by auto
qed simp

lemma apply_loop_map:
  "map run xs = map run ys \<Longrightarrow> apply_loop run idx xs s = apply_loop run idx ys s"
proof (induction xs arbitrary: ys idx s)
  case (Cons x xs)
  then obtain y zs where "ys = y # zs" "run x = run y" "map run xs = map run zs" by (cases ys) auto
  with Cons.IH [of zs] show ?case by (auto split: prod.splits sum.splits fault.splits)
qed simp

lemma stage_map:
  assumes "map operation_apply ops = map operation_apply ops'"
  shows "stage operation_apply l ops s = stage operation_apply l ops' s"
  using apply_loop_map [OF assms] map_eq_imp_length_eq [OF assms] by (simp add: stage_def)

lemma transaction_round_trip:
  assumes "\<forall>op \<in> set (operations txn). wire_faithful op"
  shows "\<exists>txn'. transaction_from_wire (transaction_to_wire txn) = Ok txn' \<and>
    base_revision txn' = base_revision txn \<and> new_revision txn' = new_revision txn \<and>
    priority txn' = priority txn \<and>
    map operation_apply (operations txn') = map operation_apply (operations txn)"
  using operations_round_trip [OF assms] by (auto simp: transaction_from_wire_def transaction_to_wire_def)

lemma apply_wire_round_trip:
  assumes "\<forall>op \<in> set (operations txn). wire_faithful op" and "validate_commit txn = Ok ()"
  shows "apply_wire_transaction (transaction_to_wire txn) s = apply_authoritative (AuthoritativeCommit txn) s"
proof -
  obtain txn' where t: "transaction_from_wire (transaction_to_wire txn) = Ok txn'"
      "base_revision txn' = base_revision txn" "new_revision txn' = new_revision txn"
      "map operation_apply (operations txn') = map operation_apply (operations txn)"
    using transaction_round_trip [OF assms(1)] by blast
  have "apply_staged_owned (operations txn') n = apply_staged (operations txn) n" for n
    by (rule ext) (simp add: apply_staged_owned_eq apply_staged_def stage_map [OF t(4)])
  moreover have "validate_commit txn' = Ok ()" using assms(2) t by (simp add: validate_commit_Ok)
  ultimately show ?thesis
    using t by (simp add: apply_wire_transaction_def apply_authoritative_def)
qed

lemma apply_delivered_round_trip:
  assumes "\<forall>op \<in> set (operations txn). wire_faithful op" and "validate_commit txn = Ok ()"
  shows "apply_delivered_transaction (transaction_to_wire txn) s = apply_authoritative (AuthoritativeCommit txn) s"
proof -
  obtain txn' where t: "transaction_from_wire (transaction_to_wire txn) = Ok txn'"
      "base_revision txn' = base_revision txn" "new_revision txn' = new_revision txn"
      "map operation_apply (operations txn') = map operation_apply (operations txn)"
    using transaction_round_trip [OF assms(1)] by blast
  have "apply_staged (operations txn') n = apply_staged (operations txn) n" for n
    by (rule ext) (simp add: apply_staged_def stage_map [OF t(4)])
  moreover have "delivered_try_from txn' = Ok (Commit (AuthoritativeCommit txn'))"
    using assms(2) t by (simp add: validate_commit_Ok delivered_try_from_def)
  ultimately show ?thesis
    using t by (simp add: apply_delivered_transaction_def delivered_from_wire_def apply_authoritative_def)
qed

text \<open>What arrives over the wire is faithful: the reserved encodings never decode to themselves.\<close>

lemma traverse_Ok_set:
  "traverse f xs = Ok ys \<Longrightarrow> y \<in> set ys \<Longrightarrow> \<exists>x \<in> set xs. f x = Ok y"
  by (induction xs arbitrary: ys) (auto simp: result_simps)

lemma map_err_Ok [result_simps]: "map_err f r = Inr a \<longleftrightarrow> r = Inr a"
  by (cases "(f, r)" rule: map_err.cases) auto

lemma from_wire_hashes:
  "value_from_wire w = Ok v \<Longrightarrow> hashes_wf v"
  "property_from_wire p = Ok q \<Longrightarrow> hashes_wf (snd q)"
proof (induction w and p arbitrary: v and q rule: value_from_wire_property_from_wire.induct)
  case (17 vs)
  then obtain xs where xs: "v = VList xs" "traverse value_from_wire vs = Ok xs" by (auto simp: result_simps)
  have "hashes_wf x" if "x \<in> set xs" for x
    using traverse_Ok_set [OF xs(2) that] 17(1) by blast
  with xs show ?case by (auto simp: hashes_wf_def)
next
  case (18 ty ps)
  then obtain t props where v: "v = VRecord t props" "ty = Some t" "traverse property_from_wire ps = Ok props"
    by (auto simp: result_simps)
  have "hashes_wf (snd x)" if "x \<in> set props" for x
    using traverse_Ok_set [OF v(3) that] 18(1) v(2) by (cases x) auto
  with v show ?case by (fastforce simp: hashes_wf_def)
next
  case (19 p w)
  then show ?case by (auto simp: result_simps hashes_wf_def split: option.splits)
qed (auto simp: hashes_wf_def resource_hash_wf_def split: if_splits)

lemma item_from_wire_hashes: "item_from_wire w = Ok it \<Longrightarrow> item_hashes_wf it"
proof -
  assume "item_from_wire w = Ok it"
  then obtain v ps where v: "(case wi_value w of Some v \<Rightarrow> value_from_wire v | None \<Rightarrow> Ok VNull) = Ok v"
      and ps: "traverse property_from_wire (wi_properties w) = Ok ps"
      and it: "it = \<lparr>item_id = wi_item_id w, item_value = v, item_properties = collect_properties ps fmempty\<rparr>"
    by (auto simp: item_from_wire_def result_simps)
  have "hashes_wf v" using v from_wire_hashes(1) by (auto simp: hashes_wf_def split: option.splits)
  moreover have "hashes_wf x" if "fmlookup (collect_properties ps fmempty) p = Some x" for p x
    using collect_properties_lookup [OF that] traverse_Ok_set [OF ps] from_wire_hashes(2) by fastforce
  ultimately show ?thesis using it by (simp add: item_hashes_wf_def)
qed

lemma operation_from_wire_faithful:
  assumes "operation_from_wire w = Ok op"
  shows "wire_faithful op"
proof -
  obtain wop where w: "operation_from_wire_op wop = Ok op"
    using assms by (auto simp: operation_from_wire_def result_simps)
  have props: "hashes_wf b" if "traverse property_from_wire qs = Ok ps" "(a, b) \<in> set ps" for ps qs a b
    using traverse_Ok_set [OF that] from_wire_hashes(2) by fastforce
  have its: "item_hashes_wf it" if "traverse item_from_wire ws = Ok xs" "it \<in> set xs" for xs ws it
    using traverse_Ok_set [OF that] item_from_wire_hashes by blast
  have par: "opt_parent p \<noteq> Some 0" for p by (simp add: opt_parent_def)
  have idx: "i < 4294967295" if "opt_child_index c = Some i" for c i
  proof -
    have c: "c \<noteq> - 1" "i = unat c" using that by (auto simp: opt_child_index_def split: if_splits)
    have "unat (- 1 :: u32) = 2 ^ 32 - 1" by (simp add: unsigned_minus_1_eq_mask mask_eq_exp_minus_1)
    with c(1) have "unat c \<noteq> 2 ^ 32 - 1" by (auto simp: word_unat_eq_iff)
    moreover have "unat c < 2 ^ 32" using unsigned_less [of c] by simp
    ultimately show ?thesis using c(2) by simp
  qed
  have val: "hashes_wf v" if "(case ow of Some w \<Rightarrow> map_err wire_error (value_from_wire w) | None \<Rightarrow> Ok VNull) = Ok v" for ow v
    using that from_wire_hashes(1) by (auto simp: hashes_wf_def result_simps split: option.splits)
  show ?thesis
  proof (cases wop)
    case (WCreateNode r)
    with w show ?thesis by (auto simp: result_simps par) (use props idx in blast)+
  next
    case (WMoveNode i p c)
    with w show ?thesis by (auto simp: par) (use idx in blast)+
  next
    case (WBatchPropertySet i qs)
    with w show ?thesis by (auto simp: result_simps) (use props in blast)+
  qed (use w in \<open>auto simp: result_simps intro: its val split: if_splits\<close>)
qed

section \<open>Properties\<close>

text \<open>
  A value survives the wire: decoding the encoded value gives it back, and decoding never
  yields a hash of the wrong length.
\<close>

theorem value_wire_round_trip:
  "(hashes_wf v \<longrightarrow> value_from_wire (value_to_wire v) = Ok v) \<and>
   (\<forall>w. value_from_wire w = Ok v \<longrightarrow> hashes_wf v)"
  using value_round_trip from_wire_hashes(1) by blast

theorem value_wire_round_trip_witness:
  "value_from_wire (value_to_wire (VList [VBool True, VString [104, 105]])) = Ok (VList [VBool True, VString [104, 105]])"
  using value_wire_round_trip [of "VList [VBool True, VString [104, 105]]"] by (simp add: hashes_wf_def)

text \<open>
  C19: A committed transaction has the same effect on a replica as on the server: when none of its
  operations uses an encoding the wire reserves, decoding its message and applying it as a
  delivered transaction is applying the commit, on every store, with the same result, and the
  same holds for the server's own wire entry point.
\<close>

theorem wire_delivery_faithful:
  assumes "\<forall>op \<in> set (operations txn). wire_faithful op" "validate_commit txn = Ok ()"
  shows "apply_delivered_transaction (transaction_to_wire txn) s = apply_authoritative (AuthoritativeCommit txn) s \<and>
    apply_wire_transaction (transaction_to_wire txn) s = apply_authoritative (AuthoritativeCommit txn) s"
  using apply_delivered_round_trip [OF assms] apply_wire_round_trip [OF assms] by simp

theorem wire_delivery_faithful_witness:
  "apply_delivered_transaction (transaction_to_wire (with_revisions 0 1 [DeleteNode 5] 0)) store_new =
     apply_authoritative (AuthoritativeCommit (with_revisions 0 1 [DeleteNode 5] 0)) store_new"
  using wire_delivery_faithful [of "with_revisions 0 1 [DeleteNode 5] 0" store_new]
  by (simp add: with_revisions_def validate_commit_def checked_next_def checked_add_def)

text \<open>
  The encoding of a root as parent 0: a child of the node with id 0 reaches the replica as a root.
\<close>

theorem wire_zero_parent:
  "operation_from_wire (operation_to_wire (MoveNode 5 (Some 0) None)) = Ok (MoveNode 5 None None)"
  by (simp add: operation_from_wire_def or_zero_def child_index_u32_def opt_parent_def opt_child_index_def)

text \<open>
  What is decoded from the wire can be sent again: every operation a server accepts from a
  message is one whose own encoding decodes to an operation with the same effect.
\<close>

theorem decoded_operations_round_trip:
  assumes "operation_from_wire w = Ok op"
  shows "\<exists>op'. operation_from_wire (operation_to_wire op) = Ok op' \<and> operation_apply op' = operation_apply op"
  using operation_round_trip [OF operation_from_wire_faithful [OF assms]] .

theorem decoded_operations_round_trip_witness:
  "\<exists>op'. operation_from_wire (operation_to_wire (MoveNode 5 None (Some 3))) = Ok op' \<and>
     operation_apply op' = operation_apply (MoveNode 5 None (Some 3))"
proof -
  have "operation_from_wire (Some (WMoveNode 5 0 3)) = Ok (MoveNode 5 None (Some 3))"
    by (simp add: operation_from_wire_def opt_parent_def opt_child_index_def)
  then show ?thesis by (rule decoded_operations_round_trip)
qed

end
