(* ===== verification/Ui_Transaction.thy ===== *)
theory Ui_Transaction
  imports Wire
begin

text \<open>
  The transactional context of the SDK: \<open>UiTransaction\<close> of \<^verbatim>\<open>sdk/src/session.rs\<close>.
  Every mutator counts, records the operation for the wire and then applies it to the staged
  store.  The closure a caller passes is a tree of such calls, theory-side the datatype
  \<open>ui_prog\<close>: it sees the result of each call and may read the staged store (the code derefs to
  it) before it decides on the next call, on \<open>Ok\<close>, on \<open>Err\<close> or on a panic.  A panic inside a
  call unwinds the closure.
\<close>

section \<open>The context\<close>

record ui_transaction =
  ui_staged :: semantic_store
  ui_operations :: "operation list"
  ui_op_count :: usize
  ui_max_ops :: usize

type_synonym 'a ui_result = "(store_error, 'a) result \<times> ui_transaction"

definition ui_new :: "semantic_store \<Rightarrow> usize \<Rightarrow> ui_transaction" where
  "ui_new staged max_ops =
     \<lparr>ui_staged = staged, ui_operations = [], ui_op_count = 0, ui_max_ops = max_ops\<rparr>"

definition record_op :: "ui_transaction \<Rightarrow> unit ui_result" where
  "record_op ui =
     (let ui1 = ui\<lparr>ui_op_count := ui_op_count ui + 1\<rparr>
      in if ui_op_count ui1 > ui_max_ops ui1
         then (Error (OperationError (TransactionOperationsExceeded (ui_max_ops ui1) (ui_op_count ui1))), ui1)
         else (Ok (), ui1))"

text \<open>The three steps of every mutator: count, record, apply to the staged store.\<close>

definition recorded ::
  "operation \<Rightarrow> (semantic_store \<Rightarrow> 'a store_result) \<Rightarrow> ui_transaction \<Rightarrow> 'a ui_result" where
  "recorded op run ui =
     and_then_st (record_op ui) (\<lambda>_ ui1.
       (case run (ui_staged ui1) of
          (r, staged) \<Rightarrow> (r, ui1\<lparr>ui_operations := ui_operations ui1 @ [op], ui_staged := staged\<rparr>)))"

definition ui_move_node ::
  "node_id \<Rightarrow> node_id option \<Rightarrow> usize option \<Rightarrow> ui_transaction \<Rightarrow> unit ui_result" where
  "ui_move_node i parent child_index = recorded (MoveNode i parent child_index) (move_node i parent child_index)"

definition ui_reorder_children :: "node_id \<Rightarrow> node_id list \<Rightarrow> ui_transaction \<Rightarrow> unit ui_result" where
  "ui_reorder_children pid order = recorded (ReorderChildren pid order) (reorder_children pid order)"

definition ui_apply_op :: "operation \<Rightarrow> ui_transaction \<Rightarrow> unit ui_result" where
  "ui_apply_op op = recorded op (operation_apply op)"

definition ui_create_node ::
  "node_id \<Rightarrow> type_ref \<Rightarrow> node_id option \<Rightarrow> usize option \<Rightarrow> (property_ref \<times> value_t) list \<Rightarrow>
   ui_transaction \<Rightarrow> unit ui_result" where
  "ui_create_node i ty parent child_index ps =
     recorded (CreateNode i ty parent child_index ps) (create_node i ty parent child_index ps)"

definition ui_set_property ::
  "node_id \<Rightarrow> property_ref \<Rightarrow> value_t \<Rightarrow> ui_transaction \<Rightarrow> value_t option ui_result" where
  "ui_set_property i p v = recorded (SetProperty i p v) (set_property i p v)"

definition ui_clear_property :: "node_id \<Rightarrow> property_ref \<Rightarrow> ui_transaction \<Rightarrow> value_t option ui_result" where
  "ui_clear_property i p = recorded (ClearProperty i p) (clear_property i p)"

definition ui_delete_node :: "node_id \<Rightarrow> ui_transaction \<Rightarrow> node_id list ui_result" where
  "ui_delete_node i = recorded (DeleteNode i) (delete_node i)"

section \<open>Closures\<close>

datatype ui_request =
    UiCreate node_id type_ref "node_id option" "usize option" "(property_ref \<times> value_t) list"
  | UiSet node_id property_ref "value_t"
  | UiClear node_id property_ref
  | UiDelete node_id
  | UiMove node_id "node_id option" "usize option"
  | UiReorder node_id "node_id list"
  | UiApply operation

datatype ui_reply = Done | Previous "value_t option" | Deleted "node_id list"

definition reply_with :: "('a \<Rightarrow> ui_reply) \<Rightarrow> 'a ui_result \<Rightarrow> ui_reply ui_result" where
  "reply_with f x = (case x of (Inl e, ui) \<Rightarrow> (Inl e, ui) | (Inr a, ui) \<Rightarrow> (Ok (f a), ui))"

fun ui_invoke :: "ui_request \<Rightarrow> ui_transaction \<Rightarrow> ui_reply ui_result" where
  "ui_invoke (UiCreate i ty parent child_index ps) ui =
     reply_with (\<lambda>_. Done) (ui_create_node i ty parent child_index ps ui)"
| "ui_invoke (UiSet i p v) ui = reply_with Previous (ui_set_property i p v ui)"
| "ui_invoke (UiClear i p) ui = reply_with Previous (ui_clear_property i p ui)"
| "ui_invoke (UiDelete i) ui = reply_with Deleted (ui_delete_node i ui)"
| "ui_invoke (UiMove i parent child_index) ui = reply_with (\<lambda>_. Done) (ui_move_node i parent child_index ui)"
| "ui_invoke (UiReorder pid order) ui = reply_with (\<lambda>_. Done) (ui_reorder_children pid order ui)"
| "ui_invoke (UiApply op) ui = reply_with (\<lambda>_. Done) (ui_apply_op op ui)"

datatype 'a ui_prog =
    Return 'a
  | Raise store_error
  | Unwind
  | Invoke ui_request "(store_error, ui_reply) result \<times> semantic_store \<Rightarrow> 'a ui_prog"

primrec run_ui :: "'a ui_prog \<Rightarrow> ui_transaction \<Rightarrow> 'a ui_result" where
  "run_ui (Return x) ui = (Ok x, ui)"
| "run_ui (Raise e) ui = (Error e, ui)"
| "run_ui Unwind ui = (Inl Panic, ui)"
| "run_ui (Invoke q k) ui =
     (let (r, ui1) = ui_invoke q ui
      in if r = Inl Panic then (Inl Panic, ui1)
         else if r = Inl Diverge then (Inl Diverge, ui1)
         else run_ui (k (r, ui_staged ui1)) ui1)"

section \<open>What a closure does to the staged store\<close>

fun request_operation :: "ui_request \<Rightarrow> operation" where
  "request_operation (UiCreate i ty parent child_index ps) = CreateNode i ty parent child_index ps"
| "request_operation (UiSet i p v) = SetProperty i p v"
| "request_operation (UiClear i p) = ClearProperty i p"
| "request_operation (UiDelete i) = DeleteNode i"
| "request_operation (UiMove i parent child_index) = MoveNode i parent child_index"
| "request_operation (UiReorder pid order) = ReorderChildren pid order"
| "request_operation (UiApply op) = op"

lemmas ui_methods =
  ui_create_node_def ui_set_property_def ui_clear_property_def ui_delete_node_def ui_move_node_def
  ui_reorder_children_def ui_apply_op_def

lemma reply_recorded:
  assumes "discard (run (ui_staged ui)) = operation_apply op (ui_staged ui)"
  shows "\<exists>g. reply_with f (recorded op run ui) =
    (if ui_op_count ui + 1 > ui_max_ops ui
     then (Error (OperationError (TransactionOperationsExceeded (ui_max_ops ui) (ui_op_count ui + 1))),
           ui\<lparr>ui_op_count := ui_op_count ui + 1\<rparr>)
     else (case operation_apply op (ui_staged ui) of
        (r, staged) \<Rightarrow> (case r of Inl e \<Rightarrow> Inl e | Inr _ \<Rightarrow> Ok g,
          ui\<lparr>ui_op_count := ui_op_count ui + 1, ui_operations := ui_operations ui @ [op], ui_staged := staged\<rparr>)))"
  using assms
  by (cases "run (ui_staged ui)")
    (auto simp: recorded_def record_op_def reply_with_def discard_def Let_def split: sum.splits prod.splits)

text \<open>Every call is its operation on the staged store, unless the operation limit refuses it.\<close>

lemma ui_invoke_eq:
  "\<exists>g. ui_invoke q ui =
    (if ui_op_count ui + 1 > ui_max_ops ui
     then (Error (OperationError (TransactionOperationsExceeded (ui_max_ops ui) (ui_op_count ui + 1))),
           ui\<lparr>ui_op_count := ui_op_count ui + 1\<rparr>)
     else (case operation_apply (request_operation q) (ui_staged ui) of
        (r, staged) \<Rightarrow> (case r of Inl e \<Rightarrow> Inl e | Inr _ \<Rightarrow> Ok g,
          ui\<lparr>ui_op_count := ui_op_count ui + 1,
             ui_operations := ui_operations ui @ [request_operation q], ui_staged := staged\<rparr>)))"
proof (cases q)
  case (UiCreate i ty parent child_index ps)
  then show ?thesis unfolding UiCreate ui_invoke.simps request_operation.simps ui_methods
    by (intro reply_recorded) (simp add: discard_def split: sum.split prod.split)
next
  case (UiSet i p v)
  then show ?thesis unfolding UiSet ui_invoke.simps request_operation.simps ui_methods
    by (intro reply_recorded) simp
next
  case (UiClear i p)
  then show ?thesis unfolding UiClear ui_invoke.simps request_operation.simps ui_methods
    by (intro reply_recorded) simp
next
  case (UiDelete i)
  then show ?thesis unfolding UiDelete ui_invoke.simps request_operation.simps ui_methods
    by (intro reply_recorded) simp
next
  case (UiMove i parent child_index)
  then show ?thesis unfolding UiMove ui_invoke.simps request_operation.simps ui_methods
    by (intro reply_recorded) (simp add: discard_def split: sum.split prod.split)
next
  case (UiReorder pid order)
  then show ?thesis unfolding UiReorder ui_invoke.simps request_operation.simps ui_methods
    by (intro reply_recorded) (simp add: discard_def split: sum.split prod.split)
next
  case (UiApply op)
  then show ?thesis unfolding UiApply ui_invoke.simps request_operation.simps ui_methods
    by (intro reply_recorded) (simp add: discard_def split: sum.split prod.split)
qed

text \<open>The cases of a call.\<close>

lemma ui_invoke_cases:
  assumes "ui_invoke q ui = (r, ui')"
  obtains (refused) e where "r = Error e" "ui_operations ui' = ui_operations ui" "ui_staged ui' = ui_staged ui"
      "ui_max_ops ui' = ui_max_ops ui" "ui_op_count ui' = Suc (ui_op_count ui)"
  | (run) r0 where "operation_apply (request_operation q) (ui_staged ui) = (r0, ui_staged ui')"
      "ui_operations ui' = ui_operations ui @ [request_operation q]" "Suc (ui_op_count ui) \<le> ui_max_ops ui"
      "ui_max_ops ui' = ui_max_ops ui" "ui_op_count ui' = Suc (ui_op_count ui)"
      "\<And>f. r = Inl f \<longleftrightarrow> r0 = Inl f"
proof -
  obtain g where eq: "ui_invoke q ui =
    (if ui_op_count ui + 1 > ui_max_ops ui
     then (Error (OperationError (TransactionOperationsExceeded (ui_max_ops ui) (ui_op_count ui + 1))),
           ui\<lparr>ui_op_count := ui_op_count ui + 1\<rparr>)
     else (case operation_apply (request_operation q) (ui_staged ui) of
        (r, staged) \<Rightarrow> (case r of Inl e \<Rightarrow> Inl e | Inr _ \<Rightarrow> Ok g,
          ui\<lparr>ui_op_count := ui_op_count ui + 1,
             ui_operations := ui_operations ui @ [request_operation q], ui_staged := staged\<rparr>)))"
    using ui_invoke_eq by blast
  show thesis
  proof (cases "ui_op_count ui + 1 > ui_max_ops ui")
    case True
    then show thesis using assms eq by (intro refused) auto
  next
    case False
    obtain r0 staged where r0: "operation_apply (request_operation q) (ui_staged ui) = (r0, staged)"
      by (cases "operation_apply (request_operation q) (ui_staged ui)")
    have "r = (case r0 of Inl e \<Rightarrow> Inl e | Inr _ \<Rightarrow> Ok g)"
      "ui' = ui\<lparr>ui_op_count := ui_op_count ui + 1,
         ui_operations := ui_operations ui @ [request_operation q], ui_staged := staged\<rparr>"
      using assms False r0 unfolding eq by auto
    then show thesis using False r0 by (intro run [of r0]) (auto split: sum.splits)
  qed
qed

text \<open>
  The invariant of the context: the staged store is a well-formed successor of the base, and no
  more operations are recorded than were counted and than the limit allows.
\<close>

definition ui_ok :: "semantic_store \<Rightarrow> ui_transaction \<Rightarrow> bool" where
  "ui_ok base ui \<longleftrightarrow>
     keeps base (ui_staged ui) \<and> length (ui_operations ui) \<le> ui_op_count ui \<and>
     length (ui_operations ui) \<le> ui_max_ops ui"

lemma ui_new_ok: "store_ok s \<Longrightarrow> ui_ok s (ui_new s n)"
  by (simp add: ui_ok_def ui_new_def)

lemma ui_invoke_ok:
  assumes "ui_invoke q ui = (r, ui')" "ui_ok base ui" "r \<noteq> Inl Panic"
  shows "ui_ok base ui' \<and> ui_max_ops ui' = ui_max_ops ui \<and> r \<noteq> Inl Diverge"
  using assms(1)
proof (cases rule: ui_invoke_cases)
  case (refused e)
  with assms(2) show ?thesis by (simp add: ui_ok_def)
next
  case (run r0)
  have "store_ok (ui_staged ui)" using assms(2) by (simp add: ui_ok_def keeps_def)
  with operation_keeps [OF run(1)] assms(3) run(6) have "keeps (ui_staged ui) (ui_staged ui') \<and> r0 \<noteq> Inl Diverge"
    by blast
  with run assms(2) show ?thesis by (auto simp: ui_ok_def intro: keeps_trans)
qed

lemma run_ui_ok:
  "run_ui p ui = (r, ui') \<Longrightarrow> ui_ok base ui \<Longrightarrow> r \<noteq> Inl Panic \<Longrightarrow>
   ui_ok base ui' \<and> ui_max_ops ui' = ui_max_ops ui \<and> r \<noteq> Inl Diverge"
proof (induction p arbitrary: ui)
  case (Invoke q k)
  obtain r1 ui1 where i: "ui_invoke q ui = (r1, ui1)" by (cases "ui_invoke q ui")
  have np: "r1 \<noteq> Inl Panic" using Invoke.prems(1,3) i by auto
  from ui_invoke_ok [OF i Invoke.prems(2) np]
  have ok: "ui_ok base ui1" "ui_max_ops ui1 = ui_max_ops ui" "r1 \<noteq> Inl Diverge" by auto
  with Invoke.prems(1) i np have "run_ui (k (r1, ui_staged ui1)) ui1 = (r, ui')" by simp
  from Invoke.IH [OF _ this ok(1) Invoke.prems(3)] ok(2) show ?case by auto
qed auto

section \<open>What the recorded operations mean\<close>

text \<open>
  The context is clean when replaying the recorded operations on the base gives the staged store.
  A closure is disciplined when it asks only for operations the wire can carry and leaves with an
  error at the first call that fails; such a closure keeps the context clean.
\<close>

definition ui_clean :: "semantic_store \<Rightarrow> ui_transaction \<Rightarrow> bool" where
  "ui_clean base ui \<longleftrightarrow> apply_loop operation_apply 0 (ui_operations ui) base = (Ok (), ui_staged ui)"

inductive disciplined :: "'a ui_prog \<Rightarrow> bool" where
  "disciplined (Return x)"
| "disciplined (Raise e)"
| "disciplined Unwind"
| "wire_faithful (request_operation q) \<Longrightarrow> (\<And>e s. \<exists>e'. k (Error e, s) = Raise e') \<Longrightarrow>
   (\<And>x s. disciplined (k (Ok x, s))) \<Longrightarrow> disciplined (Invoke q k)"

inductive_cases disciplined_InvokeE: "disciplined (Invoke q k)"

lemma apply_loop_append:
  "apply_loop run i (xs @ ys) s =
     (case apply_loop run i xs s of (Inl f, t) \<Rightarrow> (Inl f, t) | (Inr _, t) \<Rightarrow> apply_loop run (i + length xs) ys t)"
  by (induction run i xs s rule: apply_loop.induct) (auto split: sum.splits fault.splits prod.splits)

lemma ui_invoke_clean:
  assumes "ui_invoke q ui = (Inr x, ui')" "ui_clean base ui"
  shows "ui_clean base ui'"
  using assms(1)
proof (cases rule: ui_invoke_cases)
  case (run r0)
  then have "\<exists>u. r0 = Inr u" by (cases r0) auto
  with run assms(2) show ?thesis by (auto simp: ui_clean_def apply_loop_append)
qed simp

lemma run_ui_clean:
  "run_ui p ui = (Inr x, ui') \<Longrightarrow> disciplined p \<Longrightarrow> ui_clean base ui \<Longrightarrow>
   \<forall>op \<in> set (ui_operations ui). wire_faithful op \<Longrightarrow>
   ui_clean base ui' \<and> (\<forall>op \<in> set (ui_operations ui'). wire_faithful op)"
proof (induction p arbitrary: ui)
  case (Invoke q k)
  obtain r1 ui1 where i: "ui_invoke q ui = (r1, ui1)" by (cases "ui_invoke q ui")
  from Invoke.prems(2) have k: "wire_faithful (request_operation q)"
    "\<And>e s. \<exists>e'. k (Error e, s) = Raise e'" "\<And>x s. disciplined (k (Ok x, s))"
    by (auto elim: disciplined_InvokeE)
  show ?case
  proof (cases r1)
    case (Inl f)
    then obtain e where e: "f = Err e" using Invoke.prems(1) i by (cases f) auto
    obtain e' where "k (Error e, ui_staged ui1) = Raise e'" using k(2) by blast
    with Inl e Invoke.prems(1) i have False by simp
    then show ?thesis ..
  next
    case (Inr y)
    then have run: "run_ui (k (Ok y, ui_staged ui1)) ui1 = (Inr x, ui')" using Invoke.prems(1) i by simp
    have "\<forall>op \<in> set (ui_operations ui1). wire_faithful op"
      using i Invoke.prems(4) k(1) by (cases rule: ui_invoke_cases) auto
    from Invoke.IH [OF _ run k(3) ui_invoke_clean [OF i [unfolded Inr] Invoke.prems(3)] this] show ?thesis by simp
  qed
qed auto

lemma ui_new_clean: "ui_clean s (ui_new s n)"
  by (simp add: ui_clean_def ui_new_def)

section \<open>The SDK session\<close>

text \<open>
  \<open>Session::transaction\<close> of the SDK on its store.  The revision step is outside of the caught
  closure: its overflow is a panic of the call.
\<close>

datatype sdk_error = SdkStore store_error | SdkPanicked

definition sdk_transaction ::
  "'a ui_prog \<Rightarrow> semantic_store \<Rightarrow> (sdk_error, 'a) result \<times> semantic_store" where
  "sdk_transaction f s =
     (let base = revision s;
          (r, ui) = run_ui f (ui_new (clone_staging s) (max_transaction_operations (limits s)))
      in case r of
           Inr val \<Rightarrow>
             (case revision_next base of
                Inr new_rev \<Rightarrow> (Ok val, commit_staging (ui_staged ui) new_rev s)
              | Inl _ \<Rightarrow> (Inl Panic, s))
         | Inl (Err e) \<Rightarrow> (Error (SdkStore e), s)
         | Inl Panic \<Rightarrow> (Error SdkPanicked, s)
         | Inl Diverge \<Rightarrow> (Inl Diverge, s))"

lemma sdk_transaction_cases:
  assumes "sdk_transaction f s = (r, s')" "store_ok s"
  shows "(\<exists>e. r = Inl e) \<and> s' = s \<or>
    (\<exists>x ui. r = Ok x \<and> run_ui f (ui_new s (max_transaction_operations (limits s))) = (Ok x, ui) \<and>
       ui_ok s ui \<and> s' = (ui_staged ui)\<lparr>revision := revision s + 1\<rparr> \<and>
       unat (revision s') = unat (revision s) + 1)"
proof -
  obtain r0 ui where run: "run_ui f (ui_new s (max_transaction_operations (limits s))) = (r0, ui)"
    by (cases "run_ui f (ui_new s (max_transaction_operations (limits s)))")
  show ?thesis
  proof (cases r0)
    case (Inl e)
    with assms(1) run show ?thesis by (cases e) (auto simp: sdk_transaction_def)
  next
    case (Inr x)
    have ok: "ui_ok s ui" using run_ui_ok [OF run [unfolded Inr] ui_new_ok [OF assms(2)]] by simp
    then have "commit_staging (ui_staged ui) n s = (ui_staged ui)\<lparr>revision := n\<rparr>" for n
      by (simp add: ui_ok_def commit_staging_keeps)
    with assms(1) run Inr ok show ?thesis
      by (auto simp: sdk_transaction_def revision_next_def expect_def unat_plus_no_overflow word_nat
          split: option.splits sum.splits)
  qed
qed

section \<open>Properties\<close>

text \<open>
  A transaction closure is all or nothing.  Whatever calls it makes on the context, when it
  returns an error or panics the committed store is untouched; when it returns a value the store
  moves to the staged one, well-formed, exactly one revision further, and the context has
  recorded no more operations than the limit.
\<close>

theorem closure_atomic:
  assumes "sdk_transaction f s = (r, s')" "store_ok s"
  shows "(\<exists>e. r = Inl e) \<and> s' = s \<or>
    (\<exists>x ui. r = Ok x \<and> run_ui f (ui_new s (max_transaction_operations (limits s))) = (Ok x, ui) \<and>
       s' = (ui_staged ui)\<lparr>revision := revision s + 1\<rparr> \<and> store_ok s' \<and>
       unat (revision s') = unat (revision s) + 1 \<and>
       length (ui_operations ui) \<le> max_transaction_operations (limits s))"
  using sdk_transaction_cases [OF assms]
proof
  assume "\<exists>x ui. r = Ok x \<and> run_ui f (ui_new s (max_transaction_operations (limits s))) = (Ok x, ui) \<and>
       ui_ok s ui \<and> s' = (ui_staged ui)\<lparr>revision := revision s + 1\<rparr> \<and> unat (revision s') = unat (revision s) + 1"
  then obtain x ui where u: "r = Ok x" "run_ui f (ui_new s (max_transaction_operations (limits s))) = (Ok x, ui)"
    "ui_ok s ui" "s' = (ui_staged ui)\<lparr>revision := revision s + 1\<rparr>" "unat (revision s') = unat (revision s) + 1"
    by blast
  moreover have "ui_max_ops ui = max_transaction_operations (limits s)"
    using run_ui_ok [OF u(2) ui_new_ok [OF assms(2)]] by (simp add: ui_new_def)
  moreover have "store_ok s'" using u(3,4) by (simp add: ui_ok_def keeps_def)
  ultimately show ?thesis by (auto simp: ui_ok_def)
qed blast

theorem closure_atomic_witness:
  "snd (sdk_transaction (Invoke (UiDelete 9) (\<lambda>(r, _). case r of Inl (Err e) \<Rightarrow> Raise e | _ \<Rightarrow> Return ())) store_new) = store_new"
proof -
  let ?f = "Invoke (UiDelete 9) (\<lambda>(r, _). case r of Inl (Err e) \<Rightarrow> Raise e | _ \<Rightarrow> Return ())"
  have "\<exists>e. fst (sdk_transaction ?f store_new) = Inl e"
    by (simp add: sdk_transaction_def ui_new_def ui_delete_node_def recorded_def record_op_def delete_node_def
        reply_with_def store_new_def with_limits_def with_limits_and_revision_def limits_eval)
  moreover obtain r s' where run: "sdk_transaction ?f store_new = (r, s')" by (cases "sdk_transaction ?f store_new")
  ultimately have "\<exists>e. r = Inl e" by simp
  then show ?thesis using closure_atomic [OF run store_new_ok(1)] run by auto
qed

end
