(* ===== verification/Journal.thy ===== *)
theory Journal
  imports Wire
begin

text \<open>
  The bounded transaction journal: \<^verbatim>\<open>journal/src/lib.rs\<close>.  It keeps the last
  \<open>max_entries\<close> committed transactions as messages and replays them to a client that
  reconnects.  \<open>append\<close> checks in debug builds that the permit still fits; that check is a
  \<open>Panic\<close> here.
\<close>

section \<open>Data\<close>

definition DEFAULT_MAX_JOURNAL_ENTRIES :: usize where
  "DEFAULT_MAX_JOURNAL_ENTRIES = 1024"

datatype journal_error =
    InvalidRevisionRange u64 u64
  | NonContiguousRevision u64 u64

record transaction_journal =
  max_entries :: usize
  entries :: "wire_transaction list"
  earliest_revision :: u64
  latest_revision :: u64

datatype journal_permit = JournalPermit (permit_tx: wire_transaction)

definition journal_new :: "usize \<Rightarrow> transaction_journal" where
  "journal_new n =
     \<lparr>max_entries = max n 1, entries = [], earliest_revision = 0, latest_revision = 0\<rparr>"

definition with_initial_revision :: "usize \<Rightarrow> u64 \<Rightarrow> transaction_journal" where
  "with_initial_revision n r =
     \<lparr>max_entries = max n 1, entries = [], earliest_revision = r, latest_revision = r\<rparr>"

section \<open>Operations\<close>

definition check_contiguity :: "transaction_journal \<Rightarrow> wire_transaction \<Rightarrow> (journal_error, unit) result" where
  "check_contiguity j tx =
     (if entries j \<noteq> [] \<and> w_base_revision tx \<noteq> latest_revision j
      then Error (NonContiguousRevision (latest_revision j) (w_base_revision tx))
      else Ok ())"

definition journal_prepare ::
  "transaction_journal \<Rightarrow> authoritative_commit \<Rightarrow> (journal_error, journal_permit) result" where
  "journal_prepare j commit =
     (let tx = transaction_to_wire (commit_transaction commit)
      in and_then (check_contiguity j tx) (\<lambda>_. Ok (JournalPermit tx)))"

definition journal_append ::
  "journal_permit \<Rightarrow> transaction_journal \<Rightarrow> (journal_error, unit) result \<times> transaction_journal" where
  "journal_append permit j =
     (let tx = permit_tx permit
      in if \<not> (entries j = [] \<or> w_base_revision tx = latest_revision j) then (Inl Panic, j)
         else let j1 = (if entries j = [] then j\<lparr>earliest_revision := w_base_revision tx\<rparr> else j);
                  j2 = (if length (entries j1) \<ge> max_entries j1
                        then (case entries j1 of
                                [] \<Rightarrow> j1
                              | oldest # rest \<Rightarrow> j1\<lparr>entries := rest, earliest_revision := w_new_revision oldest\<rparr>)
                        else j1)
              in (Ok (), j2\<lparr>latest_revision := w_new_revision tx, entries := entries j2 @ [tx]\<rparr>))"

definition journal_record ::
  "wire_transaction \<Rightarrow> transaction_journal \<Rightarrow> (journal_error, unit) result \<times> transaction_journal" where
  "journal_record tx j =
     (if w_new_revision tx \<noteq> saturating_add (w_base_revision tx) 1
      then (Error (InvalidRevisionRange (w_base_revision tx) (w_new_revision tx)), j)
      else and_then_st (check_contiguity j tx, j) (\<lambda>_. journal_append (JournalPermit tx)))"

definition can_replay_from :: "transaction_journal \<Rightarrow> u64 \<Rightarrow> bool" where
  "can_replay_from j from_revision \<longleftrightarrow>
     from_revision \<ge> earliest_revision j \<and> from_revision \<le> latest_revision j"

definition iter_from :: "transaction_journal \<Rightarrow> u64 \<Rightarrow> wire_transaction list option" where
  "iter_from j from_revision =
     (if from_revision > latest_revision j \<or> from_revision < earliest_revision j then None
      else if from_revision = latest_revision j then Some (drop (length (entries j)) (entries j))
      else let n = unat (from_revision - earliest_revision j)
           in if n > length (entries j) then None else Some (drop n (entries j)))"

definition replay_from :: "transaction_journal \<Rightarrow> u64 \<Rightarrow> wire_transaction list option" where
  "replay_from j from_revision = iter_from j from_revision"

definition journal_clear :: "transaction_journal \<Rightarrow> transaction_journal" where
  "journal_clear j = j\<lparr>entries := [], earliest_revision := 0, latest_revision := 0\<rparr>"

section \<open>The retained window\<close>

text \<open>The entries lead from one revision to another in single steps.\<close>

fun chain :: "u64 \<Rightarrow> wire_transaction list \<Rightarrow> u64 \<Rightarrow> bool" where
  "chain lo [] hi \<longleftrightarrow> lo = hi"
| "chain lo (tx # txs) hi \<longleftrightarrow>
     w_base_revision tx = lo \<and> checked_next lo = Some (w_new_revision tx) \<and>
     chain (w_new_revision tx) txs hi"

definition journal_ok :: "transaction_journal \<Rightarrow> bool" where
  "journal_ok j \<longleftrightarrow>
     0 < max_entries j \<and> length (entries j) \<le> max_entries j \<and>
     chain (earliest_revision j) (entries j) (latest_revision j)"

lemma chain_append: "chain lo (xs @ ys) hi \<longleftrightarrow> (\<exists>mid. chain lo xs mid \<and> chain mid ys hi)"
  by (induction xs arbitrary: lo) auto

lemma chain_length: "chain lo txs hi \<Longrightarrow> unat hi = unat lo + length txs"
  by (induction txs arbitrary: lo) (auto simp: checked_next_Some)

lemma chain_drop:
  assumes "chain lo txs hi" "unat r = unat lo + n" "n \<le> length txs"
  shows "chain r (drop n txs) hi"
  using assms
proof (induction txs arbitrary: lo n)
  case Nil
  then show ?case by (simp add: word_unat_eq_iff)
next
  case (Cons tx txs)
  show ?case
  proof (cases n)
    case 0
    with Cons.prems have "r = lo" by (simp add: word_unat_eq_iff)
    with 0 Cons.prems show ?thesis by simp
  next
    case (Suc k)
    with Cons.prems Cons.IH [of "w_new_revision tx" k] show ?thesis by (simp add: checked_next_Some)
  qed
qed

lemma journal_new_ok: "journal_ok (journal_new n)" "journal_ok (with_initial_revision n r)"
  by (simp_all add: journal_ok_def journal_new_def with_initial_revision_def)

lemma journal_clear_ok: "journal_ok j \<Longrightarrow> journal_ok (journal_clear j)"
  by (simp add: journal_ok_def journal_clear_def)

lemma journal_append_Ok:
  assumes "journal_append (JournalPermit tx) j = (Inr u, j')" "journal_ok j"
    and "checked_next (w_base_revision tx) = Some (w_new_revision tx)"
  shows "journal_ok j'" "latest_revision j' = w_new_revision tx" "max_entries j' = max_entries j"
    and "\<exists>pre. entries j @ [tx] = pre @ entries j' \<and> length pre \<le> 1"
proof -
  have "journal_ok j' \<and> latest_revision j' = w_new_revision tx \<and> max_entries j' = max_entries j \<and>
      (\<exists>pre. entries j @ [tx] = pre @ entries j' \<and> length pre \<le> 1)"
  proof (cases "entries j")
    case Nil
    with assms have "j' = j\<lparr>earliest_revision := w_base_revision tx, latest_revision := w_new_revision tx,
        entries := [tx]\<rparr>"
      by (auto simp: journal_append_def Let_def journal_ok_def split: if_splits)
    with assms Nil show ?thesis by (auto simp: journal_ok_def)
  next
    case (Cons oldest rest)
    with assms have b: "w_base_revision tx = latest_revision j" by (auto simp: journal_append_def Let_def split: if_splits)
    have full: "chain (earliest_revision j) (entries j @ [tx]) (w_new_revision tx)"
      using assms(2,3) b by (auto simp: journal_ok_def chain_append)
    show ?thesis
    proof (cases "length (entries j) \<ge> max_entries j")
      case True
      with assms Cons b have "j' = j\<lparr>entries := rest @ [tx], earliest_revision := w_new_revision oldest,
          latest_revision := w_new_revision tx\<rparr>"
        by (auto simp: journal_append_def Let_def)
      with assms(2) Cons full show ?thesis by (auto simp: journal_ok_def)
    next
      case False
      with assms Cons b have "j' = j\<lparr>entries := entries j @ [tx], latest_revision := w_new_revision tx\<rparr>"
        by (auto simp: journal_append_def Let_def)
      with assms(2) Cons full False show ?thesis by (auto simp: journal_ok_def)
    qed
  qed
  then show "journal_ok j'" "latest_revision j' = w_new_revision tx" "max_entries j' = max_entries j"
    "\<exists>pre. entries j @ [tx] = pre @ entries j' \<and> length pre \<le> 1" by blast+
qed

lemma journal_prepare_Ok:
  "journal_prepare j c = Ok p \<longleftrightarrow>
     p = JournalPermit (transaction_to_wire (commit_transaction c)) \<and>
     (entries j = [] \<or> base_revision (commit_transaction c) = latest_revision j)"
  by (auto simp: journal_prepare_def Let_def check_contiguity_def result_simps transaction_to_wire_def split: if_splits)

text \<open>A permit is never refused by the journal it was prepared on.\<close>

lemma journal_append_total:
  "journal_prepare j c = Ok p \<Longrightarrow> \<exists>j'. journal_append p j = (Ok (), j')"
  by (auto simp: journal_prepare_Ok journal_append_def Let_def transaction_to_wire_def)

lemma replay_from_window:
  assumes "journal_ok j"
  shows "replay_from j r =
    (if can_replay_from j r then Some (drop (unat r - unat (earliest_revision j)) (entries j)) else None)"
proof -
  have len: "unat (latest_revision j) = unat (earliest_revision j) + length (entries j)"
    using assms by (auto simp: journal_ok_def dest: chain_length)
  have sub: "unat (r - earliest_revision j) = unat r - unat (earliest_revision j)" if "earliest_revision j \<le> r"
    using that by (simp add: unat_sub)
  show ?thesis
    using len sub
    by (auto simp: replay_from_def iter_from_def can_replay_from_def Let_def word_le_nat_alt word_less_nat_alt not_less)
qed

lemma replay_from_chain:
  assumes "journal_ok j" "can_replay_from j r"
  shows "\<exists>txs. replay_from j r = Some txs \<and> chain r txs (latest_revision j)"
proof -
  have len: "unat (latest_revision j) = unat (earliest_revision j) + length (entries j)"
    using assms by (auto simp: journal_ok_def dest: chain_length)
  have "chain r (drop (unat r - unat (earliest_revision j)) (entries j)) (latest_revision j)"
    by (rule chain_drop [where lo = "earliest_revision j"])
       (use assms len in \<open>auto simp: journal_ok_def can_replay_from_def word_le_nat_alt\<close>)
  with assms show ?thesis by (simp add: replay_from_window)
qed

section \<open>Properties\<close>

text \<open>
  C17: The journal stays a bounded window of consecutive commits: a permit it granted for a
  commit is never refused, the append drops at most the oldest entry, keeps at most
  \<open>max_entries\<close>, and the entries still lead from the earliest to the latest revision in single
  steps.
\<close>

theorem journal_window_invariant:
  assumes "journal_ok j" "commit_ok c" "journal_prepare j c = Ok p"
  shows "\<exists>j' pre. journal_append p j = (Ok (), j') \<and> journal_ok j' \<and>
    latest_revision j' = new_revision (commit_transaction c) \<and> max_entries j' = max_entries j \<and>
    length (entries j') \<le> max_entries j \<and>
    entries j @ [transaction_to_wire (commit_transaction c)] = pre @ entries j' \<and> length pre \<le> 1"
proof -
  obtain j' where a: "journal_append p j = (Ok (), j')" using journal_append_total [OF assms(3)] by blast
  have p: "p = JournalPermit (transaction_to_wire (commit_transaction c))"
    using assms(3) by (simp add: journal_prepare_Ok)
  have "checked_next (w_base_revision (permit_tx p)) = Some (w_new_revision (permit_tx p))"
    using assms(2) by (simp add: p commit_ok_def transaction_to_wire_def)
  with journal_append_Ok [OF a [unfolded p] assms(1)]
  have "journal_ok j'" "latest_revision j' = w_new_revision (transaction_to_wire (commit_transaction c))"
    "max_entries j' = max_entries j"
    "\<exists>pre. entries j @ [transaction_to_wire (commit_transaction c)] = pre @ entries j' \<and> length pre \<le> 1"
    by (simp_all add: p)
  then show ?thesis using a by (auto simp: transaction_to_wire_def journal_ok_def)
qed

theorem journal_window_invariant_witness:
  "\<exists>j'. journal_append (JournalPermit (transaction_to_wire (commit_transaction first_commit))) (journal_new 0) = (Ok (), j') \<and>
     journal_ok j' \<and> length (entries j') \<le> 1"
proof -
  have "journal_prepare (journal_new 0) first_commit = Ok (JournalPermit (transaction_to_wire (commit_transaction first_commit)))"
    by (simp add: journal_prepare_Ok journal_new_def)
  with journal_window_invariant [OF journal_new_ok(1) first_commit_ok this] show ?thesis
    by (auto simp: journal_new_def)
qed

text \<open>
  Replay returns exactly the commits after a revision: for a revision inside the retained
  window, the entries that lead from it to the latest revision in single steps, one per missed
  revision; for every other revision, nothing.
\<close>

theorem journal_replay_correct:
  assumes "journal_ok j"
  shows "case replay_from j r of
      None \<Rightarrow> r < earliest_revision j \<or> latest_revision j < r
    | Some txs \<Rightarrow> earliest_revision j \<le> r \<and> r \<le> latest_revision j \<and>
        chain r txs (latest_revision j) \<and> length txs = unat (latest_revision j) - unat r \<and>
        (\<exists>pre. entries j = pre @ txs)"
proof (cases "can_replay_from j r")
  case True
  obtain txs where t: "replay_from j r = Some txs" "chain r txs (latest_revision j)"
    using replay_from_chain [OF assms True] by blast
  moreover have "\<exists>pre. entries j = pre @ txs"
    using t(1) replay_from_window [OF assms, of r] True by (auto intro: append_take_drop_id [symmetric])
  ultimately show ?thesis using True chain_length [OF t(2)] by (simp add: can_replay_from_def)
next
  case False
  then show ?thesis using replay_from_window [OF assms, of r] by (auto simp: can_replay_from_def)
qed

theorem journal_replay_correct_witness:
  "replay_from (journal_new 4) 0 = Some [] \<and> replay_from (journal_new 4) 1 = None"
  using journal_replay_correct [of "journal_new 4" 0, OF journal_new_ok(1)]
    journal_replay_correct [of "journal_new 4" 1, OF journal_new_ok(1)]
  by (auto simp: journal_new_def split: option.splits)

end
