(* ===== verification/Snapshot_Framing.thy ===== *)
theory Snapshot_Framing
  imports Wire
begin

text \<open>
  Delivery of one snapshot in several envelopes: \<^verbatim>\<open>protocol/src/snapshot_framing.rs\<close>.  The
  server measures the snapshot and plans how its operations are divided (\<open>plan_snapshot_frames\<close>,
  \<open>split_plan\<close>), the replica stages the envelopes and puts the snapshot together again
  (\<open>assembler_new\<close>, \<open>accept\<close>).

  Two sizes come from the protobuf library and are parameters: \<open>oplen\<close>, the encoded length of an
  operation, and \<open>vlen\<close>, the length of a number as a varint.
\<close>

section \<open>The plan\<close>

definition DEFAULT_MAX_SNAPSHOT_PARTS :: u32 where
  "DEFAULT_MAX_SNAPSHOT_PARTS = 16"

definition effective_max_snapshot_parts :: "u32 \<Rightarrow> u32" where
  "effective_max_snapshot_parts advertised = max advertised 1"

definition effective_snapshot_parts :: "u32 \<Rightarrow> u32" where
  "effective_snapshot_parts announced = max announced 1"

datatype snapshot_framing_error =
    OperationExceedsFrame usize usize usize
  | TooManyParts usize u32 usize usize

record snapshot_frame_plan =
  plan_parts :: "(usize \<times> usize) list"

definition plan_single :: "usize \<Rightarrow> snapshot_frame_plan" where
  "plan_single operation_count = \<lparr>plan_parts = [(0, operation_count)]\<rparr>"

definition part_count :: "snapshot_frame_plan \<Rightarrow> (snapshot_framing_error, u32) result" where
  "part_count self =
     (if length (plan_parts self) < 2 ^ 32 then Ok (of_nat (length (plan_parts self))) else Inl Panic)"

definition announced_parts :: "snapshot_frame_plan \<Rightarrow> (snapshot_framing_error, u32) result" where
  "announced_parts self = and_then (part_count self) (\<lambda>n. Ok (if n = 1 then 0 else n))"

text \<open>The envelopes take their operations one after the other from one iterator.\<close>

fun take_parts :: "wire_transaction \<Rightarrow> (usize \<times> usize) list \<Rightarrow> wire_operation list \<Rightarrow> wire_transaction list" where
  "take_parts snapshot [] ops = []"
| "take_parts snapshot ((start, stop) # parts) ops =
     snapshot\<lparr>w_operations := take (stop - start) ops\<rparr> # take_parts snapshot parts (drop (stop - start) ops)"

definition split_plan :: "snapshot_frame_plan \<Rightarrow> wire_transaction \<Rightarrow> (snapshot_framing_error, wire_transaction list) result" where
  "split_plan self snapshot =
     (let total = (if plan_parts self = [] then 0 else snd (last (plan_parts self)))
      in if length (w_operations snapshot) \<noteq> total then Inl Panic
         else if length (plan_parts self) = 1 then Ok [snapshot]
         else Ok (take_parts snapshot (plan_parts self) (w_operations snapshot)))"

definition operation_field_len :: "(u64 \<Rightarrow> usize) \<Rightarrow> (wire_operation \<Rightarrow> usize) \<Rightarrow> wire_operation \<Rightarrow> usize" where
  "operation_field_len vlen oplen op = (let body = oplen op in 1 + vlen (of_nat body) + body)"

definition envelope_len :: "(u64 \<Rightarrow> usize) \<Rightarrow> u64 \<Rightarrow> u32 \<Rightarrow> usize \<Rightarrow> usize" where
  "envelope_len vlen new_rev prio operations_len =
     (let transaction = operations_len
            + (if new_rev \<noteq> 0 then 1 + vlen new_rev else 0)
            + (if prio \<noteq> 0 then 1 + vlen (ucast prio) else 0)
      in 1 + vlen (of_nat transaction) + transaction)"

text \<open>The packing loop: the finished parts, the start of the open part and its bytes so far.\<close>

fun plan_loop ::
  "(usize \<Rightarrow> usize) \<Rightarrow> usize \<Rightarrow> usize \<Rightarrow> usize list \<Rightarrow> (usize \<times> usize) list \<times> usize \<times> usize \<Rightarrow>
   (snapshot_framing_error, (usize \<times> usize) list \<times> usize \<times> usize) result" where
  "plan_loop env max_frame_size index [] st = Ok st"
| "plan_loop env max_frame_size index (len # lens) (parts, start, current) =
     (if env len > max_frame_size then Error (OperationExceedsFrame index (env len) max_frame_size)
      else if index > start \<and> env (current + len) > max_frame_size
      then plan_loop env max_frame_size (index + 1) lens (parts @ [(start, index)], index, len)
      else plan_loop env max_frame_size (index + 1) lens (parts, start, current + len))"

definition plan_snapshot_frames ::
  "(u64 \<Rightarrow> usize) \<Rightarrow> (wire_operation \<Rightarrow> usize) \<Rightarrow> wire_transaction \<Rightarrow> usize \<Rightarrow> u32 \<Rightarrow>
   (snapshot_framing_error, snapshot_frame_plan) result" where
  "plan_snapshot_frames vlen oplen snapshot max_frame_size max_parts =
     (if w_base_revision snapshot \<noteq> 0 then Inl Panic
      else
        let max_parts = effective_max_snapshot_parts max_parts;
            env = envelope_len vlen (w_new_revision snapshot) (w_priority snapshot);
            field_lens = map (operation_field_len vlen oplen) (w_operations snapshot);
            snapshot_bytes = env (sum_list field_lens)
        in if snapshot_bytes \<le> max_frame_size then Ok (plan_single (length field_lens))
           else and_then (plan_loop env max_frame_size 0 field_lens ([], 0, 0)) (\<lambda>(parts, start, _).
             let parts = parts @ [(start, length field_lens)]
             in if length parts > unat max_parts
                then Error (TooManyParts (length parts) max_parts snapshot_bytes max_frame_size)
                else Ok \<lparr>plan_parts = parts\<rparr>))"

section \<open>The assembler\<close>

datatype snapshot_assembly_error =
    PartsExceedLimit u32 u32
  | NotASnapshotPart u32 u64 u64 u64
  | EmptyPart u32
  | OperationLimitExceeded u32 usize usize
  | AlreadyComplete

record snapshot_assembler =
  snapshot_revision :: u64
  expected_parts :: u32
  received_parts :: u32
  max_operations :: usize
  sa_priority :: u32
  sa_operations :: "wire_operation list"

definition assembler_new ::
  "u64 \<Rightarrow> u32 \<Rightarrow> u32 \<Rightarrow> usize \<Rightarrow> (snapshot_assembly_error, snapshot_assembler) result" where
  "assembler_new r announced max_parts max_ops =
     (let expected = effective_snapshot_parts announced;
          max_parts = effective_max_snapshot_parts max_parts
      in if expected > max_parts then Error (PartsExceedLimit expected max_parts)
         else Ok \<lparr>snapshot_revision = r, expected_parts = expected, received_parts = 0,
                  max_operations = max_ops, sa_priority = 0, sa_operations = []\<rparr>)"

definition accept ::
  "wire_transaction \<Rightarrow> snapshot_assembler \<Rightarrow>
   (snapshot_assembly_error, wire_transaction option) result \<times> snapshot_assembler" where
  "accept part self =
     (let part_index = received_parts self;
          staged = length (sa_operations self) + length (w_operations part)
      in if received_parts self \<ge> expected_parts self then (Error AlreadyComplete, self)
         else if w_base_revision part \<noteq> 0 \<or> w_new_revision part \<noteq> snapshot_revision self
         then (Error (NotASnapshotPart part_index (w_base_revision part) (w_new_revision part) (snapshot_revision self)), self)
         else if expected_parts self > 1 \<and> w_operations part = [] then (Error (EmptyPart part_index), self)
         else if staged > max_operations self
         then (Error (OperationLimitExceeded part_index (max_operations self) staged), self)
         else
           let self = self\<lparr>received_parts := received_parts self + 1\<rparr>;
               self = (if part_index = 0 then self\<lparr>sa_priority := w_priority part\<rparr> else self)
           in if expected_parts self = 1 then (Ok (Some part), self)
              else
                let self = self\<lparr>sa_operations := sa_operations self @ w_operations part\<rparr>
                in if received_parts self < expected_parts self then (Ok None, self)
                   else (Ok (Some \<lparr>w_base_revision = 0, w_new_revision = snapshot_revision self,
                           w_operations = sa_operations self, w_priority = sa_priority self\<rparr>),
                         self\<lparr>sa_operations := []\<rparr>))"

section \<open>Greedy packing\<close>

text \<open>
  The reference: \<open>pack\<close> fills the open part as long as it fits.  It uses the fewest parts among
  all divisions of the list into fitting parts, if a shorter part fits whenever a longer one does.
\<close>

fun pack :: "('a list \<Rightarrow> bool) \<Rightarrow> 'a list \<Rightarrow> 'a list \<Rightarrow> 'a list list" where
  "pack fits cur [] = [cur]"
| "pack fits cur (x # xs) =
     (if cur \<noteq> [] \<and> \<not> fits (cur @ [x]) then cur # pack fits [x] xs else pack fits (cur @ [x]) xs)"

lemma concat_pack: "concat (pack fits cur xs) = cur @ xs"
  by (induction fits cur xs rule: pack.induct) auto

lemma pack_fits:
  "fits cur \<Longrightarrow> \<forall>x \<in> set xs. fits [x] \<Longrightarrow> ys \<in> set (pack fits cur xs) \<Longrightarrow> fits ys"
  by (induction fits cur xs rule: pack.induct) (auto split: if_splits)

lemma pack_nonempty: "cur \<noteq> [] \<or> xs \<noteq> [] \<Longrightarrow> [] \<notin> set (pack fits cur xs)"
  by (induction fits cur xs rule: pack.induct) (auto split: if_splits)

lemma pack_minimal:
  assumes mono: "\<And>as bs cs. F (as @ bs @ cs) \<Longrightarrow> fits bs"
  shows "\<forall>ys \<in> set yss. F ys \<Longrightarrow> yss \<noteq> [] \<Longrightarrow> concat yss = pre @ cur @ xs \<Longrightarrow> length (pack fits cur xs) \<le> length yss"
proof (induction xs arbitrary: cur pre yss)
  case Nil
  then show ?case by (cases yss) auto
next
  case (Cons x xs)
  show ?case
  proof (cases "cur \<noteq> [] \<and> \<not> fits (cur @ [x])")
    case False
    then show ?thesis using Cons.IH [of yss pre "cur @ [x]"] Cons.prems by auto
  next
    case True
    from Cons.prems(2) obtain y rest where yss: "yss = y # rest" by (cases yss) auto
    have eq: "y @ concat rest = (pre @ cur) @ x # xs" using Cons.prems(3) yss by simp
    have "length y \<le> length (pre @ cur)"
    proof (rule ccontr)
      assume "\<not> ?thesis"
      with eq obtain z where "y = pre @ (cur @ [x]) @ z"
        by (auto simp: append_eq_append_conv2 append_eq_Cons_conv)
      then show False using True mono [of pre "cur @ [x]" z] Cons.prems(1) yss by auto
    qed
    then obtain z where z: "concat rest = z @ [x] @ xs"
      using arg_cong [OF eq, of "drop (length y)"] by (simp add: drop_append del: append_assoc)
    then have "rest \<noteq> []" by auto
    with Cons.IH [of rest z "[x]"] z Cons.prems(1) yss True show ?thesis by simp
  qed
qed

lemma pack_map: "pack fits (map f cur) (map f xs) = map (map f) (pack (\<lambda>ys. fits (map f ys)) cur xs)"
proof (induction xs arbitrary: cur)
  case (Cons x xs)
  then show ?case using Cons.IH [of "[x]"] Cons.IH [of "cur @ [x]"] by simp
qed simp

section \<open>The plan is the greedy packing\<close>

definition widths :: "(nat \<times> nat) list \<Rightarrow> nat list" where
  "widths = map (\<lambda>(a, b). b - a)"

lemma plan_loop_pack:
  assumes "\<forall>x \<in> set lens. env x \<le> m"
  shows "\<exists>parts' start' c. plan_loop env m (start + length cur) lens (parts, start, sum_list cur) = Ok (parts @ parts', start', c) \<and>
    widths (parts' @ [(start', start + length cur + length lens)]) = map length (pack (\<lambda>ys. env (sum_list ys) \<le> m) cur lens)"
  using assms
proof (induction lens arbitrary: start cur parts)
  case Nil
  then show ?case by (simp add: widths_def)
next
  case (Cons x lens)
  show ?case
  proof (cases "cur \<noteq> [] \<and> \<not> env (sum_list (cur @ [x])) \<le> m")
    case True
    then show ?thesis
      using Cons.prems Cons.IH [of "start + length cur" "[x]" "parts @ [(start, start + length cur)]"] by (auto simp: widths_def)
  next
    case False
    then show ?thesis using Cons.prems Cons.IH [of start "cur @ [x]" parts] by (auto simp: widths_def)
  qed
qed

lemma plan_loop_fails:
  "\<exists>x \<in> set lens. \<not> env x \<le> m \<Longrightarrow> \<exists>i n. plan_loop env m index lens st = Error (OperationExceedsFrame i n m)"
  by (induction env m index lens st rule: plan_loop.induct) auto

lemma take_parts_pack:
  "widths parts = map length yss \<Longrightarrow> take_parts snapshot parts (concat yss) = map (\<lambda>ys. snapshot\<lparr>w_operations := ys\<rparr>) yss"
  by (induction parts arbitrary: yss) (auto simp: widths_def)

text \<open>Whether a part fits one envelope of the snapshot, and the division the plan chooses.\<close>

definition part_bytes :: "(u64 \<Rightarrow> usize) \<Rightarrow> (wire_operation \<Rightarrow> usize) \<Rightarrow> wire_transaction \<Rightarrow> wire_operation list \<Rightarrow> usize" where
  "part_bytes vlen oplen snapshot ops =
     envelope_len vlen (w_new_revision snapshot) (w_priority snapshot) (sum_list (map (operation_field_len vlen oplen) ops))"

definition division :: "(u64 \<Rightarrow> usize) \<Rightarrow> (wire_operation \<Rightarrow> usize) \<Rightarrow> wire_transaction \<Rightarrow> usize \<Rightarrow> wire_operation list list" where
  "division vlen oplen snapshot m =
     (if part_bytes vlen oplen snapshot (w_operations snapshot) \<le> m then [w_operations snapshot]
      else pack (\<lambda>ops. part_bytes vlen oplen snapshot ops \<le> m) [] (w_operations snapshot))"

lemma concat_division: "concat (division vlen oplen snapshot m) = w_operations snapshot"
  by (simp add: division_def concat_pack)

lemma plan_divides:
  assumes base: "w_base_revision snapshot = 0" and plan: "plan_snapshot_frames vlen oplen snapshot m k = Ok p"
  shows "widths (plan_parts p) = map length (division vlen oplen snapshot m) \<and>
    snd (last (plan_parts p)) = length (w_operations snapshot) \<and>
    length (plan_parts p) \<le> unat (effective_max_snapshot_parts k) \<and>
    (part_bytes vlen oplen snapshot (w_operations snapshot) > m \<longrightarrow>
       (\<forall>op \<in> set (w_operations snapshot). part_bytes vlen oplen snapshot [op] \<le> m))"
proof -
  let ?env = "envelope_len vlen (w_new_revision snapshot) (w_priority snapshot)"
  let ?flen = "operation_field_len vlen oplen"
  let ?lens = "map ?flen (w_operations snapshot)"
  have k: "1 \<le> unat (effective_max_snapshot_parts k)"
    using word_le_nat_alt [of 1 "max k 1"] by (simp add: effective_max_snapshot_parts_def)
  show ?thesis
  proof (cases "?env (sum_list ?lens) \<le> m")
    case True
    then have "p = plan_single (length (w_operations snapshot))"
      using plan base by (simp add: plan_snapshot_frames_def Let_def)
    then show ?thesis using True k by (simp add: plan_single_def widths_def division_def part_bytes_def)
  next
    case False
    have alone: "\<forall>x \<in> set ?lens. ?env x \<le> m"
    proof (rule ccontr)
      assume "\<not> ?thesis"
      then have "\<exists>x \<in> set ?lens. \<not> ?env x \<le> m" by blast
      from plan_loop_fails [OF this, of 0 "([], 0, 0)"] False plan base show False
        by (auto simp: plan_snapshot_frames_def Let_def)
    qed
    from plan_loop_pack [OF this, of 0 "[]" "[]"] obtain parts start c where
      loop: "plan_loop ?env m 0 ?lens ([], 0, 0) = Ok (parts, start, c)"
      and w: "widths (parts @ [(start, length ?lens)]) = map length (pack (\<lambda>ys. ?env (sum_list ys) \<le> m) [] ?lens)" by auto
    have p: "plan_parts p = parts @ [(start, length ?lens)]" "length (plan_parts p) \<le> unat (effective_max_snapshot_parts k)"
      using plan base False loop by (auto simp: plan_snapshot_frames_def Let_def split: if_splits)
    have "map length (pack (\<lambda>ys. ?env (sum_list ys) \<le> m) [] ?lens) = map length (division vlen oplen snapshot m)"
      using pack_map [of "\<lambda>ys. ?env (sum_list ys) \<le> m" ?flen "[]" "w_operations snapshot"] False
      by (simp add: division_def part_bytes_def comp_def)
    then show ?thesis using w p alone by (simp add: part_bytes_def)
  qed
qed

section \<open>Assembly\<close>

fun receive ::
  "wire_transaction list \<Rightarrow> snapshot_assembler \<Rightarrow> (snapshot_assembly_error, wire_transaction option list) result" where
  "receive [] self = Ok []"
| "receive (part # parts) self =
     (case accept part self of
        (Inl e, _) \<Rightarrow> Inl e
      | (Inr r, self) \<Rightarrow> and_then (receive parts self) (\<lambda>rs. Ok (r # rs)))"

lemma receive_parts:
  assumes "w_base_revision snapshot = 0" "w_new_revision snapshot = snapshot_revision self"
    and "expected_parts self = of_nat (n + length yss)" "received_parts self = of_nat n" "n + length yss < 2 ^ 32" "1 < n + length yss"
    and "[] \<notin> set yss" "yss \<noteq> []" "length (sa_operations self) + length (concat yss) \<le> max_operations self"
    and "0 < n \<longrightarrow> sa_priority self = w_priority snapshot"
  shows "receive (map (\<lambda>ys. snapshot\<lparr>w_operations := ys\<rparr>) yss) self =
    Ok (replicate (length yss - 1) None @ [Some (snapshot\<lparr>w_operations := sa_operations self @ concat yss\<rparr>)])"
  using assms
proof (induction yss arbitrary: n self)
  case (Cons ys yss)
  let ?part = "snapshot\<lparr>w_operations := ys\<rparr>"
  have word: "(of_nat i :: u32) < of_nat j \<longleftrightarrow> i < j" "(of_nat i :: u32) = of_nat j \<longleftrightarrow> i = j"
    if "i < 2 ^ 32" "j < 2 ^ 32" for i j
    using that by (simp_all add: word_less_nat_alt word_unat_eq_iff unsigned_of_nat take_bit_nat_eq_self)
  have lt: "received_parts self < expected_parts self" using Cons.prems(3-5) word(1) [of n "n + length (ys # yss)"] by simp
  have ne1: "expected_parts self \<noteq> 1" using Cons.prems(3,5,6) word(2) [of "n + length (ys # yss)" 1] by simp
  have zero: "received_parts self = 0 \<longleftrightarrow> n = 0" using Cons.prems(4,5) word(2) [of n 0] by simp
  have next_lt: "received_parts self + 1 < expected_parts self \<longleftrightarrow> yss \<noteq> []"
    using Cons.prems(3-5) word(1) [of "n + 1" "n + length (ys # yss)"] by (simp add: add.commute)
  let ?u = "self\<lparr>received_parts := received_parts self + 1, sa_priority := w_priority snapshot, sa_operations := sa_operations self @ ys\<rparr>"
  have prio: "sa_priority self = w_priority snapshot" if "received_parts self \<noteq> 0" using that zero Cons.prems(10) by simp
  have step: "accept ?part self = (if yss \<noteq> [] then (Ok None, ?u)
      else (Ok (Some (snapshot\<lparr>w_operations := sa_operations self @ ys\<rparr>)), ?u\<lparr>sa_operations := []\<rparr>))"
    using Cons.prems(1,2,7,9) lt ne1 next_lt prio
    by (cases "received_parts self = 0"; cases snapshot) (auto simp: accept_def Let_def)
  show ?case
  proof (cases "yss = []")
    case True
    then show ?thesis using step by simp
  next
    case False
    have "receive (map (\<lambda>ys. snapshot\<lparr>w_operations := ys\<rparr>) yss) ?u =
        Ok (replicate (length yss - 1) None @ [Some (snapshot\<lparr>w_operations := sa_operations ?u @ concat yss\<rparr>)])"
      using Cons.prems False by (intro Cons.IH [where n = "n + 1"]) (auto simp: add.commute)
    then show ?thesis using step False by (cases yss) simp_all
  qed
qed simp

lemma receive_single:
  assumes "w_base_revision snapshot = 0" "w_new_revision snapshot = snapshot_revision self" "expected_parts self = 1"
    "received_parts self = 0" "length (sa_operations self) + length (w_operations snapshot) \<le> max_operations self"
  shows "receive [snapshot] self = Ok [Some snapshot]"
  using assms by (simp add: accept_def Let_def)

lemma division_ok:
  assumes "w_base_revision snapshot = 0" "w_operations snapshot \<noteq> []" "plan_snapshot_frames vlen oplen snapshot m k = Ok p"
  shows "division vlen oplen snapshot m \<noteq> [] \<and> [] \<notin> set (division vlen oplen snapshot m) \<and>
    (\<forall>ys \<in> set (division vlen oplen snapshot m). part_bytes vlen oplen snapshot ys \<le> m)"
proof (cases "part_bytes vlen oplen snapshot (w_operations snapshot) \<le> m")
  case True
  then show ?thesis using assms(2) by (simp add: division_def)
next
  case False
  let ?fits = "\<lambda>ys. part_bytes vlen oplen snapshot ys \<le> m"
  obtain op ops where ops: "w_operations snapshot = op # ops" using assms(2) by (cases "w_operations snapshot") auto
  have "\<forall>x \<in> set (op # ops). ?fits [x]" using plan_divides [OF assms(1,3)] False ops by auto
  moreover have D: "division vlen oplen snapshot m = pack ?fits [op] ops" using False ops by (simp add: division_def)
  moreover have "pack ?fits [op] ops \<noteq> []" using concat_pack [of ?fits "[op]" ops] by auto
  moreover have "[] \<notin> set (pack ?fits [op] ops)" by (rule pack_nonempty) simp
  moreover have "?fits ys" if "ys \<in> set (pack ?fits [op] ops)" for ys
    using calculation(1) that pack_fits [of ?fits "[op]" ops ys] by simp
  ultimately show ?thesis by (simp only: D) blast
qed

lemma unat_u32_bound: "unat (w :: u32) < 2 ^ 32"
proof -
  have "unat w < 2 ^ LENGTH(32)" by (rule unsigned_less)
  then show ?thesis by simp
qed

lemma u32_of_nat_eq_1: "n < 2 ^ 32 \<Longrightarrow> of_nat n = (1 :: u32) \<longleftrightarrow> n = 1"
  by (simp add: word_unat_eq_iff unsigned_of_nat take_bit_nat_eq_self)

text \<open>A part of a longer list of operations needs no more bytes.\<close>

lemma part_bytes_mono:
  assumes mono: "\<And>a b. a \<le> b \<Longrightarrow> vlen a \<le> vlen b"
    and small: "part_bytes vlen oplen snapshot ops < 2 ^ 64"
    and le: "sum_list (map (operation_field_len vlen oplen) (as @ bs @ cs)) \<le> sum_list (map (operation_field_len vlen oplen) ops)"
  shows "part_bytes vlen oplen snapshot bs \<le> part_bytes vlen oplen snapshot (as @ bs @ cs)"
proof -
  let ?n = "\<lambda>ops. sum_list (map (operation_field_len vlen oplen) ops)
    + (if w_new_revision snapshot \<noteq> 0 then 1 + vlen (w_new_revision snapshot) else 0)
    + (if w_priority snapshot \<noteq> 0 then 1 + vlen (ucast (w_priority snapshot)) else 0)"
  have bytes: "part_bytes vlen oplen snapshot ops = 1 + vlen (of_nat (?n ops)) + ?n ops" for ops
    by (simp add: part_bytes_def envelope_len_def Let_def)
  have "?n (as @ bs @ cs) \<le> ?n ops" using le by simp
  then have top: "?n (as @ bs @ cs) < 2 ^ 64" using small bytes [of ops] by linarith
  have n: "?n bs \<le> ?n (as @ bs @ cs)" by simp
  then have "of_nat (?n bs) \<le> (of_nat (?n (as @ bs @ cs)) :: u64)"
    using top by (simp add: word_le_nat_alt unat_of_nat_u64 del: of_nat_add)
  from mono [OF this] n show ?thesis unfolding bytes by linarith
qed

lemma sum_list_concat_member: "ys \<in> set yss \<Longrightarrow> sum_list (map f ys) \<le> sum_list (map f (concat yss))" for f :: "'a \<Rightarrow> nat"
  by (induction yss) auto

section \<open>Properties\<close>

text \<open>
  A planned snapshot arrives: the plan splits it into envelopes that each fit the frame limit,
  and a replica that was announced their number stages them and obtains, with the last one and
  not before, exactly the snapshot.
\<close>

theorem snapshot_delivered:
  assumes "w_base_revision snapshot = 0" and "w_operations snapshot \<noteq> []" and "length (w_operations snapshot) \<le> max_ops"
    and "plan_snapshot_frames vlen oplen snapshot max_frame_size max_parts = Ok p"
  shows "\<exists>parts n asm. split_plan p snapshot = Ok parts \<and> announced_parts p = Ok n \<and>
    assembler_new (w_new_revision snapshot) n max_parts max_ops = Ok asm \<and>
    (\<forall>part \<in> set parts. part_bytes vlen oplen snapshot (w_operations part) \<le> max_frame_size) \<and>
    receive parts asm = Ok (replicate (length parts - 1) None @ [Some snapshot])"
proof -
  let ?D = "division vlen oplen snapshot max_frame_size"
  note P = plan_divides [OF assms(1,4)]
  have len: "length (plan_parts p) = length ?D" using P by (metis length_map widths_def)
  have k: "length ?D \<le> unat (effective_max_snapshot_parts max_parts)" using P len by simp
  have small: "length ?D < 2 ^ 32" using k unat_u32_bound [of "effective_max_snapshot_parts max_parts"] by linarith
  have D: "?D \<noteq> []" "[] \<notin> set ?D" "\<forall>ys \<in> set ?D. part_bytes vlen oplen snapshot ys \<le> max_frame_size"
    using division_ok [OF assms(1,2,4)] by blast+
  have conc: "concat ?D = w_operations snapshot" by (rule concat_division)
  have ann: "announced_parts p = Ok (if length ?D = 1 then 0 else of_nat (length ?D))"
    using small len by (auto simp: announced_parts_def part_count_def u32_of_nat_eq_1)
  show ?thesis
  proof (cases "length ?D = 1")
    case True
    then have one: "?D = [w_operations snapshot]" using conc by (cases ?D) auto
    then have "split_plan p snapshot = Ok [snapshot]" using P len True by (auto simp: split_plan_def Let_def)
    moreover have "\<exists>asm. assembler_new (w_new_revision snapshot) 0 max_parts max_ops = Ok asm \<and> receive [snapshot] asm = Ok [Some snapshot]"
      using assms(1,3) receive_single [of snapshot] by (simp add: assembler_new_def effective_snapshot_parts_def effective_max_snapshot_parts_def del: receive.simps)
    ultimately show ?thesis using ann True D(3) one by auto
  next
    case False
    let ?parts = "map (\<lambda>ys. snapshot\<lparr>w_operations := ys\<rparr>) ?D"
    have many: "1 < length ?D" using False D(1) by (cases ?D) auto
    then have split: "split_plan p snapshot = Ok ?parts"
      using P len take_parts_pack [of "plan_parts p" ?D snapshot] conc by (auto simp: split_plan_def Let_def)
    have eff: "effective_snapshot_parts (of_nat (length ?D)) = of_nat (length ?D)"
      "of_nat (length ?D) \<le> effective_max_snapshot_parts max_parts"
      using many small k by (auto simp: effective_snapshot_parts_def max_def word_le_nat_alt unsigned_of_nat take_bit_nat_eq_self)
    let ?asm = "\<lparr>snapshot_revision = w_new_revision snapshot, expected_parts = of_nat (length ?D), received_parts = 0,
        max_operations = max_ops, sa_priority = 0, sa_operations = []\<rparr>"
    have new: "assembler_new (w_new_revision snapshot) (of_nat (length ?D)) max_parts max_ops = Ok ?asm"
      using eff by (simp add: assembler_new_def Let_def)
    have "receive ?parts ?asm = Ok (replicate (length ?D - 1) None @ [Some (snapshot\<lparr>w_operations := sa_operations ?asm @ concat ?D\<rparr>)])"
      using assms(1,3) small many D(1,2) conc by (intro receive_parts [where n = 0]) auto
    then show ?thesis using split ann False new D(3) conc by auto
  qed
qed


definition a_snapshot :: wire_transaction where
  "a_snapshot = \<lparr>w_base_revision = 0, w_new_revision = 7,
     w_operations = [Some (WDeleteNode 1), Some (WDeleteNode 2), Some (WDeleteNode 3)], w_priority = 0\<rparr>"

lemma a_plan: "plan_snapshot_frames (\<lambda>_. 1) (\<lambda>_. 3) a_snapshot 14 4 = Ok \<lparr>plan_parts = [(0, 2), (2, 3)]\<rparr>"
  by (simp add: plan_snapshot_frames_def a_snapshot_def envelope_len_def operation_field_len_def
    effective_max_snapshot_parts_def max_def word_le_nat_alt Let_def)

theorem snapshot_delivered_witness:
  "plan_snapshot_frames (\<lambda>_. 1) (\<lambda>_. 3) a_snapshot 14 4 = Ok \<lparr>plan_parts = [(0, 2), (2, 3)]\<rparr> \<and>
   (\<exists>parts n asm. split_plan \<lparr>plan_parts = [(0, 2), (2, 3)]\<rparr> a_snapshot = Ok parts \<and>
      announced_parts \<lparr>plan_parts = [(0, 2), (2, 3)]\<rparr> = Ok n \<and> assembler_new 7 n 4 10 = Ok asm \<and>
      receive parts asm = Ok [None, Some a_snapshot])"
proof -
  have snap: "w_base_revision a_snapshot = 0" "w_operations a_snapshot \<noteq> []" "length (w_operations a_snapshot) \<le> 10"
    "w_new_revision a_snapshot = 7"
    by (simp_all add: a_snapshot_def)
  from snapshot_delivered [OF snap(1,2,3) a_plan] obtain parts n asm where
    R: "split_plan \<lparr>plan_parts = [(0, 2), (2, 3)]\<rparr> a_snapshot = Ok parts"
      "announced_parts \<lparr>plan_parts = [(0, 2), (2, 3)]\<rparr> = Ok n" "assembler_new 7 n 4 10 = Ok asm"
      "receive parts asm = Ok (replicate (length parts - 1) None @ [Some a_snapshot])" using snap(4) by auto
  moreover have "length parts = 2" using R(1) by (auto simp: split_plan_def a_snapshot_def)
  ultimately show ?thesis using a_plan by (auto simp: numeral_2_eq_2)
qed

text \<open>
  C24: A snapshot is planned whenever it can be delivered at all: if its operations can be divided
  in any way into at most the allowed number of fitting envelopes, the greedy plan succeeds, and
  no division uses fewer envelopes than the plan.  The length of a varint grows with the number.
\<close>

theorem plan_minimal:
  assumes mono: "\<And>a b. a \<le> b \<Longrightarrow> vlen a \<le> vlen b"
    and small: "part_bytes vlen oplen snapshot (w_operations snapshot) < 2 ^ 64"
    and base: "w_base_revision snapshot = 0"
    and yss: "concat yss = w_operations snapshot" "yss \<noteq> []" "length yss \<le> unat (effective_max_snapshot_parts max_parts)"
      "\<forall>ys \<in> set yss. part_bytes vlen oplen snapshot ys \<le> max_frame_size"
  shows "\<exists>p. plan_snapshot_frames vlen oplen snapshot max_frame_size max_parts = Ok p \<and> length (plan_parts p) \<le> length yss"
proof -
  let ?ops = "w_operations snapshot" and ?bytes = "part_bytes vlen oplen snapshot"
  let ?env = "envelope_len vlen (w_new_revision snapshot) (w_priority snapshot)"
  let ?lens = "map (operation_field_len vlen oplen) ?ops"
  note len_mono = part_bytes_mono [OF mono small]
  have sub: "set ys \<subseteq> set ?ops \<and> sum_list (map (operation_field_len vlen oplen) ys) \<le> sum_list ?lens" if "ys \<in> set yss" for ys
    using that sum_list_concat_member [of ys yss "operation_field_len vlen oplen"] by (auto simp flip: yss(1))
  have fits: "?bytes bs \<le> max_frame_size" if "as @ bs @ cs \<in> set yss" for as bs cs
    using len_mono [of as bs cs] sub [OF that] yss(4) that by fastforce
  have alone: "\<forall>x \<in> set ?lens. ?env x \<le> max_frame_size"
  proof
    fix x assume "x \<in> set ?lens"
    then obtain op where op: "op \<in> set ?ops" "x = operation_field_len vlen oplen op" by auto
    from op(1) obtain ys where ys: "ys \<in> set yss" "op \<in> set ys" unfolding yss(1) [symmetric] by auto
    from split_list [OF ys(2)] ys(1) obtain as cs where "as @ [op] @ cs \<in> set yss" by auto
    from fits [OF this] op(2) show "?env x \<le> max_frame_size" by (simp add: part_bytes_def)
  qed
  show ?thesis
  proof (cases "?bytes ?ops \<le> max_frame_size")
    case True
    then show ?thesis using base yss(2) by (cases yss) (auto simp: plan_snapshot_frames_def Let_def part_bytes_def plan_single_def)
  next
    case False
    from plan_loop_pack [OF alone, of 0 "[]" "[]"] obtain parts start c where
      loop: "plan_loop ?env max_frame_size 0 ?lens ([], 0, 0) = Ok (parts, start, c)"
      and w: "widths (parts @ [(start, length ?lens)]) = map length (pack (\<lambda>ys. ?env (sum_list ys) \<le> max_frame_size) [] ?lens)" by auto
    have "pack (\<lambda>ys. ?env (sum_list ys) \<le> max_frame_size) [] ?lens = map (map (operation_field_len vlen oplen)) (pack (\<lambda>ys. ?bytes ys \<le> max_frame_size) [] ?ops)"
      using pack_map [of "\<lambda>ys. ?env (sum_list ys) \<le> max_frame_size" "operation_field_len vlen oplen" "[]" ?ops]
      by (simp add: part_bytes_def)
    with w have count: "length parts + 1 = length (pack (\<lambda>ys. ?bytes ys \<le> max_frame_size) [] ?ops)"
      by (metis length_map length_append_singleton widths_def Suc_eq_plus1)
    have "length (pack (\<lambda>ys. ?bytes ys \<le> max_frame_size) [] ?ops) \<le> length yss"
      using yss(1,2) fits by (intro pack_minimal [where F = "\<lambda>ys. ys \<in> set yss" and pre = "[]"]) auto
    with count yss(3) loop base False show ?thesis by (auto simp: plan_snapshot_frames_def Let_def part_bytes_def)
  qed
qed

theorem plan_minimal_witness:
  "\<exists>p. plan_snapshot_frames (\<lambda>_. 1) (\<lambda>_. 3) a_snapshot 14 4 = Ok p \<and> length (plan_parts p) \<le> length [0, 1, 2 :: nat]"
proof -
  have "effective_max_snapshot_parts 4 = 4" by (simp add: effective_max_snapshot_parts_def max_def word_le_nat_alt)
  then show ?thesis
    using plan_minimal [of "\<lambda>_. 1" "\<lambda>_. 3" a_snapshot "map (\<lambda>op. [op]) (w_operations a_snapshot)" 4 14]
    by (simp add: a_snapshot_def part_bytes_def envelope_len_def operation_field_len_def Let_def)
qed

end
