(* ===== verification/Capability.thy ===== *)
theory Capability
  imports Values "HOL-Library.List_Lexorder" "HOL-Library.Sublist"
begin

text \<open>
  Capability profiles and their negotiation: \<^verbatim>\<open>semantic-tree/src/capability.rs\<close>.  A \<open>Profile\<close> is
  a name and a major version, ordered like the derived order of the source, so a \<open>BTreeSet<Profile>\<close>
  is a finite set that is iterated by \<open>sorted_list_of_fset\<close>.  Strings are their UTF-8 bytes; of the
  standard library the file models \<open>str::trim\<close> (Unicode white space, in UTF-8), \<open>rsplit_once\<close> and
  \<open>str::parse::<u32>\<close>.
\<close>

section \<open>Text\<close>

definition white_space :: "u8 list list" where
  "white_space =
     [[9], [10], [11], [12], [13], [32], [0xC2, 0x85], [0xC2, 0xA0], [0xE1, 0x9A, 0x80], [0xE2, 0x80, 0x80],
      [0xE2, 0x80, 0x81], [0xE2, 0x80, 0x82], [0xE2, 0x80, 0x83], [0xE2, 0x80, 0x84], [0xE2, 0x80, 0x85],
      [0xE2, 0x80, 0x86], [0xE2, 0x80, 0x87], [0xE2, 0x80, 0x88], [0xE2, 0x80, 0x89], [0xE2, 0x80, 0x8A],
      [0xE2, 0x80, 0xA8], [0xE2, 0x80, 0xA9], [0xE2, 0x80, 0xAF], [0xE2, 0x81, 0x9F], [0xE3, 0x80, 0x80]]"

lemma white_space_bytes: "w \<in> set white_space \<Longrightarrow> w \<noteq> [] \<and> 47 \<notin> set w \<and> (\<forall>b. 48 \<le> b \<and> b \<le> 57 \<longrightarrow> b \<notin> set w)"
  by (auto simp: white_space_def)

function trim_start :: "u8 list \<Rightarrow> u8 list" where
  "trim_start s = (case find (\<lambda>w. prefix w s) white_space of None \<Rightarrow> s | Some w \<Rightarrow> trim_start (drop (length w) s))"
  by auto

termination
proof (relation "measure length")
  fix s w assume "find (\<lambda>w. prefix w s) white_space = Some w"
  then have "w \<in> set white_space" "prefix w s" by (auto simp: find_Some_iff in_set_conv_nth)
  then show "(drop (length w) s, s) \<in> measure length"
    using white_space_bytes [of w] prefix_length_le [of w s] by (cases "length w") auto
qed simp

function trim_end :: "u8 list \<Rightarrow> u8 list" where
  "trim_end s = (case find (\<lambda>w. suffix w s) white_space of None \<Rightarrow> s | Some w \<Rightarrow> trim_end (take (length s - length w) s))"
  by auto

termination
proof (relation "measure length")
  fix s w assume "find (\<lambda>w. suffix w s) white_space = Some w"
  then have "w \<in> set white_space" "suffix w s" by (auto simp: find_Some_iff in_set_conv_nth)
  then show "(take (length s - length w) s, s) \<in> measure length"
    using white_space_bytes [of w] suffix_length_le [of w s] by (cases "length w") auto
qed simp

declare trim_start.simps [simp del] trim_end.simps [simp del]

definition trim :: "u8 list \<Rightarrow> u8 list" where
  "trim s = trim_end (trim_start s)"

text \<open>\<open>rsplit_once\<close>: what stands before and behind the last occurrence of the byte.\<close>

fun rsplit_once :: "u8 \<Rightarrow> u8 list \<Rightarrow> (u8 list \<times> u8 list) option" where
  "rsplit_once d [] = None"
| "rsplit_once d (b # s) =
     (case rsplit_once d s of
        Some (x, y) \<Rightarrow> Some (b # x, y)
      | None \<Rightarrow> if b = d then Some ([], s) else None)"

definition is_ascii_digit :: "u8 \<Rightarrow> bool" where
  "is_ascii_digit b \<longleftrightarrow> 48 \<le> b \<and> b \<le> 57"

definition digits_value :: "u8 list \<Rightarrow> nat" where
  "digits_value s = foldl (\<lambda>acc b. 10 * acc + (unat b - 48)) 0 s"

text \<open>An optional plus sign and at least one digit; a value that does not fit is an error.\<close>

definition parse_u32 :: "u8 list \<Rightarrow> u32 option" where
  "parse_u32 s =
     (let ds = (case s of b # (c # rest) \<Rightarrow> if b = 43 then c # rest else s | _ \<Rightarrow> s)
      in if ds \<noteq> [] \<and> list_all is_ascii_digit ds \<and> digits_value ds < 2 ^ 32 then Some (of_nat (digits_value ds)) else None)"

fun decimal :: "nat \<Rightarrow> u8 list" where
  "decimal n = (if n < 10 then [of_nat (48 + n)] else decimal (n div 10) @ [of_nat (48 + n mod 10)])"

declare decimal.simps [simp del]

section \<open>Profiles\<close>

definition PROFILE_STANDARD_WIDGETS :: "u8 list" where
  "PROFILE_STANDARD_WIDGETS = str_bytes ''org.srui.standard-widgets''"

definition PROFILE_TERMINAL :: "u8 list" where
  "PROFILE_TERMINAL = str_bytes ''org.srui.terminal''"

datatype profile = Profile (profile_name: "u8 list") (profile_version: u32)

instantiation profile :: linorder
begin

definition less_eq_profile :: "profile \<Rightarrow> profile \<Rightarrow> bool" where
  "less_eq_profile p q \<longleftrightarrow>
     profile_name p < profile_name q \<or> profile_name p = profile_name q \<and> profile_version p \<le> profile_version q"

definition less_profile :: "profile \<Rightarrow> profile \<Rightarrow> bool" where
  "less_profile p q \<longleftrightarrow>
     profile_name p < profile_name q \<or> profile_name p = profile_name q \<and> profile_version p < profile_version q"

instance
  by standard (auto simp: less_eq_profile_def less_profile_def profile.expand)

end

datatype parse_profile_error =
    EmptyString
  | EmptyName
  | MissingVersionDelimiter "u8 list"
  | InvalidVersion "u8 list"

definition version_message :: "u8 list" where
  "version_message = str_bytes ''version must be >= 1''"

definition profile_new :: "u8 list \<Rightarrow> u32 \<Rightarrow> (parse_profile_error, profile) result" where
  "profile_new name v =
     (if trim name = [] then Error EmptyName
      else if v = 0 then Error (InvalidVersion version_message)
      else Ok (Profile (trim name) v))"

definition standard_widgets_v1 :: profile where
  "standard_widgets_v1 = Profile PROFILE_STANDARD_WIDGETS 1"

definition terminal_v1 :: profile where
  "terminal_v1 = Profile PROFILE_TERMINAL 1"

definition profile_to_string :: "profile \<Rightarrow> u8 list" where
  "profile_to_string p = profile_name p @ 47 # decimal (unat (profile_version p))"

definition profile_parse :: "u8 list \<Rightarrow> (parse_profile_error, profile) result" where
  "profile_parse s0 =
     (let s = trim s0
      in if s = [] then Error EmptyString
         else case rsplit_once 47 s of
           None \<Rightarrow> Error (MissingVersionDelimiter s)
         | Some (name0, version_str) \<Rightarrow>
             let name = trim name0
             in if name = [] then Error EmptyName
                else case parse_u32 (trim version_str) of
                  None \<Rightarrow> Error (InvalidVersion version_str)
                | Some v \<Rightarrow> if v = 0 then Error (InvalidVersion version_message) else Ok (Profile name v))"

section \<open>Sets of profiles\<close>

type_synonym capability_set = "profile fset"

fun from_str_slice :: "u8 list list \<Rightarrow> capability_set \<Rightarrow> (parse_profile_error, capability_set) result" where
  "from_str_slice [] caps = Ok caps"
| "from_str_slice (s # ss) caps = and_then (profile_parse s) (\<lambda>p. from_str_slice ss (finsert p caps))"

definition contains_str :: "capability_set \<Rightarrow> u8 list \<Rightarrow> bool" where
  "contains_str caps s = (case profile_parse s of Inr p \<Rightarrow> p |\<in>| caps | Inl _ \<Rightarrow> False)"

definition contains_name :: "capability_set \<Rightarrow> u8 list \<Rightarrow> bool" where
  "contains_name caps name = list_ex (\<lambda>p. profile_name p = name) (sorted_list_of_fset caps)"

definition get_profile :: "capability_set \<Rightarrow> u8 list \<Rightarrow> profile option" where
  "get_profile caps name = find (\<lambda>p. profile_name p = name) (sorted_list_of_fset caps)"

definition get_version :: "capability_set \<Rightarrow> u8 list \<Rightarrow> u32 option" where
  "get_version caps name = map_option profile_version (get_profile caps name)"

definition to_string_vec :: "capability_set \<Rightarrow> u8 list list" where
  "to_string_vec caps = map profile_to_string (sorted_list_of_fset caps)"

datatype negotiation_error = UnsatisfiedRequiredProfiles "profile list"

definition capability_negotiate ::
  "capability_set \<Rightarrow> capability_set \<Rightarrow> capability_set \<Rightarrow> (negotiation_error, capability_set) result" where
  "capability_negotiate client_offered server_required server_optional =
     (let missing_required = filter (\<lambda>req. req |\<notin>| client_offered) (sorted_list_of_fset server_required)
      in if missing_required \<noteq> [] then Error (UnsatisfiedRequiredProfiles missing_required)
         else
           let negotiated = fold finsert (sorted_list_of_fset server_required) {||}
           in Ok (fold (\<lambda>opt n. if opt |\<in>| client_offered then finsert opt n else n)
                (sorted_list_of_fset server_optional) negotiated))"

record server_capabilities =
  cap_required :: capability_set
  cap_optional :: capability_set

definition server_standard_widgets :: server_capabilities where
  "server_standard_widgets = \<lparr>cap_required = {|standard_widgets_v1|}, cap_optional = {||}\<rparr>"

definition server_negotiate :: "server_capabilities \<Rightarrow> capability_set \<Rightarrow> (negotiation_error, capability_set) result" where
  "server_negotiate self client_offered = capability_negotiate client_offered (cap_required self) (cap_optional self)"

section \<open>Printing and parsing\<close>

definition profile_ok :: "profile \<Rightarrow> bool" where
  "profile_ok p \<longleftrightarrow> profile_name p \<noteq> [] \<and> trim (profile_name p) = profile_name p \<and> profile_version p \<noteq> 0"

lemma trim_start_fix: "(\<And>w. w \<in> set white_space \<Longrightarrow> \<not> prefix w s) \<Longrightarrow> trim_start s = s"
  by (subst trim_start.simps) (auto split: option.splits simp: find_Some_iff)

lemma trim_end_fix: "(\<And>w. w \<in> set white_space \<Longrightarrow> \<not> suffix w s) \<Longrightarrow> trim_end s = s"
  by (subst trim_end.simps) (auto split: option.splits simp: find_Some_iff)

lemma trim_start_spec: "suffix (trim_start s) s \<and> (\<forall>w \<in> set white_space. \<not> prefix w (trim_start s))"
proof (induction s rule: trim_start.induct)
  case (1 s)
  show ?case
  proof (cases "find (\<lambda>w. prefix w s) white_space")
    case None
    then have "\<forall>w \<in> set white_space. \<not> prefix w s" by (simp add: find_None_iff)
    with None show ?thesis by (simp add: trim_start.simps [of s])
  next
    case (Some w)
    from 1 [OF this] have "suffix (trim_start (drop (length w) s)) s" by (blast intro: suffix_order.trans suffix_drop)
    with 1 [OF Some] show ?thesis by (simp add: trim_start.simps [of s] Some)
  qed
qed

lemma trim_end_spec: "prefix (trim_end s) s \<and> (\<forall>w \<in> set white_space. \<not> suffix w (trim_end s))"
proof (induction s rule: trim_end.induct)
  case (1 s)
  show ?case
  proof (cases "find (\<lambda>w. suffix w s) white_space")
    case None
    then have "\<forall>w \<in> set white_space. \<not> suffix w s" by (simp add: find_None_iff)
    with None show ?thesis by (simp add: trim_end.simps [of s])
  next
    case (Some w)
    from 1 [OF this] have "prefix (trim_end (take (length s - length w) s)) s" by (blast intro: prefix_order.trans take_is_prefix)
    with 1 [OF Some] show ?thesis by (simp add: trim_end.simps [of s] Some)
  qed
qed

text \<open>A trimmed text neither begins nor ends with white space.\<close>

lemma trim_spec: "w \<in> set white_space \<Longrightarrow> \<not> prefix w (trim s) \<and> \<not> suffix w (trim s)"
  unfolding trim_def using trim_start_spec [of s] trim_end_spec [of "trim_start s"] by (meson prefix_order.trans)

lemma trim_fix: "(\<And>w. w \<in> set white_space \<Longrightarrow> \<not> prefix w s \<and> \<not> suffix w s) \<Longrightarrow> trim s = s"
  by (simp add: trim_def trim_start_fix trim_end_fix)

lemma trim_trim [simp]: "trim (trim s) = trim s"
  by (rule trim_fix) (rule trim_spec)

lemma trim_no_prefix: "trim s = s \<Longrightarrow> w \<in> set white_space \<Longrightarrow> \<not> prefix w s \<and> \<not> suffix w s"
  using trim_spec [of w s] by simp

lemma rsplit_once_last: "d \<notin> set y \<Longrightarrow> rsplit_once d (x @ d # y) = Some (x, y)"
proof (induction x)
  case Nil
  have "rsplit_once d y = None" if "d \<notin> set y" for y using that by (induction y) auto
  with Nil show ?case by simp
qed simp

lemma digit_byte: "d < 10 \<Longrightarrow> unat (of_nat (48 + d) :: u8) = 48 + d"
  by (simp add: unsigned_of_nat take_bit_nat_eq_self del: of_nat_add)

lemma digit_byte_ok: "d < 10 \<Longrightarrow> is_ascii_digit (of_nat (48 + d))"
  using digit_byte [of d] by (simp add: is_ascii_digit_def word_le_nat_alt del: of_nat_add)

lemma decimal_digits: "list_all is_ascii_digit (decimal n) \<and> decimal n \<noteq> []"
proof (induction n rule: decimal.induct)
  case (1 n)
  then show ?case using digit_byte_ok [of n] digit_byte_ok [of "n mod 10"]
    by (subst (1 2) decimal.simps) (simp del: of_nat_add)
qed

lemma digits_value_snoc: "digits_value (s @ [b]) = 10 * digits_value s + (unat b - 48)"
  by (simp add: digits_value_def)

lemma digits_value_decimal: "digits_value (decimal n) = n"
proof (induction n rule: decimal.induct)
  case (1 n)
  show ?case
  proof (cases "n < 10")
    case True
    then show ?thesis using digit_byte [of n] by (subst decimal.simps) (simp add: digits_value_def del: of_nat_add)
  next
    case False
    then show ?thesis using 1 digit_byte [of "n mod 10"]
      by (subst decimal.simps) (simp add: digits_value_snoc del: of_nat_add)
  qed
qed

lemma digit_not: "is_ascii_digit b \<Longrightarrow> b \<noteq> 43 \<and> b \<noteq> 47"
  by (auto simp: is_ascii_digit_def)

lemma decimal_no_slash: "47 \<notin> set (decimal n)"
  using decimal_digits [of n] digit_not by (auto simp: list_all_iff)

lemma parse_u32_decimal: "parse_u32 (decimal (unat v)) = Some v"
proof -
  have "unat v < 2 ^ 32" using unsigned_less [of v] by simp
  moreover have "hd (decimal (unat v)) \<noteq> 43"
    using decimal_digits [of "unat v"] digit_not by (cases "decimal (unat v)") auto
  ultimately show ?thesis using decimal_digits [of "unat v"] digits_value_decimal [of "unat v"]
    by (auto simp: parse_u32_def Let_def split: list.splits)
qed

lemma trim_digits:
  assumes "list_all is_ascii_digit s"
  shows "trim s = s"
proof (rule trim_fix)
  fix w assume "w \<in> set white_space"
  then have "w \<noteq> []" "\<And>b. b \<in> set w \<Longrightarrow> \<not> is_ascii_digit b" using white_space_bytes [of w] by (auto simp: is_ascii_digit_def)
  then have "hd w \<in> set w" "\<not> is_ascii_digit (hd w)" by simp_all
  with assms show "\<not> prefix w s \<and> \<not> suffix w s" by (meson list_all_iff set_mono_prefix set_mono_suffix subsetD)
qed

lemma prefix_before_slash: "prefix w (x @ 47 # y) \<Longrightarrow> 47 \<notin> set w \<Longrightarrow> prefix w x"
proof (induction x arbitrary: w)
  case Nil
  then show ?case by (cases w) auto
next
  case (Cons b x)
  then show ?case by (cases w) auto
qed

lemma suffix_behind_slash: "suffix w (x @ 47 # y) \<Longrightarrow> 47 \<notin> set w \<Longrightarrow> suffix w y"
  using prefix_before_slash [of "rev w" "rev y" "rev x"] by (simp add: suffix_to_prefix)

lemma trim_profile_string:
  assumes "trim x = x" "x \<noteq> []"
  shows "trim (x @ 47 # decimal n) = x @ 47 # decimal n"
proof (rule trim_fix)
  fix w assume w: "w \<in> set white_space"
  from white_space_bytes [OF this] have ns: "47 \<notin> set w" by blast
  have "\<not> prefix w x" using trim_no_prefix [OF assms(1) w] by blast
  moreover have "\<not> suffix w (decimal n)" using trim_no_prefix [OF trim_digits w] decimal_digits by blast
  ultimately show "\<not> prefix w (x @ 47 # decimal n) \<and> \<not> suffix w (x @ 47 # decimal n)"
    using prefix_before_slash [OF _ ns] suffix_behind_slash [OF _ ns] by blast
qed

lemma parse_to_string: "profile_ok p \<Longrightarrow> profile_parse (profile_to_string p) = Ok p"
  using trim_profile_string [of "profile_name p" "unat (profile_version p)"] decimal_digits [of "unat (profile_version p)"]
  by (cases p) (simp add: profile_ok_def profile_to_string_def profile_parse_def rsplit_once_last decimal_no_slash
      trim_digits parse_u32_decimal Let_def)

lemma parse_ok: "profile_parse s = Ok p \<Longrightarrow> profile_ok p"
  by (auto simp: profile_parse_def profile_ok_def Let_def split: if_splits option.splits)

lemma profile_new_ok: "profile_new name v = Ok p \<Longrightarrow> profile_ok p"
  by (auto simp: profile_new_def profile_ok_def split: if_splits)

lemma profile_to_string_inj: "profile_ok p \<Longrightarrow> profile_ok q \<Longrightarrow> profile_to_string p = profile_to_string q \<Longrightarrow> p = q"
  by (metis Inr_inject parse_to_string)

section \<open>Negotiation\<close>

lemma fold_finsert: "fold finsert xs a = fset_of_list xs |\<union>| a"
  by (induction xs arbitrary: a) auto

lemma fold_optional:
  "fold (\<lambda>opt n. if opt |\<in>| c then finsert opt n else n) xs a = ffilter (\<lambda>x. x |\<in>| c) (fset_of_list xs) |\<union>| a"
  by (induction xs arbitrary: a) auto

lemma fset_of_sorted [simp]: "fset_of_list (sorted_list_of_fset S) = S"
  by (simp add: fset_of_list.rep_eq fset_inject [symmetric] sorted_list_of_fset.rep_eq)

lemma negotiate_iff:
  "capability_negotiate offered required optional =
     (if required |\<subseteq>| offered then Ok (required |\<union>| (optional |\<inter>| offered))
      else Error (UnsatisfiedRequiredProfiles (sorted_list_of_fset (required |-| offered))))"
proof -
  have e: "filter (\<lambda>req. req |\<notin>| offered) (sorted_list_of_fset required) = sorted_list_of_fset (required |-| offered)"
    by (rule sorted_distinct_set_unique) (auto simp: sorted_list_of_fset.rep_eq sorted_wrt_filter)
  have "ffilter (\<lambda>x. x |\<in>| offered) optional |\<union>| required = required |\<union>| (optional |\<inter>| offered)" by auto
  moreover have "sorted_list_of_fset (required |-| offered) = [] \<longleftrightarrow> required |\<subseteq>| offered"
    by (simp add: sorted_list_of_fset.rep_eq) blast
  ultimately show ?thesis unfolding capability_negotiate_def Let_def e by (simp add: fold_finsert fold_optional)
qed

text \<open>
  Negotiation gives exactly the required profiles and those optional ones that the client offers.
  It fails if and only if a required profile is not offered, and then it reports exactly the missing
  ones, each once and in the order of profiles.
\<close>

theorem negotiate_exact:
  "(case server_negotiate server offered of
      Inr negotiated \<Rightarrow> cap_required server |\<subseteq>| offered \<and>
        (\<forall>p. p |\<in>| negotiated \<longleftrightarrow> p |\<in>| cap_required server \<or> p |\<in>| cap_optional server \<and> p |\<in>| offered)
    | Inl e \<Rightarrow> \<exists>missing. e = Err (UnsatisfiedRequiredProfiles missing) \<and> missing \<noteq> [] \<and> sorted missing \<and> distinct missing \<and>
        set missing = fset (cap_required server) - fset offered)"
proof (cases "cap_required server |\<subseteq>| offered")
  case False
  then have "fset (cap_required server) - fset offered \<noteq> {}" by auto
  with False show ?thesis by (auto simp: server_negotiate_def negotiate_iff sorted_list_of_fset.rep_eq)
qed (auto simp: server_negotiate_def negotiate_iff)

text \<open>
  A profile that was parsed or constructed prints to a text that parses to the same profile, so
  the text of a profile is unambiguous; parsing is insensitive to white space around the text, and what it accepts is a
  profile with a name without white space at its ends and a positive version.
\<close>

theorem profile_round_trip:
  assumes "profile_parse s = Ok p \<or> profile_new name v = Ok p"
  shows "profile_parse (profile_to_string p) = Ok p \<and> trim (profile_name p) = profile_name p \<and>
    profile_name p \<noteq> [] \<and> profile_version p \<noteq> 0 \<and>
    (\<forall>q t. profile_parse t = Ok q \<and> profile_to_string q = profile_to_string p \<longrightarrow> q = p) \<and>
    profile_parse (trim s) = profile_parse s"
proof -
  have ok: "profile_ok p" using assms parse_ok profile_new_ok by blast
  moreover have "profile_parse (trim s) = profile_parse s" by (simp add: profile_parse_def)
  ultimately show ?thesis using parse_to_string [OF ok] profile_to_string_inj parse_ok by (auto simp: profile_ok_def)
qed

definition spaced_terminal :: "u8 list" where
  "spaced_terminal = str_bytes '' org.srui.terminal/1''"

lemma spaced_terminal_parses: "profile_parse spaced_terminal = Ok terminal_v1"
proof -
  have t: "trim spaced_terminal = profile_to_string terminal_v1"
    by (simp add: trim_def spaced_terminal_def str_bytes_def byte_of_char_def white_space_def trim_start.simps trim_end.simps
      profile_to_string_def terminal_v1_def PROFILE_TERMINAL_def decimal.simps suffix_to_prefix)
  have "trim PROFILE_TERMINAL = PROFILE_TERMINAL"
    by (simp add: trim_def str_bytes_def byte_of_char_def white_space_def trim_start.simps trim_end.simps PROFILE_TERMINAL_def suffix_to_prefix)
  then have "profile_ok terminal_v1" by (simp add: profile_ok_def terminal_v1_def PROFILE_TERMINAL_def str_bytes_def)
  from parse_to_string [OF this] show ?thesis unfolding t [symmetric] by (simp add: profile_parse_def)
qed

theorem profile_round_trip_witness:
  "profile_parse spaced_terminal = Ok terminal_v1 \<and> profile_parse (profile_to_string terminal_v1) = Ok terminal_v1"
  using profile_round_trip [of spaced_terminal terminal_v1] spaced_terminal_parses by blast

end
