(* ===== verification/Session_Commit.thy ===== *)
theory Session_Commit
  imports Ui_Transaction Journal Text_Edit_Tracker Snapshot_Framing Capability
begin

text \<open>
  The authoritative session: its lifecycle and its two commit paths,
  \<^verbatim>\<open>sessiond/src/session.rs\<close>.  The record \<open>session_inner\<close> has the fields of \<open>SessionInner\<close>
  that these operations touch.  Each operation runs as one critical section under the session
  mutex, so a session is a sequence of such steps; what a step hands to other components is a
  list of effects: the transaction it publishes to the outbound hub, under the mutex, and the
  terminals it closes.  The ids of the live terminal streams are an argument.
  A poisoned mutex is not modelled: closures are run under \<open>catch_unwind\<close>.
\<close>

section \<open>State\<close>

datatype session_state = Detached | Attached | Terminating | Expired

definition is_terminal :: "session_state \<Rightarrow> bool" where
  "is_terminal st \<longleftrightarrow> st = Terminating \<or> st = Expired"

record session_inner =
  si_state :: session_state
  si_attached_connections :: usize
  si_store :: semantic_store
  si_journal :: transaction_journal
  si_text_edits :: text_edit_tracker

text \<open>
  The errors with a formatted message have one constructor per message, with what is put into it.
\<close>

datatype config_error =
    StandardMappingMissing
  | StandardMappingNonzero
  | StandardMappingRepeated
  | UnsupportedStandardProfile profile
  | NoNamespaceMapping profile
  | ZeroNamespaceMapping profile
  | RepeatedNamespaceMapping profile
  | ZeroNamespaceUri "u8 list"
  | UriNotAProfile "u8 list" parse_profile_error
  | UriNotCanonical "u8 list" "u8 list"
  | StandardAlias
  | UriNotAdvertised "u8 list"
  | DuplicateNamespaceId u32
  | DuplicateExtensionUri "u8 list"
  | ZeroQueueCapacity

datatype input_error =
    ClientInstanceIdTooLong usize
  | TooManyStreamOffsets usize
  | TooManyPendingTextEdits usize
  | PendingTextEditIncomplete
  | PendingTextEditRepeated
  | PendingTextEditWithoutEditSeq
  | NamespacesExhausted
  | StandardWidgetsReserved
  | TerminalReserved
  | ExtensionsFixed
  | TerminalsFixed
  | ProfileAlreadyRequired profile
  | TerminalFailure "u8 list"

datatype session_error =
    SessionStore store_error
  | SessionTransaction txn_error
  | SessionJournal journal_error
  | SessionPanicked
  | ReplayUnavailable
  | SnapshotUnrepresentable usize usize
  | SnapshotUndeliverable snapshot_framing_error
  | Negotiation negotiation_error
  | SessionOutboundClosed
  | InvalidInput input_error
  | BadConfiguration config_error
  | UnsupportedCoreVersion "u8 list" "u8 list"

datatype session_effect =
    Publish wire_transaction
  | CloseTerminals "node_id list"

type_synonym 'a session_result = "(session_error, 'a) result \<times> session_inner \<times> session_effect list"

definition MAX_TEXT_EDIT_STREAMS :: usize where
  "MAX_TEXT_EDIT_STREAMS = 1024"

definition session_with_config :: "usize \<Rightarrow> usize \<Rightarrow> (session_error, session_inner) result" where
  "session_with_config journal_capacity outbound_queue_capacity =
     (if journal_capacity = 0 \<or> outbound_queue_capacity = 0 then Inl Panic
      else Ok \<lparr>si_state = Detached, si_attached_connections = 0, si_store = store_new,
               si_journal = journal_new journal_capacity,
               si_text_edits = tracker_new MAX_TEXT_EDIT_STREAMS\<rparr>)"

section \<open>Lifecycle\<close>

text \<open>\<open>True\<close> is an attachment guard, \<open>False\<close> a refusal.\<close>

definition attach :: "session_inner \<Rightarrow> bool \<times> session_inner" where
  "attach s =
     (if is_terminal (si_state s) then (False, s)
      else (True, s\<lparr>si_attached_connections := si_attached_connections s + 1,
                    si_state := (if si_state s = Detached then Attached else si_state s)\<rparr>))"

definition detach_internal :: "session_inner \<Rightarrow> session_inner" where
  "detach_internal s =
     (let s1 = s\<lparr>si_attached_connections := si_attached_connections s - 1\<rparr>
      in if si_attached_connections s1 = 0 \<and> si_state s1 = Attached then s1\<lparr>si_state := Detached\<rparr> else s1)"

definition terminate :: "session_inner \<Rightarrow> session_inner" where
  "terminate s = s\<lparr>si_state := Terminating\<rparr>"

definition expire :: "session_inner \<Rightarrow> session_inner" where
  "expire s = s\<lparr>si_state := Expired\<rparr>"

section \<open>Committing\<close>

text \<open>
  The tail both commit paths share: append to the journal, reclaim the editor streams of
  deleted nodes, publish, close the terminals of deleted nodes.
\<close>

definition finish_commit ::
  "bool \<Rightarrow> node_id list \<Rightarrow> journal_permit \<Rightarrow> 'a \<Rightarrow> session_inner \<Rightarrow> 'a session_result" where
  "finish_commit deletes_nodes live permit result s =
     (case journal_append permit (si_journal s) of
        (Inl _, j) \<Rightarrow> (Inl Panic, s\<lparr>si_journal := j\<rparr>, [])
      | (Inr _, j) \<Rightarrow>
          (case (if deletes_nodes then reclaim_missing_nodes (si_store s) (si_text_edits s)
                 else (Ok (), si_text_edits s)) of
             (Inl _, t) \<Rightarrow> (Inl Panic, s\<lparr>si_journal := j, si_text_edits := t\<rparr>, [])
           | (Inr _, t) \<Rightarrow>
               (Ok result, s\<lparr>si_journal := j, si_text_edits := t\<rparr>,
                [Publish (permit_tx permit),
                 CloseTerminals
                   (if deletes_nodes then filter (\<lambda>i. \<not> contains_node (si_store s) i) live else [])])))"

definition is_delete_node :: "operation \<Rightarrow> bool" where
  "is_delete_node op = (case op of DeleteNode _ \<Rightarrow> True | _ \<Rightarrow> False)"

definition is_wire_delete :: "wire_operation \<Rightarrow> bool" where
  "is_wire_delete op = (case op of Some (WDeleteNode _) \<Rightarrow> True | _ \<Rightarrow> False)"

definition transaction_with_result ::
  "(u64 \<times> u64 \<Rightarrow> 'a ui_prog) \<Rightarrow> node_id list \<Rightarrow> session_inner \<Rightarrow> ('a \<times> wire_transaction) session_result" where
  "transaction_with_result f live s =
     (let base = revision (si_store s)
      in case checked_next base of
           None \<Rightarrow> (Error (SessionTransaction (RevisionExhausted base)), s, [])
         | Some committed \<Rightarrow>
             (case run_ui (f (base, committed))
                     (ui_new (clone_staging (si_store s)) (max_transaction_operations (limits (si_store s)))) of
                (Inl (Err e), _) \<Rightarrow> (Error (SessionStore e), s, [])
              | (Inl Panic, _) \<Rightarrow> (Error SessionPanicked, s, [])
              | (Inl Diverge, _) \<Rightarrow> (Inl Diverge, s, [])
              | (Inr val, ui) \<Rightarrow>
                  (let ops = ui_operations ui; deletes_nodes = list_ex is_delete_node ops
                   in case commit_new base ops of
                        Inl _ \<Rightarrow> (Inl Panic, s, [])
                      | Inr commit \<Rightarrow>
                          (case map_err SessionJournal (journal_prepare (si_journal s) commit) of
                             Inl e \<Rightarrow> (Inl e, s, [])
                           | Inr permit \<Rightarrow>
                               finish_commit deletes_nodes live permit (val, permit_tx permit)
                                 (s\<lparr>si_store := commit_staging (ui_staged ui)
                                      (new_revision (commit_transaction commit)) (si_store s)\<rparr>)))))"

definition session_commit_transaction ::
  "wire_transaction \<Rightarrow> node_id list \<Rightarrow> session_inner \<Rightarrow> wire_transaction session_result" where
  "session_commit_transaction tx live s =
     (case map_err SessionTransaction (commit_from_wire tx) of
        Inl e \<Rightarrow> (Inl e, s, [])
      | Inr commit \<Rightarrow>
          (case map_err SessionTransaction (prepare_commit commit (si_store s)) of
             Inl e \<Rightarrow> (Inl e, s, [])
           | Inr staged \<Rightarrow>
               (case map_err SessionJournal (journal_prepare (si_journal s) commit) of
                  Inl e \<Rightarrow> (Inl e, s, [])
                | Inr permit \<Rightarrow>
                    (let deletes_nodes = list_ex is_wire_delete (w_operations (permit_tx permit))
                     in case commit_prepared staged (si_store s) of
                          (Inl _, st) \<Rightarrow> (Inl Panic, s\<lparr>si_store := st\<rparr>, [])
                        | (Inr _, st) \<Rightarrow>
                            finish_commit deletes_nodes live permit (permit_tx permit) (s\<lparr>si_store := st\<rparr>)))))"

definition collect_replayed_transactions ::
  "u64 \<Rightarrow> session_inner \<Rightarrow> (session_error, wire_transaction list) result" where
  "collect_replayed_transactions from_revision s =
     ok_or ReplayUnavailable (iter_from (si_journal s) from_revision)"

section \<open>The invariant of a session\<close>

text \<open>
  Store, journal and editor table are well-formed, and store and journal stand at the same
  revision.
\<close>

definition session_ok :: "session_inner \<Rightarrow> bool" where
  "session_ok s \<longleftrightarrow>
     store_ok (si_store s) \<and> journal_ok (si_journal s) \<and> tracker_ok (si_text_edits s) \<and>
     latest_revision (si_journal s) = revision (si_store s)"

lemma session_with_config_ok: "session_with_config n m = Ok s \<Longrightarrow> session_ok s"
proof -
  assume "session_with_config n m = Ok s"
  then have "si_store s = store_new" "si_journal s = journal_new n" "si_text_edits s = tracker_new MAX_TEXT_EDIT_STREAMS"
    by (auto simp: session_with_config_def split: if_splits)
  moreover have "latest_revision (journal_new n) = revision store_new"
    by (simp add: journal_new_def store_new_def with_limits_def with_limits_and_revision_def)
  ultimately show "session_ok s" by (simp add: session_ok_def store_new_ok journal_new_ok tracker_new_ok)
qed

text \<open>What a completed commit has done.\<close>

definition committed ::
  "authoritative_commit \<Rightarrow> semantic_store \<Rightarrow> session_inner \<Rightarrow> session_inner \<Rightarrow> session_effect list \<Rightarrow> bool" where
  "committed c st s s' eff \<longleftrightarrow>
     commit_ok c \<and> base_revision (commit_transaction c) = revision (si_store s) \<and>
     keeps (si_store s) st \<and>
     si_store s' = st\<lparr>revision := new_revision (commit_transaction c)\<rparr> \<and>
     (\<exists>j'. journal_append (JournalPermit (transaction_to_wire (commit_transaction c))) (si_journal s) = (Ok (), j') \<and>
        si_journal s' = j') \<and>
     (\<exists>closed. eff = [Publish (transaction_to_wire (commit_transaction c)), CloseTerminals closed] \<and>
        (\<forall>i \<in> set closed. \<not> contains_node (si_store s') i)) \<and>
     si_state s' = si_state s \<and> si_attached_connections s' = si_attached_connections s"

lemma committed_ok:
  assumes "committed c st s s' eff" "session_ok s" "tracker_ok (si_text_edits s')"
  shows "session_ok s'"
proof -
  from assms(1) obtain j' where j: "journal_append (JournalPermit (transaction_to_wire (commit_transaction c))) (si_journal s) = (Ok (), j')"
    "si_journal s' = j'" "commit_ok c" by (auto simp: committed_def)
  have "checked_next (w_base_revision (transaction_to_wire (commit_transaction c))) = Some (w_new_revision (transaction_to_wire (commit_transaction c)))"
    using j(3) by (simp add: commit_ok_def transaction_to_wire_def)
  with journal_append_Ok(1,2) [OF j(1)] assms(2)
  have "journal_ok j'" "latest_revision j' = new_revision (commit_transaction c)"
    by (simp_all add: session_ok_def transaction_to_wire_def)
  with assms j(2) show ?thesis by (auto simp: session_ok_def committed_def keeps_def)
qed

text \<open>The tail cannot fail once the journal has granted a permit.\<close>

lemma finish_commit_Ok:
  assumes fin: "finish_commit d live p x s1 = (r, s', eff)" and p: "journal_prepare (si_journal s) c = Ok p"
    and s1: "s1 = s\<lparr>si_store := st\<lparr>revision := new_revision (commit_transaction c)\<rparr>\<rparr>"
    and ok: "session_ok s" and c: "commit_ok c" "base_revision (commit_transaction c) = revision (si_store s)"
    and k: "keeps (si_store s) st"
  shows "r = Ok x \<and> committed c st s s' eff \<and> tracker_ok (si_text_edits s')"
proof -
  obtain j' where j: "journal_append p (si_journal s) = (Ok (), j')" using journal_append_total [OF p] by blast
  have pp: "p = JournalPermit (transaction_to_wire (commit_transaction c))" using p by (simp add: journal_prepare_Ok)
  obtain t' where t: "reclaim_missing_nodes (si_store s1) (si_text_edits s) = (Ok (), t')" "tracker_ok t'"
    using reclaim_missing_nodes_ok ok by (metis session_ok_def)
  show ?thesis
  proof (cases d)
    case True
    with fin j t pp c k show ?thesis by (auto simp: finish_commit_def s1 committed_def)
  next
    case False
    with fin j pp c k ok show ?thesis by (auto simp: finish_commit_def s1 committed_def session_ok_def)
  qed
qed

lemma committed_spec:
  assumes "committed c st s s' eff" "session_ok s"
  defines "w \<equiv> transaction_to_wire (commit_transaction c)"
  shows "\<exists>closed. eff = [Publish w, CloseTerminals closed] \<and>
       (\<forall>i \<in> set closed. \<not> contains_node (si_store s') i) \<and>
       w_base_revision w = revision (si_store s) \<and> w_new_revision w = revision (si_store s') \<and>
       unat (revision (si_store s')) = unat (revision (si_store s)) + 1 \<and>
       latest_revision (si_journal s') = revision (si_store s') \<and> last (entries (si_journal s')) = w"
proof -
  obtain j' where j: "journal_append (JournalPermit w) (si_journal s) = (Ok (), j')" "si_journal s' = j'" "commit_ok c"
    using assms(1) by (auto simp: committed_def w_def)
  have n: "checked_next (w_base_revision w) = Some (w_new_revision w)"
    using j(3) by (simp add: commit_ok_def transaction_to_wire_def w_def)
  from journal_append_Ok(2) [OF j(1) _ n] assms(2) have "latest_revision j' = w_new_revision w"
    by (simp add: session_ok_def)
  moreover have "last (entries j') = w"
    using j(1) by (auto simp: journal_append_def Let_def split: if_splits list.splits)
  ultimately show ?thesis
    using assms(1) j n by (auto simp: committed_def w_def transaction_to_wire_def checked_next_Some)
qed

text \<open>A message that decodes to a commit on the current revision that can be staged is committed.\<close>

lemma wire_commits:
  assumes ok: "session_ok s" and c: "commit_from_wire tx = Ok c" and sc: "prepare_commit c (si_store s) = Ok sc"
  shows "\<exists>s' eff. session_commit_transaction tx live s = (Ok (transaction_to_wire (commit_transaction c)), s', eff) \<and>
    stage operation_apply (limits (si_store s)) (operations (commit_transaction c)) (si_store s) = Ok (sc_staged sc) \<and>
    committed c (sc_staged sc) s s' eff \<and> session_ok s'"
proof -
  have sc': "base_revision (commit_transaction c) = revision (si_store s)"
    "stage operation_apply (limits (si_store s)) (operations (commit_transaction c)) (si_store s) = Ok (sc_staged sc)"
    "sc_base_revision sc = revision (si_store s)" "sc_new_revision sc = new_revision (commit_transaction c)"
    using sc by (simp_all add: prepare_commit_Ok)
  have k: "keeps (si_store s) (sc_staged sc)"
    using stage_keeps [OF sc'(2)] ok by (simp add: session_ok_def)
  have cok: "commit_ok c" using c by (auto simp: commit_from_wire_def result_simps commit_try_from_ok)
  have "latest_revision (si_journal s) = revision (si_store s)" using ok by (simp add: session_ok_def)
  then have p: "journal_prepare (si_journal s) c = Ok (JournalPermit (transaction_to_wire (commit_transaction c)))"
    using sc'(1) by (simp add: journal_prepare_Ok)
  obtain r s' eff where fin: "finish_commit (list_ex is_wire_delete (w_operations (transaction_to_wire (commit_transaction c)))) live
      (JournalPermit (transaction_to_wire (commit_transaction c))) (transaction_to_wire (commit_transaction c))
      (s\<lparr>si_store := (sc_staged sc)\<lparr>revision := new_revision (commit_transaction c)\<rparr>\<rparr>) = (r, s', eff)"
    by (metis prod_cases3)
  have "session_commit_transaction tx live s = (r, s', eff)"
    using fin c sc p sc' by (simp add: session_commit_transaction_def commit_prepared_def commit_staging_keeps [OF k])
  with finish_commit_Ok [OF fin p refl ok cok sc'(1) k] committed_ok ok sc'(2) show ?thesis by auto
qed

lemma session_commit_cases:
  assumes run: "session_commit_transaction tx live s = (r, s', eff)" and ok: "session_ok s"
  shows "(\<exists>f. r = Inl f) \<and> s' = s \<and> eff = [] \<or>
    (\<exists>c st. commit_from_wire tx = Ok c \<and> r = Ok (transaction_to_wire (commit_transaction c)) \<and>
       stage operation_apply (limits (si_store s)) (operations (commit_transaction c)) (si_store s) = Ok st \<and>
       committed c st s s' eff \<and> session_ok s')"
proof (cases "commit_from_wire tx")
  case (Inl f)
  then show ?thesis using run by (cases f) (auto simp: session_commit_transaction_def)
next
  case c: (Inr c)
  show ?thesis
  proof (cases "prepare_commit c (si_store s)")
    case (Inl f)
    then show ?thesis using run c by (cases f) (auto simp: session_commit_transaction_def)
  next
    case sc: (Inr sc)
    from wire_commits [OF ok c sc, of live] run c show ?thesis by auto
  qed
qed

text \<open>A closure that returns a value commits, unless the revisions are exhausted.\<close>

lemma closure_commits:
  assumes ok: "session_ok s" and n: "checked_next (revision (si_store s)) = Some n"
    and ui: "run_ui (f (revision (si_store s), n))
      (ui_new (si_store s) (max_transaction_operations (limits (si_store s)))) = (Inr x, ui)"
  defines "c \<equiv> AuthoritativeCommit (with_revisions (revision (si_store s)) n (ui_operations ui) 0)"
  shows "\<exists>s' eff. transaction_with_result f live s = (Ok (x, transaction_to_wire (commit_transaction c)), s', eff) \<and>
    committed c (ui_staged ui) s s' eff \<and> session_ok s'"
proof -
  have "store_ok (si_store s)" using ok by (simp add: session_ok_def)
  then have k: "keeps (si_store s) (ui_staged ui)"
    using run_ui_ok [OF ui ui_new_ok] by (simp add: ui_ok_def)
  have cn: "commit_new (revision (si_store s)) (ui_operations ui) = Ok c"
    using n by (simp add: commit_new_def transaction_new_def revision_next_def c_def checked_next_def expect_def with_revisions_def)
  have "latest_revision (si_journal s) = revision (si_store s)" using ok by (simp add: session_ok_def)
  then have p: "journal_prepare (si_journal s) c = Ok (JournalPermit (transaction_to_wire (commit_transaction c)))"
    by (simp add: journal_prepare_Ok c_def with_revisions_def)
  obtain r s' eff where fin: "finish_commit (list_ex is_delete_node (ui_operations ui)) live
      (JournalPermit (transaction_to_wire (commit_transaction c))) (x, transaction_to_wire (commit_transaction c))
      (s\<lparr>si_store := (ui_staged ui)\<lparr>revision := new_revision (commit_transaction c)\<rparr>\<rparr>) = (r, s', eff)"
    by (metis prod_cases3)
  have "transaction_with_result f live s = (r, s', eff)"
    using fin n ui cn p by (simp add: transaction_with_result_def commit_staging_keeps [OF k] Let_def)
  with finish_commit_Ok [OF fin p refl ok commit_new_ok [OF cn] _ k] committed_ok ok show ?thesis
    by (auto simp: c_def with_revisions_def)
qed

lemma transaction_with_result_cases:
  assumes run: "transaction_with_result f live s = (r, s', eff)" and ok: "session_ok s"
  shows "(\<exists>e. r = Error e) \<and> s' = s \<and> eff = [] \<or>
    (\<exists>x c ui. r = Ok (x, transaction_to_wire (commit_transaction c)) \<and>
       run_ui (f (revision (si_store s), revision (si_store s) + 1))
         (ui_new (si_store s) (max_transaction_operations (limits (si_store s)))) = (Ok x, ui) \<and>
       operations (commit_transaction c) = ui_operations ui \<and>
       committed c (ui_staged ui) s s' eff \<and> session_ok s')"
proof (cases "checked_next (revision (si_store s))")
  case None
  then show ?thesis using run by (auto simp: transaction_with_result_def)
next
  case (Some n)
  then have n: "n = revision (si_store s) + 1" by (simp add: checked_next_def word_nat)
  obtain r0 ui where ui: "run_ui (f (revision (si_store s), n))
      (ui_new (si_store s) (max_transaction_operations (limits (si_store s)))) = (r0, ui)"
    by (cases "run_ui (f (revision (si_store s), n)) (ui_new (si_store s) (max_transaction_operations (limits (si_store s))))")
  show ?thesis
  proof (cases r0)
    case (Inl e)
    have "store_ok (si_store s)" using ok by (simp add: session_ok_def)
    then show ?thesis
      using run Some ui run_ui_ok [OF ui [unfolded Inl] ui_new_ok] Inl
      by (cases e) (auto simp: transaction_with_result_def)
  next
    case (Inr x)
    let ?c = "AuthoritativeCommit (with_revisions (revision (si_store s)) n (ui_operations ui) 0)"
    from closure_commits [where f = f and live = live, OF ok Some ui [unfolded Inr]] obtain t e where
      "transaction_with_result f live s = (Ok (x, transaction_to_wire (commit_transaction ?c)), t, e)"
      "committed ?c (ui_staged ui) s t e" "session_ok t" by blast
    with run have "r = Ok (x, transaction_to_wire (commit_transaction ?c))"
      "committed ?c (ui_staged ui) s s' eff" "session_ok s'" by simp_all
    moreover have "operations (commit_transaction ?c) = ui_operations ui" by (simp add: with_revisions_def)
    ultimately show ?thesis using ui Inr n by blast
  qed
qed

section \<open>Histories\<close>

text \<open>
  What a replica does with the transactions it is sent, one delivered transaction after the
  other.
\<close>

fun replay_all :: "wire_transaction list \<Rightarrow> semantic_store \<Rightarrow> unit txn_result" where
  "replay_all [] s = (Ok (), s)"
| "replay_all (tx # txs) s = and_then_st (apply_delivered_transaction tx s) (\<lambda>_. replay_all txs)"

text \<open>
  The states a session reaches, with the store it had at each revision.  Commits come from
  messages or from closures (what a closure returns is of no concern to the session); a step that fails changes nothing and needs no rule.
\<close>

inductive session_history :: "session_inner \<Rightarrow> (u64 \<Rightarrow> semantic_store) \<Rightarrow> bool" where
  start: "session_with_config n m = Ok s \<Longrightarrow> session_history s (\<lambda>_. si_store s)"
| wire_commit: "session_history s snap \<Longrightarrow> session_commit_transaction tx live s = (Inr w, s', eff) \<Longrightarrow>
    session_history s' (snap(revision (si_store s') := si_store s'))"
| closure_commit: "session_history s snap \<Longrightarrow>
    transaction_with_result (f :: u64 \<times> u64 \<Rightarrow> unit ui_prog) live s = (Inr w, s', eff) \<Longrightarrow>
    (\<And>revs. disciplined (f revs)) \<Longrightarrow>
    session_history s' (snap(revision (si_store s') := si_store s'))"
| attached: "session_history s snap \<Longrightarrow> session_history (snd (attach s)) snap"
| detached: "session_history s snap \<Longrightarrow> session_history (detach_internal s) snap"
| terminated: "session_history s snap \<Longrightarrow> session_history (terminate s) snap"
| expired: "session_history s snap \<Longrightarrow> session_history (expire s) snap"

text \<open>Every retained revision can be brought up to date.\<close>

definition catches_up :: "session_inner \<Rightarrow> (u64 \<Rightarrow> semantic_store) \<Rightarrow> bool" where
  "catches_up s snap \<longleftrightarrow>
     session_ok s \<and> snap (latest_revision (si_journal s)) = si_store s \<and>
     (\<forall>r. can_replay_from (si_journal s) r \<longrightarrow>
        revision (snap r) = r \<and>
        (\<exists>txs. replay_from (si_journal s) r = Some txs \<and> replay_all txs (snap r) = (Ok (), si_store s)))"

lemma replay_all_append:
  "replay_all (xs @ ys) s = and_then_st (replay_all xs s) (\<lambda>_. replay_all ys)"
  by (induction xs s rule: replay_all.induct) (auto simp: and_then_st_def split: sum.splits prod.splits)

lemma replay_from_suffix:
  assumes "journal_ok j" "can_replay_from j r"
  obtains pre txs where "replay_from j r = Some txs" "entries j = pre @ txs"
    "unat (latest_revision j) = unat r + length txs"
proof -
  obtain txs where t: "replay_from j r = Some txs" "chain r txs (latest_revision j)"
    using replay_from_chain [OF assms] by blast
  moreover have "entries j = take (unat r - unat (earliest_revision j)) (entries j) @ txs"
    using t(1) replay_from_window [OF assms(1), of r] assms(2) by auto
  ultimately show thesis using chain_length [OF t(2)] that by blast
qed

lemma suffix_unique: "xs @ ys = us @ vs \<Longrightarrow> length ys = length vs \<Longrightarrow> ys = vs"
  by simp

lemma journal_window_grows:
  assumes "journal_append (JournalPermit tx) j = (Inr u, j')" "journal_ok j"
    and "checked_next (w_base_revision tx) = Some (w_new_revision tx)"
    and base: "w_base_revision tx = latest_revision j"
    and r: "can_replay_from j' r" "r \<noteq> latest_revision j'"
  shows "can_replay_from j r \<and> (\<exists>txs. replay_from j r = Some txs \<and> replay_from j' r = Some (txs @ [tx]))"
proof -
  note a = journal_append_Ok [OF assms(1-3)]
  obtain pre where pre: "entries j @ [tx] = pre @ entries j'" "length pre \<le> 1" using a(4) by blast
  have len: "length (entries j') + length pre = Suc (length (entries j))"
    using arg_cong [OF pre(1), of length] by simp
  have up: "unat (latest_revision j') = unat (latest_revision j) + 1"
    using assms(3) base by (simp add: a(2) checked_next_Some)
  have c: "unat (latest_revision j) = unat (earliest_revision j) + length (entries j)"
    "unat (latest_revision j') = unat (earliest_revision j') + length (entries j')"
    using assms(2) a(1) by (auto simp: journal_ok_def dest: chain_length)
  have lt: "unat (earliest_revision j') \<le> unat r" "unat r \<le> unat (latest_revision j)"
    using r up by (auto simp: can_replay_from_def word_le_nat_alt word_unat_eq_iff)
  have w: "can_replay_from j r"
    using lt c len up by (simp add: can_replay_from_def word_le_nat_alt)
  obtain p1 txs where t: "replay_from j r = Some txs" "entries j = p1 @ txs"
    "unat (latest_revision j) = unat r + length txs" using replay_from_suffix [OF assms(2) w] .
  obtain p2 txs' where t': "replay_from j' r = Some txs'" "entries j' = p2 @ txs'"
    "unat (latest_revision j') = unat r + length txs'" using replay_from_suffix [OF a(1) r(1)] .
  have "p1 @ (txs @ [tx]) = (pre @ p2) @ txs'" using pre(1) t(2) t'(2) by simp
  then have "txs @ [tx] = txs'" by (rule suffix_unique) (use t(3) t'(3) up in simp)
  with w t(1) t'(1) show ?thesis by blast
qed

lemma catches_up_step:
  assumes inv: "catches_up s snap" and com: "committed c st s s' eff" and ok': "session_ok s'"
    and del: "apply_delivered_transaction (transaction_to_wire (commit_transaction c)) (si_store s) = (Inr n, si_store s')"
  shows "catches_up s' (snap(revision (si_store s') := si_store s'))"
proof -
  let ?tx = "transaction_to_wire (commit_transaction c)"
  have ok: "session_ok s" using inv by (simp add: catches_up_def)
  obtain j' where j: "journal_append (JournalPermit ?tx) (si_journal s) = (Ok (), j')" "si_journal s' = j'"
    using com by (auto simp: committed_def)
  have tx: "checked_next (w_base_revision ?tx) = Some (w_new_revision ?tx)"
    "w_base_revision ?tx = latest_revision (si_journal s)"
    using com ok by (auto simp: committed_def commit_ok_def transaction_to_wire_def session_ok_def)
  have lat: "latest_revision j' = revision (si_store s')" using ok' j(2) by (simp add: session_ok_def)
  have jok: "journal_ok (si_journal s)" "journal_ok j'" using ok ok' j(2) by (auto simp: session_ok_def)
  have "revision ((snap(revision (si_store s') := si_store s')) r) = r \<and>
      (\<exists>txs. replay_from j' r = Some txs \<and>
         replay_all txs ((snap(revision (si_store s') := si_store s')) r) = (Ok (), si_store s'))"
    if r: "can_replay_from j' r" for r
  proof (cases "r = latest_revision j'")
    case True
    then have "replay_from j' r = Some []"
      using r by (auto simp: replay_from_def iter_from_def can_replay_from_def not_less)
    with True lat show ?thesis by simp
  next
    case False
    from journal_window_grows [OF j(1) jok(1) tx r False] obtain txs where t:
      "can_replay_from (si_journal s) r" "replay_from (si_journal s) r = Some txs"
      "replay_from j' r = Some (txs @ [?tx])" by blast
    with inv have "revision (snap r) = r" "replay_all txs (snap r) = (Ok (), si_store s)"
      by (auto simp: catches_up_def)
    with t(3) False lat del show ?thesis by (simp add: replay_all_append)
  qed
  with ok' j(2) lat show ?thesis by (simp add: catches_up_def)
qed

lemma lifecycle_frame:
  "si_store (snd (attach s)) = si_store s" "si_journal (snd (attach s)) = si_journal s" "si_text_edits (snd (attach s)) = si_text_edits s"
  "si_store (detach_internal s) = si_store s" "si_journal (detach_internal s) = si_journal s" "si_text_edits (detach_internal s) = si_text_edits s"
  "si_store (terminate s) = si_store s" "si_journal (terminate s) = si_journal s" "si_text_edits (terminate s) = si_text_edits s"
  "si_store (expire s) = si_store s" "si_journal (expire s) = si_journal s" "si_text_edits (expire s) = si_text_edits s"
  by (simp_all add: attach_def detach_internal_def terminate_def expire_def Let_def)

lemma commit_delivered:
  assumes "commit_ok c" "base_revision (commit_transaction c) = revision s"
    and "stage operation_apply (limits s) (operations (commit_transaction c)) s = Ok st" "keeps s st"
    and "\<forall>op \<in> set (operations (commit_transaction c)). wire_faithful op"
  shows "apply_delivered_transaction (transaction_to_wire (commit_transaction c)) s =
    (Ok (new_revision (commit_transaction c)), st\<lparr>revision := new_revision (commit_transaction c)\<rparr>)"
proof -
  have "validate_commit (commit_transaction c) = Ok ()" using assms(1) by (simp add: validate_commit_Ok commit_ok_def)
  from apply_delivered_round_trip [OF assms(5) this] assms(2-4) show ?thesis
    by (cases c) (simp add: apply_authoritative_def check_base_revision_def apply_staged_def commit_staging_keeps)
qed

text \<open>A replica that holds the store of before gets the store of after from the published message.\<close>

lemma wire_commit_delivered:
  assumes run: "session_commit_transaction tx live s = (Inr w, s', eff)" and ok: "session_ok s"
  obtains c st where "committed c st s s' eff" "session_ok s'" "w = transaction_to_wire (commit_transaction c)"
    "apply_delivered_transaction w (si_store s) = (Ok (new_revision (commit_transaction c)), si_store s')"
proof -
  from session_commit_cases [OF run ok] obtain c st where c: "commit_from_wire tx = Ok c"
    "w = transaction_to_wire (commit_transaction c)"
    "stage operation_apply (limits (si_store s)) (operations (commit_transaction c)) (si_store s) = Ok st"
    "committed c st s s' eff" "session_ok s'" by blast
  have "\<forall>op \<in> set (operations (commit_transaction c)). wire_faithful op"
    using c(1) operation_from_wire_faithful
    by (auto simp: commit_from_wire_def transaction_from_wire_def result_simps commit_try_from_def dest!: traverse_Ok_set)
  with c(3,4) have "apply_delivered_transaction (transaction_to_wire (commit_transaction c)) (si_store s) =
      (Ok (new_revision (commit_transaction c)), si_store s')"
    using commit_delivered by (auto simp: committed_def)
  with c that show thesis by blast
qed

lemma closure_commit_delivered:
  assumes run: "transaction_with_result f live s = (Inr (x, w), s', eff)" and ok: "session_ok s"
    and dis: "\<And>revs. disciplined (f revs)"
  obtains c st where "committed c st s s' eff" "session_ok s'" "w = transaction_to_wire (commit_transaction c)"
    "apply_delivered_transaction w (si_store s) = (Ok (new_revision (commit_transaction c)), si_store s')"
proof -
  from transaction_with_result_cases [OF run ok] obtain c ui where c:
    "run_ui (f (revision (si_store s), revision (si_store s) + 1))
       (ui_new (si_store s) (max_transaction_operations (limits (si_store s)))) = (Ok x, ui)"
    "w = transaction_to_wire (commit_transaction c)" "operations (commit_transaction c) = ui_operations ui"
    "committed c (ui_staged ui) s s' eff" "session_ok s'" by blast
  have uok: "ui_ok (si_store s) ui" "ui_max_ops ui = max_transaction_operations (limits (si_store s))"
    using run_ui_ok [OF c(1) ui_new_ok] ok by (auto simp: session_ok_def ui_new_def)
  from run_ui_clean [OF c(1) dis ui_new_clean]
  have clean: "ui_clean (si_store s) ui" "\<forall>op \<in> set (ui_operations ui). wire_faithful op"
    by (auto simp: ui_new_def)
  then have "stage operation_apply (limits (si_store s)) (operations (commit_transaction c)) (si_store s) = Ok (ui_staged ui)"
    using c(3) uok by (simp add: stage_def ui_clean_def ui_ok_def)
  with c(3,4) clean(2) have "apply_delivered_transaction (transaction_to_wire (commit_transaction c)) (si_store s) =
      (Ok (new_revision (commit_transaction c)), si_store s')"
    using commit_delivered by (auto simp: committed_def)
  with c that show thesis by blast
qed

lemma session_history_catches_up: "session_history s snap \<Longrightarrow> catches_up s snap"
proof (induction rule: session_history.induct)
  case (start n m s)
  then have "si_store s = store_new" "si_journal s = journal_new n"
    by (auto simp: session_with_config_def split: if_splits)
  with session_with_config_ok [OF start] show ?case
    by (auto simp: catches_up_def can_replay_from_def journal_new_def replay_from_def iter_from_def
        store_new_def with_limits_def with_limits_and_revision_def)
next
  case (wire_commit s snap tx live w s' eff)
  then have ok: "session_ok s" by (simp add: catches_up_def)
  obtain c st where "committed c st s s' eff" "session_ok s'" "w = transaction_to_wire (commit_transaction c)"
    "apply_delivered_transaction w (si_store s) = (Ok (new_revision (commit_transaction c)), si_store s')"
    by (rule wire_commit_delivered [OF wire_commit.hyps(2) ok]) blast
  with catches_up_step [OF wire_commit.IH] show ?case by blast
next
  case (closure_commit s snap f live w s' eff)
  then have ok: "session_ok s" by (simp add: catches_up_def)
  obtain x v where v: "w = (x, v)" by (cases w)
  obtain c st where "committed c st s s' eff" "session_ok s'" "v = transaction_to_wire (commit_transaction c)"
    "apply_delivered_transaction v (si_store s) = (Ok (new_revision (commit_transaction c)), si_store s')"
    by (rule closure_commit_delivered [OF closure_commit.hyps(2) [unfolded v] ok closure_commit.hyps(3)]) blast
  with catches_up_step [OF closure_commit.IH] show ?case by blast
qed (auto simp: catches_up_def session_ok_def lifecycle_frame)

text \<open>One commit of a session, of either kind, with the transaction it publishes.\<close>

inductive session_commits :: "session_inner \<Rightarrow> wire_transaction \<Rightarrow> session_inner \<Rightarrow> bool" where
  by_message: "session_commit_transaction tx live s = (Inr w, s', eff) \<Longrightarrow> session_commits s w s'"
| by_closure: "transaction_with_result (f :: u64 \<times> u64 \<Rightarrow> unit ui_prog) live s = (Inr (x, w), s', eff) \<Longrightarrow>
    (\<And>revs. disciplined (f revs)) \<Longrightarrow> session_commits s w s'"

lemma session_commits_delivered:
  assumes "session_commits s w s'" "session_ok s"
  obtains r where "session_ok s'" "apply_delivered_transaction w (si_store s) = (Ok r, si_store s')"
    "w_base_revision w < w_new_revision w" "limits (si_store s') = limits (si_store s)"
proof -
  from assms obtain c st eff where c: "committed c st s s' eff" "session_ok s'" "w = transaction_to_wire (commit_transaction c)"
    "apply_delivered_transaction w (si_store s) = (Ok (new_revision (commit_transaction c)), si_store s')"
  proof (cases rule: session_commits.cases)
    case (by_message tx live eff)
    then show thesis by (rule wire_commit_delivered [OF _ assms(2)]) (rule that)
  next
    case (by_closure f live x eff)
    show thesis by (rule closure_commit_delivered [OF by_closure(1) assms(2) by_closure(2)]) (rule that)
  qed
  moreover from committed_spec [OF c(1) assms(2)]
  have "unat (revision (si_store s')) = unat (revision (si_store s)) + 1" "w_base_revision w = revision (si_store s)"
    "w_new_revision w = revision (si_store s')" unfolding c(3) by blast+
  then have "w_base_revision w < w_new_revision w" by (simp add: word_less_nat_alt)
  moreover have "limits (si_store s') = limits (si_store s)" using c(1) by (auto simp: committed_def keeps_def)
  ultimately show thesis using that by blast
qed


section \<open>Properties\<close>

text \<open>
  Commits of a wire transaction keep store, journal and editor table in lockstep.  Either the
  call fails, with the session exactly as it was and nothing published; or the commit named in
  the message is applied whole, journal and store stand at its new revision, one above the old,
  exactly this transaction is published, once, and only terminals of dead nodes are closed.
\<close>

theorem wire_commit_lockstep:
  assumes "session_commit_transaction tx live s = (r, s', eff)" "session_ok s"
  shows "(\<exists>f. r = Inl f) \<and> s' = s \<and> eff = [] \<or>
    session_ok s' \<and>
    (\<exists>w closed st. r = Ok w \<and> eff = [Publish w, CloseTerminals closed] \<and>
       (\<forall>i \<in> set closed. \<not> contains_node (si_store s') i) \<and>
       w_base_revision w = revision (si_store s) \<and> w_new_revision w = revision (si_store s') \<and>
       unat (revision (si_store s')) = unat (revision (si_store s)) + 1 \<and>
       latest_revision (si_journal s') = revision (si_store s') \<and> last (entries (si_journal s')) = w)"
  using session_commit_cases [OF assms]
proof
  assume "\<exists>c st. commit_from_wire tx = Ok c \<and> r = Ok (transaction_to_wire (commit_transaction c)) \<and>
       stage operation_apply (limits (si_store s)) (operations (commit_transaction c)) (si_store s) = Ok st \<and>
       committed c st s s' eff \<and> session_ok s'"
  then show ?thesis using committed_spec [OF _ assms(2)] by blast
qed blast

text \<open>
  The same holds for a transaction opened by a closure, with the operations the closure
  recorded; and since a panic inside the closure is caught, the call itself never panics.
\<close>

theorem closure_commit_lockstep:
  assumes "transaction_with_result f live s = (r, s', eff)" "session_ok s"
  shows "(\<exists>e. r = Error e) \<and> s' = s \<and> eff = [] \<or>
    session_ok s' \<and>
    (\<exists>x w closed. r = Ok (x, w) \<and> eff = [Publish w, CloseTerminals closed] \<and>
       (\<forall>i \<in> set closed. \<not> contains_node (si_store s') i) \<and>
       w_base_revision w = revision (si_store s) \<and> w_new_revision w = revision (si_store s') \<and>
       unat (revision (si_store s')) = unat (revision (si_store s)) + 1 \<and>
       latest_revision (si_journal s') = revision (si_store s') \<and> last (entries (si_journal s')) = w)"
  using transaction_with_result_cases [OF assms]
proof
  assume "\<exists>x c ui. r = Ok (x, transaction_to_wire (commit_transaction c)) \<and>
       run_ui (f (revision (si_store s), revision (si_store s) + 1))
         (ui_new (si_store s) (max_transaction_operations (limits (si_store s)))) = (Ok x, ui) \<and>
       operations (commit_transaction c) = ui_operations ui \<and>
       committed c (ui_staged ui) s s' eff \<and> session_ok s'"
  then show ?thesis using committed_spec [OF _ assms(2)] by blast
qed blast


text \<open>A session and closures, for the examples.\<close>

definition session_a :: session_inner where
  "session_a = \<lparr>si_state = Detached, si_attached_connections = 0, si_store = store_new,
     si_journal = journal_new 4, si_text_edits = tracker_new MAX_TEXT_EDIT_STREAMS\<rparr>"

definition create_root :: "u64 \<times> u64 \<Rightarrow> unit ui_prog" where
  "create_root revs = Invoke (UiCreate 1 (standard_type 1) None None [])
     (\<lambda>(r, _). case r of Inl (Err e) \<Rightarrow> Raise e | _ \<Rightarrow> Return ())"

definition swallow_error :: "u64 \<times> u64 \<Rightarrow> unit ui_prog" where
  "swallow_error revs = Invoke (UiDelete 9) (\<lambda>_. Return ())"

lemma session_a_config: "session_with_config 4 1 = Ok session_a"
  by (simp add: session_with_config_def session_a_def)

lemmas session_a_ok = session_with_config_ok [OF session_a_config]

lemma create_root_disciplined: "disciplined (create_root revs)"
  unfolding create_root_def by (intro disciplined.intros) (auto intro: disciplined.intros)

lemma session_a_store: "si_store session_a = store_new" "revision store_new = 0"
  "max_transaction_operations (limits store_new) = 10000" "checked_next 0 = Some 1"
  by (simp_all add: session_a_def store_new_def with_limits_def with_limits_and_revision_def limits_eval
      checked_next_def checked_add_def)

lemmas ui_eval = ui_new_def ui_methods recorded_def record_op_def reply_with_def create_eval delete_node_def

lemma create_root_runs:
  "\<exists>ui. run_ui (create_root (0, 1)) (ui_new store_new 10000) = (Ok (), ui) \<and>
     ui_operations ui = [CreateNode 1 (standard_type 1) None None []] \<and> contains_node (ui_staged ui) 1"
  by (simp add: create_root_def ui_eval contains_node_def)

lemma swallow_error_runs:
  "\<exists>ui. run_ui (swallow_error (0, 1)) (ui_new store_new 10000) = (Ok (), ui) \<and> ui_operations ui = [DeleteNode 9]"
  by (simp add: swallow_error_def ui_eval)

lemma create_root_commits:
  "\<exists>s' eff. transaction_with_result create_root [] session_a =
       (Ok ((), transaction_to_wire (with_revisions 0 1 [CreateNode 1 (standard_type 1) None None []] 0)), s', eff) \<and>
     revision (si_store s') = 1 \<and> contains_node (si_store s') 1"
proof -
  obtain ui where ui: "run_ui (create_root (0, 1)) (ui_new store_new 10000) = (Ok (), ui)"
    "ui_operations ui = [CreateNode 1 (standard_type 1) None None []]" "contains_node (ui_staged ui) 1"
    using create_root_runs by blast
  then have "contains_node ((ui_staged ui)\<lparr>revision := 1\<rparr>) 1" by (simp add: contains_node_def)
  with closure_commits [OF session_a_ok, of 1 create_root "()" ui "[]"] ui(1) show ?thesis
    by (auto simp: session_a_store ui(2) committed_def with_revisions_def)
qed

lemma create_root_journal:
  assumes "transaction_with_result create_root [] session_a = (Ok ((), w), s', eff)"
  shows "entries (si_journal s') = [w]" "can_replay_from (si_journal s') 0" "iter_from (si_journal s') 0 = Some [w]"
proof -
  obtain c st where c: "committed c st session_a s' eff" "w = transaction_to_wire (commit_transaction c)"
    by (rule closure_commit_delivered [OF assms session_a_ok create_root_disciplined]) blast
  then obtain j' where j: "journal_append (JournalPermit w) (journal_new 4) = (Ok (), j')" "si_journal s' = j'"
    by (auto simp: committed_def session_a_def)
  have fwd: "w_base_revision w = 0" "w_new_revision w = 1"
    using committed_spec [OF c(1) session_a_ok] c(2) create_root_commits assms by (auto simp: session_a_store)
  show "entries (si_journal s') = [w]" "can_replay_from (si_journal s') 0" "iter_from (si_journal s') 0 = Some [w]"
    using j fwd by (auto simp: journal_append_def journal_new_def can_replay_from_def iter_from_def Let_def split: if_splits)
qed

theorem closure_commit_lockstep_witness:
  "\<exists>x w s' eff. transaction_with_result create_root [] session_a = (Ok (x, w), s', eff) \<and> session_ok s' \<and>
     last (entries (si_journal s')) = w"
proof -
  obtain w s' eff where run: "transaction_with_result create_root [] session_a = (Ok ((), w), s', eff)"
    using create_root_commits by blast
  from closure_commit_lockstep [OF run session_a_ok] run show ?thesis by auto
qed

theorem wire_commit_lockstep_witness:
  "\<exists>w s' eff. session_commit_transaction
       (transaction_to_wire (with_revisions 0 1 [CreateModel 7 (standard_type 9) 3] 0)) [] session_a = (Ok w, s', eff) \<and>
     session_ok s' \<and> last (entries (si_journal s')) = w"
proof -
  let ?txn = "with_revisions 0 1 [CreateModel 7 (standard_type 9) 3] 0"
  have c: "commit_from_wire (transaction_to_wire ?txn) = Ok (AuthoritativeCommit ?txn)"
    by (simp add: commit_from_wire_def transaction_from_wire_def transaction_to_wire_def with_revisions_def
        operation_from_wire_def commit_try_from_def validate_commit_def session_a_store)
  have "\<exists>sc. prepare_commit (AuthoritativeCommit ?txn) (si_store session_a) = Ok sc"
    by (simp add: prepare_commit_def session_a_def store_eval)
  then obtain w s' eff where run: "session_commit_transaction (transaction_to_wire ?txn) [] session_a = (Ok w, s', eff)"
    using wire_commits [OF session_a_ok c] by blast
  from wire_commit_lockstep [OF run session_a_ok] run show ?thesis by auto
qed

text \<open>
  A closure that ignores the error of a call still commits, and the transaction it publishes and
  journals is refused by a replica that stands at its base revision: the failed operation is part
  of it.
\<close>

theorem swallowed_error_poisons_journal:
  "\<exists>w s' eff. transaction_with_result swallow_error [] session_a = (Ok ((), w), s', eff) \<and>
     replay_all [w] (si_store session_a) = (Error (OpFailed 0 (NodeNotFound 9)), si_store session_a)"
proof -
  obtain ui where ui: "run_ui (swallow_error (0, 1)) (ui_new store_new 10000) = (Ok (), ui)"
    "ui_operations ui = [DeleteNode 9]" using swallow_error_runs by blast
  let ?w = "transaction_to_wire (with_revisions 0 1 [DeleteNode 9] 0)"
  have "apply_delivered_transaction ?w store_new = apply_authoritative (AuthoritativeCommit (with_revisions 0 1 [DeleteNode 9] 0)) store_new"
    by (rule apply_delivered_round_trip) (simp_all add: with_revisions_def validate_commit_Ok session_a_store)
  also have "\<dots> = (Error (OpFailed 0 (NodeNotFound 9)), store_new)"
    by (simp add: store_eval delete_node_def discard_def)
  finally show ?thesis
    using closure_commits [OF session_a_ok, of 1 swallow_error "()" ui "[]"] ui
    by (auto simp: session_a_store)
qed

text \<open>
  C3: A client that reconnects inside the retained window is brought exactly up to date.  In
  every state a session reaches by its lifecycle, by wire commits and by closures that ask only for operations
  the wire can carry (no child of node 0, no index the wire reserves) and leave at their first error,
  and for every revision the journal can replay from, applying the replayed transactions one
  after the other to the store of that revision succeeds and ends in the current store.
\<close>

theorem replay_catches_up:
  assumes "session_history s snap" "can_replay_from (si_journal s) r"
  shows "revision (snap r) = r \<and>
    (\<exists>txs. collect_replayed_transactions r s = Ok txs \<and> replay_all txs (snap r) = (Ok (), si_store s))"
  using session_history_catches_up [OF assms(1)] assms(2)
  by (auto simp: catches_up_def collect_replayed_transactions_def replay_from_def)

theorem replay_catches_up_witness:
  "\<exists>s' w. collect_replayed_transactions 0 s' = Ok [w] \<and> contains_node (si_store s') 1 \<and>
     replay_all [w] store_new = (Ok (), si_store s')"
proof -
  obtain w s' eff where run: "transaction_with_result create_root [] session_a = (Ok ((), w), s', eff)"
    "revision (si_store s') = 1" "contains_node (si_store s') 1" using create_root_commits by blast
  from session_history.closure_commit [OF session_history.start [OF session_a_config] run(1) create_root_disciplined]
  have h: "session_history s' ((\<lambda>_. si_store session_a)(1 := si_store s'))" by (simp add: run(2))
  have "collect_replayed_transactions 0 s' = Ok [w]" by (simp add: collect_replayed_transactions_def create_root_journal(3) [OF run(1)])
  moreover from this replay_catches_up [OF h create_root_journal(2) [OF run(1)]]
  have "replay_all [w] store_new = (Ok (), si_store s')" by (simp add: session_a_store del: replay_all.simps)
  ultimately show ?thesis using run(3) by blast
qed

definition lifecycle_ok :: "session_inner \<Rightarrow> bool" where
  "lifecycle_ok s \<longleftrightarrow> is_terminal (si_state s) \<or> (si_state s = Attached \<longleftrightarrow> 0 < si_attached_connections s)"

text \<open>
  The lifecycle.  A session that is neither terminating nor expired is attached exactly while
  it has connections, through every attach and detach; a terminating or expired session refuses
  every attachment and never leaves these states; no lifecycle step touches store or journal.
\<close>

theorem lifecycle_invariant:
  assumes "lifecycle_ok s"
  shows "lifecycle_ok (snd (attach s)) \<and> lifecycle_ok (detach_internal s) \<and>
    lifecycle_ok (terminate s) \<and> lifecycle_ok (expire s) \<and>
    fst (attach s) = (\<not> is_terminal (si_state s)) \<and>
    (is_terminal (si_state s) \<longrightarrow> is_terminal (si_state (snd (attach s))) \<and>
       is_terminal (si_state (detach_internal s)) \<and> is_terminal (si_state (terminate s)) \<and>
       is_terminal (si_state (expire s))) \<and>
    (\<forall>t \<in> {snd (attach s), detach_internal s, terminate s, expire s}.
       si_store t = si_store s \<and> si_journal t = si_journal s)"
  using assms
  by (cases "si_state s")
    (auto simp: lifecycle_ok_def attach_def detach_internal_def terminate_def expire_def is_terminal_def Let_def)

theorem lifecycle_invariant_witness: "lifecycle_ok (snd (attach session_a)) \<and> fst (attach session_a)"
  using lifecycle_invariant [of session_a] by (simp add: lifecycle_ok_def session_a_def is_terminal_def)

end
