(* ===== verification/Coalesce.thy ===== *)
theory Coalesce
  imports Ui_Transaction
begin

text \<open>
  Coalescing of scalar transactions for slow clients:
  \<^verbatim>\<open>sessiond/src/outbound/coalesce.rs\<close>.  The size of the encoded frame is computed by the
  protobuf library; it is the argument \<open>framed_len\<close>, about which nothing is assumed.
\<close>

section \<open>The merge\<close>

type_synonym write_key = "node_id \<times> property_ref"

fun write_key_of :: "operation \<Rightarrow> write_key option" where
  "write_key_of (SetProperty i p _) = Some (i, p)"
| "write_key_of _ = None"

definition key_positions :: "operation list \<Rightarrow> (write_key, nat) fmap" where
  "key_positions ops =
     fold (\<lambda>(idx, op) m. case write_key_of op of None \<Rightarrow> m | Some k \<Rightarrow> fmupd k idx m)
       (zip [0..<length ops] ops) fmempty"

definition new_keys_count :: "(write_key, nat) fmap \<Rightarrow> operation list \<Rightarrow> usize" where
  "new_keys_count key_map ops =
     length (filter (\<lambda>op. case write_key_of op of None \<Rightarrow> False | Some k \<Rightarrow> fmlookup key_map k = None) ops)"

fun merge_loop :: "operation list \<Rightarrow> (write_key, nat) fmap \<Rightarrow> operation list \<Rightarrow> operation list" where
  "merge_loop [] key_map merged = merged"
| "merge_loop (SetProperty i p v # rest) key_map merged =
     (case fmlookup key_map (i, p) of
        Some idx \<Rightarrow> merge_loop rest key_map (merged[idx := SetProperty i p v])
      | None \<Rightarrow> merge_loop rest (fmupd (i, p) (length merged) key_map) (merged @ [SetProperty i p v]))"
| "merge_loop (op # rest) key_map merged = merge_loop rest key_map merged"

definition merged_txn :: "transaction \<Rightarrow> transaction \<Rightarrow> transaction" where
  "merged_txn tail incoming =
     \<lparr>base_revision = base_revision tail, new_revision = new_revision incoming,
      operations = merge_loop (operations incoming) (key_positions (operations tail)) (operations tail),
      priority = priority tail\<rparr>"

definition try_absorb ::
  "(wire_transaction \<Rightarrow> usize) \<Rightarrow> usize \<Rightarrow> usize \<Rightarrow> transaction \<Rightarrow> transaction \<Rightarrow>
   (txn_error, bool) result \<times> transaction" where
  "try_absorb framed_len max_ops max_frame_size tail incoming =
     (if priority tail \<noteq> priority incoming then (Ok False, tail)
      else if new_revision tail \<noteq> base_revision incoming then (Ok False, tail)
      else if \<not> is_coalesceable tail \<or> \<not> is_coalesceable incoming then (Ok False, tail)
      else if length (operations tail) + new_keys_count (key_positions (operations tail)) (operations incoming) > max_ops
      then (Ok False, tail)
      else let merged = merged_txn tail incoming
           in if framed_len (transaction_to_wire merged) > max_frame_size then (Ok False, tail)
              else if validate_delta merged \<noteq> Ok () then (Inl Panic, tail)
              else (Ok True, tail\<lparr>operations := operations merged, new_revision := new_revision merged\<rparr>))"

section \<open>Sequences of property writes\<close>

text \<open>The value a sequence of writes leaves for a key.\<close>

fun last_write :: "operation list \<Rightarrow> write_key \<Rightarrow> value_t option" where
  "last_write [] k = None"
| "last_write (SetProperty i p v # ops) k =
     (case last_write ops k of Some w \<Rightarrow> Some w | None \<Rightarrow> if k = (i, p) then Some v else None)"
| "last_write (op # ops) k = last_write ops k"

definition scalar_write :: "operation \<Rightarrow> bool" where
  "scalar_write op \<longleftrightarrow> (\<exists>i p v. op = SetProperty i p v \<and> is_scalar v)"

lemma is_coalesceable_iff:
  "is_coalesceable txn \<longleftrightarrow> operations txn \<noteq> [] \<and> (\<forall>op \<in> set (operations txn). scalar_write op)"
proof -
  have "(case op of SetProperty _ _ v \<Rightarrow> is_scalar v | _ \<Rightarrow> False) = scalar_write op" for op
    by (cases op) (auto simp: scalar_write_def)
  then show ?thesis by (simp add: is_coalesceable_def list_all_iff)
qed

lemma last_write_append:
  "last_write (xs @ ys) k = (case last_write ys k of Some w \<Rightarrow> Some w | None \<Rightarrow> last_write xs k)"
  by (induction xs k rule: last_write.induct) (auto split: option.splits)

lemma last_write_keys: "last_write ops k \<noteq> None \<longleftrightarrow> (\<exists>op \<in> set ops. write_key_of op = Some k)"
  by (induction ops k rule: last_write.induct) (auto split: option.splits)

text \<open>
  The position map points to the last write of each key.
\<close>

definition positions_ok :: "(write_key, nat) fmap \<Rightarrow> write_key option list \<Rightarrow> bool" where
  "positions_ok m ks \<longleftrightarrow>
     (\<forall>k idx. fmlookup m k = Some idx \<longrightarrow>
        idx < length ks \<and> ks ! idx = Some k \<and> (\<forall>j. idx < j \<longrightarrow> j < length ks \<longrightarrow> ks ! j \<noteq> Some k)) \<and>
     (\<forall>k. Some k \<in> set ks \<longrightarrow> fmlookup m k \<noteq> None)"

lemma positions_ok_snoc:
  assumes "positions_ok m ks"
  shows "positions_ok (case x of None \<Rightarrow> m | Some k \<Rightarrow> fmupd k (length ks) m) (ks @ [x])"
  using assms by (auto simp: positions_ok_def nth_append less_Suc_eq split: option.splits if_splits)

lemma key_positions_snoc:
  "key_positions (ops @ [op]) =
     (case write_key_of op of None \<Rightarrow> key_positions ops | Some k \<Rightarrow> fmupd k (length ops) (key_positions ops))"
  by (simp add: key_positions_def split: option.split)

lemma key_positions_ok: "positions_ok (key_positions ops) (map write_key_of ops)"
proof (induction ops rule: rev_induct)
  case Nil
  then show ?case by (simp add: positions_ok_def key_positions_def)
next
  case (snoc op ops)
  from positions_ok_snoc [OF this, of "write_key_of op"] show ?case
    by (auto simp: key_positions_snoc split: option.splits)
qed

lemma last_write_update:
  assumes "idx < length ops" "write_key_of (ops ! idx) = Some (i, p)"
    and "\<forall>j. idx < j \<longrightarrow> j < length ops \<longrightarrow> write_key_of (ops ! j) \<noteq> Some (i, p)"
  shows "last_write (ops[idx := SetProperty i p v]) k = (if k = (i, p) then Some v else last_write ops k)"
proof -
  let ?post = "drop (Suc idx) ops"
  obtain w where w: "ops ! idx = SetProperty i p w" using assms(2) by (cases "ops ! idx") auto
  have none: "last_write ?post (i, p) = None"
  proof (rule ccontr)
    assume "last_write ?post (i, p) \<noteq> None"
    then obtain op where "op \<in> set ?post" "write_key_of op = Some (i, p)" using last_write_keys by blast
    then obtain j where "j < length ?post" "write_key_of (?post ! j) = Some (i, p)"
      by (auto simp: in_set_conv_nth)
    with assms(3) show False by (auto dest: spec [of _ "Suc idx + j"])
  qed
  have eq: "ops = take idx ops @ SetProperty i p w # ?post"
    using id_take_nth_drop [OF assms(1)] w by simp
  have "last_write ops k = (case last_write ?post k of Some x \<Rightarrow> Some x
      | None \<Rightarrow> if k = (i, p) then Some w else last_write (take idx ops) k)"
    by (subst eq) (simp add: last_write_append split: option.split)
  moreover have "last_write (ops[idx := SetProperty i p v]) k = (case last_write ?post k of Some x \<Rightarrow> Some x
      | None \<Rightarrow> if k = (i, p) then Some v else last_write (take idx ops) k)"
    using assms(1) by (simp add: upd_conv_take_nth_drop last_write_append split: option.split)
  ultimately show ?thesis using none by (auto split: option.split)
qed

lemma merge_loop_last:
  assumes "positions_ok m (map write_key_of merged)" "\<forall>op \<in> set ops. scalar_write op"
  shows "last_write (merge_loop ops m merged) = last_write (merged @ ops)"
  using assms
proof (induction ops m merged rule: merge_loop.induct)
  case (2 i p v rest m merged)
  show ?case
  proof (cases "fmlookup m (i, p)")
    case None
    have "positions_ok (fmupd (i, p) (length merged) m) (map write_key_of (merged @ [SetProperty i p v]))"
      using positions_ok_snoc [OF "2.prems"(1), of "Some (i, p)"] by simp
    with 2 None show ?thesis by simp
  next
    case (Some idx)
    with "2.prems"(1) have idx: "idx < length merged" "write_key_of (merged ! idx) = Some (i, p)"
      "\<forall>j. idx < j \<longrightarrow> j < length merged \<longrightarrow> write_key_of (merged ! j) \<noteq> Some (i, p)"
      unfolding positions_ok_def by (metis length_map nth_map)+
    then have keys: "map write_key_of (merged[idx := SetProperty i p v]) = map write_key_of merged"
      by (simp add: map_update list_update_same_conv)
    from "2.IH"(2) [OF Some] "2.prems" keys
    have "last_write (merge_loop rest m (merged[idx := SetProperty i p v])) =
        last_write (merged[idx := SetProperty i p v] @ rest)" by simp
    with Some show ?thesis
      by (auto simp: last_write_append last_write_update [OF idx] split: option.splits)
  qed
qed (auto simp: scalar_write_def)

lemma merge_loop_writes:
  "\<forall>op \<in> set ops. scalar_write op \<Longrightarrow> \<forall>op \<in> set merged. scalar_write op \<Longrightarrow>
   \<forall>op \<in> set (merge_loop ops m merged). scalar_write op \<and> op \<in> set (merged @ ops)"
proof (induction ops m merged rule: merge_loop.induct)
  case (2 i p v rest m merged)
  show ?case
  proof (cases "fmlookup m (i, p)")
    case None
    with 2 show ?thesis by auto
  next
    case (Some idx)
    have "\<forall>op \<in> set (merged[idx := SetProperty i p v]). scalar_write op \<and> op \<in> set (merged @ [SetProperty i p v])"
      using "2.prems" set_update_subset_insert [of merged idx "SetProperty i p v"] by auto
    with 2 Some show ?thesis by fastforce
  qed
qed (auto simp: scalar_write_def)

lemma merge_loop_nonempty: "merged \<noteq> [] \<Longrightarrow> merge_loop ops m merged \<noteq> []"
  by (induction ops m merged rule: merge_loop.induct) (auto split: option.split)

lemma merge_loop_length: "length (merge_loop ops m merged) \<le> length merged + new_keys_count m ops"
proof (induction ops m merged rule: merge_loop.induct)
  case (2 i p v rest m merged)
  have "new_keys_count (fmupd (i, p) n m) rest \<le> new_keys_count m rest" for n
    unfolding new_keys_count_def by (induction rest) (auto split: option.split)
  then have "new_keys_count (fmupd (i, p) (length merged) m) rest \<le> new_keys_count m rest" .
  with 2 show ?case by (cases "fmlookup m (i, p)") (fastforce simp: new_keys_count_def)+
qed (auto simp: new_keys_count_def)

section \<open>The effect of writes on a store\<close>

definition write_ok :: "semantic_store \<Rightarrow> operation \<Rightarrow> bool" where
  "write_ok s op = (case op of
     SetProperty i p v \<Rightarrow> property_ok s p v \<and> contains_node s i
   | _ \<Rightarrow> False)"

text \<open>The store with the last writes in place.\<close>

definition overlay :: "(write_key \<Rightarrow> value_t option) \<Rightarrow> semantic_store \<Rightarrow> semantic_store \<Rightarrow> bool" where
  "overlay w s t \<longleftrightarrow>
     (\<exists>ns. t = s\<lparr>nodes := ns\<rparr> \<and>
       (\<forall>i. map_option (\<lambda>n. n\<lparr>properties := fmempty\<rparr>) (fmlookup ns i) =
            map_option (\<lambda>n. n\<lparr>properties := fmempty\<rparr>) (fmlookup (nodes s) i)) \<and>
       (\<forall>i n m p. fmlookup ns i = Some n \<longrightarrow> fmlookup (nodes s) i = Some m \<longrightarrow>
          fmlookup (properties n) p = (case w (i, p) of Some v \<Rightarrow> Some v | None \<Rightarrow> fmlookup (properties m) p)))"

lemma overlay_unique:
  assumes "overlay w s t" "overlay w s u"
  shows "t = u"
proof -
  obtain ns ms where ns: "t = s\<lparr>nodes := ns\<rparr>" "u = s\<lparr>nodes := ms\<rparr>"
    and shape: "\<And>i. map_option (\<lambda>n. n\<lparr>properties := fmempty\<rparr>) (fmlookup ns i) =
      map_option (\<lambda>n. n\<lparr>properties := fmempty\<rparr>) (fmlookup ms i)"
    and src: "\<And>i. map_option (\<lambda>n. n\<lparr>properties := fmempty\<rparr>) (fmlookup ns i) =
      map_option (\<lambda>n. n\<lparr>properties := fmempty\<rparr>) (fmlookup (nodes s) i)"
    and p1: "\<And>i n m p. fmlookup ns i = Some n \<Longrightarrow> fmlookup (nodes s) i = Some m \<Longrightarrow>
      fmlookup (properties n) p = (case w (i, p) of Some v \<Rightarrow> Some v | None \<Rightarrow> fmlookup (properties m) p)"
    and p2: "\<And>i n m p. fmlookup ms i = Some n \<Longrightarrow> fmlookup (nodes s) i = Some m \<Longrightarrow>
      fmlookup (properties n) p = (case w (i, p) of Some v \<Rightarrow> Some v | None \<Rightarrow> fmlookup (properties m) p)"
    using assms unfolding overlay_def by fastforce
  have "fmlookup ns i = fmlookup ms i" for i
  proof (cases "fmlookup ns i")
    case None
    then show ?thesis using shape [of i] by simp
  next
    case (Some n)
    obtain m k where m: "fmlookup ms i = Some m" "n\<lparr>properties := fmempty\<rparr> = m\<lparr>properties := fmempty\<rparr>"
      and k: "fmlookup (nodes s) i = Some k"
      using shape [of i] src [of i] Some by (cases "fmlookup ms i"; cases "fmlookup (nodes s) i") auto
    have "properties n = properties m"
      by (rule fmap_ext) (use p1 [OF Some k] p2 [OF m(1) k] in simp)
    with m Some show ?thesis by (cases n; cases m) auto
  qed
  then show ?thesis using ns by (simp add: fmap_ext)
qed

lemma overlay_empty: "overlay (\<lambda>_. None) s s"
  by (auto simp: overlay_def intro!: exI [of _ "nodes s"])

definition written :: "node_id \<Rightarrow> property_ref \<Rightarrow> value_t \<Rightarrow> node \<Rightarrow> semantic_store \<Rightarrow> semantic_store" where
  "written i p v n s = s\<lparr>nodes := fmupd i (n\<lparr>properties := fmupd p v (properties n)\<rparr>) (nodes s)\<rparr>"

lemma discard_Ok_iff: "discard rs = (Inr u, t) \<longleftrightarrow> (\<exists>x. rs = (Inr x, t))"
  by (cases rs; cases "fst rs") (auto simp: discard_def)

lemma set_property_effect:
  "operation_apply (SetProperty i p v) s = (Inr u, t) \<longleftrightarrow>
     property_ok s p v \<and> (\<exists>n. fmlookup (nodes s) i = Some n \<and> t = written i p v n s)"
  by (auto simp: discard_Ok_iff set_property_def written_def property_ok_def validate_value_iff
      validate_references_iff result_simps split: option.splits)

lemma write_ok_written:
  assumes "fmlookup (nodes s) i = Some n"
  shows "write_ok (written i p v n s) op = write_ok s op"
  using assms by (cases op) (auto simp: write_ok_def written_def property_ok_def contains_node_def contains_model_def)

lemma overlay_written:
  assumes n: "fmlookup (nodes s) i = Some n" and o: "overlay w (written i p v n s) u"
  shows "overlay (\<lambda>k. case w k of Some x \<Rightarrow> Some x | None \<Rightarrow> if k = (i, p) then Some v else None) s u"
proof -
  obtain ns where u: "u = (written i p v n s)\<lparr>nodes := ns\<rparr>"
    and shape: "\<And>j. map_option (\<lambda>n. n\<lparr>properties := fmempty\<rparr>) (fmlookup ns j) =
      map_option (\<lambda>n. n\<lparr>properties := fmempty\<rparr>) (fmlookup (nodes (written i p v n s)) j)"
    and pr: "\<And>j a b q. fmlookup ns j = Some a \<Longrightarrow> fmlookup (nodes (written i p v n s)) j = Some b \<Longrightarrow>
      fmlookup (properties a) q = (case w (j, q) of Some v \<Rightarrow> Some v | None \<Rightarrow> fmlookup (properties b) q)"
    using o unfolding overlay_def by blast
  show ?thesis unfolding overlay_def
  proof (intro exI conjI allI impI)
    show "u = s\<lparr>nodes := ns\<rparr>" by (simp add: u written_def)
    show "map_option (\<lambda>n. n\<lparr>properties := fmempty\<rparr>) (fmlookup ns j) =
        map_option (\<lambda>n. n\<lparr>properties := fmempty\<rparr>) (fmlookup (nodes s) j)" for j
      using shape [of j] n by (auto simp: written_def)
    fix j a m q assume a: "fmlookup ns j = Some a" and m: "fmlookup (nodes s) j = Some m"
    define b where "b = (if j = i then n\<lparr>properties := fmupd p v (properties n)\<rparr> else m)"
    have "fmlookup (nodes (written i p v n s)) j = Some b" using m by (simp add: written_def b_def)
    from pr [OF a this, of q] show "fmlookup (properties a) q =
        (case case w (j, q) of Some x \<Rightarrow> Some x | None \<Rightarrow> if (j, q) = (i, p) then Some v else None of
           Some v \<Rightarrow> Some v | None \<Rightarrow> fmlookup (properties m) q)"
      using n m by (auto simp: b_def split: option.splits if_splits)
  qed
qed

lemma writes_Ok:
  assumes "\<forall>op \<in> set ops. scalar_write op" "apply_loop operation_apply k ops s = (Inr u, t)"
  shows "(\<forall>op \<in> set ops. write_ok s op) \<and> overlay (last_write ops) s t"
  using assms
proof (induction ops arbitrary: k s)
  case Nil
  then show ?case using overlay_empty by simp
next
  case (Cons op ops)
  then obtain i p v where op: "op = SetProperty i p v" by (auto simp: scalar_write_def)
  obtain r s1 where r: "operation_apply op s = (r, s1)" by (cases "operation_apply op s")
  with Cons.prems(2) obtain x where x: "r = Inr x" "apply_loop operation_apply (Suc k) ops s1 = (Inr u, t)"
    by (cases r) (auto split: fault.splits)
  from r x(1) obtain n where n: "property_ok s p v" "fmlookup (nodes s) i = Some n" "s1 = written i p v n s"
    unfolding op by (auto simp: set_property_effect simp del: operation_apply.simps)
  from Cons.IH [OF _ x(2)] Cons.prems(1) have "\<forall>op \<in> set ops. write_ok s op" "overlay (last_write ops) s1 t"
    by (auto simp: n(3) write_ok_written [OF n(2)])
  moreover have "write_ok s op" using n by (simp add: op write_ok_def contains_node_def)
  moreover have "last_write (op # ops) = (\<lambda>k. case last_write ops k of Some x \<Rightarrow> Some x | None \<Rightarrow> if k = (i, p) then Some v else None)"
    by (rule ext) (simp add: op)
  ultimately show ?case using overlay_written [OF n(2)] n(3) by auto
qed

lemma writes_succeed:
  assumes "\<forall>op \<in> set ops. write_ok s op"
  shows "\<exists>t. apply_loop operation_apply k ops s = (Ok (), t)"
  using assms
proof (induction ops arbitrary: k s)
  case (Cons op ops)
  then obtain i p v where op: "op = SetProperty i p v" by (cases op) (auto simp: write_ok_def)
  obtain n where n: "property_ok s p v" "fmlookup (nodes s) i = Some n"
    using Cons.prems by (auto simp: op write_ok_def contains_node_def)
  then have "operation_apply op s = (Ok (), written i p v n s)"
    unfolding op by (subst set_property_effect) auto
  with Cons.IH [of "written i p v n s" "Suc k"] Cons.prems n(2) show ?case by (auto simp: write_ok_written)
qed simp

lemma apply_loop_index:
  "apply_loop run i ops w = (Inr u, z) \<Longrightarrow> apply_loop run j ops w = (Inr u, z)"
proof (induction ops arbitrary: i j w)
  case (Cons op ops)
  obtain r w' where "run op w = (r, w')" by (cases "run op w")
  with Cons show ?case by (cases r) (auto split: fault.splits)
qed simp

lemma merged_effect:
  assumes "\<forall>op \<in> set xs. scalar_write op" "\<forall>op \<in> set ys. scalar_write op"
    and "apply_loop operation_apply a xs s = (Inr u, t)" "apply_loop operation_apply b ys t = (Inr u', t')"
  shows "apply_loop operation_apply 0 (merge_loop ys (key_positions xs) xs) s = (Ok (), t')"
proof -
  let ?m = "merge_loop ys (key_positions xs) xs"
  have all: "\<forall>op \<in> set (xs @ ys). scalar_write op" using assms(1,2) by auto
  have "apply_loop operation_apply (length xs) ys t = (Inr u', t')" "apply_loop operation_apply 0 xs s = (Inr u, t)"
    using assms(3,4) by (blast intro: apply_loop_index)+
  then have "apply_loop operation_apply 0 (xs @ ys) s = (Ok (), t')"
    by (simp add: apply_loop_append)
  from writes_Ok [OF all this] have 1: "\<forall>op \<in> set (xs @ ys). write_ok s op" "overlay (last_write (xs @ ys)) s t'"
    by auto
  have m: "\<forall>op \<in> set ?m. scalar_write op \<and> op \<in> set (xs @ ys)"
    using merge_loop_writes [OF assms(2,1)] by blast
  with 1(1) obtain z where z: "apply_loop operation_apply 0 ?m s = (Ok (), z)"
    using writes_succeed by blast
  have "overlay (last_write (xs @ ys)) s z"
    using writes_Ok [OF _ z] m merge_loop_last [OF key_positions_ok assms(2)] by auto
  then show ?thesis using overlay_unique 1(2) z by blast
qed

section \<open>Correctness of absorption\<close>

lemma try_absorb_True:
  assumes "try_absorb framed_len max_ops max_frame tail incoming = (Ok True, merged)"
  shows "merged = merged_txn tail incoming \<and> priority tail = priority incoming \<and>
    new_revision tail = base_revision incoming \<and> is_coalesceable tail \<and> is_coalesceable incoming \<and>
    length (operations merged) \<le> max_ops \<and> framed_len (transaction_to_wire merged) \<le> max_frame \<and>
    validate_delta merged = Ok ()"
proof -
  from assms have 1: "priority tail = priority incoming" "new_revision tail = base_revision incoming"
    "is_coalesceable tail" "is_coalesceable incoming"
    "length (operations tail) + new_keys_count (key_positions (operations tail)) (operations incoming) \<le> max_ops"
    "framed_len (transaction_to_wire (merged_txn tail incoming)) \<le> max_frame"
    "validate_delta (merged_txn tail incoming) = Ok ()"
    "merged = tail\<lparr>operations := operations (merged_txn tail incoming),
       new_revision := new_revision (merged_txn tail incoming)\<rparr>"
    by (auto simp: try_absorb_def Let_def split: if_splits)
  then have "merged = merged_txn tail incoming" by (simp add: merged_txn_def)
  moreover have "length (operations (merged_txn tail incoming)) \<le> max_ops"
    using merge_loop_length 1(5) by (auto simp: merged_txn_def intro: order_trans)
  ultimately show ?thesis using 1 by simp
qed

lemma merged_coalesceable:
  assumes "is_coalesceable tail" "is_coalesceable incoming"
  shows "is_coalesceable (merged_txn tail incoming)"
  using assms merge_loop_writes [of "operations incoming" "operations tail"] merge_loop_nonempty
  by (auto simp: is_coalesceable_iff merged_txn_def)

lemma merged_delta:
  assumes "base_revision tail < new_revision tail" "base_revision incoming < new_revision incoming"
    and "new_revision tail = base_revision incoming" "is_coalesceable tail" "is_coalesceable incoming"
  shows "validate_delta (merged_txn tail incoming) = Ok ()"
proof -
  have "base_revision tail < new_revision incoming" using assms by (metis order.strict_trans)
  moreover have "unat (new_revision incoming) < 2 ^ 64" using unsigned_less [of "new_revision incoming"] by simp
  ultimately have "\<not> new_revision incoming \<le> base_revision tail" "unat (base_revision tail) + 1 < 2 ^ 64"
    unfolding word_less_nat_alt word_le_nat_alt by linarith+
  then show ?thesis
    using merged_coalesceable [OF assms(4,5)]
    by (simp add: validate_delta_def checked_next_def checked_add_def merged_txn_def)
qed

text \<open>Scalar writes do not look at the revision of the store.\<close>

lemma write_revision:
  assumes "scalar_write op"
  shows "operation_apply op (s\<lparr>revision := r\<rparr>) =
    (fst (operation_apply op s), (snd (operation_apply op s))\<lparr>revision := r\<rparr>)"
  using assms
  by (auto simp: scalar_write_def discard_def set_property_def validate_property_references_def contains_model_def
      and_then_st_def split: sum.splits option.splits prod.splits)

lemma writes_revision:
  assumes "\<forall>op \<in> set ops. scalar_write op"
  shows "apply_loop operation_apply i ops (s\<lparr>revision := r\<rparr>) =
    (fst (apply_loop operation_apply i ops s), (snd (apply_loop operation_apply i ops s))\<lparr>revision := r\<rparr>)"
  using assms
proof (induction ops arbitrary: i s)
  case (Cons op ops)
  obtain x t where "operation_apply op s = (x, t)" by (cases "operation_apply op s")
  with Cons write_revision [of op r s] show ?case by (cases x) (auto split: fault.splits)
qed simp

lemma scalar_staged_Ok:
  assumes "\<forall>op \<in> set ops. scalar_write op"
  shows "apply_staged ops new s = (Inr r, s') \<longleftrightarrow>
    r = new \<and> length ops \<le> max_transaction_operations (limits s) \<and>
    (\<exists>t. apply_loop operation_apply 0 ops s = (Ok (), t) \<and> s' = t\<lparr>revision := new\<rparr>)"
proof -
  have clone: "clone_staging s = s" by (simp add: clone_staging_def)
  show ?thesis
  proof (cases "apply_loop operation_apply 0 ops s")
    case (Pair x t)
    show ?thesis
    proof (cases x)
      case (Inr u)
      with writes_Ok [OF assms] Pair obtain ns where "t = s\<lparr>nodes := ns\<rparr>"
        unfolding overlay_def by blast
      then have "commit_staging t new s = t\<lparr>revision := new\<rparr>" by (simp add: commit_staging_def)
      with Pair Inr clone show ?thesis by (auto simp: apply_staged_def stage_def)
    qed (use Pair clone in \<open>auto simp: apply_staged_def stage_def\<close>)
  qed
qed

definition deliver :: "transaction \<Rightarrow> semantic_store \<Rightarrow> u64 txn_result" where
  "deliver txn s =
     and_then_st (check_base_revision s (base_revision txn), s) (\<lambda>_.
       apply_staged (operations txn) (new_revision txn))"

lemma deliver_eqs:
  "apply_coalesced_delta (CoalescedScalarDelta txn) s = deliver txn s"
  "apply_authoritative (AuthoritativeCommit txn) s = deliver txn s"
  by (simp_all add: apply_coalesced_delta_def apply_authoritative_def deliver_def Let_def)

lemma deliver_scalar:
  assumes "is_coalesceable txn"
  shows "deliver txn s = (Inr r, s') \<longleftrightarrow>
    base_revision txn = revision s \<and> r = new_revision txn \<and>
    length (operations txn) \<le> max_transaction_operations (limits s) \<and>
    (\<exists>t. apply_loop operation_apply 0 (operations txn) s = (Ok (), t) \<and> s' = t\<lparr>revision := new_revision txn\<rparr>)"
  using assms scalar_staged_Ok [of "operations txn"]
  by (auto simp: deliver_def check_base_revision_def is_coalesceable_iff result_simps)

lemma deliver_merged:
  assumes tail: "is_coalesceable tail" and inc: "is_coalesceable incoming"
    and 1: "deliver tail s = (Inr r1, s1)" and 2: "deliver incoming s1 = (Inr r2, s2)"
    and len: "length (operations (merged_txn tail incoming)) \<le> max_transaction_operations (limits s)"
  shows "deliver (merged_txn tail incoming) s = (Inr r2, s2)"
proof -
  obtain t where t: "apply_loop operation_apply 0 (operations tail) s = (Ok (), t)"
    "s1 = t\<lparr>revision := new_revision tail\<rparr>" "base_revision tail = revision s"
    using 1 deliver_scalar [OF tail] by blast
  obtain u where u: "apply_loop operation_apply 0 (operations incoming) s1 = (Ok (), u)"
    "s2 = u\<lparr>revision := new_revision incoming\<rparr>" "r2 = new_revision incoming"
    using 2 deliver_scalar [OF inc] by blast
  have ws: "\<forall>op \<in> set (operations tail). scalar_write op" "\<forall>op \<in> set (operations incoming). scalar_write op"
    using tail inc by (simp_all add: is_coalesceable_iff)
  obtain v where v: "apply_loop operation_apply 0 (operations incoming) t = (Ok (), v)"
    "u = v\<lparr>revision := new_revision tail\<rparr>"
    using u(1) writes_revision [OF ws(2), of 0 "new_revision tail" t] unfolding t(2)
    by (cases "apply_loop operation_apply 0 (operations incoming) t") auto
  from merged_effect [OF ws t(1) v(1)]
  have "apply_loop operation_apply 0 (operations (merged_txn tail incoming)) s = (Ok (), v)"
    by (simp add: merged_txn_def)
  then show ?thesis
    using len t(3) u v(2) unfolding deliver_scalar [OF merged_coalesceable [OF tail inc]]
    by (simp add: merged_txn_def)
qed

lemma try_absorb_returns:
  assumes "base_revision tail < new_revision tail" "base_revision incoming < new_revision incoming"
    and "try_absorb framed_len max_ops max_frame_size tail incoming = (r, tail')"
  shows "r = Ok False \<and> tail' = tail \<or> r = Ok True"
  using assms merged_delta [OF assms(1,2)] by (auto simp: try_absorb_def Let_def split: if_splits)

section \<open>Properties\<close>

text \<open>
  C12: When a committed transaction has been absorbed into the unsent tail of a queue, a client that
  applies the one merged delta ends with the same store and the same revision as a client that
  applies the tail and then the incoming transaction, whenever both of these succeed; the merge
  stays within the negotiated bound on operations, which the store of the client allows.
\<close>

theorem absorb_equivalent:
  assumes "try_absorb framed_len max_ops max_frame_size tail incoming = (Ok True, merged)"
    and "apply_coalesced_delta (CoalescedScalarDelta tail) s = (Ok r1, s1)"
    and "apply_coalesced_delta (CoalescedScalarDelta incoming) s1 = (Ok r2, s2)"
    and "max_ops \<le> max_transaction_operations (limits s)"
  shows "apply_coalesced_delta (CoalescedScalarDelta merged) s = (Ok r2, s2)"
proof -
  from try_absorb_True [OF assms(1)] have m: "merged = merged_txn tail incoming" "is_coalesceable tail"
    "is_coalesceable incoming" "length (operations merged) \<le> max_ops" by blast+
  from deliver_merged [OF m(2,3)] assms(2-4) m(4) show ?thesis
    by (simp add: deliver_eqs m(1))
qed

definition write_a :: "u64 \<Rightarrow> operation list \<Rightarrow> transaction" where
  "write_a base ops = \<lparr>base_revision = base, new_revision = base + 1, operations = ops, priority = 0\<rparr>"

lemmas write_eval = write_a_def is_coalesceable_def key_positions_def new_keys_count_def

lemma absorb_a:
  "try_absorb (\<lambda>_. 10) 5 100 (write_a 0 [SetProperty 1 (standard_property 9) (VUnsignedInt 1)])
     (write_a 1 [SetProperty 1 (standard_property 9) (VUnsignedInt 2)]) =
   (Ok True, write_a 0 [SetProperty 1 (standard_property 9) (VUnsignedInt 2)]\<lparr>new_revision := 2\<rparr>)"
  by (simp add: try_absorb_def write_eval merged_txn_def validate_delta_def checked_next_def checked_add_def
      word_le_nat_alt)

theorem absorb_equivalent_witness:
  "snd (deliver (write_a 0 [SetProperty 1 (standard_property 9) (VUnsignedInt 2)]\<lparr>new_revision := 2\<rparr>) node_pair) =
   snd (deliver (write_a 1 [SetProperty 1 (standard_property 9) (VUnsignedInt 2)])
     (snd (deliver (write_a 0 [SetProperty 1 (standard_property 9) (VUnsignedInt 1)]) node_pair)))"
proof -
  let ?t = "write_a 0 [SetProperty 1 (standard_property 9) (VUnsignedInt 1)]"
  let ?i = "write_a 1 [SetProperty 1 (standard_property 9) (VUnsignedInt 2)]"
  let ?s1 = "snd (deliver ?t node_pair)"
  note eval = deliver_def check_base_revision_def apply_staged_def stage_def clone_staging_def commit_staging_def
    write_a_def set_property_def discard_def node_pair_def create_eval MODEL_REF_def standard_property_def
  have b: "apply_coalesced_delta (CoalescedScalarDelta ?t) node_pair = (Ok 1, ?s1)"
    by (simp add: deliver_eqs eval)
  have c: "apply_coalesced_delta (CoalescedScalarDelta ?i) ?s1 = (Ok 2, snd (deliver ?i ?s1))"
    by (simp add: deliver_eqs eval)
  have "max_transaction_operations (limits node_pair) \<ge> 5" by (simp add: node_pair_def create_eval)
  from absorb_equivalent [OF absorb_a b c this] show ?thesis by (simp add: deliver_eqs)
qed

text \<open>
  Absorption of one forward transaction into another returns normally: the debug assertion of
  the source holds.  Either it declines and leaves the tail as it was, or it yields a valid
  coalesced delta from the base of the tail to the new revision of the incoming transaction,
  within both negotiated bounds, in which every key has the value of the last write of the two.
\<close>

theorem absorb_well_formed:
  assumes "try_absorb framed_len max_ops max_frame_size tail incoming = (r, tail')"
    and "base_revision tail < new_revision tail" "base_revision incoming < new_revision incoming"
  shows "r = Ok False \<and> tail' = tail \<or>
    r = Ok True \<and> validate_delta tail' = Ok () \<and> base_revision tail' = base_revision tail \<and>
      new_revision tail' = new_revision incoming \<and> length (operations tail') \<le> max_ops \<and>
      framed_len (transaction_to_wire tail') \<le> max_frame_size \<and>
      last_write (operations tail') = last_write (operations tail @ operations incoming)"
proof (cases "r = Ok True")
  case True
  with try_absorb_True assms(1) have m: "tail' = merged_txn tail incoming" "is_coalesceable incoming"
    "length (operations tail') \<le> max_ops" "framed_len (transaction_to_wire tail') \<le> max_frame_size"
    "validate_delta tail' = Ok ()" by blast+
  then have "last_write (operations tail') = last_write (operations tail @ operations incoming)"
    using merge_loop_last [OF key_positions_ok] by (auto simp: merged_txn_def is_coalesceable_iff)
  with True m show ?thesis by (simp add: merged_txn_def)
next
  case False
  then show ?thesis using try_absorb_returns [OF assms(2,3,1)] by simp
qed

theorem absorb_well_formed_witness:
  "validate_delta (write_a 0 [SetProperty 1 (standard_property 9) (VUnsignedInt 2)]\<lparr>new_revision := 2\<rparr>) = Ok ()"
  using absorb_well_formed [OF absorb_a] by (simp add: write_a_def word_less_nat_alt)

end
