(* ===== verification/Scheduler.thy ===== *)
theory Scheduler
  imports Prelude
begin

text \<open>
  The logical channel scheduler: \<^verbatim>\<open>sessiond/src/outbound/scheduler.rs\<close> and the generated
  policy \<^verbatim>\<open>logical_channel_policy.generated.rs\<close> that it includes.  A weighted cycle of 24
  slots; a selection walks the cycle from a kept cursor to the first slot whose class is ready.
  The envelopes are represented by the cases of the protocol's message sum: classification does
  not read their payloads.
\<close>

section \<open>Classes and the service cycle\<close>

datatype logical_channel_class = Control | Input | Ui | TerminalHigh | TerminalNormal | Resource

definition ALL_classes :: "logical_channel_class list" where
  "ALL_classes = [Control, Input, Ui, TerminalHigh, TerminalNormal, Resource]"

fun max_service_gap :: "logical_channel_class \<Rightarrow> usize" where
  "max_service_gap Control = 5"
| "max_service_gap Input = 5"
| "max_service_gap Ui = 8"
| "max_service_gap TerminalHigh = 12"
| "max_service_gap TerminalNormal = 14"
| "max_service_gap Resource = 24"

definition SERVICE_CYCLE :: "logical_channel_class list" where
  "SERVICE_CYCLE =
    [Control, Input, Ui, Control, Input, TerminalHigh, Control, Input, Ui, Control, Input, TerminalNormal,
     Control, Input, Ui, Control, Input, TerminalHigh, Ui, Control, Input, TerminalNormal, TerminalHigh, Resource]"

section \<open>Classification of envelopes\<close>

datatype srui_message =
    ServerWelcome | ServerResumeOk | ServerResyncRequired | ServerHandshakeRefused | ServerEventAck
  | MsgTransaction | MsgResourceMetadata | MsgResourceChunk | TerminalResyncRequired
  | ClientHello | ClientResume | MsgEvent | ClientModelRangeRequest | TerminalInput | TerminalResize | TerminalData

fun logical_class_for_server_envelope :: "srui_message option \<Rightarrow> logical_channel_class option" where
  "logical_class_for_server_envelope (Some ServerWelcome) = Some Control"
| "logical_class_for_server_envelope (Some ServerResumeOk) = Some Control"
| "logical_class_for_server_envelope (Some ServerResyncRequired) = Some Control"
| "logical_class_for_server_envelope (Some ServerHandshakeRefused) = Some Control"
| "logical_class_for_server_envelope (Some ServerEventAck) = Some Control"
| "logical_class_for_server_envelope (Some MsgTransaction) = Some Ui"
| "logical_class_for_server_envelope (Some MsgResourceMetadata) = Some Resource"
| "logical_class_for_server_envelope (Some MsgResourceChunk) = Some Resource"
| "logical_class_for_server_envelope (Some TerminalResyncRequired) = Some TerminalHigh"
| "logical_class_for_server_envelope _ = None"

definition server_envelope_matches_class :: "srui_message option \<Rightarrow> logical_channel_class \<Rightarrow> bool" where
  "server_envelope_matches_class msg cls =
     (case msg of
        Some TerminalData \<Rightarrow> cls = TerminalHigh \<or> cls = TerminalNormal
      | _ \<Rightarrow> logical_class_for_server_envelope msg = Some cls)"

section \<open>Selection\<close>

record logical_channel_scheduler =
  cursor :: usize

definition scheduler_new :: logical_channel_scheduler where
  "scheduler_new = \<lparr>cursor = 0\<rparr>"

fun select_loop ::
  "nat \<Rightarrow> (logical_channel_class \<Rightarrow> bool) \<Rightarrow> logical_channel_scheduler \<Rightarrow>
   logical_channel_class option \<times> logical_channel_scheduler" where
  "select_loop 0 ready self = (None, self)"
| "select_loop (Suc k) ready self =
     (let cls = SERVICE_CYCLE ! cursor self;
          self = self\<lparr>cursor := (cursor self + 1) mod length SERVICE_CYCLE\<rparr>
      in if ready cls then (Some cls, self) else select_loop k ready self)"

definition select_next ::
  "(logical_channel_class \<Rightarrow> bool) \<Rightarrow> logical_channel_scheduler \<Rightarrow>
   logical_channel_class option \<times> logical_channel_scheduler" where
  "select_next ready self = select_loop (length SERVICE_CYCLE) ready self"

section \<open>The walk over the cycle\<close>

definition scheduler_ok :: "logical_channel_scheduler \<Rightarrow> bool" where
  "scheduler_ok self \<longleftrightarrow> cursor self < length SERVICE_CYCLE"

lemma cycle_length: "length SERVICE_CYCLE = 24"
  by (simp add: SERVICE_CYCLE_def)

text \<open>The slot \<open>n\<close> places after the cursor.\<close>

definition slot :: "usize \<Rightarrow> nat \<Rightarrow> logical_channel_class" where
  "slot c n = SERVICE_CYCLE ! ((c + n) mod length SERVICE_CYCLE)"

lemma slot_advance: "slot ((c + m) mod length SERVICE_CYCLE) n = slot c (m + n)"
  by (simp add: slot_def mod_add_left_eq add.assoc)

lemma find_upt_Suc:
  "find P [0..<Suc k] = (if P 0 then Some 0 else map_option Suc (find (\<lambda>n. P (Suc n)) [0..<k]))"
proof -
  have "find P (map Suc xs) = map_option Suc (find (\<lambda>n. P (Suc n)) xs)" for xs by (induction xs) auto
  from this [of "[0..<k]"] show ?thesis by (simp add: map_Suc_upt upt_conv_Cons del: upt_Suc)
qed

lemma select_loop_spec:
  assumes "scheduler_ok self"
  shows "select_loop k ready self =
    (case find (\<lambda>n. ready (slot (cursor self) n)) [0..<k] of
       None \<Rightarrow> (None, self\<lparr>cursor := (cursor self + k) mod length SERVICE_CYCLE\<rparr>)
     | Some n \<Rightarrow> (Some (slot (cursor self) n), self\<lparr>cursor := (cursor self + n + 1) mod length SERVICE_CYCLE\<rparr>))"
  using assms
proof (induction k arbitrary: self)
  case 0
  then show ?case by (simp add: scheduler_ok_def)
next
  case (Suc k)
  let ?next = "self\<lparr>cursor := (cursor self + 1) mod length SERVICE_CYCLE\<rparr>"
  have ok: "scheduler_ok ?next" by (simp add: scheduler_ok_def cycle_length)
  have first: "slot (cursor self) 0 = SERVICE_CYCLE ! cursor self" using Suc.prems by (simp add: slot_def scheduler_ok_def)
  have step: "select_loop (Suc k) ready self =
      (if ready (slot (cursor self) 0) then (Some (slot (cursor self) 0), ?next) else select_loop k ready ?next)"
    by (simp add: first Let_def)
  have slots: "slot (cursor ?next) n = slot (cursor self) (Suc n)" for n
    using slot_advance [of "cursor self" 1 n] by simp
  have moves: "(cursor ?next + n) mod length SERVICE_CYCLE = (cursor self + Suc n) mod length SERVICE_CYCLE" for n
    using mod_add_left_eq [of "cursor self + 1" "length SERVICE_CYCLE" n] by simp
  show ?case
  proof (cases "find (\<lambda>n. ready (slot (cursor self) (Suc n))) [0..<k]")
    case None
    then show ?thesis unfolding step Suc.IH [OF ok] find_upt_Suc slots moves by simp
  next
    case (Some a)
    have "(cursor ?next + a + 1) mod length SERVICE_CYCLE = (cursor self + Suc a + 1) mod length SERVICE_CYCLE"
      using moves [of "a + 1"] by (simp only: add.assoc add_Suc)
    with Some show ?thesis unfolding step Suc.IH [OF ok] find_upt_Suc slots by simp
  qed
qed

text \<open>From every position the slots of a class are at most its service gap apart.\<close>

lemma class_within_gap:
  assumes "c < length SERVICE_CYCLE"
  shows "\<exists>n < max_service_gap cls. slot c n = cls"
proof -
  have "list_all (\<lambda>c. list_all (\<lambda>cls. list_ex (\<lambda>n. slot c n = cls) [0..<max_service_gap cls]) ALL_classes) [0..<24]"
    by code_simp
  moreover have "cls \<in> set ALL_classes" by (cases cls) (simp_all add: ALL_classes_def)
  ultimately show ?thesis using assms by (simp add: list_all_iff list_ex_iff cycle_length) force
qed

lemma gap_le_cycle: "max_service_gap cls \<le> length SERVICE_CYCLE"
  by (cases cls) (simp_all add: cycle_length)

lemma select_next_Some:
  assumes "scheduler_ok self" "ready (slot (cursor self) n)" "n < length SERVICE_CYCLE"
  obtains m where "m \<le> n" "ready (slot (cursor self) m)" "\<And>j. j < m \<Longrightarrow> \<not> ready (slot (cursor self) j)"
    "select_next ready self =
       (Some (slot (cursor self) m), self\<lparr>cursor := (cursor self + m + 1) mod length SERVICE_CYCLE\<rparr>)"
proof -
  obtain m where m: "find (\<lambda>n. ready (slot (cursor self) n)) [0..<length SERVICE_CYCLE] = Some m"
    using assms(2,3) by (cases "find (\<lambda>n. ready (slot (cursor self) n)) [0..<length SERVICE_CYCLE]")
      (auto simp: find_None_iff)
  then have first: "ready (slot (cursor self) m)" "\<And>j. j < m \<Longrightarrow> \<not> ready (slot (cursor self) j)"
    by (auto simp: find_Some_iff)
  with assms(2) have "m \<le> n" by (metis not_le)
  with m first select_loop_spec [OF assms(1)] show thesis by (intro that) (auto simp: select_next_def)
qed

lemma select_next_None:
  assumes "scheduler_ok self" "\<And>n. n < length SERVICE_CYCLE \<Longrightarrow> \<not> ready (slot (cursor self) n)"
  shows "select_next ready self = (None, self)"
proof -
  have "find (\<lambda>n. ready (slot (cursor self) n)) [0..<length SERVICE_CYCLE] = None"
    using assms(2) by (simp add: find_None_iff)
  moreover have "(cursor self + length SERVICE_CYCLE) mod length SERVICE_CYCLE = cursor self"
    using assms(1) by (simp add: scheduler_ok_def)
  ultimately show ?thesis using select_loop_spec [OF assms(1)] by (simp add: select_next_def)
qed

lemma select_next_ok: "scheduler_ok self \<Longrightarrow> scheduler_ok (snd (select_next ready self))"
  using select_loop_spec [of self "length SERVICE_CYCLE" ready]
  by (auto simp: select_next_def scheduler_ok_def cycle_length split: option.split)

lemma scheduler_new_ok: "scheduler_ok scheduler_new"
  by (simp add: scheduler_ok_def scheduler_new_def cycle_length)

section \<open>Histories of selections\<close>

text \<open>The results of consecutive selections, each with the lanes that are ready at its time.\<close>

fun serve :: "(logical_channel_class \<Rightarrow> bool) list \<Rightarrow> logical_channel_scheduler \<Rightarrow> logical_channel_class option list" where
  "serve [] self = []"
| "serve (ready # rs) self = (case select_next ready self of (c, self') \<Rightarrow> c # serve rs self')"

fun after :: "(logical_channel_class \<Rightarrow> bool) list \<Rightarrow> logical_channel_scheduler \<Rightarrow> logical_channel_scheduler" where
  "after [] self = self"
| "after (ready # rs) self = after rs (snd (select_next ready self))"

lemma serve_append: "serve (xs @ ys) self = serve xs self @ serve ys (after xs self)"
  by (induction xs arbitrary: self) (auto split: prod.split)

lemma serve_length [simp]: "length (serve rs self) = length rs"
  by (induction rs arbitrary: self) (auto split: prod.split)

lemma after_ok: "scheduler_ok self \<Longrightarrow> scheduler_ok (after rs self)"
  by (induction rs arbitrary: self) (auto simp: select_next_ok)

lemma served_in_time:
  assumes "scheduler_ok self" "slot (cursor self) n = cls" "n < length rs" "n < length SERVICE_CYCLE"
    and "\<forall>ready \<in> set rs. ready cls"
  shows "Some cls \<in> set (serve rs self)"
  using assms
proof (induction rs arbitrary: self n)
  case (Cons ready rs)
  obtain m where m: "m \<le> n" "select_next ready self =
      (Some (slot (cursor self) m), self\<lparr>cursor := (cursor self + m + 1) mod length SERVICE_CYCLE\<rparr>)"
    by (rule select_next_Some [OF Cons.prems(1), of ready n]) (use Cons.prems in auto)
  let ?next = "self\<lparr>cursor := (cursor self + m + 1) mod length SERVICE_CYCLE\<rparr>"
  show ?case
  proof (cases "m = n")
    case False
    have "slot (cursor ?next) (n - m - 1) = cls"
      using slot_advance [of "cursor self" "m + 1" "n - m - 1"] Cons.prems(2) m(1) False by simp
    moreover have "scheduler_ok ?next" by (simp add: scheduler_ok_def cycle_length)
    ultimately have "Some cls \<in> set (serve rs ?next)"
      using Cons.prems(3-5) m(1) False by (intro Cons.IH [of ?next "n - m - 1"]) auto
    with m(2) show ?thesis by simp
  qed (use m Cons.prems in simp)
qed simp

section \<open>Properties\<close>

text \<open>
  C14: No lane starves.  After any history of selections, a class that stays ready during as many
  consecutive selections as its documented service gap is selected at least once among them,
  whatever the other lanes do in the meantime.
\<close>

theorem no_starvation:
  assumes "\<forall>ready \<in> set rs. ready cls" "max_service_gap cls \<le> length rs"
  shows "Some cls \<in> set (drop (length hist) (serve (hist @ rs) scheduler_new))"
proof -
  have ok: "scheduler_ok (after hist scheduler_new)" by (rule after_ok [OF scheduler_new_ok])
  then obtain n where "n < max_service_gap cls" "slot (cursor (after hist scheduler_new)) n = cls"
    using class_within_gap by (auto simp: scheduler_ok_def)
  with served_in_time [OF ok] assms gap_le_cycle [of cls] show ?thesis
    by (simp add: serve_append)
qed

theorem no_starvation_witness:
  "Some Ui \<in> set (drop 2 (serve ([\<lambda>c. c = Resource, \<lambda>c. False] @ replicate 8 (\<lambda>_. True)) scheduler_new))"
  using no_starvation [of "replicate 8 (\<lambda>_. True)" Ui "[\<lambda>c. c = Resource, \<lambda>c. False]"] by (simp add: numeral_2_eq_2)

text \<open>
  A selection returns a ready class, the first one in the cycle from the cursor, and moves the
  cursor just past its slot; it returns nothing exactly when no class is ready, and then the
  scheduler is as before.
\<close>

theorem select_next_correct:
  assumes "scheduler_ok self" "select_next ready self = (r, self')"
  shows "(r = None \<longleftrightarrow> (\<forall>cls. \<not> ready cls)) \<and> (r = None \<longrightarrow> self' = self) \<and> scheduler_ok self' \<and>
    (\<forall>cls. r = Some cls \<longrightarrow> ready cls \<and>
       (\<exists>n < length SERVICE_CYCLE. slot (cursor self) n = cls \<and> (\<forall>j < n. \<not> ready (slot (cursor self) j)) \<and>
          cursor self' = (cursor self + n + 1) mod length SERVICE_CYCLE))"
proof (cases "\<exists>cls. ready cls")
  case True
  then obtain cls where "ready cls" ..
  moreover obtain n where "n < max_service_gap cls" "slot (cursor self) n = cls"
    using class_within_gap assms(1) by (auto simp: scheduler_ok_def)
  ultimately have n: "ready (slot (cursor self) n)" "n < length SERVICE_CYCLE" using gap_le_cycle [of cls] by auto
  obtain m where "m \<le> n" "ready (slot (cursor self) m)" "\<And>j. j < m \<Longrightarrow> \<not> ready (slot (cursor self) j)"
    "r = Some (slot (cursor self) m)" "self' = self\<lparr>cursor := (cursor self + m + 1) mod length SERVICE_CYCLE\<rparr>"
    by (rule select_next_Some [where ready = ready, OF assms(1) n]) (use assms(2) in auto)
  with n(2) True show ?thesis by (auto simp: scheduler_ok_def cycle_length intro!: exI [of _ m])
next
  case False
  then show ?thesis using select_next_None [OF assms(1)] assms by auto
qed

theorem select_next_correct_witness:
  "fst (select_next (\<lambda>c. c = Resource) scheduler_new) \<noteq> None"
  using select_next_correct [OF scheduler_new_ok, of "\<lambda>c. c = Resource"]
  by (cases "select_next (\<lambda>c. c = Resource) scheduler_new") auto

end
