(* ===== verification/Resources.thy ===== *)
theory Resources
  imports Values
begin

text \<open>
  Resources: the bounded content-addressed store (\<^verbatim>\<open>resources/src/store.rs\<close>), fixed-size chunks
  (\<^verbatim>\<open>resources/src/chunk.rs\<close>) and the transfer queue of one connection
  (\<^verbatim>\<open>sessiond/src/outbound/resource.rs\<close>).  SHA-256 is the argument \<open>sha256\<close>: nothing is
  assumed about it, in particular not that it has no collisions.
\<close>

section \<open>The store\<close>

definition DEFAULT_MAX_RESOURCE_BYTES :: usize where
  "DEFAULT_MAX_RESOURCE_BYTES = 50 * 1024 * 1024"

definition DEFAULT_MAX_RESOURCE_ENTRIES :: usize where
  "DEFAULT_MAX_RESOURCE_ENTRIES = 1024"

definition DEFAULT_MAX_TOTAL_RESOURCE_BYTES :: usize where
  "DEFAULT_MAX_TOTAL_RESOURCE_BYTES = 256 * 1024 * 1024"

record resource_limits =
  max_resource_bytes :: usize
  res_max_entries :: usize
  max_total_bytes :: usize

definition default_resource_limits :: resource_limits where
  "default_resource_limits =
     \<lparr>max_resource_bytes = DEFAULT_MAX_RESOURCE_BYTES, res_max_entries = DEFAULT_MAX_RESOURCE_ENTRIES,
      max_total_bytes = DEFAULT_MAX_TOTAL_RESOURCE_BYTES\<rparr>"

datatype resource_error =
    ResourceTooLarge usize usize
  | EntryLimitExceeded usize
  | TotalBytesLimitExceeded usize

record resource_entry =
  res_hash :: resource_hash
  media_type :: string
  encoded_length :: u64
  res_bytes :: "u8 list"

record publish_outcome =
  out_hash :: resource_hash
  inserted :: bool
  out_entry :: resource_entry

record resource_store =
  res_limits :: resource_limits
  res_entries :: "(resource_hash, resource_entry) fmap"
  res_order :: "resource_hash list"
  total_bytes :: usize

definition resource_store_with_limits :: "resource_limits \<Rightarrow> resource_store" where
  "resource_store_with_limits l = \<lparr>res_limits = l, res_entries = fmempty, res_order = [], total_bytes = 0\<rparr>"

definition resource_store_new :: resource_store where
  "resource_store_new = resource_store_with_limits default_resource_limits"

definition starts_with :: "u8 list \<Rightarrow> u8 list \<Rightarrow> bool" where
  "starts_with bs needle \<longleftrightarrow> take (length needle) bs = needle"

definition infer_media_type :: "u8 list \<Rightarrow> string" where
  "infer_media_type bs =
     (if starts_with bs [0x89, 0x50, 0x4E, 0x47, 0x0D, 0x0A, 0x1A, 0x0A] then ''image/png''
      else if length bs \<ge> 3 \<and> bs ! 0 = 0xFF \<and> bs ! 1 = 0xD8 \<and> bs ! 2 = 0xFF then ''image/jpeg''
      else if starts_with bs [0x47, 0x49, 0x46, 0x38, 0x37, 0x61] \<or> starts_with bs [0x47, 0x49, 0x46, 0x38, 0x39, 0x61]
      then ''image/gif''
      else if length bs \<ge> 12 \<and> starts_with bs [0x52, 0x49, 0x46, 0x46] \<and> take 4 (drop 8 bs) = [0x57, 0x45, 0x42, 0x50]
      then ''image/webp''
      else if starts_with bs [0x42, 0x4D] then ''image/bmp''
      else ''application/octet-stream'')"

text \<open>\<open>usize::checked_add\<close> on a 64-bit target.\<close>

definition usize_checked_add :: "usize \<Rightarrow> usize \<Rightarrow> usize option" where
  "usize_checked_add a b = (if a + b < 2 ^ 64 then Some (a + b) else None)"

text \<open>
  The loop that plans the evictions over the unprotected hashes, oldest first; it returns the
  planned hashes with the number of entries and bytes that remain.
\<close>

fun plan_evictions ::
  "resource_store \<Rightarrow> usize \<Rightarrow> resource_hash list \<Rightarrow> resource_hash list \<Rightarrow> usize \<Rightarrow> usize \<Rightarrow>
   (resource_error, resource_hash list \<times> usize \<times> usize) result" where
  "plan_evictions self len [] evictions retained_entries retained_bytes =
     Ok (evictions, retained_entries, retained_bytes)"
| "plan_evictions self len (candidate # rest) evictions retained_entries retained_bytes =
     and_then (ok_or (TotalBytesLimitExceeded (max_total_bytes (res_limits self))) (usize_checked_add retained_bytes len))
       (\<lambda>next_total.
         if retained_entries < res_max_entries (res_limits self) \<and> next_total \<le> max_total_bytes (res_limits self)
         then Ok (evictions, retained_entries, retained_bytes)
         else (case fmlookup (res_entries self) candidate of
             None \<Rightarrow> Inl Panic
           | Some entry \<Rightarrow>
               plan_evictions self len rest (evictions @ [candidate]) (retained_entries - 1)
                 (retained_bytes - length (res_bytes entry))))"

text \<open>\<open>Vec::remove\<close> at the first position of the hash, and removal from the map.\<close>

definition resource_remove :: "resource_hash \<Rightarrow> resource_store \<Rightarrow> resource_store" where
  "resource_remove h self =
     (let self = self\<lparr>res_order := remove1 h (res_order self)\<rparr>
      in case fmlookup (res_entries self) h of
           None \<Rightarrow> self
         | Some entry \<Rightarrow> self\<lparr>res_entries := fmdrop h (res_entries self),
             total_bytes := total_bytes self - length (res_bytes entry)\<rparr>)"

definition publish_resource_protecting ::
  "(u8 list \<Rightarrow> resource_hash) \<Rightarrow> u8 list \<Rightarrow> resource_hash fset \<Rightarrow> resource_store \<Rightarrow>
   (resource_error, publish_outcome) result \<times> resource_store" where
  "publish_resource_protecting sha256 data protected self =
     (if length data > max_resource_bytes (res_limits self)
      then (Error (ResourceTooLarge (length data) (max_resource_bytes (res_limits self))), self)
      else
        let h = sha256 data
        in case fmlookup (res_entries self) h of
             Some existing \<Rightarrow> (Ok \<lparr>out_hash = h, inserted = False, out_entry = existing\<rparr>, self)
           | None \<Rightarrow>
               and_then_st
                 (plan_evictions self (length data) (filter (\<lambda>h. h |\<notin>| protected) (res_order self)) []
                    (fcard (fmdom (res_entries self))) (total_bytes self), self)
                 (\<lambda>(evictions, retained_entries, retained_bytes) self.
                   if retained_entries \<ge> res_max_entries (res_limits self)
                   then (Error (EntryLimitExceeded (res_max_entries (res_limits self))), self)
                   else and_then_st
                     (ok_or (TotalBytesLimitExceeded (max_total_bytes (res_limits self)))
                        (usize_checked_add retained_bytes (length data)), self)
                     (\<lambda>next_total self.
                       if next_total > max_total_bytes (res_limits self)
                       then (Error (TotalBytesLimitExceeded (max_total_bytes (res_limits self))), self)
                       else
                         let self = fold resource_remove evictions self;
                             entry = \<lparr>res_hash = h, media_type = infer_media_type data,
                               encoded_length = of_nat (length data), res_bytes = data\<rparr>
                         in (Ok \<lparr>out_hash = h, inserted = True, out_entry = entry\<rparr>,
                             self\<lparr>res_entries := fmupd h entry (res_entries self),
                               res_order := res_order self @ [h], total_bytes := next_total\<rparr>))))"

definition publish_resource ::
  "(u8 list \<Rightarrow> resource_hash) \<Rightarrow> u8 list \<Rightarrow> resource_store \<Rightarrow>
   (resource_error, publish_outcome) result \<times> resource_store" where
  "publish_resource sha256 data self = publish_resource_protecting sha256 data {||} self"

definition resource_lookup :: "resource_store \<Rightarrow> resource_hash \<Rightarrow> resource_entry option" where
  "resource_lookup self h = fmlookup (res_entries self) h"

definition resource_contains :: "resource_store \<Rightarrow> resource_hash \<Rightarrow> bool" where
  "resource_contains self h \<longleftrightarrow> h |\<in>| fmdom (res_entries self)"

definition retained_entries :: "resource_store \<Rightarrow> resource_entry list" where
  "retained_entries self = List.map_filter (fmlookup (res_entries self)) (res_order self)"

section \<open>Invariant of the store\<close>

definition bytes_of :: "(resource_hash, resource_entry) fmap \<Rightarrow> resource_hash list \<Rightarrow> nat" where
  "bytes_of es hs = (\<Sum>h \<leftarrow> hs. case fmlookup es h of None \<Rightarrow> 0 | Some e \<Rightarrow> length (res_bytes e))"

definition entry_ok :: "(u8 list \<Rightarrow> resource_hash) \<Rightarrow> resource_hash \<Rightarrow> resource_entry \<Rightarrow> bool" where
  "entry_ok sha256 h e \<longleftrightarrow> res_hash e = h \<and> sha256 (res_bytes e) = h \<and>
     media_type e = infer_media_type (res_bytes e) \<and> encoded_length e = of_nat (length (res_bytes e))"

text \<open>The order and the map list the same hashes; the running total is the sum of the lengths.\<close>

definition resources_linked :: "(u8 list \<Rightarrow> resource_hash) \<Rightarrow> resource_store \<Rightarrow> bool" where
  "resources_linked sha256 s \<longleftrightarrow>
     distinct (res_order s) \<and> set (res_order s) = fset (fmdom (res_entries s)) \<and>
     total_bytes s = bytes_of (res_entries s) (res_order s) \<and>
     (\<forall>h e. fmlookup (res_entries s) h = Some e \<longrightarrow> entry_ok sha256 h e)"

definition resources_ok :: "(u8 list \<Rightarrow> resource_hash) \<Rightarrow> resource_store \<Rightarrow> bool" where
  "resources_ok sha256 s \<longleftrightarrow> resources_linked sha256 s \<and>
     length (res_order s) \<le> res_max_entries (res_limits s) \<and> total_bytes s \<le> max_total_bytes (res_limits s) \<and>
     (\<forall>h e. fmlookup (res_entries s) h = Some e \<longrightarrow> length (res_bytes e) \<le> max_resource_bytes (res_limits s))"

lemma bytes_of_Nil [simp]: "bytes_of es [] = 0"
  by (simp add: bytes_of_def)

lemma bytes_of_Cons:
  "bytes_of es (h # hs) = (case fmlookup es h of None \<Rightarrow> 0 | Some e \<Rightarrow> length (res_bytes e)) + bytes_of es hs"
  by (simp add: bytes_of_def)

lemma bytes_of_mset:
  "bytes_of es hs = sum_mset (image_mset (\<lambda>h. case fmlookup es h of None \<Rightarrow> 0 | Some e \<Rightarrow> length (res_bytes e)) (mset hs))"
  by (simp add: bytes_of_def flip: sum_mset_sum_list)

lemma bytes_of_append [simp]: "bytes_of es (xs @ ys) = bytes_of es xs + bytes_of es ys"
  by (simp add: bytes_of_def)

lemma bytes_of_remove1:
  "h \<in> set hs \<Longrightarrow>
   bytes_of es hs = (case fmlookup es h of None \<Rightarrow> 0 | Some e \<Rightarrow> length (res_bytes e)) + bytes_of es (remove1 h hs)"
  by (induction hs) (auto simp: bytes_of_Cons)

lemma bytes_of_cong: "(\<And>h. h \<in> set hs \<Longrightarrow> fmlookup es h = fmlookup es' h) \<Longrightarrow> bytes_of es hs = bytes_of es' hs"
  by (induction hs) (auto simp: bytes_of_Cons)

lemma bytes_of_filter_le: "bytes_of es (filter P hs) \<le> bytes_of es hs"
  by (induction hs) (auto simp: bytes_of_Cons)

lemma bytes_of_partition: "bytes_of es hs = bytes_of es (filter P hs) + bytes_of es (filter (\<lambda>h. \<not> P h) hs)"
  by (induction hs) (auto simp: bytes_of_Cons)

lemma resource_store_new_ok: "resources_ok sha256 (resource_store_with_limits l)"
  by (simp add: resources_ok_def resources_linked_def resource_store_with_limits_def bytes_of_def)

section \<open>Removal\<close>

text \<open>The store without the hashes \<open>hs\<close>.\<close>

definition without :: "resource_hash list \<Rightarrow> resource_store \<Rightarrow> resource_store" where
  "without hs s = s\<lparr>res_order := filter (\<lambda>h. h \<notin> set hs) (res_order s), res_entries := fmdrop_set (set hs) (res_entries s),
     total_bytes := bytes_of (res_entries s) (filter (\<lambda>h. h \<notin> set hs) (res_order s))\<rparr>"

lemma without_linked:
  assumes "resources_linked sha256 s"
  shows "resources_linked sha256 (without hs s)"
  using assms
  by (auto simp: resources_linked_def without_def fmlookup_dom_iff split: if_splits intro!: bytes_of_cong)

lemma resource_remove_without:
  assumes "resources_linked sha256 s" "h \<in> set (res_order s)"
  shows "resource_remove h s = without [h] s"
proof -
  obtain e where e: "fmlookup (res_entries s) h = Some e"
    using assms by (auto simp: resources_linked_def fmlookup_dom_iff)
  have order: "remove1 h (res_order s) = filter (\<lambda>x. x \<notin> set [h]) (res_order s)"
    using assms(1) by (simp add: resources_linked_def distinct_remove1_removeAll removeAll_filter_not_eq)
      (metis (mono_tags, lifting))
  have "total_bytes s - length (res_bytes e) = bytes_of (res_entries s) (remove1 h (res_order s))"
    using assms bytes_of_remove1 [OF assms(2), of "res_entries s"] e by (simp add: resources_linked_def)
  then show ?thesis
    using e order by (auto simp: resource_remove_def without_def Let_def fmdrop_set_single)
qed

lemma without_without:
  "set (res_order s) = fset (fmdom (res_entries s)) \<Longrightarrow> without hs (without [h] s) = without (h # hs) s"
  using bytes_of_cong [of "filter (\<lambda>x. x \<noteq> h \<and> x \<notin> set hs) (res_order s)" "fmdrop h (res_entries s)" "res_entries s"]
  by (simp add: without_def)

lemma remove_all:
  assumes "resources_linked sha256 s" "distinct hs" "set hs \<subseteq> set (res_order s)"
  shows "fold resource_remove hs s = without hs s"
  using assms
proof (induction hs arbitrary: s)
  case Nil
  then show ?case by (simp add: without_def resources_linked_def)
next
  case (Cons h hs)
  have "resource_remove h s = without [h] s" using Cons.prems by (auto intro: resource_remove_without)
  moreover have "set hs \<subseteq> set (res_order (without [h] s))" using Cons.prems by (auto simp: without_def)
  ultimately show ?case
    using Cons.IH [OF without_linked [OF Cons.prems(1)]] Cons.prems
    by (simp add: without_without resources_linked_def)
qed

section \<open>The eviction plan\<close>

text \<open>Room for a payload of length \<open>len\<close> in a store that retains \<open>n\<close> entries of \<open>b\<close> bytes.\<close>

definition room :: "resource_limits \<Rightarrow> usize \<Rightarrow> nat \<Rightarrow> nat \<Rightarrow> bool" where
  "room l len n b \<longleftrightarrow> n < res_max_entries l \<and> b + len \<le> max_total_bytes l"

lemma plan_evictions_spec:
  assumes "distinct cs" "set cs \<subseteq> fset (fmdom (res_entries s))" "length cs \<le> n"
    and "bytes_of (res_entries s) cs \<le> b" "b + len < 2 ^ 64"
  shows "\<exists>k \<le> length cs. plan_evictions s len cs ev n b =
      Ok (ev @ take k cs, n - k, b - bytes_of (res_entries s) (take k cs)) \<and>
    (\<forall>j < k. \<not> room (res_limits s) len (n - j) (b - bytes_of (res_entries s) (take j cs))) \<and>
    (k = length cs \<or> room (res_limits s) len (n - k) (b - bytes_of (res_entries s) (take k cs)))"
  using assms
proof (induction cs arbitrary: ev n b)
  case (Cons c cs)
  obtain e where e: "fmlookup (res_entries s) c = Some e" using Cons.prems(2) by (auto simp: fmlookup_dom_iff)
  show ?case
  proof (cases "room (res_limits s) len n b")
    case True
    then have "plan_evictions s len (c # cs) ev n b = Ok (ev, n, b)"
      using Cons.prems(5) by (simp add: usize_checked_add_def room_def)
    with True show ?thesis by (intro exI [of _ 0]) simp
  next
    case False
    let ?b = "b - length (res_bytes e)"
    have step: "plan_evictions s len (c # cs) ev n b = plan_evictions s len cs (ev @ [c]) (n - 1) ?b"
      using Cons.prems(5) False e by (auto simp: usize_checked_add_def room_def)
    have pre: "distinct cs" "set cs \<subseteq> fset (fmdom (res_entries s))" "length cs \<le> n - 1"
      "bytes_of (res_entries s) cs \<le> ?b" "?b + len < 2 ^ 64"
      using Cons.prems e by (simp_all add: bytes_of_Cons)
    obtain k where k: "k \<le> length cs" "plan_evictions s len cs (ev @ [c]) (n - 1) ?b =
        Ok (ev @ [c] @ take k cs, n - 1 - k, ?b - bytes_of (res_entries s) (take k cs))"
      "\<forall>j < k. \<not> room (res_limits s) len (n - 1 - j) (?b - bytes_of (res_entries s) (take j cs))"
      "k = length cs \<or> room (res_limits s) len (n - 1 - k) (?b - bytes_of (res_entries s) (take k cs))"
      using Cons.IH [OF pre, of "ev @ [c]"] by (auto simp: append_assoc)
    have bytes: "b - bytes_of (res_entries s) (take (Suc j) (c # cs)) = ?b - bytes_of (res_entries s) (take j cs)" for j
      using e by (simp add: bytes_of_Cons)
    have "\<forall>j < Suc k. \<not> room (res_limits s) len (n - j) (b - bytes_of (res_entries s) (take j (c # cs)))"
      using False k(3) by (auto simp: less_Suc_eq_0_disj bytes simp del: take_Suc_Cons)
    with k step show ?thesis by (intro exI [of _ "Suc k"]) (simp add: bytes_of_Cons e)
  qed
qed simp

lemma plan_evictions_overflow:
  assumes "2 ^ 64 \<le> b + len"
  shows "plan_evictions s len cs ev n b = Ok (ev, n, b) \<or> (\<exists>e. plan_evictions s len cs ev n b = Error e)"
  using assms by (cases cs) (simp_all add: usize_checked_add_def)

section \<open>Publication\<close>

definition new_entry :: "resource_hash \<Rightarrow> u8 list \<Rightarrow> resource_entry" where
  "new_entry h data = \<lparr>res_hash = h, media_type = infer_media_type data,
     encoded_length = of_nat (length data), res_bytes = data\<rparr>"

text \<open>The store after eviction of \<open>hs\<close> and insertion of new content.\<close>

definition published :: "resource_hash \<Rightarrow> u8 list \<Rightarrow> resource_hash list \<Rightarrow> resource_store \<Rightarrow> resource_store" where
  "published h data hs s = (let t = without hs s in t\<lparr>res_entries := fmupd h (new_entry h data) (res_entries t),
     res_order := res_order t @ [h], total_bytes := total_bytes t + length data\<rparr>)"

definition evictable :: "resource_hash fset \<Rightarrow> resource_store \<Rightarrow> resource_hash list" where
  "evictable protected s = filter (\<lambda>h. h |\<notin>| protected) (res_order s)"

text \<open>Room after the \<open>k\<close> oldest unprotected entries are gone.\<close>

definition room_after :: "resource_hash fset \<Rightarrow> usize \<Rightarrow> resource_store \<Rightarrow> nat \<Rightarrow> bool" where
  "room_after protected len s k \<longleftrightarrow>
     room (res_limits s) len (length (res_order s) - k)
       (total_bytes s - bytes_of (res_entries s) (take k (evictable protected s)))"

lemma card_entries: "resources_linked sha256 s \<Longrightarrow> fcard (fmdom (res_entries s)) = length (res_order s)"
  by (metis resources_linked_def distinct_card fcard.rep_eq)

lemma without_bytes:
  assumes "resources_linked sha256 s" "distinct hs" "set hs \<subseteq> set (res_order s)"
  shows "total_bytes (without hs s) = total_bytes s - bytes_of (res_entries s) hs \<and>
    length (res_order (without hs s)) = length (res_order s) - length hs"
proof -
  let ?in = "filter (\<lambda>h. h \<in> set hs) (res_order s)"
  have "mset ?in = mset hs"
    using assms by (intro set_eq_iff_mset_eq_distinct [THEN iffD1]) (auto simp: resources_linked_def)
  then have "bytes_of (res_entries s) ?in = bytes_of (res_entries s) hs" "length ?in = length hs"
    by (simp_all only: bytes_of_mset flip: size_mset)
  then show ?thesis
    using assms(1) bytes_of_partition [of "res_entries s" "res_order s" "\<lambda>h. h \<in> set hs"]
      sum_length_filter_compl [of "\<lambda>h. h \<in> set hs" "res_order s"]
    by (simp add: without_def resources_linked_def)
qed

lemma evictable_props:
  assumes "resources_linked sha256 s"
  shows "distinct (evictable P s)" "set (evictable P s) \<subseteq> set (res_order s)"
    "length (evictable P s) \<le> length (res_order s)" "bytes_of (res_entries s) (evictable P s) \<le> total_bytes s"
  using assms bytes_of_filter_le [of "res_entries s"] by (auto simp: evictable_def resources_linked_def)

lemma publish_new:
  assumes "resources_linked sha256 s" "length data \<le> max_resource_bytes (res_limits s)"
    and "fmlookup (res_entries s) (sha256 data) = None" "total_bytes s + length data < 2 ^ 64"
  shows "\<exists>k \<le> length (evictable P s). (\<forall>j < k. \<not> room_after P (length data) s j) \<and>
    (if room_after P (length data) s k
     then publish_resource_protecting sha256 data P s =
       (Ok \<lparr>out_hash = sha256 data, inserted = True, out_entry = new_entry (sha256 data) data\<rparr>,
        published (sha256 data) data (take k (evictable P s)) s)
     else k = length (evictable P s) \<and> (\<exists>e. publish_resource_protecting sha256 data P s = (Error e, s)))"
proof -
  let ?n = "length (res_order s)" and ?l = "length data" and ?es = "res_entries s"
  note D = evictable_props [OF assms(1), of P]
  have sub: "set (evictable P s) \<subseteq> fset (fmdom (res_entries s))" using D(2) assms(1) by (simp add: resources_linked_def)
  obtain k where k: "k \<le> length (evictable P s)" "plan_evictions s ?l (evictable P s) [] ?n (total_bytes s) =
      Ok (take k (evictable P s), ?n - k, total_bytes s - bytes_of ?es (take k (evictable P s)))"
    "\<forall>j < k. \<not> room_after P ?l s j" "k = length (evictable P s) \<or> room_after P ?l s k"
    using plan_evictions_spec [OF D(1) sub D(3,4) assms(4), of "[]"] by (auto simp: room_after_def)
  let ?hs = "take k (evictable P s)"
  have hs: "distinct ?hs" "set ?hs \<subseteq> set (res_order s)" using D by (auto dest: in_set_takeD)
  have removed: "fold resource_remove ?hs s = without ?hs s" by (rule remove_all [OF assms(1) hs])
  have total: "total_bytes s - bytes_of ?es ?hs = total_bytes (without ?hs s)"
    using without_bytes [OF assms(1) hs] by simp
  have run: "publish_resource_protecting sha256 data P s =
     (if ?n - k \<ge> res_max_entries (res_limits s)
      then (Error (EntryLimitExceeded (res_max_entries (res_limits s))), s)
      else if total_bytes s - bytes_of ?es ?hs + ?l > max_total_bytes (res_limits s)
      then (Error (TotalBytesLimitExceeded (max_total_bytes (res_limits s))), s)
      else (Ok \<lparr>out_hash = sha256 data, inserted = True, out_entry = new_entry (sha256 data) data\<rparr>,
        published (sha256 data) data ?hs s))"
    using assms(2-4) k(2) card_entries [OF assms(1)] removed total
    by (auto simp: publish_resource_protecting_def evictable_def [symmetric] usize_checked_add_def published_def
        new_entry_def without_def Let_def)
  show ?thesis
    by (intro exI [of _ k] conjI k(1,3)) (use k(4) in \<open>auto simp: run room_after_def room_def\<close>)
qed

lemma publish_cases:
  assumes "resources_linked sha256 s"
  obtains (rejected) e where "publish_resource_protecting sha256 data P s = (Error e, s)"
  | (known) e where "fmlookup (res_entries s) (sha256 data) = Some e"
      "publish_resource_protecting sha256 data P s =
        (Ok \<lparr>out_hash = sha256 data, inserted = False, out_entry = e\<rparr>, s)"
  | (stored) k where "fmlookup (res_entries s) (sha256 data) = None" "k \<le> length (evictable P s)"
      "length data \<le> max_resource_bytes (res_limits s)"
      "\<forall>j < k. \<not> room_after P (length data) s j" "room_after P (length data) s k"
      "publish_resource_protecting sha256 data P s =
        (Ok \<lparr>out_hash = sha256 data, inserted = True, out_entry = new_entry (sha256 data) data\<rparr>,
         published (sha256 data) data (take k (evictable P s)) s)"
proof -
  consider (large) "length data > max_resource_bytes (res_limits s)"
    | (found) e where "length data \<le> max_resource_bytes (res_limits s)" "fmlookup (res_entries s) (sha256 data) = Some e"
    | (new) "length data \<le> max_resource_bytes (res_limits s)" "fmlookup (res_entries s) (sha256 data) = None"
    by (cases "fmlookup (res_entries s) (sha256 data)") (auto simp: not_le [symmetric])
  then show thesis
  proof cases
    case large
    then show thesis by (intro rejected) (simp add: publish_resource_protecting_def)
  next
    case found
    then show thesis by (intro known) (auto simp: publish_resource_protecting_def Let_def)
  next
    case new
    show thesis
    proof (cases "total_bytes s + length data < 2 ^ 64")
      case True
      from publish_new [OF assms new True, of P] show thesis using new rejected stored by metis
    next
      case False
      then have "\<exists>e. publish_resource_protecting sha256 data P s = (Error e, s)"
        using new plan_evictions_overflow [of "total_bytes s" "length data" s
          "filter (\<lambda>h. h |\<notin>| P) (res_order s)" "[]" "fcard (fmdom (res_entries s))"]
        by (auto simp: publish_resource_protecting_def usize_checked_add_def Let_def)
      then show thesis using rejected by blast
    qed
  qed
qed

lemma published_ok:
  assumes "resources_ok sha256 s" "fmlookup (res_entries s) (sha256 data) = None"
    and "k \<le> length (evictable P s)" "room_after P (length data) s k"
    and "length data \<le> max_resource_bytes (res_limits s)"
  shows "resources_ok sha256 (published (sha256 data) data (take k (evictable P s)) s)"
proof -
  let ?hs = "take k (evictable P s)" and ?h = "sha256 data"
  let ?t = "without ?hs s"
  from assms(1) have L: "resources_linked sha256 s" by (simp add: resources_ok_def)
  note D = evictable_props [OF L, of P]
  have hs: "distinct ?hs" "set ?hs \<subseteq> set (res_order s)" using D by (auto dest: in_set_takeD)
  have T: "resources_linked sha256 ?t" by (rule without_linked [OF L])
  have fresh: "?h \<notin> set (res_order ?t)" "?h \<notin> set (res_order s)"
    using assms(2) L by (auto simp: resources_linked_def without_def fmdom_notI fmlookup_dom_iff)
  have same: "bytes_of (fmupd ?h (new_entry ?h data) (res_entries ?t)) (res_order ?t) = bytes_of (res_entries ?t) (res_order ?t)"
    using fresh(1) by (intro bytes_of_cong) auto
  have "resources_linked sha256 (published ?h data ?hs s)"
    using T fresh same
    by (auto simp: resources_linked_def published_def Let_def bytes_of_Cons new_entry_def entry_ok_def split: if_splits)
  moreover have "length (res_order ?t) < res_max_entries (res_limits s)"
    "total_bytes ?t + length data \<le> max_total_bytes (res_limits s)"
    using assms(3,4) without_bytes [OF L hs] by (simp_all add: room_after_def room_def min_def)
  ultimately show ?thesis
    using assms(1,5)
    by (auto simp: resources_ok_def published_def Let_def without_def new_entry_def split: if_splits)
qed

lemma publish_keeps:
  assumes "resources_ok sha256 s"
  shows "resources_ok sha256 (snd (publish_resource_protecting sha256 data protected s)) \<and>
    ((\<exists>out. fst (publish_resource_protecting sha256 data protected s) = Ok out) \<or>
     (\<exists>e. publish_resource_protecting sha256 data protected s = (Error e, s)))"
proof -
  from assms have "resources_linked sha256 s" by (simp add: resources_ok_def)
  then show ?thesis
  proof (cases rule: publish_cases [of sha256 s data protected])
    case (stored k)
    then show ?thesis using published_ok [OF assms stored(1,2,5,3)] by simp
  qed (use assms in simp_all)
qed

section \<open>Properties of the store\<close>

text \<open>
  Publication keeps the invariant of the content-addressed store: every retained entry is
  stored under the digest of its bytes with its length and media type, the order lists each
  hash once, the running total is the sum of the lengths, and all three limits hold.  It never
  panics, and a failed publication leaves the store unchanged.
\<close>

theorem publish_invariant:
  assumes "resources_ok sha256 s" "publish_resource_protecting sha256 data protected s = (r, s')"
  shows "resources_ok sha256 s' \<and> ((\<exists>out. r = Ok out) \<or> (\<exists>e. r = Error e) \<and> s' = s)"
  using publish_keeps [OF assms(1), of data protected] assms(2) by auto

definition small_limits :: resource_limits where
  "small_limits = \<lparr>max_resource_bytes = 4, res_max_entries = 2, max_total_bytes = 6\<rparr>"

definition pad_hash :: "u8 list \<Rightarrow> resource_hash" where
  "pad_hash bs = take 32 (of_nat (length bs) # bs @ replicate 32 0)"

theorem publish_invariant_witness:
  "resources_ok pad_hash (snd (publish_resource_protecting pad_hash [1, 2] {||} (resource_store_with_limits small_limits)))"
  using publish_invariant [OF resource_store_new_ok, of pad_hash "[1, 2]" "{||}" small_limits]
  by (metis prod.collapse)

text \<open>
  C18: Publication of content that is not retained yet evicts the oldest unprotected entries, as
  few as make room: no shorter eviction would do, protected and younger entries stay as they
  are, and the new content is found under its digest, last in the order.  When no eviction of
  unprotected entries makes room the publication is rejected.
\<close>

theorem publish_evicts_minimally:
  assumes "resources_ok sha256 s" "length data \<le> max_resource_bytes (res_limits s)"
    and "\<not> resource_contains s (sha256 data)" "total_bytes s + length data < 2 ^ 64"
    and "publish_resource_protecting sha256 data protected s = (r, s')"
  shows "if \<exists>k \<le> length (evictable protected s). room_after protected (length data) s k
    then \<exists>k \<le> length (evictable protected s).
      room_after protected (length data) s k \<and> (\<forall>j < k. \<not> room_after protected (length data) s j) \<and>
      (\<exists>out. r = Ok out \<and> inserted out) \<and>
      res_order s' = filter (\<lambda>h. h \<notin> set (take k (evictable protected s))) (res_order s) @ [sha256 data] \<and>
      map_option res_bytes (resource_lookup s' (sha256 data)) = Some data \<and>
      (\<forall>h. h \<noteq> sha256 data \<longrightarrow> h \<notin> set (take k (evictable protected s)) \<longrightarrow> resource_lookup s' h = resource_lookup s h)
    else (\<exists>e. r = Error e) \<and> s' = s"
proof -
  let ?ev = "evictable protected s" and ?room = "room_after protected (length data) s"
  from assms(1) have L: "resources_linked sha256 s" by (simp add: resources_ok_def)
  have none: "fmlookup (res_entries s) (sha256 data) = None" using assms(3) by (simp add: resource_contains_def fmdom_notD)
  obtain k where k: "k \<le> length ?ev" "\<forall>j < k. \<not> ?room j"
    and run: "if ?room k
       then publish_resource_protecting sha256 data protected s =
         (Ok \<lparr>out_hash = sha256 data, inserted = True, out_entry = new_entry (sha256 data) data\<rparr>,
          published (sha256 data) data (take k ?ev) s)
       else k = length ?ev \<and> (\<exists>e. publish_resource_protecting sha256 data protected s = (Error e, s))"
    using publish_new [OF L assms(2) none assms(4)] by blast
  show ?thesis
  proof (cases "?room k")
    case True
    with run assms(5) have r: "r = Ok \<lparr>out_hash = sha256 data, inserted = True, out_entry = new_entry (sha256 data) data\<rparr>"
      "s' = published (sha256 data) data (take k ?ev) s" by simp_all
    have "\<exists>k \<le> length ?ev. ?room k" using k True by blast
    moreover have "res_order s' = filter (\<lambda>h. h \<notin> set (take k ?ev)) (res_order s) @ [sha256 data]"
      "map_option res_bytes (resource_lookup s' (sha256 data)) = Some data"
      "\<forall>h. h \<noteq> sha256 data \<longrightarrow> h \<notin> set (take k ?ev) \<longrightarrow> resource_lookup s' h = resource_lookup s h"
      by (simp_all add: r published_def without_def Let_def resource_lookup_def new_entry_def)
    ultimately show ?thesis using k True r(1) by (simp only: if_True) (intro exI [of _ k] conjI; simp)
  next
    case False
    then have "\<not> (\<exists>k \<le> length ?ev. ?room k)" using k run by (metis (full_types) le_neq_implies_less)
    then show ?thesis unfolding if_not_P [OF \<open>\<not> (\<exists>k \<le> length ?ev. ?room k)\<close>] using False run assms(5) by auto
  qed
qed

definition two_resources :: resource_store where
  "two_resources = snd (publish_resource pad_hash [2] (snd (publish_resource pad_hash [1] (resource_store_with_limits small_limits))))"

lemma two_resources_ok: "resources_ok pad_hash two_resources"
  by (simp add: two_resources_def publish_resource_def publish_keeps resource_store_new_ok)

lemmas publish_eval = publish_resource_def publish_resource_protecting_def small_limits_def
  resource_store_with_limits_def pad_hash_def usize_checked_add_def infer_media_type_def starts_with_def
  fcard_finsert_if fcard_fempty Let_def

theorem publish_evicts_minimally_witness:
  "resource_lookup (snd (publish_resource_protecting pad_hash [3] {|pad_hash [1]|} two_resources)) (pad_hash [1]) =
   resource_lookup two_resources (pad_hash [1])"
proof -
  let ?P = "{|pad_hash [1]|}"
  have two: "res_order two_resources = [pad_hash [1], pad_hash [2]]" "total_bytes two_resources = 2"
    "res_limits two_resources = small_limits" "\<not> resource_contains two_resources (pad_hash [3])"
    by (simp_all add: two_resources_def publish_eval resource_contains_def)
  have "1 \<le> length (evictable ?P two_resources)" "room_after ?P 1 two_resources 1"
    by (simp_all add: evictable_def two room_after_def room_def small_limits_def) (simp add: pad_hash_def)
  moreover have "pad_hash [1] \<noteq> pad_hash [3]" by (simp add: pad_hash_def)
  moreover have "pad_hash [1] \<notin> set (take k (evictable ?P two_resources))" for k
    by (auto simp: evictable_def dest: in_set_takeD)
  ultimately show ?thesis
    using publish_evicts_minimally [OF two_resources_ok, of "[3]" ?P] two(2,3,4)
    by (cases "publish_resource_protecting pad_hash [3] ?P two_resources") (auto simp: small_limits_def split: if_splits)
qed

end
