(* ===== verification/Resource_Transfer.thy ===== *)
theory Resource_Transfer
  imports Resources
begin

text \<open>
  Chunked delivery of resources: the chunk iterator of \<^verbatim>\<open>resources/src/chunk.rs\<close> and the
  transfer queue of a connection, \<^verbatim>\<open>sessiond/src/outbound/resource.rs\<close>.
\<close>

section \<open>Chunks\<close>

definition CHUNK_PAYLOAD_SIZE :: usize where
  "CHUNK_PAYLOAD_SIZE = 16384"

record resource_chunk_view =
  byte_offset :: u64
  chunk_data :: "u8 list"

record resource_chunk_iter =
  iter_bytes :: "u8 list"
  iter_offset :: usize

definition chunk_iter_new :: "u8 list \<Rightarrow> resource_chunk_iter" where
  "chunk_iter_new bs = \<lparr>iter_bytes = bs, iter_offset = 0\<rparr>"

definition chunk_next :: "resource_chunk_iter \<Rightarrow> resource_chunk_view option \<times> resource_chunk_iter" where
  "chunk_next self =
     (if iter_offset self \<ge> length (iter_bytes self) then (None, self)
      else let start = iter_offset self;
               stop = min (start + CHUNK_PAYLOAD_SIZE) (length (iter_bytes self));
               data = take (stop - start) (drop start (iter_bytes self))
           in (Some \<lparr>byte_offset = of_nat start, chunk_data = data\<rparr>, self\<lparr>iter_offset := stop\<rparr>))"

text \<open>\<open>Iterator::collect\<close>.\<close>

function chunk_collect :: "resource_chunk_iter \<Rightarrow> resource_chunk_view list" where
  "chunk_collect self =
     (case chunk_next self of (None, _) \<Rightarrow> [] | (Some view, self') \<Rightarrow> view # chunk_collect self')"
  by pat_completeness auto
termination
  by (relation "measure (\<lambda>self. length (iter_bytes self) - iter_offset self)")
    (auto simp: chunk_next_def CHUNK_PAYLOAD_SIZE_def Let_def split: if_splits)

declare chunk_collect.simps [simp del]

definition chunk_payloads :: "u8 list \<Rightarrow> resource_chunk_view list" where
  "chunk_payloads bs = chunk_collect (chunk_iter_new bs)"

section \<open>The transfer queue\<close>

datatype resource_outbound_frame =
    FMetadata resource_hash string u64
  | FChunk resource_hash u64 "u8 list"

record active_transfer =
  act_hash :: resource_hash
  act_media_type :: string
  act_bytes :: "u8 list"
  metadata_sent :: bool
  next_offset :: usize

definition from_entry :: "resource_entry \<Rightarrow> active_transfer" where
  "from_entry entry = \<lparr>act_hash = res_hash entry, act_media_type = media_type entry, act_bytes = res_bytes entry,
     metadata_sent = False, next_offset = 0\<rparr>"

text \<open>
  The metadata message carries the hash, the media type and the length; its other fields are
  constants.  The debug assertion of the source is a panic.
\<close>

definition next_frame :: "active_transfer \<Rightarrow> (unit, resource_outbound_frame) result \<times> active_transfer" where
  "next_frame self =
     (if \<not> metadata_sent self
      then (Ok (FMetadata (act_hash self) (act_media_type self) (of_nat (length (act_bytes self)))),
            self\<lparr>metadata_sent := True\<rparr>)
      else if \<not> next_offset self < length (act_bytes self) then (Inl Panic, self)
      else let start = next_offset self;
               stop = min (start + CHUNK_PAYLOAD_SIZE) (length (act_bytes self));
               data = take (stop - start) (drop start (act_bytes self))
           in (Ok (FChunk (act_hash self) (of_nat start) data), self\<lparr>next_offset := stop\<rparr>))"

definition is_complete :: "active_transfer \<Rightarrow> bool" where
  "is_complete self \<longleftrightarrow> metadata_sent self \<and> next_offset self \<ge> length (act_bytes self)"

record resource_transfer_queue =
  pending :: "resource_entry list"
  active :: "active_transfer option"

definition transfer_queue_default :: resource_transfer_queue where
  "transfer_queue_default = \<lparr>pending = [], active = None\<rparr>"

definition transfer_clear :: "resource_transfer_queue \<Rightarrow> resource_transfer_queue" where
  "transfer_clear self = self\<lparr>pending := [], active := None\<rparr>"

definition enqueue :: "resource_entry \<Rightarrow> resource_transfer_queue \<Rightarrow> resource_transfer_queue" where
  "enqueue entry self =
     (if (case active self of None \<Rightarrow> False | Some a \<Rightarrow> act_hash a = res_hash entry) then self
      else if list_ex (\<lambda>p. res_hash p = res_hash entry) (pending self) then self
      else self\<lparr>pending := pending self @ [entry]\<rparr>)"

definition has_work :: "resource_transfer_queue \<Rightarrow> bool" where
  "has_work self \<longleftrightarrow> active self \<noteq> None \<or> pending self \<noteq> []"

text \<open>The rest of \<open>pop_frame\<close>, once a transfer is active.\<close>

definition advance ::
  "active_transfer \<Rightarrow> resource_transfer_queue \<Rightarrow>
   (unit, resource_outbound_frame option) result \<times> resource_transfer_queue" where
  "advance a self =
     (case next_frame a of (r, a') \<Rightarrow>
        and_then_st (r, self\<lparr>active := Some a'\<rparr>) (\<lambda>frame self.
          (Ok (Some frame), if is_complete a' then self\<lparr>active := None\<rparr> else self)))"

definition pop_frame ::
  "resource_transfer_queue \<Rightarrow> (unit, resource_outbound_frame option) result \<times> resource_transfer_queue" where
  "pop_frame self =
     (case active self of
        Some a \<Rightarrow> advance a self
      | None \<Rightarrow>
          (case pending self of
             [] \<Rightarrow> (Ok None, self)
           | next # rest \<Rightarrow> advance (from_entry next) (self\<lparr>pending := rest\<rparr>)))"

section \<open>The frames of a resource\<close>

definition chunk_frames :: "resource_hash \<Rightarrow> u8 list \<Rightarrow> usize \<Rightarrow> resource_outbound_frame list" where
  "chunk_frames h bs off =
     map (\<lambda>v. FChunk h (byte_offset v) (chunk_data v)) (chunk_collect \<lparr>iter_bytes = bs, iter_offset = off\<rparr>)"

definition entry_frames :: "resource_entry \<Rightarrow> resource_outbound_frame list" where
  "entry_frames e = FMetadata (res_hash e) (media_type e) (of_nat (length (res_bytes e))) #
     map (\<lambda>v. FChunk (res_hash e) (byte_offset v) (chunk_data v)) (chunk_payloads (res_bytes e))"

definition active_frames :: "active_transfer \<Rightarrow> resource_outbound_frame list" where
  "active_frames a = (if metadata_sent a then [] else [FMetadata (act_hash a) (act_media_type a) (of_nat (length (act_bytes a)))]) @
     chunk_frames (act_hash a) (act_bytes a) (next_offset a)"

definition frames_left :: "resource_transfer_queue \<Rightarrow> resource_outbound_frame list" where
  "frames_left q = (case active q of None \<Rightarrow> [] | Some a \<Rightarrow> active_frames a) @ concat (map entry_frames (pending q))"

definition transfer_ok :: "resource_transfer_queue \<Rightarrow> bool" where
  "transfer_ok q \<longleftrightarrow> (case active q of None \<Rightarrow> True | Some a \<Rightarrow> \<not> is_complete a) \<and>
     distinct (map res_hash (pending q)) \<and>
     (case active q of None \<Rightarrow> True | Some a \<Rightarrow> act_hash a \<notin> res_hash ` set (pending q))"

lemma chunk_frames_unfold:
  "chunk_frames h bs off =
     (if off \<ge> length bs then []
      else FChunk h (of_nat off) (take CHUNK_PAYLOAD_SIZE (drop off bs)) #
        chunk_frames h bs (min (off + CHUNK_PAYLOAD_SIZE) (length bs)))"
proof -
  have "take (min (off + n) (length bs) - off) (drop off bs) = take n (drop off bs)" for n by (auto simp: min_def)
  then show ?thesis
    unfolding chunk_frames_def by (subst chunk_collect.simps) (auto simp: chunk_next_def Let_def)
qed

lemma chunk_frames_done: "length bs \<le> off \<Longrightarrow> chunk_frames h bs off = []"
  by (simp add: chunk_frames_unfold)

lemma from_entry_frames: "active_frames (from_entry e) = entry_frames e"
  by (simp add: active_frames_def from_entry_def entry_frames_def chunk_frames_def chunk_payloads_def chunk_iter_new_def)

lemma from_entry_incomplete: "\<not> is_complete (from_entry e)"
  by (simp add: from_entry_def is_complete_def)

lemma next_frame_step:
  assumes "\<not> is_complete a"
  obtains f a' where "next_frame a = (Ok f, a')" "active_frames a = f # active_frames a'" "act_hash a' = act_hash a"
    "is_complete a' \<Longrightarrow> active_frames a' = []"
proof (cases "metadata_sent a")
  case False
  show thesis
    by (rule that [of _ "a\<lparr>metadata_sent := True\<rparr>"])
      (use False in \<open>simp_all add: next_frame_def active_frames_def is_complete_def chunk_frames_unfold\<close>)
next
  case True
  with assms have off: "next_offset a < length (act_bytes a)" by (simp add: is_complete_def)
  let ?o = "next_offset a" and ?bs = "act_bytes a"
  let ?next = "a\<lparr>next_offset := min (?o + CHUNK_PAYLOAD_SIZE) (length ?bs)\<rparr>"
  have data: "take (min (?o + n) (length ?bs) - ?o) (drop ?o ?bs) = take n (drop ?o ?bs)" for n by (auto simp: min_def)
  show thesis
  proof (rule that [of "FChunk (act_hash a) (of_nat ?o) (take CHUNK_PAYLOAD_SIZE (drop ?o ?bs))" ?next])
    show "next_frame a = (Ok (FChunk (act_hash a) (of_nat ?o) (take CHUNK_PAYLOAD_SIZE (drop ?o ?bs))), ?next)"
      using True off by (simp add: next_frame_def Let_def data)
    show "active_frames a = FChunk (act_hash a) (of_nat ?o) (take CHUNK_PAYLOAD_SIZE (drop ?o ?bs)) # active_frames ?next"
      using True off chunk_frames_unfold [of "act_hash a" ?bs ?o] by (simp add: active_frames_def)
    show "active_frames ?next = []" if "is_complete ?next"
      using that by (simp add: active_frames_def is_complete_def chunk_frames_done)
  qed simp
qed

lemma advance_step:
  assumes "\<not> is_complete a" "act_hash a \<notin> res_hash ` set (pending q)" "distinct (map res_hash (pending q))"
  obtains f q' where "advance a q = (Ok (Some f), q')" "transfer_ok q'"
    "active_frames a @ concat (map entry_frames (pending q)) = f # frames_left q'"
proof -
  obtain f a' where f: "next_frame a = (Ok f, a')" "active_frames a = f # active_frames a'" "act_hash a' = act_hash a"
    "is_complete a' \<Longrightarrow> active_frames a' = []"
    by (rule next_frame_step [OF assms(1)]) blast
  show thesis
    by (rule that [of f "q\<lparr>active := (if is_complete a' then None else Some a')\<rparr>"])
      (use assms f in \<open>auto simp: advance_def transfer_ok_def frames_left_def\<close>)
qed

lemma pop_frame_step:
  assumes "transfer_ok q"
  shows "case frames_left q of
      [] \<Rightarrow> pop_frame q = (Ok None, q)
    | f # fs \<Rightarrow> \<exists>q'. pop_frame q = (Ok (Some f), q') \<and> transfer_ok q' \<and> frames_left q' = fs"
proof (cases "active q")
  case (Some a)
  from assms Some have a: "\<not> is_complete a" "act_hash a \<notin> res_hash ` set (pending q)" "distinct (map res_hash (pending q))"
    by (simp_all add: transfer_ok_def)
  obtain f q' where "advance a q = (Ok (Some f), q')" "transfer_ok q'"
    "active_frames a @ concat (map entry_frames (pending q)) = f # frames_left q'"
    by (rule advance_step [OF a])
  with Some show ?thesis by (simp add: pop_frame_def frames_left_def [of q])
next
  case None
  show ?thesis
  proof (cases "pending q")
    case (Cons e es)
    let ?q = "q\<lparr>pending := es\<rparr>"
    have "act_hash (from_entry e) \<notin> res_hash ` set (pending ?q)" "distinct (map res_hash (pending ?q))"
      using assms Cons by (simp_all add: transfer_ok_def from_entry_def)
    then obtain f q' where "advance (from_entry e) ?q = (Ok (Some f), q')" "transfer_ok q'"
      "active_frames (from_entry e) @ concat (map entry_frames (pending ?q)) = f # frames_left q'"
      by (rule advance_step [OF from_entry_incomplete])
    with None Cons show ?thesis by (simp add: pop_frame_def frames_left_def [of q] from_entry_frames)
  qed (use None in \<open>simp add: pop_frame_def frames_left_def\<close>)
qed

text \<open>An entry is accepted unless its hash is queued or in transfer already.\<close>

definition queued :: "resource_transfer_queue \<Rightarrow> resource_hash \<Rightarrow> bool" where
  "queued q h \<longleftrightarrow> (\<exists>a. active q = Some a \<and> act_hash a = h) \<or> (\<exists>p \<in> set (pending q). res_hash p = h)"

lemma enqueue_eq: "enqueue e q = (if queued q (res_hash e) then q else q\<lparr>pending := pending q @ [e]\<rparr>)"
  by (auto simp: enqueue_def queued_def list_ex_iff split: option.splits)

lemma enqueue_step:
  assumes "transfer_ok q"
  shows "transfer_ok (enqueue e q) \<and>
    frames_left (enqueue e q) = frames_left q @ (if queued q (res_hash e) then [] else entry_frames e)"
  using assms by (auto simp: enqueue_eq transfer_ok_def frames_left_def queued_def split: option.splits)

lemma has_work_iff: "transfer_ok q \<Longrightarrow> has_work q \<longleftrightarrow> frames_left q \<noteq> []"
  by (auto simp: has_work_def frames_left_def transfer_ok_def active_frames_def entry_frames_def is_complete_def
      chunk_frames_unfold split: option.splits)

section \<open>Interleavings\<close>

datatype transfer_action = Enqueue resource_entry | PopFrame

text \<open>
  A run of the queue: the frames that have been sent, the entries that have been accepted, and
  the queue that is left; \<open>None\<close> when an operation panics.
\<close>

fun transfer_run ::
  "transfer_action list \<Rightarrow> resource_transfer_queue \<Rightarrow>
   (resource_outbound_frame list \<times> resource_entry list \<times> resource_transfer_queue) option" where
  "transfer_run [] q = Some ([], [], q)"
| "transfer_run (Enqueue e # acts) q =
     map_option (\<lambda>(fs, es, q'). (fs, if queued q (res_hash e) then es else e # es, q')) (transfer_run acts (enqueue e q))"
| "transfer_run (PopFrame # acts) q =
     (case pop_frame q of
        (Inl _, _) \<Rightarrow> None
      | (Inr None, q') \<Rightarrow> transfer_run acts q'
      | (Inr (Some f), q') \<Rightarrow> map_option (\<lambda>(fs, es, q''). (f # fs, es, q'')) (transfer_run acts q'))"

lemma transfer_run_spec:
  "transfer_ok q \<Longrightarrow> \<exists>fs es q'. transfer_run acts q = Some (fs, es, q') \<and> transfer_ok q' \<and>
     fs @ frames_left q' = frames_left q @ concat (map entry_frames es)"
proof (induction acts q rule: transfer_run.induct)
  case (2 e acts q)
  from enqueue_step [OF "2.prems"] obtain fs es q' where "transfer_run acts (enqueue e q) = Some (fs, es, q')" "transfer_ok q'"
    "fs @ frames_left q' = frames_left q @ (if queued q (res_hash e) then [] else entry_frames e) @ concat (map entry_frames es)"
    using "2.IH" by auto
  then show ?case by auto
next
  case (3 acts q)
  show ?case
  proof (cases "frames_left q")
    case Nil
    with pop_frame_step [OF "3.prems"] have "pop_frame q = (Ok None, q)" by simp
    with 3 show ?thesis by simp
  next
    case (Cons f fs)
    with pop_frame_step [OF "3.prems"] obtain q' where q': "pop_frame q = (Ok (Some f), q')" "transfer_ok q'" "frames_left q' = fs"
      by auto
    from "3.IH"(2) [OF q'(1) [symmetric] refl refl q'(2)] q' Cons show ?thesis by auto
  qed
qed simp

section \<open>Properties\<close>

text \<open>
  C37: Whatever the interleaving of new resources and frame selections on one connection, no
  operation panics and the frames sent so far, followed by those still to come, are exactly the
  metadata of each accepted resource followed by the chunks that the chunk iterator yields for
  it, resource by resource in the order of acceptance.  The queue reports work exactly when
  frames are left.
\<close>

theorem transfer_exact:
  "\<exists>sent accepted q. transfer_run acts transfer_queue_default = Some (sent, accepted, q) \<and>
     sent @ frames_left q = concat (map entry_frames accepted) \<and> has_work q = (frames_left q \<noteq> [])"
proof -
  have ok: "transfer_ok transfer_queue_default" and nil: "frames_left transfer_queue_default = []"
    by (simp_all add: transfer_ok_def transfer_queue_default_def frames_left_def)
  from transfer_run_spec [OF ok, of acts] show ?thesis unfolding nil append_Nil using has_work_iff by blast
qed

lemma chunk_collect_concat:
  "iter_offset self \<le> length (iter_bytes self) \<Longrightarrow>
   concat (map chunk_data (chunk_collect self)) = drop (iter_offset self) (iter_bytes self)"
proof (induction self rule: chunk_collect.induct)
  case (1 self)
  let ?o = "iter_offset self" and ?bs = "iter_bytes self"
  show ?case
  proof (cases "?o \<ge> length ?bs")
    case False
    let ?stop = "min (?o + CHUNK_PAYLOAD_SIZE) (length ?bs)"
    let ?next = "self\<lparr>iter_offset := ?stop\<rparr>"
    have run: "chunk_next self = (Some \<lparr>byte_offset = of_nat ?o, chunk_data = take (?stop - ?o) (drop ?o ?bs)\<rparr>, ?next)"
      using False by (simp add: chunk_next_def Let_def)
    have "concat (map chunk_data (chunk_collect ?next)) = drop ?stop ?bs"
      using "1.IH" [OF run [symmetric] refl] by simp
    moreover have "take (?stop - ?o) (drop ?o ?bs) @ drop ?stop ?bs = drop ?o ?bs"
      using append_take_drop_id [of "?stop - ?o" "drop ?o ?bs"] False by simp
    ultimately show ?thesis by (subst chunk_collect.simps) (simp add: run)
  qed (simp add: chunk_collect.simps chunk_next_def)
qed

text \<open>The chunks by position.\<close>

definition chunk_count :: "u8 list \<Rightarrow> nat" where
  "chunk_count bs = (length bs + CHUNK_PAYLOAD_SIZE - 1) div CHUNK_PAYLOAD_SIZE"

definition nth_chunk :: "u8 list \<Rightarrow> nat \<Rightarrow> resource_chunk_view" where
  "nth_chunk bs i = \<lparr>byte_offset = of_nat (i * CHUNK_PAYLOAD_SIZE),
     chunk_data = take CHUNK_PAYLOAD_SIZE (drop (i * CHUNK_PAYLOAD_SIZE) bs)\<rparr>"

lemma chunk_count_less: "k * CHUNK_PAYLOAD_SIZE < length bs \<longleftrightarrow> k < chunk_count bs"
proof -
  have pos: "0 < CHUNK_PAYLOAD_SIZE" by (simp add: CHUNK_PAYLOAD_SIZE_def)
  show ?thesis
    using less_eq_div_iff_mult_less_eq [OF pos, of "Suc k" "length bs + CHUNK_PAYLOAD_SIZE - 1"] pos
    by (simp add: chunk_count_def Suc_le_eq) linarith
qed

lemma chunk_collect_nth:
  "iter_offset self = min (k * CHUNK_PAYLOAD_SIZE) (length (iter_bytes self)) \<Longrightarrow>
   chunk_collect self = map (nth_chunk (iter_bytes self)) [k..<chunk_count (iter_bytes self)]"
proof (induction self arbitrary: k rule: chunk_collect.induct)
  case (1 self)
  let ?bs = "iter_bytes self" and ?C = CHUNK_PAYLOAD_SIZE
  show ?case
  proof (cases "k < chunk_count ?bs")
    case True
    then have off: "iter_offset self = k * ?C" "k * ?C < length ?bs" using "1.prems" by (simp_all flip: chunk_count_less)
    let ?next = "self\<lparr>iter_offset := min (k * ?C + ?C) (length ?bs)\<rparr>"
    have "take (min (k * ?C + ?C) (length ?bs) - k * ?C) (drop (k * ?C) ?bs) = take ?C (drop (k * ?C) ?bs)"
      by (auto simp: min_def)
    then have run: "chunk_next self = (Some (nth_chunk ?bs k), ?next)"
      using off by (simp add: chunk_next_def nth_chunk_def Let_def)
    have "chunk_collect ?next = map (nth_chunk ?bs) [Suc k..<chunk_count ?bs]"
      using "1.IH" [OF run [symmetric] refl, of "Suc k"] by (simp add: add.commute)
    then show ?thesis using True by (simp add: chunk_collect.simps [of self] run upt_conv_Cons)
  next
    case False
    then have "iter_offset self \<ge> length ?bs" using "1.prems" chunk_count_less [of k ?bs] by simp
    then show ?thesis using False by (simp add: chunk_collect.simps chunk_next_def)
  qed
qed

text \<open>
  Chunking loses nothing: the chunk iterator splits the bytes of a resource at the multiples
  of the chunk size, one chunk per started block with its offset, and the concatenation of the
  chunk payloads is the resource.
\<close>

theorem chunk_payloads_exact:
  "chunk_payloads bs = map (nth_chunk bs) [0..<chunk_count bs] \<and>
   concat (map chunk_data (chunk_payloads bs)) = bs"
  using chunk_collect_nth [of "chunk_iter_new bs" 0] chunk_collect_concat [of "chunk_iter_new bs"]
  by (simp add: chunk_payloads_def chunk_iter_new_def)

end
