(* ===== verification/Outbound.thy ===== *)
theory Outbound
  imports Session_Commit Coalesce Scheduler Resource_Transfer
begin

text \<open>
  Outbound delivery: the bounded queue of one subscriber, the hub that publishes to all of them
  and the table of clients that overflowed, \<^verbatim>\<open>sessiond/src/outbound/mod.rs\<close> and the synchronous
  part of \<^verbatim>\<open>receiver.rs\<close>.  The states behind the shared mutexes are cells of the hub, named by
  a number in place of the pointer.  The wake-up channel and the cancellation token of a
  subscriber belong to the asynchronous runtime: whether the receiving end of the channel is
  gone is the argument \<open>gone\<close>, and what is sent to channel and token is a list of effects.
  The lazily decoded form of the published transaction is computed where it is used.
\<close>

section \<open>The queue of a subscriber\<close>

datatype outbound_item =
    ItemTransaction wire_transaction
  | ItemResource resource_outbound_frame

definition item_logical_class :: "outbound_item \<Rightarrow> logical_channel_class" where
  "item_logical_class it = (case it of ItemTransaction _ \<Rightarrow> Ui | ItemResource _ \<Rightarrow> Resource)"

text \<open>The text of the reason names the capacity of the queue.\<close>

datatype outbound_recv_error = Lagged usize | OutboundClosed

record subscriber_state =
  capacity :: usize
  sub_max_ops :: usize
  sub_max_frame_size :: usize
  sub_max_resource_size :: u64
  items :: "wire_transaction list"
  tail_domain :: "transaction option"
  resources :: resource_transfer_queue
  peak_depth :: usize
  stale_reason :: "usize option"
  is_closed :: bool

definition to_domain :: "wire_transaction \<Rightarrow> transaction option" where
  "to_domain tx = (case transaction_from_wire tx of Inl _ \<Rightarrow> None | Inr d \<Rightarrow> Some d)"

definition has_unsent_tail :: "subscriber_state \<Rightarrow> bool" where
  "has_unsent_tail self \<longleftrightarrow> \<not> is_closed self \<and> items self \<noteq> []"

definition pop_transaction :: "subscriber_state \<Rightarrow> wire_transaction option \<times> subscriber_state" where
  "pop_transaction self =
     (case items self of
        [] \<Rightarrow> (None, self)
      | item # rest \<Rightarrow>
          (Some item, let self = self\<lparr>items := rest\<rparr> in if rest = [] then self\<lparr>tail_domain := None\<rparr> else self))"

definition maybe_enqueue_resource :: "resource_entry \<Rightarrow> subscriber_state \<Rightarrow> subscriber_state" where
  "maybe_enqueue_resource entry self =
     (if encoded_length entry > sub_max_resource_size self then self
      else self\<lparr>resources := enqueue entry (resources self)\<rparr>)"

fun class_ready :: "subscriber_state \<Rightarrow> logical_channel_class \<Rightarrow> bool" where
  "class_ready self Ui \<longleftrightarrow> items self \<noteq> []"
| "class_ready self Resource \<longleftrightarrow> has_work (resources self)"
| "class_ready self _ \<longleftrightarrow> False"

definition has_scheduled_work :: "subscriber_state \<Rightarrow> bool" where
  "has_scheduled_work self \<longleftrightarrow> class_ready self Ui \<or> class_ready self Resource"

fun pop_class ::
  "logical_channel_class \<Rightarrow> subscriber_state \<Rightarrow> (unit, outbound_item option) result \<times> subscriber_state" where
  "pop_class Ui self = (case pop_transaction self of (x, self') \<Rightarrow> (Ok (map_option ItemTransaction x), self'))"
| "pop_class Resource self =
     (case pop_frame (resources self) of (r, q) \<Rightarrow>
        and_then_st (r, self\<lparr>resources := q\<rparr>) (\<lambda>f self. (Ok (map_option ItemResource f), self)))"
| "pop_class _ self = (Ok None, self)"

definition sub_clear :: "subscriber_state \<Rightarrow> subscriber_state" where
  "sub_clear self = self\<lparr>items := [], tail_domain := None, resources := transfer_clear (resources self)\<rparr>"

text \<open>\<open>Ok True\<close>: a new item; \<open>Ok False\<close>: absorbed into the tail.\<close>

definition enqueue_new ::
  "wire_transaction \<Rightarrow> transaction option \<Rightarrow> subscriber_state \<Rightarrow>
   (outbound_recv_error, bool) result \<times> subscriber_state" where
  "enqueue_new tx incoming_domain self =
     (if length (items self) \<ge> capacity self
      then (Error (Lagged (capacity self)),
            sub_clear (self\<lparr>stale_reason := Some (capacity self), is_closed := True\<rparr>))
      else let self = self\<lparr>items := items self @ [tx], tail_domain := incoming_domain\<rparr>
           in (Ok True, if length (items self) > peak_depth self
                then self\<lparr>peak_depth := length (items self)\<rparr> else self))"

definition cache_tail :: "subscriber_state \<Rightarrow> subscriber_state" where
  "cache_tail self =
     (if tail_domain self = None \<and> items self \<noteq> [] then self\<lparr>tail_domain := to_domain (last (items self))\<rparr> else self)"

definition try_push_or_absorb ::
  "(wire_transaction \<Rightarrow> usize) \<Rightarrow> wire_transaction \<Rightarrow> transaction option \<Rightarrow> subscriber_state \<Rightarrow>
   (outbound_recv_error, bool) result \<times> subscriber_state" where
  "try_push_or_absorb framed_len tx incoming_domain self =
     (if is_closed self
      then (case stale_reason self of Some reason \<Rightarrow> (Error (Lagged reason), self) | None \<Rightarrow> (Error OutboundClosed, self))
      else
        (case incoming_domain of
           None \<Rightarrow> enqueue_new tx incoming_domain self
         | Some incoming \<Rightarrow>
             (let self = cache_tail self
              in case (items self, tail_domain self) of
                   (_ # _, Some tail) \<Rightarrow>
                     (case try_absorb framed_len (sub_max_ops self) (sub_max_frame_size self) tail incoming of
                        (Inl _, _) \<Rightarrow> (Inl Panic, self)
                      | (Inr True, merged) \<Rightarrow>
                          (Ok False, self\<lparr>items := (items self)[length (items self) - 1 := transaction_to_wire merged],
                             tail_domain := Some merged\<rparr>)
                      | (Inr False, _) \<Rightarrow> enqueue_new tx incoming_domain self)
                 | _ \<Rightarrow> enqueue_new tx incoming_domain self)))"

section \<open>The receiver\<close>

text \<open>The flag says whether a wake-up token is taken from the channel.\<close>

definition try_recv_class ::
  "logical_channel_class \<Rightarrow> subscriber_state \<Rightarrow>
   (outbound_recv_error, outbound_item option) result \<times> subscriber_state \<times> bool" where
  "try_recv_class cls self =
     (case stale_reason self of
        Some reason \<Rightarrow> (Error (Lagged reason), self, False)
      | None \<Rightarrow>
          (case pop_class cls self of
             (Inl _, self') \<Rightarrow> (Inl Panic, self', False)
           | (Inr (Some item), self') \<Rightarrow> (Ok (Some item), self', True)
           | (Inr None, self') \<Rightarrow>
               (if is_closed self' then (Error OutboundClosed, self', False) else (Ok None, self', False))))"

definition termination_state :: "subscriber_state \<Rightarrow> outbound_recv_error option" where
  "termination_state self =
     (case stale_reason self of
        Some reason \<Rightarrow> Some (Lagged reason)
      | None \<Rightarrow> if is_closed self then Some OutboundClosed else None)"

definition receiver_drop :: "subscriber_state \<Rightarrow> subscriber_state" where
  "receiver_drop self = sub_clear (self\<lparr>is_closed := True\<rparr>)"

section \<open>The table of stale clients\<close>

definition MAX_TRACKED_STALE_CLIENTS :: usize where
  "MAX_TRACKED_STALE_CLIENTS = 1024"

type_synonym client_id = "u8 list"

record stale_client_registry =
  stale_order :: "client_id list"
  stale_entries :: "(client_id, usize) fmap"

definition registry_default :: stale_client_registry where
  "registry_default = \<lparr>stale_order = [], stale_entries = fmempty\<rparr>"

fun evict_oldest :: "client_id list \<Rightarrow> (client_id, usize) fmap \<Rightarrow> stale_client_registry" where
  "evict_oldest [] es = \<lparr>stale_order = [], stale_entries = es\<rparr>"
| "evict_oldest (c # cs) es =
     (if length (c # cs) > MAX_TRACKED_STALE_CLIENTS then evict_oldest cs (fmdrop c es)
      else \<lparr>stale_order = c # cs, stale_entries = es\<rparr>)"

definition mark :: "client_id \<Rightarrow> usize \<Rightarrow> stale_client_registry \<Rightarrow> stale_client_registry" where
  "mark c peak self =
     (case fmlookup (stale_entries self) c of
        Some p \<Rightarrow> self\<lparr>stale_entries := fmupd c (max p peak) (stale_entries self)\<rparr>
      | None \<Rightarrow> evict_oldest (stale_order self @ [c]) (fmupd c peak (stale_entries self)))"

definition registry_contains :: "stale_client_registry \<Rightarrow> client_id \<Rightarrow> bool" where
  "registry_contains self c \<longleftrightarrow> c |\<in>| fmdom (stale_entries self)"

definition retained_key_bytes :: "stale_client_registry \<Rightarrow> usize" where
  "retained_key_bytes self = (\<Sum>c \<in> fset (fmdom (stale_entries self)). length c)"

definition clear_client :: "client_id \<Rightarrow> stale_client_registry \<Rightarrow> stale_client_registry" where
  "clear_client c self =
     (if c |\<in>| fmdom (stale_entries self)
      then self\<lparr>stale_entries := fmdrop c (stale_entries self), stale_order := filter (\<lambda>x. x \<noteq> c) (stale_order self)\<rparr>
      else self)"

section \<open>The hub\<close>

record subscriber =
  sub_client :: client_id
  sub_cell :: nat

record outbound_hub =
  subscribers :: "subscriber list"
  cells :: "nat \<Rightarrow> subscriber_state"
  next_cell :: nat
  stale_clients :: stale_client_registry
  hub_is_closed :: bool

datatype hub_effect = Notify nat | Disconnect nat

datatype subscribe_error = InvalidConfiguration | HubClosed

definition subscriber_new :: "usize \<Rightarrow> usize \<Rightarrow> usize \<Rightarrow> u64 \<Rightarrow> subscriber_state" where
  "subscriber_new cap ops frame res =
     \<lparr>capacity = cap, sub_max_ops = ops, sub_max_frame_size = frame, sub_max_resource_size = res,
      items = [], tail_domain = None, resources = transfer_queue_default, peak_depth = 0,
      stale_reason = None, is_closed = False\<rparr>"

definition hub_new :: outbound_hub where
  "hub_new = \<lparr>subscribers = [], cells = (\<lambda>_. subscriber_new 1 0 0 0), next_cell = 0,
     stale_clients = registry_default, hub_is_closed = False\<rparr>"

text \<open>Returns the cell of the new receiver.\<close>

definition subscribe ::
  "(nat \<Rightarrow> bool) \<Rightarrow> client_id \<Rightarrow> usize \<Rightarrow> usize \<Rightarrow> usize \<Rightarrow> u64 \<Rightarrow> outbound_hub \<Rightarrow>
   (subscribe_error, nat) result \<times> outbound_hub" where
  "subscribe gone client cap max_ops max_frame max_res self =
     (if cap = 0 then (Error InvalidConfiguration, self)
      else if hub_is_closed self then (Error HubClosed, self)
      else let c = next_cell self;
               kept = filter (\<lambda>sub. \<not> gone (sub_cell sub) \<and> \<not> is_closed (cells self (sub_cell sub))) (subscribers self)
           in (Ok c, self\<lparr>cells := (cells self)(c := subscriber_new cap max_ops max_frame max_res),
                          next_cell := c + 1, subscribers := kept @ [\<lparr>sub_client = client, sub_cell = c\<rparr>]\<rparr>))"

text \<open>The body of the loop for one subscriber: whether it stays, its mark, and the effects.\<close>

definition publish_one ::
  "(wire_transaction \<Rightarrow> usize) \<Rightarrow> (nat \<Rightarrow> bool) \<Rightarrow> wire_transaction \<Rightarrow> subscriber \<Rightarrow> (nat \<Rightarrow> subscriber_state) \<Rightarrow>
   (unit, bool \<times> (client_id \<times> usize) list \<times> hub_effect list) result \<times> (nat \<Rightarrow> subscriber_state)" where
  "publish_one framed_len gone tx sub cs =
     (let c = sub_cell sub
      in if gone c then (Ok (False, [], []), cs)
         else
           let incoming = (if has_unsent_tail (cs c) then to_domain tx else None)
           in case try_push_or_absorb framed_len tx incoming (cs c) of
                (r, st) \<Rightarrow>
                  (case r of
                     Inr True \<Rightarrow> (Ok (True, [], [Notify c]), cs(c := st))
                   | Inr False \<Rightarrow> (Ok (True, [], []), cs(c := st))
                   | Inl (Err (Lagged _)) \<Rightarrow> (Ok (False, [(sub_client sub, peak_depth st)], [Disconnect c]), cs(c := st))
                   | Inl (Err OutboundClosed) \<Rightarrow> (Ok (False, [], [Disconnect c]), cs(c := st))
                   | Inl Panic \<Rightarrow> (Inl Panic, cs(c := st))
                   | Inl Diverge \<Rightarrow> (Inl Diverge, cs(c := st))))"

fun publish_loop ::
  "(wire_transaction \<Rightarrow> usize) \<Rightarrow> (nat \<Rightarrow> bool) \<Rightarrow> wire_transaction \<Rightarrow> subscriber list \<Rightarrow> (nat \<Rightarrow> subscriber_state) \<Rightarrow>
   (unit, subscriber list \<times> (client_id \<times> usize) list \<times> hub_effect list) result \<times> (nat \<Rightarrow> subscriber_state)" where
  "publish_loop framed_len gone tx [] cs = (Ok ([], [], []), cs)"
| "publish_loop framed_len gone tx (sub # subs) cs =
     and_then_st (publish_one framed_len gone tx sub cs) (\<lambda>(keep, marks, effs) cs.
     and_then_st (publish_loop framed_len gone tx subs cs) (\<lambda>(kept, marks', effs') cs.
       (Ok (if keep then sub # kept else kept, marks @ marks', effs @ effs'), cs)))"

definition publish ::
  "(wire_transaction \<Rightarrow> usize) \<Rightarrow> (nat \<Rightarrow> bool) \<Rightarrow> wire_transaction \<Rightarrow> outbound_hub \<Rightarrow>
   (unit, hub_effect list) result \<times> outbound_hub" where
  "publish framed_len gone tx self =
     (if hub_is_closed self then (Ok [], self)
      else (case publish_loop framed_len gone tx (subscribers self) (cells self) of
          (Inl e, cs) \<Rightarrow> (Inl e, self\<lparr>cells := cs\<rparr>)
        | (Inr (kept, stale_marked, effs), cs) \<Rightarrow>
            (Ok effs, self\<lparr>cells := cs, subscribers := kept,
               stale_clients := fold (\<lambda>(c, p). mark c p) stale_marked (stale_clients self)\<rparr>)))"

definition publish_resource_one ::
  "(nat \<Rightarrow> bool) \<Rightarrow> resource_entry \<Rightarrow> subscriber \<Rightarrow> (nat \<Rightarrow> subscriber_state) \<Rightarrow>
   bool \<times> hub_effect list \<times> (nat \<Rightarrow> subscriber_state)" where
  "publish_resource_one gone entry sub cs =
     (let c = sub_cell sub
      in if gone c then (False, [], cs)
         else if is_closed (cs c) then (False, [Disconnect c], cs)
         else (True, [Notify c], cs(c := maybe_enqueue_resource entry (cs c))))"

fun publish_resource_loop ::
  "(nat \<Rightarrow> bool) \<Rightarrow> resource_entry \<Rightarrow> subscriber list \<Rightarrow> (nat \<Rightarrow> subscriber_state) \<Rightarrow>
   subscriber list \<times> hub_effect list \<times> (nat \<Rightarrow> subscriber_state)" where
  "publish_resource_loop gone entry [] cs = ([], [], cs)"
| "publish_resource_loop gone entry (sub # subs) cs =
     (let (keep, effs, cs) = publish_resource_one gone entry sub cs;
          (kept, effs', cs) = publish_resource_loop gone entry subs cs
      in (if keep then sub # kept else kept, effs @ effs', cs))"

definition hub_publish_resource :: "(nat \<Rightarrow> bool) \<Rightarrow> resource_entry \<Rightarrow> outbound_hub \<Rightarrow> hub_effect list \<times> outbound_hub" where
  "hub_publish_resource gone entry self =
     (if hub_is_closed self then ([], self)
      else let (kept, effs, cs) = publish_resource_loop gone entry (subscribers self) (cells self)
           in (effs, self\<lparr>cells := cs, subscribers := kept\<rparr>))"

definition seed_resources_excluding ::
  "nat \<Rightarrow> resource_entry list \<Rightarrow> resource_hash fset \<Rightarrow> outbound_hub \<Rightarrow> hub_effect list \<times> outbound_hub" where
  "seed_resources_excluding receiver es known_hashes self =
     (if es = [] then ([], self)
      else (case find (\<lambda>sub. sub_cell sub = receiver) (subscribers self) of
          None \<Rightarrow> ([], self)
        | Some sub \<Rightarrow>
            if is_closed (cells self receiver) then ([], self)
            else let fresh = filter (\<lambda>e. res_hash e |\<notin>| known_hashes) es
                 in (if fresh \<noteq> [] then [Notify receiver] else [],
                     self\<lparr>cells := (cells self)(receiver := fold maybe_enqueue_resource fresh (cells self receiver))\<rparr>)))"

definition is_client_stale :: "outbound_hub \<Rightarrow> client_id \<Rightarrow> bool" where
  "is_client_stale self c = registry_contains (stale_clients self) c"

definition clear_stale_client :: "client_id \<Rightarrow> outbound_hub \<Rightarrow> outbound_hub" where
  "clear_stale_client c self = self\<lparr>stale_clients := clear_client c (stale_clients self)\<rparr>"

definition hub_close :: "outbound_hub \<Rightarrow> hub_effect list \<times> outbound_hub" where
  "hub_close self =
     (map (\<lambda>sub. Disconnect (sub_cell sub)) (subscribers self),
      self\<lparr>hub_is_closed := True, subscribers := [],
        cells := fold (\<lambda>sub cs. cs(sub_cell sub := (cs (sub_cell sub))\<lparr>is_closed := True\<rparr>)) (subscribers self) (cells self)\<rparr>)"

section \<open>Delivered transactions\<close>

lemma to_domain_Some [simp]: "to_domain tx = Some d \<longleftrightarrow> transaction_from_wire tx = Ok d"
  by (simp add: to_domain_def split: sum.split)

lemma to_domain_revisions:
  "transaction_from_wire tx = Ok d \<Longrightarrow> base_revision d = w_base_revision tx \<and> new_revision d = w_new_revision tx"
  by (auto simp: transaction_from_wire_def result_simps)

lemma delivered_Ok:
  "apply_delivered_transaction tx s = (Inr r, s') \<longleftrightarrow>
     (\<exists>d. transaction_from_wire tx = Ok d \<and> deliver d s = (Inr r, s') \<and>
        (validate_commit d = Ok () \<or> validate_delta d = Ok ()))"
proof (cases "transaction_from_wire tx")
  case (Inr d)
  note run = Inr apply_delivered_transaction_def delivered_from_wire_def delivered_try_from_def delta_try_from_def
    validate_commit_def deliver_eqs
  show ?thesis
  proof (cases "checked_next (base_revision d)")
    case None
    then show ?thesis by (simp add: run validate_delta_def)
  next
    case (Some n)
    then show ?thesis by (cases "new_revision d = n"; cases "validate_delta d") (simp_all add: run)
  qed
qed (simp add: apply_delivered_transaction_def delivered_from_wire_def)

lemma deliver_limits: "deliver d s = (Inr r, s') \<Longrightarrow> limits s' = limits s"
  by (auto simp: deliver_def apply_staged_def commit_staging_def result_simps split: sum.splits)

lemma replay_limits: "replay_all txs s = (Inr u, s') \<Longrightarrow> limits s' = limits s"
proof (induction txs arbitrary: s)
  case (Cons tx txs)
  then obtain r t where "apply_delivered_transaction tx s = (Inr r, t)" "replay_all txs t = (Inr u, s')"
    by (auto simp: result_simps)
  with Cons.IH deliver_limits show ?case by (metis delivered_Ok)
qed simp

lemma replay_snoc:
  "replay_all (txs @ [tx]) s = (Inr u, s') \<longleftrightarrow>
     (\<exists>t r. replay_all txs s = (Ok (), t) \<and> apply_delivered_transaction tx t = (Inr r, s'))"
  by (auto simp: replay_all_append result_simps)

text \<open>A scalar transaction that was decoded once is decoded again from its own encoding.\<close>

definition wf_writes :: "transaction \<Rightarrow> bool" where
  "wf_writes d \<longleftrightarrow> (\<forall>op \<in> set (operations d). scalar_write op \<and> wire_faithful op)"

lemma write_round_trip:
  assumes "scalar_write op" "wire_faithful op"
  shows "operation_from_wire (operation_to_wire op) = Ok op"
  using assms by (auto simp: scalar_write_def operation_from_wire_def value_round_trip)

lemma writes_round_trip:
  assumes "wf_writes d"
  shows "transaction_from_wire (transaction_to_wire d) = Ok d"
proof -
  have "traverse operation_from_wire (map operation_to_wire ops) = Ok ops"
    if "\<forall>op \<in> set ops. scalar_write op \<and> wire_faithful op" for ops
    using that by (induction ops) (auto simp: write_round_trip)
  then show ?thesis using assms by (simp add: wf_writes_def transaction_from_wire_def transaction_to_wire_def)
qed

lemma decoded_wf:
  assumes "transaction_from_wire tx = Ok d" "is_coalesceable d"
  shows "wf_writes d"
  using assms operation_from_wire_faithful
  by (auto simp: wf_writes_def is_coalesceable_iff transaction_from_wire_def result_simps dest!: traverse_Ok_set)

lemma merged_wf: "wf_writes tail \<Longrightarrow> wf_writes incoming \<Longrightarrow> wf_writes (merged_txn tail incoming)"
  using merge_loop_writes [of "operations incoming" "operations tail"]
  by (auto simp: wf_writes_def merged_txn_def)

section \<open>The invariant of a queue\<close>

definition sub_ok :: "subscriber_state \<Rightarrow> bool" where
  "sub_ok st \<longleftrightarrow>
     0 < capacity st \<and> length (items st) \<le> peak_depth st \<and> peak_depth st \<le> capacity st \<and>
     (\<forall>tx \<in> set (items st). w_base_revision tx < w_new_revision tx) \<and>
     (\<forall>d. tail_domain st = Some d \<longrightarrow> items st \<noteq> [] \<and> to_domain (last (items st)) = Some d) \<and>
     transfer_ok (resources st) \<and>
     (stale_reason st \<noteq> None \<longrightarrow> is_closed st \<and> items st = [] \<and> \<not> has_work (resources st))"

lemma subscriber_new_ok: "0 < cap \<Longrightarrow> sub_ok (subscriber_new cap ops frame res)"
  by (simp add: sub_ok_def subscriber_new_def transfer_ok_def transfer_queue_default_def)

lemma transfer_clear_idle [simp]: "transfer_ok (transfer_clear q)" "\<not> has_work (transfer_clear q)"
  by (simp_all add: transfer_clear_def transfer_ok_def has_work_def)

lemma sub_clear_ok:
  "sub_ok st \<Longrightarrow> is_closed st \<Longrightarrow> sub_ok (sub_clear (st\<lparr>stale_reason := r\<rparr>))"
  by (auto simp: sub_ok_def sub_clear_def)

lemma pop_transaction_spec:
  assumes "sub_ok st" "pop_transaction st = (x, st')"
  shows "sub_ok st' \<and> items st = (case x of None \<Rightarrow> [] | Some tx \<Rightarrow> [tx]) @ items st' \<and>
    is_closed st' = is_closed st \<and> sub_max_ops st' = sub_max_ops st \<and> stale_reason st' = stale_reason st \<and>
    (x = None) = (items st = [])"
  using assms by (auto simp: pop_transaction_def sub_ok_def Let_def split: list.splits if_splits)

lemma pop_class_spec:
  assumes "sub_ok st"
  obtains it st' where "pop_class cls st = (Ok it, st')" "sub_ok st'" "sub_max_ops st' = sub_max_ops st"
    "is_closed st' = is_closed st" "stale_reason st' = stale_reason st"
    "items st = (case it of Some (ItemTransaction tx) \<Rightarrow> [tx] | _ \<Rightarrow> []) @ items st'"
    "(it = None) = (\<not> class_ready st cls)"
proof (cases cls)
  case Ui
  obtain x st' where pop: "pop_transaction st = (x, st')" by (cases "pop_transaction st")
  note spec = pop_transaction_spec [OF assms pop]
  show thesis
  proof (rule that [of "map_option ItemTransaction x" st'])
    show "items st = (case map_option ItemTransaction x of Some (ItemTransaction tx) \<Rightarrow> [tx] | _ \<Rightarrow> []) @ items st'"
      using spec by (cases x) simp_all
    show "(map_option ItemTransaction x = None) = (\<not> class_ready st cls)" using spec Ui by (simp del: split_paired_All)
  qed (use spec pop Ui in simp_all)
next
  case Resource
  from assms have ok: "transfer_ok (resources st)" by (simp add: sub_ok_def)
  obtain f q where f: "pop_frame (resources st) = (Ok f, q)" "transfer_ok q" "(f = None) = (\<not> has_work (resources st))"
    "\<not> has_work (resources st) \<longrightarrow> q = resources st"
    using pop_frame_step [OF ok] has_work_iff [OF ok] ok by (cases "frames_left (resources st)") auto
  with Resource assms show thesis
    by (intro that [of "map_option ItemResource f" "st\<lparr>resources := q\<rparr>"]) (auto simp: sub_ok_def split: option.split)
qed (use that [of None st] assms in simp_all)

lemma enqueue_new_spec:
  assumes "sub_ok st" "\<not> is_closed st" "w_base_revision tx < w_new_revision tx"
    and "\<forall>d. incoming = Some d \<longrightarrow> transaction_from_wire tx = Ok d"
  shows "if length (items st) < capacity st
    then fst (enqueue_new tx incoming st) = Ok True \<and> items (snd (enqueue_new tx incoming st)) = items st @ [tx] \<and>
      sub_ok (snd (enqueue_new tx incoming st)) \<and> \<not> is_closed (snd (enqueue_new tx incoming st))
    else enqueue_new tx incoming st = (Error (Lagged (capacity st)), sub_clear (st\<lparr>stale_reason := Some (capacity st), is_closed := True\<rparr>)) \<and>
      sub_ok (snd (enqueue_new tx incoming st))"
  using assms
  by (auto simp: enqueue_new_def sub_ok_def Let_def sub_clear_def)

lemma cache_tail_spec:
  assumes "sub_ok st"
  shows "sub_ok (cache_tail st) \<and> items (cache_tail st) = items st \<and> is_closed (cache_tail st) = is_closed st \<and>
    capacity (cache_tail st) = capacity st \<and> sub_max_ops (cache_tail st) = sub_max_ops st \<and>
    sub_max_frame_size (cache_tail st) = sub_max_frame_size st"
  using assms by (auto simp: cache_tail_def sub_ok_def)

text \<open>
  What one push does: the transaction becomes a new last item, or it is absorbed into the last
  one, or the queue is full and becomes stale.
\<close>

definition pushed :: "wire_transaction \<Rightarrow> subscriber_state \<Rightarrow> subscriber_state \<Rightarrow> bool" where
  "pushed tx st st' \<longleftrightarrow> length (items st) < capacity st \<and> items st' = items st @ [tx]"

definition absorbed :: "wire_transaction \<Rightarrow> subscriber_state \<Rightarrow> subscriber_state \<Rightarrow> bool" where
  "absorbed tx st st' \<longleftrightarrow>
     (\<exists>pre w tail incoming. items st = pre @ [w] \<and> transaction_from_wire w = Ok tail \<and>
        transaction_from_wire tx = Ok incoming \<and> is_coalesceable tail \<and> is_coalesceable incoming \<and>
        length (operations (merged_txn tail incoming)) \<le> sub_max_ops st \<and>
        validate_delta (merged_txn tail incoming) = Ok () \<and>
        transaction_from_wire (transaction_to_wire (merged_txn tail incoming)) = Ok (merged_txn tail incoming) \<and>
        items st' = pre @ [transaction_to_wire (merged_txn tail incoming)])"

definition overflowed :: "subscriber_state \<Rightarrow> subscriber_state \<Rightarrow> bool" where
  "overflowed st st' \<longleftrightarrow> capacity st \<le> length (items st) \<and> stale_reason st' = Some (capacity st) \<and> is_closed st' \<and> items st' = []"

lemma absorb_spec:
  assumes ok: "sub_ok st" and tail: "tail_domain st = Some tail" and inc: "transaction_from_wire tx = Ok incoming"
    and abs: "try_absorb framed_len (sub_max_ops st) frame tail incoming = (Inr True, merged)"
    and st': "st' = st\<lparr>items := (items st)[length (items st) - 1 := transaction_to_wire merged], tail_domain := Some merged\<rparr>"
  shows "absorbed tx st st' \<and> sub_ok st'"
proof -
  from ok tail obtain pre w where w: "items st = pre @ [w]" "transaction_from_wire w = Ok tail"
    by (cases "items st" rule: rev_cases) (auto simp: sub_ok_def)
  from try_absorb_True [OF abs] have m: "merged = merged_txn tail incoming" "is_coalesceable tail" "is_coalesceable incoming"
    "length (operations merged) \<le> sub_max_ops st" "validate_delta merged = Ok ()" by blast+
  have rt: "transaction_from_wire (transaction_to_wire merged) = Ok merged"
    unfolding m(1) by (intro writes_round_trip merged_wf decoded_wf [OF w(2) m(2)] decoded_wf [OF inc m(3)])
  have its: "items st' = pre @ [transaction_to_wire merged]" by (simp add: st' w(1))
  have "w_base_revision (transaction_to_wire merged) < w_new_revision (transaction_to_wire merged)"
    using m(5) by (auto simp: validate_delta_def transaction_to_wire_def split: option.splits if_splits)
  then have "sub_ok st'" using ok its rt w(1) by (simp add: sub_ok_def st')
  moreover have "absorbed tx st st'"
    unfolding absorbed_def using w inc m its rt by blast
  ultimately show ?thesis by simp
qed

lemma push_spec:
  assumes ok: "sub_ok st" and open_: "\<not> is_closed st" and fwd: "w_base_revision tx < w_new_revision tx"
    and inc: "\<forall>d. incoming = Some d \<longrightarrow> transaction_from_wire tx = Ok d"
    and run: "try_push_or_absorb framed_len tx incoming st = (r, st')"
  shows "sub_ok st' \<and> (r = Ok True \<and> pushed tx st st' \<and> \<not> is_closed st' \<or> r = Ok False \<and> absorbed tx st st' \<and> \<not> is_closed st' \<or>
    r = Error (Lagged (capacity st)) \<and> overflowed st st')"
proof -
  let ?st = "cache_tail st"
  have enq: "sub_ok (snd (enqueue_new tx incoming u)) \<and>
      (fst (enqueue_new tx incoming u) = Ok True \<and> pushed tx st (snd (enqueue_new tx incoming u)) \<and> \<not> is_closed (snd (enqueue_new tx incoming u)) \<or>
       fst (enqueue_new tx incoming u) = Error (Lagged (capacity st)) \<and> overflowed st (snd (enqueue_new tx incoming u)))"
    if "u = st \<or> u = ?st" for u
  proof -
    have "sub_ok u" "\<not> is_closed u" "items u = items st" "capacity u = capacity st"
      using that cache_tail_spec [OF ok] ok open_ by auto
    with enqueue_new_spec [OF this(1,2) fwd inc] show ?thesis
      by (auto simp: pushed_def overflowed_def sub_clear_def split: if_splits)
  qed
  show ?thesis
  proof (cases incoming)
    case None
    with run open_ have "enqueue_new tx incoming st = (r, st')" by (simp add: try_push_or_absorb_def)
    with enq [of st] show ?thesis by auto
  next
    case (Some i)
    show ?thesis
    proof (cases "items ?st \<noteq> [] \<and> tail_domain ?st \<noteq> None")
      case False
      with run open_ Some have "enqueue_new tx incoming ?st = (r, st')"
        by (auto simp: try_push_or_absorb_def Let_def neq_Nil_conv split: list.splits option.splits)
      with enq [of ?st] show ?thesis by auto
    next
      case True
      then obtain tail where tail: "tail_domain ?st = Some tail" by blast
      from cache_tail_spec [OF ok] have ok': "sub_ok ?st" and st: "items ?st = items st" "sub_max_ops ?st = sub_max_ops st" "is_closed ?st = is_closed st" by auto
      have fi: "base_revision i < new_revision i" "transaction_from_wire tx = Ok i"
        using to_domain_revisions inc Some fwd by auto
      have ft: "base_revision tail < new_revision tail"
      proof -
        have "last (items ?st) \<in> set (items ?st)" "transaction_from_wire (last (items ?st)) = Ok tail"
          using ok' tail True by (auto simp: sub_ok_def)
        with to_domain_revisions ok' show ?thesis unfolding sub_ok_def by metis
      qed
      obtain x m where abs: "try_absorb framed_len (sub_max_ops ?st) (sub_max_frame_size ?st) tail i = (x, m)" by fastforce
      then consider "x = Ok False" "m = tail" | "x = Ok True"
        using try_absorb_returns [OF ft fi(1)] by metis
      then show ?thesis
      proof cases
        case 1
        with run open_ Some True tail abs have "enqueue_new tx incoming ?st = (r, st')"
          by (auto simp: try_push_or_absorb_def Let_def neq_Nil_conv)
        with enq [of ?st] show ?thesis by auto
      next
        case 2
        with run open_ Some True tail abs have "r = Ok False"
          "st' = ?st\<lparr>items := (items ?st)[length (items ?st) - 1 := transaction_to_wire m], tail_domain := Some m\<rparr>"
          by (auto simp: try_push_or_absorb_def Let_def neq_Nil_conv)
        with absorb_spec [OF ok' tail fi(2) abs [unfolded 2] this(2)] st open_ show ?thesis by (auto simp: absorbed_def)
      qed
    qed
  qed
qed

lemma push_frame:
  assumes "try_push_or_absorb framed_len tx incoming st = (r, st')"
  shows "sub_max_ops st' = sub_max_ops st \<and> capacity st' = capacity st"
proof -
  have "sub_max_ops (cache_tail st) = sub_max_ops st" "capacity (cache_tail st) = capacity st"
    by (simp_all add: cache_tail_def)
  moreover have "sub_max_ops (snd (enqueue_new tx i u)) = sub_max_ops u \<and> capacity (snd (enqueue_new tx i u)) = capacity u" for i u
    by (simp add: enqueue_new_def sub_clear_def Let_def)
  ultimately show ?thesis
    using assms
    by (auto simp: try_push_or_absorb_def Let_def split: if_splits option.splits list.splits sum.splits bool.splits prod.splits)
      (metis snd_conv)+
qed

section \<open>Delivery to one client\<close>

lemma replay_absorbed:
  assumes all: "replay_all (out @ items st) s0 = (Ok (), s)" and tx: "apply_delivered_transaction tx s = (Inr r, s')"
    and abs: "absorbed tx st st'" and ops: "sub_max_ops st \<le> max_transaction_operations (limits s0)"
  shows "replay_all (out @ items st') s0 = (Ok (), s')"
proof -
  obtain pre w tail incoming where w: "items st = pre @ [w]" "transaction_from_wire w = Ok tail"
    "transaction_from_wire tx = Ok incoming" "is_coalesceable tail" "is_coalesceable incoming"
    "length (operations (merged_txn tail incoming)) \<le> sub_max_ops st" "validate_delta (merged_txn tail incoming) = Ok ()"
    "transaction_from_wire (transaction_to_wire (merged_txn tail incoming)) = Ok (merged_txn tail incoming)"
    "items st' = pre @ [transaction_to_wire (merged_txn tail incoming)]"
    using abs unfolding absorbed_def by blast
  obtain t q where t: "replay_all (out @ pre) s0 = (Ok (), t)" "apply_delivered_transaction w t = (Inr q, s)"
    using all replay_snoc [of "out @ pre" w s0 "()" s] by (auto simp: w(1))
  have "deliver tail t = (Inr q, s)" "deliver incoming s = (Inr r, s')"
    using t(2) tx w(2,3) by (auto simp: delivered_Ok)
  moreover have "length (operations (merged_txn tail incoming)) \<le> max_transaction_operations (limits t)"
    using w(6) ops replay_limits [OF t(1)] by simp
  ultimately have "deliver (merged_txn tail incoming) t = (Inr r, s')"
    by (intro deliver_merged [OF w(4,5)])
  then have "apply_delivered_transaction (transaction_to_wire (merged_txn tail incoming)) t = (Inr r, s')"
    using w(7,8) by (auto simp: delivered_Ok)
  then show ?thesis using t(1) replay_snoc [of "out @ pre" "transaction_to_wire (merged_txn tail incoming)" s0 "()" s']
    by (auto simp: w(9))
qed

definition incoming_for :: "wire_transaction \<Rightarrow> subscriber_state \<Rightarrow> transaction option" where
  "incoming_for tx st = (if has_unsent_tail st then to_domain tx else None)"

lemma incoming_for_decodes: "\<forall>d. incoming_for tx st = Some d \<longrightarrow> transaction_from_wire tx = Ok d"
  by (simp add: incoming_for_def)

text \<open>
  A connected client: the session commits and publishes into the client's queue, resources are
  enqueued, and the connection writer takes items of the lanes it selects.  \<open>out\<close> are the
  transactions sent so far.
\<close>

inductive connection ::
  "(wire_transaction \<Rightarrow> usize) \<Rightarrow> semantic_store \<Rightarrow> usize \<Rightarrow> session_inner \<Rightarrow> subscriber_state \<Rightarrow>
   wire_transaction list \<Rightarrow> bool" for framed_len s0 max_ops where
  subscribed: "session_ok sess \<Longrightarrow> si_store sess = s0 \<Longrightarrow> 0 < cap \<Longrightarrow>
    connection framed_len s0 max_ops sess (subscriber_new cap max_ops frame res) []"
| commits: "connection framed_len s0 max_ops sess st out \<Longrightarrow> session_commits sess tx sess' \<Longrightarrow>
    try_push_or_absorb framed_len tx (incoming_for tx st) st = (Inr b, st') \<Longrightarrow>
    connection framed_len s0 max_ops sess' st' out"
| enqueues: "connection framed_len s0 max_ops sess st out \<Longrightarrow>
    connection framed_len s0 max_ops sess (maybe_enqueue_resource e st) out"
| sends: "connection framed_len s0 max_ops sess st out \<Longrightarrow> try_recv_class cls st = (Inr it, st', tok) \<Longrightarrow>
    connection framed_len s0 max_ops sess st' (out @ (case it of Some (ItemTransaction tx) \<Rightarrow> [tx] | _ \<Rightarrow> []))"

lemma maybe_enqueue_ok:
  assumes "sub_ok st" "\<not> is_closed st"
  shows "sub_ok (maybe_enqueue_resource e st)"
  using assms enqueue_step [of "resources st" e] by (auto simp: maybe_enqueue_resource_def sub_ok_def)

lemma connection_invariant:
  assumes "connection framed_len s0 max_ops sess st out" "max_ops \<le> max_transaction_operations (limits s0)"
  shows "session_ok sess \<and> sub_ok st \<and> \<not> is_closed st \<and> sub_max_ops st = max_ops \<and>
    replay_all (out @ items st) s0 = (Ok (), si_store sess)"
  using assms
proof (induction rule: connection.induct)
  case (subscribed sess cap frame res)
  then show ?case using subscriber_new_ok by (auto simp: subscriber_new_def)
next
  case (commits sess st out tx sess' b st')
  then have inv: "session_ok sess" "sub_ok st" "\<not> is_closed st" "sub_max_ops st = max_ops"
    "replay_all (out @ items st) s0 = (Ok (), si_store sess)" by simp_all
  obtain r where s: "session_ok sess'" "apply_delivered_transaction tx (si_store sess) = (Ok r, si_store sess')"
    "w_base_revision tx < w_new_revision tx"
    by (rule session_commits_delivered [OF commits.hyps(2) inv(1)]) blast
  from push_spec [OF inv(2,3) s(3) incoming_for_decodes commits.hyps(3)]
  have st': "sub_ok st'" "\<not> is_closed st'" "pushed tx st st' \<or> absorbed tx st st'" by auto
  have "replay_all (out @ items st') s0 = (Ok (), si_store sess')" using st'(3)
  proof
    assume "pushed tx st st'"
    then have "items st' = items st @ [tx]" by (simp add: pushed_def)
    then show ?thesis using replay_snoc [of "out @ items st" tx s0 "()"] inv(5) s(2) by auto
  next
    assume "absorbed tx st st'"
    from replay_absorbed [OF inv(5) s(2) this] commits.prems inv(4) show ?thesis by simp
  qed
  moreover have "sub_max_ops st' = max_ops" using push_frame [OF commits.hyps(3)] inv(4) by simp
  ultimately show ?case using s(1) st' by simp
next
  case (enqueues sess st out e)
  then show ?case using maybe_enqueue_ok [of st e] by (auto simp: maybe_enqueue_resource_def)
next
  case (sends sess st out cls it st' tok)
  then have ok: "sub_ok st" "\<not> is_closed st" by simp_all
  obtain it' st'' where p: "pop_class cls st = (Ok it', st'')" "sub_ok st''" "sub_max_ops st'' = sub_max_ops st"
    "is_closed st'' = is_closed st" "items st = (case it' of Some (ItemTransaction tx) \<Rightarrow> [tx] | _ \<Rightarrow> []) @ items st''"
    by (rule pop_class_spec [OF ok(1)]) blast
  from sends.hyps(2) p(1) ok(2) p(4) have "it = it'" "st' = st''"
    by (auto simp: try_recv_class_def split: option.splits if_splits)
  with sends p show ?case by simp
qed

section \<open>The table of stale clients stays bounded\<close>

definition registry_ok :: "stale_client_registry \<Rightarrow> bool" where
  "registry_ok reg \<longleftrightarrow> distinct (stale_order reg) \<and> set (stale_order reg) = fset (fmdom (stale_entries reg)) \<and>
     length (stale_order reg) \<le> MAX_TRACKED_STALE_CLIENTS"

lemma evict_oldest_spec:
  "distinct cs \<Longrightarrow> set cs = fset (fmdom es) \<Longrightarrow>
   evict_oldest cs es =
     \<lparr>stale_order = drop (length cs - MAX_TRACKED_STALE_CLIENTS) cs,
      stale_entries = fmdrop_set (set (take (length cs - MAX_TRACKED_STALE_CLIENTS) cs)) es\<rparr>"
proof (induction cs es rule: evict_oldest.induct)
  case (2 c cs es)
  show ?case
  proof (cases "length (c # cs) > MAX_TRACKED_STALE_CLIENTS")
    case True
    have "set cs = fset (fmdom (fmdrop c es))" using "2.prems" by auto
    with 2 True have "evict_oldest (c # cs) es = \<lparr>stale_order = drop (length cs - MAX_TRACKED_STALE_CLIENTS) cs,
        stale_entries = fmdrop_set (set (take (length cs - MAX_TRACKED_STALE_CLIENTS) cs)) (fmdrop c es)\<rparr>" by simp
    moreover have "length (c # cs) - MAX_TRACKED_STALE_CLIENTS = Suc (length cs - MAX_TRACKED_STALE_CLIENTS)"
      using True by simp
    ultimately show ?thesis by simp
  qed simp
qed simp

lemma dom_drop_set: "fset (fmdom (fmdrop_set A m)) = fset (fmdom m) - A"
  by (auto simp: fmlookup_dom_iff split: if_splits)

lemma mark_spec:
  assumes "registry_ok reg"
  shows "registry_ok (mark c p reg) \<and> registry_contains (mark c p reg) c \<and>
    (\<forall>c'. registry_contains (mark c p reg) c' \<longrightarrow> c' = c \<or> registry_contains reg c')"
proof (cases "fmlookup (stale_entries reg) c")
  case None
  let ?cs = "stale_order reg @ [c]" and ?es = "fmupd c p (stale_entries reg)"
  have c: "c \<notin> set (stale_order reg)" using None assms by (simp add: registry_ok_def fmdom_notI)
  have d: "distinct ?cs" "set ?cs = fset (fmdom ?es)" using assms c by (auto simp: registry_ok_def)
  define k where "k = length ?cs - MAX_TRACKED_STALE_CLIENTS"
  define lost where "lost = take k ?cs"
  define kept where "kept = drop k ?cs"
  have cs: "?cs = lost @ kept" unfolding lost_def kept_def by (rule append_take_drop_id [symmetric])
  have m: "mark c p reg = \<lparr>stale_order = kept, stale_entries = fmdrop_set (set lost) ?es\<rparr>"
    using None evict_oldest_spec [OF d] by (simp add: mark_def k_def lost_def kept_def)
  have dom: "fset (fmdom (fmdrop_set (set lost) ?es)) = set kept"
    unfolding dom_drop_set d(2) [symmetric] using d(1) unfolding cs by auto
  have "k \<le> length (stale_order reg)" by (simp add: k_def MAX_TRACKED_STALE_CLIENTS_def)
  then have "c \<in> set kept" "length kept \<le> MAX_TRACKED_STALE_CLIENTS" by (simp_all add: kept_def k_def)
  moreover have "set kept \<subseteq> set ?cs" "distinct kept" using d(1) unfolding cs by auto
  ultimately show ?thesis
    using assms unfolding m registry_ok_def registry_contains_def by (auto simp: dom)
next
  case (Some q)
  then have "c |\<in>| fmdom (stale_entries reg)" by (rule fmdomI)
  with Some assms show ?thesis by (auto simp: mark_def registry_ok_def registry_contains_def)
qed

lemma clear_client_ok: "registry_ok reg \<Longrightarrow> registry_ok (clear_client c reg)"
  by (auto simp: clear_client_def registry_ok_def intro: le_trans [OF length_filter_le])

lemma marks_ok: "registry_ok reg \<Longrightarrow> registry_ok (fold (\<lambda>(c, p). mark c p) ms reg)"
  by (induction ms arbitrary: reg) (auto simp: mark_spec)

section \<open>The hub publishes to every subscriber\<close>

definition push_to :: "(wire_transaction \<Rightarrow> usize) \<Rightarrow> wire_transaction \<Rightarrow> subscriber_state \<Rightarrow>
  (outbound_recv_error, bool) result \<times> subscriber_state" where
  "push_to framed_len tx st = try_push_or_absorb framed_len tx (incoming_for tx st) st"

definition hub_ok :: "outbound_hub \<Rightarrow> bool" where
  "hub_ok hub \<longleftrightarrow> distinct (map sub_cell (subscribers hub)) \<and>
     (\<forall>sub \<in> set (subscribers hub). sub_cell sub < next_cell hub \<and> sub_ok (cells hub (sub_cell sub))) \<and>
     registry_ok (stale_clients hub)"

lemma push_closed:
  "is_closed st \<Longrightarrow> push_to framed_len tx st =
     (Error (case stale_reason st of Some r \<Rightarrow> Lagged r | None \<Rightarrow> OutboundClosed), st)"
  by (simp add: push_to_def try_push_or_absorb_def split: option.split)

lemma push_to_spec:
  assumes "sub_ok st" "w_base_revision tx < w_new_revision tx"
  shows "sub_ok (snd (push_to framed_len tx st)) \<and>
    ((\<exists>b. fst (push_to framed_len tx st) = Ok b) \<or> (\<exists>e. fst (push_to framed_len tx st) = Error e))"
proof (cases "is_closed st")
  case True
  then show ?thesis using assms by (simp add: push_closed)
next
  case False
  obtain r st' where run: "push_to framed_len tx st = (r, st')" by (cases "push_to framed_len tx st")
  from push_spec [OF assms(1) False assms(2) incoming_for_decodes run [unfolded push_to_def]] run show ?thesis by auto
qed

definition keeps_sub :: "(wire_transaction \<Rightarrow> usize) \<Rightarrow> (nat \<Rightarrow> bool) \<Rightarrow> wire_transaction \<Rightarrow> (nat \<Rightarrow> subscriber_state) \<Rightarrow> subscriber \<Rightarrow> bool" where
  "keeps_sub framed_len gone tx cs sub \<longleftrightarrow>
     \<not> gone (sub_cell sub) \<and> (\<exists>b. fst (push_to framed_len tx (cs (sub_cell sub))) = Ok b)"

definition mark_of :: "(wire_transaction \<Rightarrow> usize) \<Rightarrow> (nat \<Rightarrow> bool) \<Rightarrow> wire_transaction \<Rightarrow> (nat \<Rightarrow> subscriber_state) \<Rightarrow> subscriber \<Rightarrow>
  (client_id \<times> usize) list" where
  "mark_of framed_len gone tx cs sub =
     (case push_to framed_len tx (cs (sub_cell sub)) of
        (Inl (Err (Lagged _)), st) \<Rightarrow> if gone (sub_cell sub) then [] else [(sub_client sub, peak_depth st)]
      | _ \<Rightarrow> [])"

definition after_push :: "(wire_transaction \<Rightarrow> usize) \<Rightarrow> (nat \<Rightarrow> bool) \<Rightarrow> wire_transaction \<Rightarrow> nat set \<Rightarrow> (nat \<Rightarrow> subscriber_state) \<Rightarrow>
  (nat \<Rightarrow> subscriber_state)" where
  "after_push framed_len gone tx C cs = (\<lambda>c. if c \<in> C \<and> \<not> gone c then snd (push_to framed_len tx (cs c)) else cs c)"

lemma publish_one_spec:
  assumes "sub_ok (cs (sub_cell sub))" "w_base_revision tx < w_new_revision tx"
  shows "\<exists>effs. publish_one framed_len gone tx sub cs =
    (Ok (keeps_sub framed_len gone tx cs sub, mark_of framed_len gone tx cs sub, effs),
     after_push framed_len gone tx {sub_cell sub} cs)"
proof (cases "gone (sub_cell sub)")
  case True
  then show ?thesis
    by (auto simp: publish_one_def keeps_sub_def mark_of_def after_push_def Let_def fun_eq_iff
        split: prod.split sum.split fault.split outbound_recv_error.split)
next
  case False
  obtain r st where run: "push_to framed_len tx (cs (sub_cell sub)) = (r, st)" by fastforce
  have cs: "after_push framed_len gone tx {sub_cell sub} cs = cs(sub_cell sub := st)"
    using False run by (auto simp: after_push_def fun_eq_iff)
  from push_to_spec [OF assms, of framed_len] run consider b where "r = Ok b" | e where "r = Error e" by auto
  then show ?thesis
  proof cases
    case 1
    then show ?thesis using False run cs
      by (cases b) (auto simp: publish_one_def keeps_sub_def mark_of_def push_to_def incoming_for_def Let_def)
  next
    case 2
    then show ?thesis using False run cs
      by (cases e) (auto simp: publish_one_def keeps_sub_def mark_of_def push_to_def incoming_for_def Let_def)
  qed
qed

lemma after_push_other:
  "sub_cell sub \<notin> C \<Longrightarrow> keeps_sub framed_len gone tx (after_push framed_len gone tx C cs) sub = keeps_sub framed_len gone tx cs sub \<and>
     mark_of framed_len gone tx (after_push framed_len gone tx C cs) sub = mark_of framed_len gone tx cs sub"
  by (simp add: keeps_sub_def mark_of_def after_push_def)

lemma publish_loop_spec:
  assumes "distinct (map sub_cell subs)" "\<forall>sub \<in> set subs. sub_ok (cs (sub_cell sub))" "w_base_revision tx < w_new_revision tx"
  shows "\<exists>effs. publish_loop framed_len gone tx subs cs =
    (Ok (filter (keeps_sub framed_len gone tx cs) subs, concat (map (mark_of framed_len gone tx cs) subs), effs),
     after_push framed_len gone tx (sub_cell ` set subs) cs)"
  using assms
proof (induction subs arbitrary: cs)
  case Nil
  then show ?case by (simp add: after_push_def)
next
  case (Cons sub subs)
  let ?c = "sub_cell sub" and ?cs = "after_push framed_len gone tx {sub_cell sub} cs"
  obtain e1 where one: "publish_one framed_len gone tx sub cs =
      (Ok (keeps_sub framed_len gone tx cs sub, mark_of framed_len gone tx cs sub, e1), ?cs)"
    using publish_one_spec Cons.prems by force
  have other: "sub_cell s \<notin> {?c}" if "s \<in> set subs" for s
  proof -
    have "sub_cell s \<in> sub_cell ` set subs" using that by simp
    with Cons.prems(1) show ?thesis by (auto simp del: image_eqI)
  qed
  have "\<forall>s \<in> set subs. sub_ok (?cs (sub_cell s))"
  proof
    fix s assume "s \<in> set subs"
    with other [OF this] Cons.prems(2) show "sub_ok (?cs (sub_cell s))" by (simp add: after_push_def)
  qed
  then obtain e2 where rest: "publish_loop framed_len gone tx subs ?cs =
      (Ok (filter (keeps_sub framed_len gone tx ?cs) subs, concat (map (mark_of framed_len gone tx ?cs) subs), e2),
       after_push framed_len gone tx (sub_cell ` set subs) ?cs)"
    using Cons.IH [of ?cs] Cons.prems by auto
  have f: "filter (keeps_sub framed_len gone tx ?cs) subs = filter (keeps_sub framed_len gone tx cs) subs"
    "map (mark_of framed_len gone tx ?cs) subs = map (mark_of framed_len gone tx cs) subs"
    using after_push_other [OF other] by (auto intro: filter_cong)
  have "after_push framed_len gone tx (sub_cell ` set subs) ?cs = after_push framed_len gone tx (sub_cell ` set (sub # subs)) cs"
    using Cons.prems(1) by (auto simp: after_push_def fun_eq_iff)
  with one rest f show ?case by simp
qed

section \<open>Properties\<close>

text \<open>
  C2: A connected client converges to the server.  The session commits messages, and closures that
  ask only for operations the wire can carry and leave at their first call that fails (a closure
  that swallows such an error, or creates a child below node 0, commits what no replica can
  follow); the bound the client negotiated for merges does not exceed the operation limit of its
  store.  Then, whatever the coalescing merges in the client's queue and in whatever order lanes
  are served, as long as the queue does not overflow, applying the transactions sent so far and
  then those still queued, one delivered transaction after the other, to the store the client
  subscribed with succeeds and gives exactly the current store of the server; so a client whose
  queue is drained has the server's store.
\<close>

theorem client_converges:
  assumes "connection framed_len s0 max_ops sess st out" "max_ops \<le> max_transaction_operations (limits s0)"
  shows "replay_all (out @ items st) s0 = (Ok (), si_store sess) \<and>
    (items st = [] \<longrightarrow> replay_all out s0 = (Ok (), si_store sess))"
  using connection_invariant [OF assms] by auto

theorem client_converges_witness:
  "\<exists>sess out. connection (\<lambda>_. 10) store_new 5 sess (subscriber_new 1 5 100 0\<lparr>peak_depth := 1\<rparr>) out \<and>
     contains_node (si_store sess) 1 \<and> replay_all out store_new = (Ok (), si_store sess)"
proof -
  obtain w s' eff where com: "transaction_with_result create_root [] session_a = (Ok ((), w), s', eff)" "contains_node (si_store s') 1"
    using create_root_commits by blast
  let ?st = "subscriber_new 1 5 100 0"
  let ?st1 = "?st\<lparr>items := [w], peak_depth := 1\<rparr>"
  have "connection (\<lambda>_. 10) store_new 5 session_a ?st []"
    by (rule connection.subscribed) (simp_all add: session_a_ok session_a_store)
  then have "connection (\<lambda>_. 10) store_new 5 s' ?st1 []"
  proof (rule connection.commits)
    show "session_commits session_a w s'" by (rule session_commits.by_closure [OF com(1) create_root_disciplined])
    show "try_push_or_absorb (\<lambda>_. 10) w (incoming_for w ?st) ?st = (Inr True, ?st1)"
      by (simp add: try_push_or_absorb_def incoming_for_def has_unsent_tail_def enqueue_new_def subscriber_new_def)
  qed
  moreover have "try_recv_class Ui ?st1 = (Inr (Some (ItemTransaction w)), ?st\<lparr>peak_depth := 1\<rparr>, True)"
    by (simp add: try_recv_class_def pop_transaction_def subscriber_new_def)
  ultimately have "connection (\<lambda>_. 10) store_new 5 s' (?st\<lparr>peak_depth := 1\<rparr>) ([] @ [w])"
    using connection.sends [where it = "Some (ItemTransaction w)"] by fastforce
  moreover from this have "replay_all [w] store_new = (Ok (), si_store s')"
    using client_converges [where out = "[w]"] session_a_store by (auto simp: subscriber_new_def)
  ultimately show ?thesis using com(2) by (intro exI [of _ s'] exI [of _ "[w]"]) simp
qed

text \<open>The item that replaces the tail stands for the tail and the incoming transaction.\<close>

definition stands_for :: "subscriber_state \<Rightarrow> wire_transaction \<Rightarrow> wire_transaction \<Rightarrow> wire_transaction \<Rightarrow> bool" where
  "stands_for st merged w tx \<longleftrightarrow>
     w_base_revision merged = w_base_revision w \<and> w_new_revision merged = w_new_revision tx \<and>
     (\<forall>s u. sub_max_ops st \<le> max_transaction_operations (limits s) \<longrightarrow> replay_all [w, tx] s = (Ok (), u) \<longrightarrow> replay_all [merged] s = (Ok (), u))"

lemma absorbed_stands_for:
  assumes "absorbed tx st st'"
  shows "\<exists>pre w merged. items st = pre @ [w] \<and> items st' = pre @ [merged] \<and> stands_for st merged w tx"
proof -
  obtain pre w tail incoming where w: "items st = pre @ [w]" "transaction_from_wire w = Ok tail"
    "transaction_from_wire tx = Ok incoming" "items st' = pre @ [transaction_to_wire (merged_txn tail incoming)]"
    using assms unfolding absorbed_def by blast
  let ?m = "transaction_to_wire (merged_txn tail incoming)"
  have "replay_all [?m] s = (Ok (), u)"
    if ops: "sub_max_ops st \<le> max_transaction_operations (limits s)" and all: "replay_all [w, tx] s = (Ok (), u)" for s u
  proof -
    let ?q = "st\<lparr>items := [w]\<rparr>" and ?q' = "st'\<lparr>items := [?m]\<rparr>"
    have "absorbed tx ?q ?q'" using assms w unfolding absorbed_def by auto
    moreover obtain t r where "replay_all [w] s = (Ok (), t)" "apply_delivered_transaction tx t = (Inr r, u)"
      using all replay_snoc [of "[w]" tx s "()" u] by auto
    ultimately show ?thesis using replay_absorbed [of "[]" ?q s t tx r u ?q'] ops by simp
  qed
  moreover have "w_base_revision ?m = w_base_revision w" "w_new_revision ?m = w_new_revision tx"
    using to_domain_revisions w(2, 3) by (auto simp: transaction_to_wire_def merged_txn_def)
  ultimately show ?thesis using w(1, 4) unfolding stands_for_def by blast
qed

text \<open>
  C36: The queue of a subscriber is bounded and loses nothing silently.  Publishing a forward
  transaction into an open queue keeps its invariant and does one of three things: it appends
  the transaction while the capacity allows; it replaces the last item by a merge that leads from
  the base of that item to the new revision of the transaction and takes every store that admits
  the negotiated number of operations where the two transactions, one after the other, take it,
  all other items untouched; or the queue is full, and then it is emptied and closed for good,
  and every lane reports the lag instead of an item.
\<close>

theorem push_outcomes:
  assumes "sub_ok st" "\<not> is_closed st" "w_base_revision tx < w_new_revision tx"
    and "push_to framed_len tx st = (r, st')"
  shows "sub_ok st' \<and> length (items st') \<le> capacity st \<and>
    (r = Ok True \<and> items st' = items st @ [tx] \<or>
     r = Ok False \<and> (\<exists>pre w merged. items st = pre @ [w] \<and> items st' = pre @ [merged] \<and> stands_for st merged w tx) \<or>
     r = Error (Lagged (capacity st)) \<and> length (items st) = capacity st \<and> items st' = [] \<and> is_closed st' \<and>
       (\<forall>cls. fst (try_recv_class cls st') = Error (Lagged (capacity st))))"
proof -
  from push_spec [OF assms(1-3) incoming_for_decodes assms(4) [unfolded push_to_def]]
  have s: "sub_ok st'" "r = Ok True \<and> pushed tx st st' \<or> r = Ok False \<and> absorbed tx st st' \<or>
    r = Error (Lagged (capacity st)) \<and> overflowed st st'" by auto
  have cap: "length (items st') \<le> capacity st" "length (items st) \<le> capacity st"
    using s(1) assms(1) push_frame [OF assms(4) [unfolded push_to_def]] by (auto simp: sub_ok_def)
  from s(2) show ?thesis
  proof (elim disjE conjE)
    assume "r = Ok False" "absorbed tx st st'"
    with s(1) cap absorbed_stands_for [of tx st st'] show ?thesis by blast
  qed (use s(1) cap in \<open>auto simp: pushed_def overflowed_def try_recv_class_def\<close>)
qed

theorem push_outcomes_witness:
  "\<forall>cls. fst (try_recv_class cls (snd (push_to (\<lambda>_. 10)
     \<lparr>w_base_revision = 1, w_new_revision = 2, w_operations = [], w_priority = 0\<rparr>
     (snd (push_to (\<lambda>_. 10) \<lparr>w_base_revision = 0, w_new_revision = 1, w_operations = [], w_priority = 0\<rparr>
        (subscriber_new 1 5 100 0)))))) = Error (Lagged 1)"
proof -
  let ?a = "\<lparr>w_base_revision = 0, w_new_revision = 1, w_operations = [], w_priority = 0\<rparr>"
  let ?b = "\<lparr>w_base_revision = 1, w_new_revision = 2, w_operations = [], w_priority = 0\<rparr>"
  let ?st = "subscriber_new 1 5 100 0\<lparr>items := [?a], peak_depth := 1\<rparr>"
  have one: "push_to (\<lambda>_. 10) ?a (subscriber_new 1 5 100 0) = (Ok True, ?st)"
    by (simp add: push_to_def try_push_or_absorb_def incoming_for_def has_unsent_tail_def enqueue_new_def subscriber_new_def)
  have ok: "sub_ok ?st" "\<not> is_closed ?st" "capacity ?st = 1"
    by (simp_all add: sub_ok_def subscriber_new_def transfer_ok_def transfer_queue_default_def word_less_nat_alt)
  have "fst (push_to (\<lambda>_. 10) ?b ?st) = Error (Lagged 1)"
    by (simp add: push_to_def try_push_or_absorb_def incoming_for_def has_unsent_tail_def enqueue_new_def subscriber_new_def
        to_domain_def transaction_from_wire_def cache_tail_def try_absorb_def is_coalesceable_def)
  then show ?thesis
    using push_outcomes [OF ok(1,2), of ?b "\<lambda>_. 10"] ok(3) one
    by (cases "push_to (\<lambda>_. 10) ?b ?st") (auto simp: word_less_nat_alt)
qed

text \<open>
  C35: Publishing reaches every subscriber on its own.  On a well-formed hub it never panics and
  leaves the hub well-formed; the subscribers that stay are, in their old order, those whose
  receiver is alive and whose own queue took the transaction; each live queue is changed by its
  own push only, every other cell is untouched, and the clients whose queue overflowed are
  entered into the table of stale clients, which stays within its bound.
\<close>

theorem publish_isolates:
  assumes "hub_ok hub" "\<not> hub_is_closed hub" "w_base_revision tx < w_new_revision tx"
  shows "\<exists>effs hub'. publish framed_len gone tx hub = (Ok effs, hub') \<and> hub_ok hub' \<and>
    subscribers hub' = filter (keeps_sub framed_len gone tx (cells hub)) (subscribers hub) \<and>
    (\<forall>c. cells hub' c = (if c \<in> sub_cell ` set (subscribers hub) \<and> \<not> gone c
                         then snd (push_to framed_len tx (cells hub c)) else cells hub c)) \<and>
    stale_clients hub' = fold (\<lambda>(c, p). mark c p)
      (concat (map (mark_of framed_len gone tx (cells hub)) (subscribers hub))) (stale_clients hub) \<and>
    length (stale_order (stale_clients hub')) \<le> MAX_TRACKED_STALE_CLIENTS"
proof -
  let ?cs = "after_push framed_len gone tx (sub_cell ` set (subscribers hub)) (cells hub)"
  have D: "distinct (map sub_cell (subscribers hub))" "\<forall>sub \<in> set (subscribers hub). sub_ok (cells hub (sub_cell sub))"
    "registry_ok (stale_clients hub)" using assms(1) by (auto simp: hub_ok_def)
  obtain effs where run: "publish_loop framed_len gone tx (subscribers hub) (cells hub) =
      (Ok (filter (keeps_sub framed_len gone tx (cells hub)) (subscribers hub),
           concat (map (mark_of framed_len gone tx (cells hub)) (subscribers hub)), effs), ?cs)"
    using publish_loop_spec [OF D(1,2) assms(3)] by blast
  have "sub_ok (?cs (sub_cell sub))" if "sub \<in> set (subscribers hub)" for sub
    using D(2) that push_to_spec [OF _ assms(3)] by (simp add: after_push_def)
  moreover have "distinct (map sub_cell (filter P (subscribers hub)))" for P
    using D(1) by (simp add: distinct_map_filter)
  moreover have reg: "registry_ok (fold (\<lambda>(c, p). mark c p)
      (concat (map (mark_of framed_len gone tx (cells hub)) (subscribers hub))) (stale_clients hub))"
    by (rule marks_ok [OF D(3)])
  ultimately show ?thesis
    using assms(1,2) run by (auto simp: publish_def hub_ok_def after_push_def registry_ok_def)
qed

theorem publish_isolates_witness:
  "\<exists>effs hub'. publish (\<lambda>_. 10) (\<lambda>_. False) \<lparr>w_base_revision = 0, w_new_revision = 1, w_operations = [], w_priority = 0\<rparr>
     (snd (subscribe (\<lambda>_. False) [7] 1 5 100 0 hub_new)) = (Ok effs, hub') \<and> hub_ok hub'"
proof -
  have "hub_ok (snd (subscribe (\<lambda>_. False) [7] 1 5 100 0 hub_new))"
    by (simp add: hub_ok_def subscribe_def hub_new_def Let_def subscriber_new_ok registry_ok_def registry_default_def)
  moreover have "\<not> hub_is_closed (snd (subscribe (\<lambda>_. False) [7] 1 5 100 0 hub_new))"
    by (simp add: subscribe_def hub_new_def Let_def)
  ultimately show ?thesis
    using publish_isolates [of _ "\<lparr>w_base_revision = 0, w_new_revision = 1, w_operations = [], w_priority = 0\<rparr>" "\<lambda>_. 10" "\<lambda>_. False"]
    by (simp add: word_less_nat_alt) blast
qed

end
