(* ===== verification/Output_Ring.thy ===== *)
theory Output_Ring
  imports Prelude
begin

text \<open>
  The bounded output ring of a terminal: \<^verbatim>\<open>pty/src/ring.rs\<close>.  Output is kept as a queue of
  chunks that cover the absolute offsets from \<open>retained_start\<close> to \<open>next_offset\<close>.  Unchecked
  additions, slices and \<open>expect\<close> are panics where they fail; a loop that makes no progress is
  \<open>Diverge\<close>.
\<close>

section \<open>The ring\<close>

definition MAX_TERMINAL_OUTPUT_FRAME_BYTES :: usize where
  "MAX_TERMINAL_OUTPUT_FRAME_BYTES = 16384"

datatype ring_error =
    OffsetOverflow
  | RangeUnavailable u64 u64 u64 u64

record output_ring =
  ring_chunks :: "u8 list list"
  retained_start :: u64
  ring_next_offset :: u64
  stored_bytes :: usize
  ring_capacity :: usize

definition ring_new :: "usize \<Rightarrow> (ring_error, output_ring) result" where
  "ring_new cap =
     (if cap = 0 then Inl Panic
      else Ok \<lparr>ring_chunks = [], retained_start = 0, ring_next_offset = 0, stored_bytes = 0, ring_capacity = cap\<rparr>)"

function evict_to_capacity :: "output_ring \<Rightarrow> (ring_error, unit) result \<times> output_ring" where
  "evict_to_capacity self =
     (if stored_bytes self > ring_capacity self
      then (case ring_chunks self of
          [] \<Rightarrow> (Ok (), self)
        | front # rest \<Rightarrow>
            (let overflow = stored_bytes self - ring_capacity self
             in if overflow \<ge> length front
                then let self = self\<lparr>ring_chunks := rest, stored_bytes := stored_bytes self - length front\<rparr>
                     in case checked_add (retained_start self) (of_nat (length front)) of
                          None \<Rightarrow> (Inl Panic, self)
                        | Some r \<Rightarrow> evict_to_capacity (self\<lparr>retained_start := r\<rparr>)
                else let self = self\<lparr>ring_chunks := drop overflow front # rest, stored_bytes := stored_bytes self - overflow\<rparr>
                     in case checked_add (retained_start self) (of_nat overflow) of
                          None \<Rightarrow> (Inl Panic, self)
                        | Some r \<Rightarrow> evict_to_capacity (self\<lparr>retained_start := r\<rparr>)))
      else (Ok (), self))"
  by pat_completeness auto
termination
  by (relation "measure (\<lambda>self. length (ring_chunks self) + stored_bytes self)") auto

declare evict_to_capacity.simps [simp del]

definition ring_append :: "u8 list \<Rightarrow> output_ring \<Rightarrow> (ring_error, u64) result \<times> output_ring" where
  "ring_append data self =
     (if data = [] then (Ok (ring_next_offset self), self)
      else if length data \<ge> 2 ^ 64 then (Error OffsetOverflow, self)
      else and_then_st (ok_or OffsetOverflow (checked_add (ring_next_offset self) (of_nat (length data))), self)
        (\<lambda>next self.
          let self = self\<lparr>ring_next_offset := next, ring_chunks := ring_chunks self @ [data],
                stored_bytes := stored_bytes self + length data\<rparr>
          in and_then_st (evict_to_capacity self) (\<lambda>_ self. (Ok (ring_next_offset self), self))))"

text \<open>\<open>&chunk[from..to]\<close>.\<close>

definition slice_range :: "usize \<Rightarrow> usize \<Rightarrow> 'a list \<Rightarrow> (ring_error, 'a list) result" where
  "slice_range from to xs = (if from \<le> to \<and> to \<le> length xs then Ok (take (to - from) (drop from xs)) else Inl Panic)"

fun copy_loop :: "u64 \<Rightarrow> u64 \<Rightarrow> u8 list list \<Rightarrow> u64 \<Rightarrow> u8 list \<Rightarrow> (ring_error, u8 list) result" where
  "copy_loop start stop [] cursor out = Ok out"
| "copy_loop start stop (chunk # rest) cursor out =
     and_then (expect (checked_add cursor (of_nat (length chunk)))) (\<lambda>chunk_end.
       if chunk_end \<le> start then copy_loop start stop rest chunk_end out
       else if cursor \<ge> stop then Ok out
       else and_then (expect (checked_sub (min stop chunk_end) cursor)) (\<lambda>to.
            and_then (slice_range (unat (saturating_sub start cursor)) (unat to) chunk) (\<lambda>part.
              if chunk_end \<ge> stop then Ok (out @ part)
              else copy_loop start stop rest chunk_end (out @ part))))"

definition copy_range :: "output_ring \<Rightarrow> u64 \<Rightarrow> u64 \<Rightarrow> (ring_error, u8 list) result" where
  "copy_range self start stop =
     (if start > stop then Error (RangeUnavailable start stop (retained_start self) (ring_next_offset self))
      else if start < retained_start self \<or> stop > ring_next_offset self
      then Error (RangeUnavailable start stop (retained_start self) (ring_next_offset self))
      else if start = stop then Ok []
      else copy_loop start stop (ring_chunks self) (retained_start self) [])"

text \<open>The loop over the rest of one chunk; the state is the finished frames, the open frame and its offset.\<close>

type_synonym framing = "(u64 \<times> u8 list) list \<times> u8 list \<times> u64"

function frame_chunk :: "u8 list \<Rightarrow> framing \<Rightarrow> (ring_error, framing) result" where
  "frame_chunk remaining (frames, frame, frame_offset) =
     (if remaining = [] then Ok (frames, frame, frame_offset)
      else if length frame > MAX_TERMINAL_OUTPUT_FRAME_BYTES then Inl Panic
      else let n = min (length remaining) (MAX_TERMINAL_OUTPUT_FRAME_BYTES - length frame)
           in if n = 0 then Inl Diverge
              else if frame = [] \<and> n = MAX_TERMINAL_OUTPUT_FRAME_BYTES
              then (case checked_add frame_offset (of_nat n) of
                  None \<Rightarrow> Error OffsetOverflow
                | Some off \<Rightarrow> frame_chunk (drop n remaining) (frames @ [(frame_offset, take n remaining)], frame, off))
              else if length (frame @ take n remaining) = MAX_TERMINAL_OUTPUT_FRAME_BYTES
              then (case checked_add frame_offset (of_nat MAX_TERMINAL_OUTPUT_FRAME_BYTES) of
                  None \<Rightarrow> Error OffsetOverflow
                | Some off \<Rightarrow> frame_chunk (drop n remaining) (frames @ [(frame_offset, frame @ take n remaining)], [], off))
              else frame_chunk (drop n remaining) (frames, frame @ take n remaining, frame_offset))"
  by pat_completeness auto
termination
  by (relation "measure (\<lambda>(remaining, _). length remaining)") auto

declare frame_chunk.simps [simp del]

fun frame_loop :: "u64 \<Rightarrow> u64 \<Rightarrow> u8 list list \<Rightarrow> u64 \<Rightarrow> framing \<Rightarrow> (ring_error, framing) result" where
  "frame_loop start stop [] cursor st = Ok st"
| "frame_loop start stop (chunk # rest) cursor st =
     and_then (expect (checked_add cursor (of_nat (length chunk)))) (\<lambda>chunk_end.
       if chunk_end \<le> start then frame_loop start stop rest chunk_end st
       else if cursor \<ge> stop then Ok st
       else and_then (expect (checked_sub (min stop chunk_end) cursor)) (\<lambda>to.
            and_then (slice_range (unat (saturating_sub start cursor)) (unat to) chunk) (\<lambda>remaining.
            and_then (frame_chunk remaining st) (\<lambda>st.
              if chunk_end \<ge> stop then Ok st else frame_loop start stop rest chunk_end st))))"

definition frame_range :: "output_ring \<Rightarrow> u64 \<Rightarrow> u64 \<Rightarrow> (ring_error, (u64 \<times> u8 list) list) result" where
  "frame_range self start stop =
     (if start > stop \<or> start < retained_start self \<or> stop > ring_next_offset self
      then Error (RangeUnavailable start stop (retained_start self) (ring_next_offset self))
      else if start = stop then Ok []
      else and_then (frame_loop start stop (ring_chunks self) (retained_start self) ([], [], start))
        (\<lambda>(frames, frame, frame_offset). Ok (if frame \<noteq> [] then frames @ [(frame_offset, frame)] else frames)))"

section \<open>The ring holds the end of the stream\<close>

definition ring_bytes :: "output_ring \<Rightarrow> u8 list" where
  "ring_bytes r = concat (ring_chunks r)"

definition ring_linked :: "output_ring \<Rightarrow> bool" where
  "ring_linked r \<longleftrightarrow> stored_bytes r = length (ring_bytes r) \<and>
     unat (ring_next_offset r) = unat (retained_start r) + length (ring_bytes r)"

definition ring_ok :: "output_ring \<Rightarrow> bool" where
  "ring_ok r \<longleftrightarrow> ring_linked r \<and> 0 < ring_capacity r \<and> stored_bytes r \<le> ring_capacity r"

lemma checked_advance:
  assumes "unat (a :: u64) + n \<le> unat (b :: u64)"
  shows "\<exists>c. checked_add a (of_nat n) = Some c \<and> unat c = unat a + n"
proof -
  have "unat a + n < 18446744073709551616" using assms unat_u64_bound [of b] by linarith
  then have n: "n < 2 ^ 64" "unat a + n < 2 ^ 64" by simp_all
  then have "checked_add a (of_nat n) = Some (a + of_nat n)"
    by (simp add: checked_add_Some unat_of_nat_u64)
  with n show ?thesis using checked_add_of_nat(1) [OF n(1)] by blast
qed

lemma ring_evict_spec:
  assumes "ring_linked r"
  shows "\<exists>r'. evict_to_capacity r = (Ok (), r') \<and> ring_linked r' \<and> ring_next_offset r' = ring_next_offset r \<and>
    ring_capacity r' = ring_capacity r \<and> ring_bytes r' = drop (length (ring_bytes r) - ring_capacity r) (ring_bytes r)"
  using assms
proof (induction r rule: evict_to_capacity.induct)
  case (1 r)
  show ?case
  proof (cases "stored_bytes r > ring_capacity r")
    case False
    then show ?thesis using 1(3) by (simp add: evict_to_capacity.simps [of r] ring_linked_def)
  next
    case True
    then obtain front rest where ch: "ring_chunks r = front # rest"
      using 1(3) by (cases "ring_chunks r") (auto simp: ring_linked_def ring_bytes_def)
    define over where "over = stored_bytes r - ring_capacity r"
    show ?thesis
    proof (cases "length front \<le> over")
      case drop: True
      have "unat (retained_start r) + length front \<le> unat (ring_next_offset r)"
        using 1(3) ch by (simp add: ring_linked_def ring_bytes_def)
      then obtain s where s: "checked_add (retained_start r) (of_nat (length front)) = Some s"
        "unat s = unat (retained_start r) + length front" using checked_advance by blast
      let ?u = "r\<lparr>ring_chunks := rest, stored_bytes := stored_bytes r - length front\<rparr>"
      let ?r = "?u\<lparr>retained_start := s\<rparr>"
      have lk: "ring_linked ?r" using 1(3) ch s(2) by (simp add: ring_linked_def ring_bytes_def)
      have step: "evict_to_capacity r = evict_to_capacity ?r"
        using True ch drop s(1) by (simp add: evict_to_capacity.simps [of r] Let_def over_def)
      have bytes: "ring_bytes r = front @ ring_bytes ?r" by (simp add: ring_bytes_def ch)
      have len: "length (ring_bytes r) - ring_capacity r = length front + (length (ring_bytes ?r) - ring_capacity r)"
      proof -
        have "stored_bytes r = length (ring_bytes r)" using 1(3) by (simp add: ring_linked_def)
        moreover have "length (ring_bytes r) = length front + length (ring_bytes ?r)" by (simp add: bytes)
        ultimately show ?thesis using drop True unfolding over_def by linarith
      qed
      have "drop (length (ring_bytes r) - ring_capacity r) (ring_bytes r) = drop (length (ring_bytes ?r) - ring_capacity ?r) (ring_bytes ?r)"
        unfolding len unfolding bytes by simp
      with "1.IH"(1) [OF True ch refl _ refl _ lk] step drop s(1) show ?thesis by (auto simp: over_def)
    next
      case cut: False
      have "unat (retained_start r) + over \<le> unat (ring_next_offset r)"
        using 1(3) by (simp add: ring_linked_def over_def)
      then obtain s where s: "checked_add (retained_start r) (of_nat over) = Some s"
        "unat s = unat (retained_start r) + over" using checked_advance by blast
      let ?u = "r\<lparr>ring_chunks := drop over front # rest, stored_bytes := stored_bytes r - over\<rparr>"
      let ?r = "?u\<lparr>retained_start := s\<rparr>"
      have len: "length (ring_bytes r) = stored_bytes r" using 1(3) by (simp add: ring_linked_def)
      have bytes: "ring_bytes ?r = drop over (ring_bytes r)" using cut by (simp add: ring_bytes_def ch)
      have lk: "ring_linked ?r" using 1(3) s(2) bytes len by (simp add: ring_linked_def over_def)
      have "evict_to_capacity r = evict_to_capacity ?r"
        using True ch cut s(1) by (simp add: evict_to_capacity.simps [of r] Let_def over_def)
      moreover have "evict_to_capacity ?r = (Ok (), ?r)"
        using True by (subst evict_to_capacity.simps) (simp add: over_def)
      ultimately show ?thesis using lk bytes len by (simp add: over_def)
    qed
  qed
qed

text \<open>The refinement relation: the ring holds the last bytes of the whole output.\<close>

definition holds :: "u8 list \<Rightarrow> output_ring \<Rightarrow> bool" where
  "holds stream r \<longleftrightarrow> ring_ok r \<and> unat (ring_next_offset r) = length stream \<and>
     ring_bytes r = drop (length stream - ring_capacity r) stream"

lemma holds_start: "holds stream r \<Longrightarrow> unat (retained_start r) = length stream - ring_capacity r"
  by (auto simp: holds_def ring_ok_def ring_linked_def)

lemma append_spec:
  assumes "holds stream r" "length stream + length data < 2 ^ 64"
  obtains r' where "ring_append data r = (Ok (of_nat (length stream + length data)), r')" "holds (stream @ data) r'"
    "ring_capacity r' = ring_capacity r"
proof (cases "data = []")
  case True
  have "ring_next_offset r = of_nat (length stream)" using assms by (simp add: holds_def word_unat_eq_iff unat_of_nat_u64)
  with True assms show thesis by (intro that [of r]) (simp_all add: ring_append_def)
next
  case False
  define total where "total = length stream + length data"
  have n: "unat (ring_next_offset r) = length stream" using assms(1) by (simp add: holds_def)
  have next_: "checked_add (ring_next_offset r) (of_nat (length data)) = Some (of_nat total)"
    using assms(2) n by (intro checked_add_of_nat(1) [THEN iffD2]) (simp_all add: unat_of_nat_u64 total_def del: of_nat_add)
  let ?r = "r\<lparr>ring_next_offset := of_nat total, ring_chunks := ring_chunks r @ [data],
    stored_bytes := stored_bytes r + length data\<rparr>"
  have old: "stored_bytes r = length (ring_bytes r)" "length stream = unat (retained_start r) + length (ring_bytes r)"
    using assms(1) n unfolding holds_def ring_ok_def ring_linked_def by metis+
  have "length (ring_bytes ?r) = length (ring_bytes r) + length data" by (simp add: ring_bytes_def)
  moreover have "unat (of_nat total :: u64) = total" using assms(2) by (intro unat_of_nat_u64) (simp add: total_def)
  ultimately have lk: "ring_linked ?r" using old by (simp add: ring_linked_def total_def del: of_nat_add)
  obtain r' where r': "evict_to_capacity ?r = (Ok (), r')" "ring_linked r'" "ring_next_offset r' = ring_next_offset ?r"
    "ring_capacity r' = ring_capacity r" "ring_bytes r' = drop (length (ring_bytes ?r) - ring_capacity r) (ring_bytes ?r)"
    using ring_evict_spec [OF lk] by auto
  have bytes: "ring_bytes ?r = drop (length stream - ring_capacity r) stream @ data"
    using assms(1) by (simp add: holds_def ring_bytes_def)
  have "ring_bytes r' = drop (length (stream @ data) - ring_capacity r) (stream @ data)"
    unfolding r'(5) bytes by (cases "length stream \<le> ring_capacity r") (simp_all add: add.commute)
  moreover have "stored_bytes r' \<le> ring_capacity r'" using r' by (simp add: ring_linked_def)
  ultimately have "holds (stream @ data) r'"
    using r' assms by (simp add: holds_def ring_ok_def unat_of_nat_u64 total_def del: of_nat_add)
  moreover have "ring_append data r = (Ok (of_nat total), r')"
    using False assms(2) next_ r' by (simp add: ring_append_def Let_def)
  ultimately show thesis using that r'(4) unfolding total_def by blast
qed

section \<open>Reading a range\<close>

text \<open>The bytes of the stream between two offsets.\<close>

definition stream_range :: "u8 list \<Rightarrow> nat \<Rightarrow> nat \<Rightarrow> u8 list" where
  "stream_range stream a b = take (b - a) (drop a stream)"

lemma stream_range_append:
  "a \<le> b \<Longrightarrow> b \<le> c \<Longrightarrow> stream_range s a b @ stream_range s b c = stream_range s a c"
proof -
  assume "a \<le> b" "b \<le> c"
  then have "c - a = (b - a) + (c - b)" "drop (b - a) (drop a s) = drop b s" by simp_all
  then show ?thesis by (simp add: stream_range_def take_add)
qed

text \<open>
  What both loops read of one chunk.  The chunks from the cursor on are the stream from
  the cursor on; \<open>part_of\<close> is the slice of the first chunk that lies in the range.
\<close>

definition part_of :: "nat \<Rightarrow> nat \<Rightarrow> nat \<Rightarrow> u8 list \<Rightarrow> u8 list" where
  "part_of start stop cursor chunk = take (min stop (cursor + length chunk) - max start cursor) (drop (start - cursor) chunk)"

lemma part_of_stream:
  assumes "chunk @ rest = drop cursor stream" "cursor < stop" "start < cursor + length chunk" "start \<le> stop"
  shows "part_of start stop cursor chunk = stream_range stream (max start cursor) (min stop (cursor + length chunk))"
proof -
  have "drop (max start cursor) stream = drop (start - cursor) (chunk @ rest)"
    unfolding assms(1) by (simp add: max_def)
  also have "\<dots> = drop (start - cursor) chunk @ rest" using assms(3) by simp
  finally show ?thesis
    using assms(3) by (simp add: part_of_def stream_range_def)
qed

lemma chunk_end:
  assumes "unat (cursor :: u64) + length chunk < 2 ^ 64"
  shows "checked_add cursor (of_nat (length chunk)) = Some (cursor + of_nat (length chunk))"
    and "unat (cursor + of_nat (length chunk)) = unat cursor + length chunk"
proof -
  have "length chunk < 2 ^ 64" using assms by simp
  with assms show "checked_add cursor (of_nat (length chunk)) = Some (cursor + of_nat (length chunk))"
    "unat (cursor + of_nat (length chunk)) = unat cursor + length chunk"
    by (simp_all add: checked_add_Some unat_of_nat_u64 unat_plus_no_overflow)
qed

lemma chunk_part:
  fixes start stop cursor e :: u64
  assumes e: "unat e = unat cursor + length chunk" and "unat start \<le> unat stop"
    and "unat start < unat cursor + length chunk" "unat cursor < unat stop"
  shows "and_then (expect (checked_sub (min stop e) cursor)) (\<lambda>to.
      and_then (slice_range (unat (saturating_sub start cursor)) (unat to) chunk) f) =
    f (part_of (unat start) (unat stop) (unat cursor) chunk)"
proof -
  have mn: "unat (min stop e) = min (unat stop) (unat cursor + length chunk)"
    by (simp add: min_def word_le_nat_alt e)
  have "cursor \<le> min stop e" using assms(4) by (simp add: word_le_nat_alt mn)
  then have sub: "checked_sub (min stop e) cursor = Some (min stop e - cursor)"
    "unat (min stop e - cursor) = min (unat stop) (unat cursor + length chunk) - unat cursor"
    by (simp_all add: checked_sub_Some unat_sub word_le_nat_alt mn)
  have "slice_range (unat (saturating_sub start cursor)) (unat (min stop e - cursor)) chunk =
      Ok (part_of (unat start) (unat stop) (unat cursor) chunk)"
    using assms(2-4) unfolding slice_range_def unat_saturating_sub sub(2) part_of_def
    by (auto simp: min_def max_def)
  then show ?thesis by (simp add: sub(1))
qed

text \<open>
  The contract both readers meet: a loop over the chunks that feeds the parts of the range, in
  order, to a consumer.  \<open>state a d\<close> is the state of a consumer that has got the bytes \<open>d\<close> of
  the range from offset \<open>a\<close>.
\<close>

locale range_reader =
  fixes loop :: "u64 \<Rightarrow> u64 \<Rightarrow> u8 list list \<Rightarrow> u64 \<Rightarrow> 's \<Rightarrow> (ring_error, 's) result"
    and feed :: "u8 list \<Rightarrow> 's \<Rightarrow> (ring_error, 's) result"
    and state :: "nat \<Rightarrow> u8 list \<Rightarrow> 's"
  assumes loop_Nil: "loop start stop [] cursor st = Ok st"
    and loop_Cons: "loop start stop (chunk # rest) cursor st =
      and_then (expect (checked_add cursor (of_nat (length chunk)))) (\<lambda>chunk_end.
        if chunk_end \<le> start then loop start stop rest chunk_end st
        else if cursor \<ge> stop then Ok st
        else and_then (expect (checked_sub (min stop chunk_end) cursor)) (\<lambda>to.
             and_then (slice_range (unat (saturating_sub start cursor)) (unat to) chunk) (\<lambda>part.
             and_then (feed part st) (\<lambda>st.
               if chunk_end \<ge> stop then Ok st else loop start stop rest chunk_end st))))"
    and feed_state: "a + length (d @ part) < 2 ^ 64 \<Longrightarrow> feed part (state a d) = Ok (state a (d @ part))"
begin

lemma loop_reads:
  assumes "length stream < 2 ^ 64" "unat stop \<le> length stream" "unat start \<le> unat stop"
    and "concat chunks = drop (unat cursor) stream" "unat cursor \<le> length stream"
    and "a + length d + (unat stop - max (unat start) (unat cursor)) < 2 ^ 64"
  shows "loop start stop chunks cursor (state a d) =
    Ok (state a (d @ stream_range stream (max (unat start) (unat cursor)) (unat stop)))"
  using assms(4-6)
proof (induction chunks arbitrary: cursor d)
  case Nil
  then show ?case using assms(2) by (simp add: loop_Nil stream_range_def)
next
  case (Cons chunk rest)
  let ?c = "unat cursor" and ?a = "unat start" and ?b = "unat stop"
  let ?e = "cursor + of_nat (length chunk)"
  have len: "?c + length chunk + length (concat rest) = length stream"
    using arg_cong [OF Cons.prems(1), of length] Cons.prems(2) by simp
  have rest: "concat rest = drop (?c + length chunk) stream"
    using arg_cong [OF Cons.prems(1), of "drop (length chunk)"] by (simp add: add.commute)
  have fits: "?c + length chunk < 2 ^ 64" using len assms(1) by simp
  note e = chunk_end [OF fits]
  have IH: "loop start stop rest ?e (state a d') = Ok (state a (d' @ stream_range stream (max ?a (?c + length chunk)) ?b))"
    if "a + length d' + (?b - max ?a (?c + length chunk)) < 2 ^ 64" for d'
    using Cons.IH [of ?e d'] rest len that by (simp add: e(2))
  consider (before) "?c + length chunk \<le> ?a" | (behind) "?a < ?c + length chunk" "?b \<le> ?c"
    | (meets) "?a < ?c + length chunk" "?c < ?b" by linarith
  then show ?case
  proof cases
    case before
    then show ?thesis using IH [of d] Cons.prems(3) e by (simp add: loop_Cons word_le_nat_alt max_absorb1)
  next
    case behind
    then show ?thesis using e by (simp add: loop_Cons word_le_nat_alt stream_range_def)
  next
    case meets
    let ?p = "part_of ?a ?b ?c chunk"
    have part: "?p = stream_range stream (max ?a ?c) (min ?b (?c + length chunk))"
      using part_of_stream [of chunk "concat rest" ?c stream ?b ?a] Cons.prems(1) meets assms(3) by simp
    have plen: "length ?p = min ?b (?c + length chunk) - max ?a ?c"
      unfolding part using diff_le_mono [of "min ?b (?c + length chunk)" "length stream" "max ?a ?c"] assms(2)
      by (simp add: stream_range_def min_absorb2 min.coboundedI1)
    have pfit: "a + length (d @ ?p) < 2 ^ 64" using Cons.prems(3) plen by simp
    have step: "loop start stop (chunk # rest) cursor (state a d) =
        (if ?b \<le> ?c + length chunk then Ok (state a (d @ ?p)) else loop start stop rest ?e (state a (d @ ?p)))"
      using meets e assms(3) feed_state [OF pfit] by (simp add: loop_Cons chunk_part word_le_nat_alt)
    show ?thesis
    proof (cases "?b \<le> ?c + length chunk")
      case True
      then show ?thesis using step part by (simp add: min_absorb1)
    next
      case False
      have "stream_range stream (max ?a ?c) (?c + length chunk) @ stream_range stream (?c + length chunk) ?b =
          stream_range stream (max ?a ?c) ?b"
        using meets False by (intro stream_range_append) auto
      moreover have "loop start stop rest ?e (state a (d @ ?p)) =
          Ok (state a ((d @ ?p) @ stream_range stream (?c + length chunk) ?b))"
        using IH [of "d @ ?p"] Cons.prems(3) plen meets False by (simp add: max_absorb2 min_absorb2)
      ultimately show ?thesis using step part False by (simp add: min_absorb2)
    qed
  qed
qed

end

interpretation copying: range_reader copy_loop "\<lambda>part out. Ok (out @ part)" "\<lambda>_ d. d"
  by unfold_locales (simp_all cong: if_cong)

section \<open>Frames\<close>

text \<open>The blocks of full frame size, and the rest that is not full yet.\<close>

definition full_frames :: "nat \<Rightarrow> u8 list \<Rightarrow> nat \<Rightarrow> (u64 \<times> u8 list) list" where
  "full_frames a d n = map (\<lambda>i. (of_nat (a + i * MAX_TERMINAL_OUTPUT_FRAME_BYTES),
     take MAX_TERMINAL_OUTPUT_FRAME_BYTES (drop (i * MAX_TERMINAL_OUTPUT_FRAME_BYTES) d))) [0..<n]"

definition framing_of :: "nat \<Rightarrow> u8 list \<Rightarrow> framing" where
  "framing_of a d = (let q = length d div MAX_TERMINAL_OUTPUT_FRAME_BYTES
     in (full_frames a d q, drop (q * MAX_TERMINAL_OUTPUT_FRAME_BYTES) d, of_nat (a + q * MAX_TERMINAL_OUTPUT_FRAME_BYTES)))"

lemma frame_max_pos: "0 < MAX_TERMINAL_OUTPUT_FRAME_BYTES"
  by (simp add: MAX_TERMINAL_OUTPUT_FRAME_BYTES_def)

lemma full_frames_append:
  "n * MAX_TERMINAL_OUTPUT_FRAME_BYTES \<le> length d \<Longrightarrow> full_frames a (d @ x) n = full_frames a d n"
proof -
  assume n: "n * MAX_TERMINAL_OUTPUT_FRAME_BYTES \<le> length d"
  have "i * MAX_TERMINAL_OUTPUT_FRAME_BYTES + MAX_TERMINAL_OUTPUT_FRAME_BYTES \<le> length d" if "i < n" for i
  proof -
    have "Suc i * MAX_TERMINAL_OUTPUT_FRAME_BYTES \<le> n * MAX_TERMINAL_OUTPUT_FRAME_BYTES"
      using that by (intro mult_le_mono1) simp
    with n show ?thesis by simp
  qed
  then show ?thesis unfolding full_frames_def by (intro map_cong) (fastforce simp: le_diff_conv2)+
qed

text \<open>Feeding at most the space that is left in the open frame.\<close>

lemma framing_step:
  fixes d x :: "u8 list"
  defines "M \<equiv> MAX_TERMINAL_OUTPUT_FRAME_BYTES"
  defines "q \<equiv> length d div M"
  assumes "length (drop (q * M) d) + length x \<le> M"
  shows "framing_of a (d @ x) =
    (if length (drop (q * M) d) + length x = M
     then (full_frames a d q @ [(of_nat (a + q * M), drop (q * M) d @ x)], [], of_nat (a + q * M + M))
     else (full_frames a d q, drop (q * M) d @ x, of_nat (a + q * M)))"
proof -
  have M: "0 < M" by (simp add: M_def frame_max_pos)
  have qM: "q * M \<le> length d" by (simp add: q_def)
  have len: "length (d @ x) = q * M + (length (drop (q * M) d) + length x)" using qM by simp
  have frames: "full_frames a (d @ x) q = full_frames a d q" using qM full_frames_append by (simp add: M_def)
  show ?thesis
  proof (cases "length (drop (q * M) d) + length x = M")
    case True
    then have "length (d @ x) div M = Suc q" using len M by (intro div_nat_eqI) (simp_all add: mult.commute)
    moreover have "full_frames a (d @ x) (Suc q) = full_frames a d q @ [(of_nat (a + q * M), drop (q * M) d @ x)]"
      using True qM frames by (simp add: full_frames_def M_def)
    moreover have "drop (Suc q * M) (d @ x) = []" using True len by simp
    moreover have "a + q * M + M = a + Suc q * M" by simp
    ultimately show ?thesis using True by (simp add: framing_of_def Let_def M_def [symmetric] add.assoc del: mult_Suc of_nat_add of_nat_mult)
  next
    case False
    with assms(3) have "length (drop (q * M) d) + length x < M" by simp
    then have "length (d @ x) div M = q" using len by (intro div_nat_eqI) (simp_all add: mult.commute)
    then show ?thesis using False frames qM by (simp add: framing_of_def Let_def M_def [symmetric])
  qed
qed

lemma frame_chunk_feeds:
  "a + length (d @ rem) < 2 ^ 64 \<Longrightarrow> frame_chunk rem (framing_of a d) = Ok (framing_of a (d @ rem))"
proof (induction "length rem" arbitrary: rem d rule: less_induct)
  case less
  let ?M = MAX_TERMINAL_OUTPUT_FRAME_BYTES
  define q where "q = length d div ?M"
  define frame where "frame = drop (q * ?M) d"
  have st: "framing_of a d = (full_frames a d q, frame, of_nat (a + q * ?M))"
    by (simp add: framing_of_def q_def frame_def Let_def)
  have qM: "q * ?M + length frame = length d" by (simp add: q_def frame_def)
  have lt: "length frame < ?M"
    by (simp add: frame_def q_def minus_div_mult_eq_mod frame_max_pos)
  show ?case
  proof (cases "rem = []")
    case True
    then show ?thesis by (simp add: st frame_chunk.simps)
  next
    case False
    define n where "n = min (length rem) (?M - length frame)"
    have n: "0 < n" "n \<le> length rem" "length frame + n \<le> ?M" using False lt by (auto simp: n_def)
    have tk: "length (take n rem) = n" using n by simp
    have fit: "a + q * ?M + n + length frame < 2 ^ 64" using less.prems n qM by simp
    have IH: "frame_chunk (drop n rem) (framing_of a (d @ take n rem)) = Ok (framing_of a (d @ rem))"
      using less.hyps [of "drop n rem" "d @ take n rem"] less.prems n by simp
    note step = framing_step [of d "take n rem" a, folded q_def, folded frame_def, unfolded tk, OF n(3)]
    show ?thesis
    proof (cases "length frame + n = ?M")
      case full: True
      have off: "checked_add (of_nat (a + q * ?M)) (of_nat ?M :: u64) = Some (of_nat (a + q * ?M + ?M))"
        using fit full by (intro checked_add_of_nat(1) [THEN iffD2])
          (simp_all add: unat_of_nat_u64 MAX_TERMINAL_OUTPUT_FRAME_BYTES_def del: of_nat_add of_nat_mult)
      have "frame_chunk rem (framing_of a d) =
          frame_chunk (drop n rem) (full_frames a d q @ [(of_nat (a + q * ?M), frame @ take n rem)], [], of_nat (a + q * ?M + ?M))"
        using False lt n full off tk unfolding st
        by (simp add: frame_chunk.simps [of rem] Let_def n_def [symmetric] del: of_nat_add of_nat_mult)
      with IH step full show ?thesis by simp
    next
      case part: False
      then have "frame_chunk rem (framing_of a d) =
          frame_chunk (drop n rem) (full_frames a d q, frame @ take n rem, of_nat (a + q * ?M))"
        using False lt n tk unfolding st
        by (auto simp: frame_chunk.simps [of rem] Let_def n_def [symmetric] simp del: of_nat_add of_nat_mult)
      with IH step part show ?thesis by simp
    qed
  qed
qed

interpretation framing: range_reader frame_loop frame_chunk framing_of
  by unfold_locales (simp_all add: frame_chunk_feeds cong: if_cong)

text \<open>The frames of a range: blocks of full size, then a shorter one for the rest.\<close>

definition range_frames :: "nat \<Rightarrow> u8 list \<Rightarrow> (u64 \<times> u8 list) list" where
  "range_frames a d = full_frames a d ((length d + MAX_TERMINAL_OUTPUT_FRAME_BYTES - 1) div MAX_TERMINAL_OUTPUT_FRAME_BYTES)"

lemma range_frames_framing:
  "range_frames a d = (case framing_of a d of (frames, frame, off) \<Rightarrow> if frame \<noteq> [] then frames @ [(off, frame)] else frames)"
proof -
  let ?M = MAX_TERMINAL_OUTPUT_FRAME_BYTES
  define q where "q = length d div ?M"
  define r where "r = length d mod ?M"
  have d: "length d = q * ?M + r" "r < ?M" by (simp_all add: q_def r_def frame_max_pos)
  show ?thesis
  proof (cases "r = 0")
    case True
    have "(length d + ?M - 1) div ?M = q"
      using d True frame_max_pos by (intro div_nat_eqI) (simp_all add: mult.commute)
    then show ?thesis using d True by (simp add: range_frames_def framing_of_def q_def [symmetric] Let_def)
  next
    case False
    then have "length d + ?M - 1 = Suc q * ?M + (r - 1)" using d by simp
    then have "(length d + ?M - 1) div ?M = Suc q" using d by (intro div_nat_eqI) (simp_all add: mult.commute)
    then show ?thesis using d False
      by (simp add: range_frames_def framing_of_def q_def [symmetric] Let_def full_frames_def)
  qed
qed

lemma concat_full_frames: "concat (map snd (full_frames a d n)) = take (n * MAX_TERMINAL_OUTPUT_FRAME_BYTES) d"
proof (induction n)
  case (Suc n)
  let ?M = MAX_TERMINAL_OUTPUT_FRAME_BYTES
  have "take (Suc n * ?M) d = take (n * ?M) d @ take ?M (drop (n * ?M) d)"
    by (metis add.commute mult_Suc take_add)
  with Suc show ?case by (simp add: full_frames_def del: mult_Suc)
qed (simp add: full_frames_def)

lemma concat_range_frames: "concat (map snd (range_frames a d)) = d"
proof -
  let ?M = MAX_TERMINAL_OUTPUT_FRAME_BYTES
  have "length d + ?M - 1 < (length d + ?M - 1) div ?M * ?M + ?M"
    using frame_max_pos by (metis div_mult_mod_eq mod_less_divisor nat_add_left_cancel_less)
  then have "length d \<le> (length d + ?M - 1) div ?M * ?M" using frame_max_pos by linarith
  then show ?thesis by (simp add: range_frames_def concat_full_frames)
qed

section \<open>Properties\<close>

text \<open>
  C22: The ring refines the output stream.  A ring that holds the end of the stream, as much of it
  as its capacity allows, holds the end of the longer stream after an append, for data of any
  length: empty, larger than the capacity, or anything in between.  The offsets stay those of
  the whole stream, and the append returns the new end.
\<close>

theorem append_refines_stream:
  assumes "holds stream r" "length stream + length data < 2 ^ 64"
  shows "\<exists>r'. ring_append data r = (Ok (of_nat (length (stream @ data))), r') \<and> holds (stream @ data) r' \<and>
    ring_capacity r' = ring_capacity r \<and> unat (retained_start r') = length (stream @ data) - ring_capacity r"
proof -
  obtain r' where "ring_append data r = (Ok (of_nat (length stream + length data)), r')" "holds (stream @ data) r'"
    "ring_capacity r' = ring_capacity r"
    by (rule append_spec [OF assms]) blast
  then show ?thesis using holds_start by fastforce
qed

definition ring_4 :: output_ring where
  "ring_4 = \<lparr>ring_chunks = [], retained_start = 0, ring_next_offset = 0, stored_bytes = 0, ring_capacity = 4\<rparr>"

lemma ring_4_holds: "holds [] ring_4"
  by (simp add: ring_4_def holds_def ring_ok_def ring_linked_def ring_bytes_def)

theorem append_refines_stream_witness:
  "\<exists>r'. ring_append [1, 2, 3, 4, 5, 6] ring_4 = (Ok 6, r') \<and> ring_bytes r' = [3, 4, 5, 6] \<and> unat (retained_start r') = 2"
  using append_refines_stream [OF ring_4_holds, of "[1, 2, 3, 4, 5, 6]"] by (auto simp: holds_def ring_4_def)

text \<open>
  C23: Reading is exact.  For every pair of offsets, both readers return the requested bytes of the
  stream when the range is retained, and report it unavailable otherwise, without changing
  anything and without a panic or an endless loop; the framed form is the same bytes, cut at the
  multiples of the frame size from the start of the range, each frame with its absolute offset.
\<close>

theorem ring_reads_exact:
  assumes "holds stream r"
  shows "let a = unat start; b = unat stop; d = stream_range stream a b
    in if length stream - ring_capacity r \<le> a \<and> a \<le> b \<and> b \<le> length stream
       then copy_range r start stop = Ok d \<and> frame_range r start stop = Ok (range_frames a d) \<and>
         concat (map snd (range_frames a d)) = d
       else copy_range r start stop = Error (RangeUnavailable start stop (retained_start r) (ring_next_offset r)) \<and>
         frame_range r start stop = Error (RangeUnavailable start stop (retained_start r) (ring_next_offset r))"
proof -
  let ?a = "unat start" and ?b = "unat stop"
  let ?d = "stream_range stream ?a ?b"
  have off: "unat (retained_start r) = length stream - ring_capacity r" "unat (ring_next_offset r) = length stream"
    using assms holds_start by (auto simp: holds_def)
  have bytes: "concat (ring_chunks r) = drop (unat (retained_start r)) stream" using assms off by (simp add: holds_def ring_bytes_def)
  have len: "length stream < 2 ^ 64" using off(2) unat_u64_bound [of "ring_next_offset r"] by simp
  have le: "unat (retained_start r) \<le> length stream" by (simp add: off)
  show ?thesis
  proof (cases "unat (retained_start r) \<le> ?a \<and> ?a \<le> ?b \<and> ?b \<le> length stream")
    case True
    have fit: "?a + (?b - max ?a (unat (retained_start r))) < 2 ^ 64" using True len by simp
    have mx: "max ?a (unat (retained_start r)) = ?a" using True by simp
    have "copy_loop start stop (ring_chunks r) (retained_start r) [] = Ok ?d"
      using copying.loop_reads [OF len _ _ bytes le, of stop start 0 "[]"] True less_imp_diff_less [OF unat_u64_bound]
      by (simp add: mx)
    moreover have "frame_loop start stop (ring_chunks r) (retained_start r) ([], [], start) = Ok (framing_of ?a ?d)"
    proof -
      have "framing_of ?a [] = ([], [], start)" by (simp add: framing_of_def full_frames_def)
      then show ?thesis using framing.loop_reads [OF len _ _ bytes le, of stop start ?a "[]"] True fit by (simp add: mx)
    qed
    moreover have "?d = []" "range_frames ?a ?d = []" if "start = stop"
      using that by (simp_all add: stream_range_def range_frames_def full_frames_def MAX_TERMINAL_OUTPUT_FRAME_BYTES_def)
    moreover have "(case framing_of ?a ?d of (frames, frame, off) \<Rightarrow> Ok (if frame \<noteq> [] then frames @ [(off, frame)] else frames)) =
        Ok (range_frames ?a ?d)"
      unfolding range_frames_framing by (simp split: prod.split)
    ultimately have "copy_range r start stop = Ok ?d" "frame_range r start stop = Ok (range_frames ?a ?d)"
      using True by (auto simp: off copy_range_def frame_range_def word_le_nat_alt word_less_nat_alt)
    then show ?thesis using True concat_range_frames by (simp add: Let_def off)
  next
    case False
    then show ?thesis by (auto simp: Let_def off copy_range_def frame_range_def word_le_nat_alt word_less_nat_alt)
  qed
qed

theorem ring_reads_exact_witness:
  "copy_range (snd (ring_append [1, 2, 3, 4, 5, 6] ring_4)) 3 5 = Ok [4, 5] \<and>
   frame_range (snd (ring_append [1, 2, 3, 4, 5, 6] ring_4)) 3 5 = Ok [(3, [4, 5])]"
proof -
  obtain r' where r: "ring_append [1, 2, 3, 4, 5, 6] ring_4 = (Ok 6, r')" "holds [1, 2, 3, 4, 5, 6] r'" "ring_capacity r' = 4"
    by (rule append_spec [OF ring_4_holds, of "[1, 2, 3, 4, 5, 6]"]) (auto simp: ring_4_def)
  have "stream_range [1, 2, 3, 4, 5, 6] 3 5 = [4, 5]" "range_frames 3 [4, 5] = [(3, [4, 5])]"
    by (simp_all add: stream_range_def range_frames_def full_frames_def MAX_TERMINAL_OUTPUT_FRAME_BYTES_def)
  with ring_reads_exact [OF r(2), of 3 5] r show ?thesis by (simp add: Let_def)
qed

end
