(* ===== verification/Event_Dedupe.thy ===== *)
theory Event_Dedupe
  imports Prelude
begin

text \<open>
  The event deduplicator: \<^verbatim>\<open>event-dedupe/src/lib.rs\<close>.  For each client instance a bounded window
  of admitted events with their outcomes and a contiguous frontier of settled sequence numbers;
  over the instances a bound with eviction of the least recently used window, whose frontier is
  kept in a bounded table of its own.  Of a protobuf event only the four fields below are read.
\<close>

section \<open>Records\<close>

definition DEFAULT_MAX_DEDUPE_ENTRIES :: usize where
  "DEFAULT_MAX_DEDUPE_ENTRIES = 4096"

definition DEFAULT_MAX_CLIENT_WINDOWS :: usize where
  "DEFAULT_MAX_CLIENT_WINDOWS = 256"

type_synonym bytes = "u8 list"
type_synonym event_type = "(u32 \<times> u32) option"

record event =
  ev_client_instance_id :: bytes
  ev_event_id :: bytes
  ev_event_seq :: u64
  ev_event_type :: event_type

record event_outcome_record =
  accepted :: bool
  revision_after_effect :: u64
  reject_reason :: bytes

datatype event_sequence_error =
    MissingEventId
  | ReplaySequenceMismatch u64 u64
  | ReplayEventTypeMismatch event_type event_type
  | SequenceAlreadyAssigned u64
  | OutsideReceiveWindow u64 u64 u64
  | ReceiveWindowFull
  | ClientWindowCapacityExhausted usize

datatype record_outcome =
    Fresh u64
  | Pending u64
  | Duplicate event_outcome_record u64

datatype event_record =
    InFlight (event_seq: u64) (event_type: event_type)
  | Settled (event_seq: u64) (event_type: event_type) (outcome: event_outcome_record)

definition is_evictable :: "event_record \<Rightarrow> u64 \<Rightarrow> bool" where
  "is_evictable self frontier =
     (case self of Settled s _ _ \<Rightarrow> s = 0 \<or> s \<le> frontier | InFlight _ _ \<Rightarrow> False)"

section \<open>The window of one client\<close>

record client_dedupe_window =
  seen_ids :: "(bytes, event_record) fmap"
  ids_by_seq :: "(u64, bytes) fmap"
  win_order :: "bytes list"
  last_contiguous_processed_seq :: u64
  settled_out_of_order :: "u64 fset"

definition window_new :: client_dedupe_window where
  "window_new = \<lparr>seen_ids = fmempty, ids_by_seq = fmempty, win_order = [],
     last_contiguous_processed_seq = 0, settled_out_of_order = {||}\<rparr>"

definition window_contains :: "client_dedupe_window \<Rightarrow> bytes \<Rightarrow> bool" where
  "window_contains self i \<longleftrightarrow> i |\<in>| fmdom (seen_ids self)"

definition has_in_flight :: "client_dedupe_window \<Rightarrow> bool" where
  "has_in_flight self \<longleftrightarrow> (\<exists>r \<in> fset (fmran (seen_ids self)). case r of InFlight _ _ \<Rightarrow> True | _ \<Rightarrow> False)"

definition is_pinned :: "client_dedupe_window \<Rightarrow> bool" where
  "is_pinned self \<longleftrightarrow> has_in_flight self \<or> settled_out_of_order self \<noteq> {||}"

definition evict_oldest_settled :: "client_dedupe_window \<Rightarrow> bool \<times> client_dedupe_window" where
  "evict_oldest_settled self =
     (case List.extract (\<lambda>i. case fmlookup (seen_ids self) i of
          Some r \<Rightarrow> is_evictable r (last_contiguous_processed_seq self) | None \<Rightarrow> False) (win_order self) of
        None \<Rightarrow> (False, self)
      | Some (pre, i, post) \<Rightarrow>
          (let self = self\<lparr>win_order := pre @ post\<rparr>
           in (True, case fmlookup (seen_ids self) i of
                 None \<Rightarrow> self
               | Some r \<Rightarrow>
                   (let self = self\<lparr>seen_ids := fmdrop i (seen_ids self)\<rparr>
                    in if event_seq r \<noteq> 0
                       then self\<lparr>ids_by_seq := fmdrop (event_seq r) (ids_by_seq self),
                                 settled_out_of_order := settled_out_of_order self |-| {|event_seq r|}\<rparr>
                       else self))))"

lemma evict_oldest_settled_shrinks:
  "evict_oldest_settled self = (True, self') \<Longrightarrow> length (win_order self') < length (win_order self)"
  by (auto simp: evict_oldest_settled_def Let_def split: option.splits if_splits dest!: extract_SomeE)

text \<open>The loop that makes room for one more entry; \<open>False\<close> when nothing can be evicted.\<close>

function make_room :: "usize \<Rightarrow> client_dedupe_window \<Rightarrow> bool \<times> client_dedupe_window" where
  "make_room max_entries self =
     (if fcard (fmdom (seen_ids self)) \<ge> max_entries
      then (case evict_oldest_settled self of
          (False, self') \<Rightarrow> (False, self')
        | (True, self') \<Rightarrow> make_room max_entries self')
      else (True, self))"
  by pat_completeness auto
termination
  by (relation "measure (\<lambda>(_, self). length (win_order self))")
    (auto dest: evict_oldest_settled_shrinks [OF sym])

declare make_room.simps [simp del]

definition admit ::
  "bytes \<Rightarrow> u64 \<Rightarrow> event_type \<Rightarrow> usize \<Rightarrow> client_dedupe_window \<Rightarrow>
   (event_sequence_error, record_outcome) result \<times> client_dedupe_window" where
  "admit i s ty max_entries self =
     (case fmlookup (seen_ids self) i of
        Some r \<Rightarrow>
          if s \<noteq> event_seq r then (Error (ReplaySequenceMismatch (event_seq r) s), self)
          else if event_type r \<noteq> ty \<and> event_seq r \<noteq> 0
          then (Error (ReplayEventTypeMismatch (event_type r) ty), self)
          else (case r of
              InFlight _ _ \<Rightarrow> (Ok (Pending (last_contiguous_processed_seq self)), self)
            | Settled _ _ out \<Rightarrow> (Ok (Duplicate out (last_contiguous_processed_seq self)), self))
      | None \<Rightarrow>
          if s |\<in>| fmdom (ids_by_seq self) then (Error (SequenceAlreadyAssigned s), self)
          else
            let first_acceptable_seq = saturating_add (last_contiguous_processed_seq self) 1;
                window_width = (if max_entries < 2 ^ 64 then of_nat max_entries else - 1);
                last_acceptable_seq = saturating_add (last_contiguous_processed_seq self) window_width
            in if s = 0 \<or> s \<le> last_contiguous_processed_seq self \<or> s > last_acceptable_seq
               then (Error (OutsideReceiveWindow s first_acceptable_seq last_acceptable_seq), self)
               else (case make_room max_entries self of
                   (False, self) \<Rightarrow> (Error ReceiveWindowFull, self)
                 | (True, self) \<Rightarrow>
                     (Ok (Fresh (last_contiguous_processed_seq self)),
                      self\<lparr>win_order := win_order self @ [i], ids_by_seq := fmupd s i (ids_by_seq self),
                           seen_ids := fmupd i (InFlight s ty) (seen_ids self)\<rparr>)))"

definition insert_legacy_settled ::
  "bytes \<Rightarrow> event_outcome_record \<Rightarrow> usize \<Rightarrow> client_dedupe_window \<Rightarrow> bool \<times> client_dedupe_window" where
  "insert_legacy_settled i out max_entries self =
     (if i |\<in>| fmdom (seen_ids self) then (False, self)
      else (case make_room max_entries self of
          (False, self) \<Rightarrow> (False, self)
        | (True, self) \<Rightarrow>
            (True, self\<lparr>win_order := win_order self @ [i], seen_ids := fmupd i (Settled 0 None out) (seen_ids self)\<rparr>)))"

function advance_frontier :: "client_dedupe_window \<Rightarrow> client_dedupe_window" where
  "advance_frontier self =
     (case checked_add (last_contiguous_processed_seq self) 1 of
        None \<Rightarrow> self
      | Some next \<Rightarrow>
          if next |\<notin>| settled_out_of_order self then self
          else advance_frontier (self\<lparr>settled_out_of_order := settled_out_of_order self |-| {|next|},
                 last_contiguous_processed_seq := next\<rparr>))"
  by pat_completeness auto
termination
  by (relation "measure (\<lambda>self. fcard (settled_out_of_order self))") (auto intro!: diff_less simp: fcard.rep_eq card_gt_0_iff)

declare advance_frontier.simps [simp del]

definition note_settled_sequence :: "u64 \<Rightarrow> client_dedupe_window \<Rightarrow> client_dedupe_window" where
  "note_settled_sequence s self =
     (if s = 0 \<or> s \<le> last_contiguous_processed_seq self then self
      else if s = saturating_add (last_contiguous_processed_seq self) 1
      then advance_frontier (self\<lparr>last_contiguous_processed_seq := s\<rparr>)
      else self\<lparr>settled_out_of_order := finsert s (settled_out_of_order self)\<rparr>)"

definition settle :: "bytes \<Rightarrow> event_outcome_record \<Rightarrow> client_dedupe_window \<Rightarrow> u64 \<times> client_dedupe_window" where
  "settle i out self =
     (case fmlookup (seen_ids self) i of
        Some (InFlight s ty) \<Rightarrow>
          (let self = note_settled_sequence s (self\<lparr>seen_ids := fmupd i (Settled s ty out) (seen_ids self)\<rparr>)
           in (last_contiguous_processed_seq self, self))
      | _ \<Rightarrow> (last_contiguous_processed_seq self, self))"

definition abandon :: "bytes \<Rightarrow> client_dedupe_window \<Rightarrow> client_dedupe_window" where
  "abandon i self =
     (case fmlookup (seen_ids self) i of
        Some (InFlight s _) \<Rightarrow>
          self\<lparr>seen_ids := fmdrop i (seen_ids self), ids_by_seq := fmdrop s (ids_by_seq self),
               win_order := filter (\<lambda>x. x \<noteq> i) (win_order self)\<rparr>
      | _ \<Rightarrow> self)"

section \<open>The deduplicator\<close>

record event_deduplicator =
  max_entries_per_client :: usize
  max_client_windows :: usize
  clients :: "(bytes, client_dedupe_window) fmap"
  client_order :: "bytes list"
  evicted_frontiers :: "(bytes, u64) fmap"
  frontier_order :: "bytes list"

definition dedup_with_limits :: "usize \<Rightarrow> usize \<Rightarrow> event_deduplicator" where
  "dedup_with_limits n m =
     \<lparr>max_entries_per_client = max n 1, max_client_windows = max m 1, clients = fmempty, client_order = [],
      evicted_frontiers = fmempty, frontier_order = []\<rparr>"

definition dedup_new :: "usize \<Rightarrow> event_deduplicator" where
  "dedup_new n = dedup_with_limits n DEFAULT_MAX_CLIENT_WINDOWS"

definition dedup_default :: event_deduplicator where
  "dedup_default = dedup_new DEFAULT_MAX_DEDUPE_ENTRIES"

definition client_count :: "event_deduplicator \<Rightarrow> usize" where
  "client_count self = len_map (clients self)"

definition has_client_window :: "event_deduplicator \<Rightarrow> bytes \<Rightarrow> bool" where
  "has_client_window self c \<longleftrightarrow> c |\<in>| fmdom (clients self)"

definition touch_client :: "bytes \<Rightarrow> event_deduplicator \<Rightarrow> event_deduplicator" where
  "touch_client c self =
     (case List.extract (\<lambda>x. x = c) (client_order self) of
        None \<Rightarrow> self
      | Some (pre, x, post) \<Rightarrow> if post = [] then self else self\<lparr>client_order := pre @ post @ [x]\<rparr>)"

fun drop_oldest_frontiers :: "usize \<Rightarrow> bytes list \<Rightarrow> (bytes, u64) fmap \<Rightarrow> bytes list \<times> (bytes, u64) fmap" where
  "drop_oldest_frontiers m [] fs = ([], fs)"
| "drop_oldest_frontiers m (c # cs) fs =
     (if length (c # cs) > m then drop_oldest_frontiers m cs (fmdrop c fs) else (c # cs, fs))"

definition retain_frontier :: "bytes \<Rightarrow> u64 \<Rightarrow> event_deduplicator \<Rightarrow> event_deduplicator" where
  "retain_frontier c frontier self =
     (if frontier = 0 then self
      else
        let order = (if fmlookup (evicted_frontiers self) c = None then frontier_order self @ [c] else frontier_order self);
            (order, fs) = drop_oldest_frontiers (max_client_windows self) order (fmupd c frontier (evicted_frontiers self))
        in self\<lparr>frontier_order := order, evicted_frontiers := fs\<rparr>)"

function make_room_for_new_client ::
  "event_deduplicator \<Rightarrow> (event_sequence_error, unit) result \<times> event_deduplicator" where
  "make_room_for_new_client self =
     (if fcard (fmdom (clients self)) \<ge> max_client_windows self
      then (case List.extract (\<lambda>c. case fmlookup (clients self) c of Some w \<Rightarrow> \<not> is_pinned w | None \<Rightarrow> False)
              (client_order self) of
          None \<Rightarrow> (Error (ClientWindowCapacityExhausted (max_client_windows self)), self)
        | Some (pre, evicted, post) \<Rightarrow>
            (let window = fmlookup (clients self) evicted;
                 frontier = (case window of None \<Rightarrow> 0 | Some w \<Rightarrow> last_contiguous_processed_seq w);
                 self = self\<lparr>client_order := pre @ post, clients := fmdrop evicted (clients self)\<rparr>
             in make_room_for_new_client (retain_frontier evicted frontier self)))
      else (Ok (), self))"
  by pat_completeness auto
termination
  by (relation "measure (\<lambda>self. length (client_order self))")
    (auto simp: retain_frontier_def Let_def dest!: extract_SomeE split: prod.splits)

declare make_room_for_new_client.simps [simp del]

definition window_for_new_client :: "bytes \<Rightarrow> event_deduplicator \<Rightarrow> client_dedupe_window \<times> event_deduplicator" where
  "window_for_new_client c self =
     (case fmlookup (evicted_frontiers self) c of
        None \<Rightarrow> (window_new, self)
      | Some frontier \<Rightarrow>
          (window_new\<lparr>last_contiguous_processed_seq := frontier\<rparr>,
           self\<lparr>evicted_frontiers := fmdrop c (evicted_frontiers self),
                frontier_order := filter (\<lambda>x. x \<noteq> c) (frontier_order self)\<rparr>))"

definition is_duplicate :: "event_deduplicator \<Rightarrow> bytes \<Rightarrow> bytes \<Rightarrow> bool" where
  "is_duplicate self c i =
     (if i = [] then False
      else (case fmlookup (clients self) c of None \<Rightarrow> False | Some w \<Rightarrow> window_contains w i))"

definition dedup_record :: "bytes \<Rightarrow> bytes \<Rightarrow> event_deduplicator \<Rightarrow> bool \<times> event_deduplicator" where
  "dedup_record c i self =
     (if i = [] then (True, self)
      else
        let out = \<lparr>accepted = True, revision_after_effect = 0, reject_reason = []\<rparr>
        in case fmlookup (clients self) c of
             Some w \<Rightarrow>
               (let self = touch_client c self;
                    (new, w) = insert_legacy_settled i out (max_entries_per_client self) w
                in (new, self\<lparr>clients := fmupd c w (clients self)\<rparr>))
           | None \<Rightarrow>
               (let (new, w) = insert_legacy_settled i out (max_entries_per_client self) window_new
                in case make_room_for_new_client self of
                     (Inl _, self) \<Rightarrow> (False, self)
                   | (Inr _, self) \<Rightarrow>
                       (new, self\<lparr>clients := fmupd c w (clients self), client_order := client_order self @ [c]\<rparr>)))"

definition record_event :: "event \<Rightarrow> event_deduplicator \<Rightarrow> bool \<times> event_deduplicator" where
  "record_event e self = dedup_record (ev_client_instance_id e) (ev_event_id e) self"

definition admit_event ::
  "event \<Rightarrow> event_deduplicator \<Rightarrow> (event_sequence_error, record_outcome) result \<times> event_deduplicator" where
  "admit_event e self =
     (let c = ev_client_instance_id e
      in if ev_event_id e = [] then (Error MissingEventId, self)
         else (case fmlookup (clients self) c of
             Some w \<Rightarrow>
               (let self = touch_client c self;
                    (r, w) = admit (ev_event_id e) (ev_event_seq e) (ev_event_type e) (max_entries_per_client self) w
                in (r, self\<lparr>clients := fmupd c w (clients self)\<rparr>))
           | None \<Rightarrow>
               (let (w, self) = window_for_new_client c self;
                    restored = last_contiguous_processed_seq w
                in case admit (ev_event_id e) (ev_event_seq e) (ev_event_type e) (max_entries_per_client self) w of
                     (Inl f, _) \<Rightarrow> (Inl f, retain_frontier c restored self)
                   | (Inr out, w) \<Rightarrow>
                       (case make_room_for_new_client self of
                          (Inl f, self) \<Rightarrow> (Inl f, retain_frontier c restored self)
                        | (Inr _, self) \<Rightarrow>
                            (Ok out, self\<lparr>clients := fmupd c w (clients self), client_order := client_order self @ [c]\<rparr>)))))"

definition dedup_frontier :: "event_deduplicator \<Rightarrow> bytes \<Rightarrow> u64" where
  "dedup_frontier self c =
     (case fmlookup (clients self) c of
        Some w \<Rightarrow> last_contiguous_processed_seq w
      | None \<Rightarrow> (case fmlookup (evicted_frontiers self) c of Some f \<Rightarrow> f | None \<Rightarrow> 0))"

definition settle_event :: "event \<Rightarrow> event_outcome_record \<Rightarrow> event_deduplicator \<Rightarrow> u64 \<times> event_deduplicator" where
  "settle_event e out self =
     (let c = ev_client_instance_id e
      in if ev_event_id e = [] then (dedup_frontier self c, self)
         else let self = touch_client c self
              in case fmlookup (clients self) c of
                   None \<Rightarrow> (0, self)
                 | Some w \<Rightarrow>
                     (case settle (ev_event_id e) out w of
                        (n, w) \<Rightarrow> (n, self\<lparr>clients := fmupd c w (clients self)\<rparr>)))"

definition abandon_event :: "event \<Rightarrow> event_deduplicator \<Rightarrow> event_deduplicator" where
  "abandon_event e self =
     (let c = ev_client_instance_id e
      in if ev_event_id e = [] then self
         else (case fmlookup (clients self) c of
             None \<Rightarrow> self
           | Some w \<Rightarrow> self\<lparr>clients := fmupd c (abandon (ev_event_id e) w) (clients self)\<rparr>))"

definition is_in_flight :: "event_deduplicator \<Rightarrow> bytes \<Rightarrow> bytes \<Rightarrow> bool" where
  "is_in_flight self c i =
     (case fmlookup (clients self) c of
        None \<Rightarrow> False
      | Some w \<Rightarrow> (case fmlookup (seen_ids w) i of Some (InFlight _ _) \<Rightarrow> True | _ \<Rightarrow> False))"

definition settled_outcome :: "event_deduplicator \<Rightarrow> bytes \<Rightarrow> bytes \<Rightarrow> event_outcome_record option" where
  "settled_outcome self c i =
     (case fmlookup (clients self) c of
        None \<Rightarrow> None
      | Some w \<Rightarrow> (case fmlookup (seen_ids w) i of Some (Settled _ _ out) \<Rightarrow> Some out | _ \<Rightarrow> None))"

definition admit_and_settle ::
  "event \<Rightarrow> event_outcome_record \<Rightarrow> event_deduplicator \<Rightarrow> (event_sequence_error, u64) result \<times> event_deduplicator" where
  "admit_and_settle e out self =
     and_then_st (admit_event e self) (\<lambda>r self.
       (case r of
          Duplicate _ n \<Rightarrow> (Ok n, self)
        | _ \<Rightarrow> (case settle_event e out self of (n, self) \<Rightarrow> (Ok n, self))))"

definition remove_client :: "bytes \<Rightarrow> event_deduplicator \<Rightarrow> event_deduplicator" where
  "remove_client c self =
     self\<lparr>clients := fmdrop c (clients self), client_order := filter (\<lambda>x. x \<noteq> c) (client_order self),
          evicted_frontiers := fmdrop c (evicted_frontiers self),
          frontier_order := filter (\<lambda>x. x \<noteq> c) (frontier_order self)\<rparr>"

definition dedup_clear :: "event_deduplicator \<Rightarrow> event_deduplicator" where
  "dedup_clear self = self\<lparr>clients := fmempty, client_order := [], evicted_frontiers := fmempty, frontier_order := []\<rparr>"

section \<open>The invariant of a window\<close>

text \<open>
  \<open>S\<close> is the set of sequence numbers settled so far.  The frontier is the end of its gapless
  beginning, the numbers behind the first gap are listed out of order and still owned by an
  entry, and events in flight are not settled.
\<close>

definition frontier_ok :: "u64 set \<Rightarrow> u64 \<Rightarrow> u64 fset \<Rightarrow> bool" where
  "frontier_ok S f ooo \<longleftrightarrow>
     0 \<notin> S \<and> (\<forall>s. s \<noteq> 0 \<longrightarrow> s \<le> f \<longrightarrow> s \<in> S) \<and> fset ooo = {s \<in> S. f < s} \<and> (f \<noteq> - 1 \<longrightarrow> f + 1 \<notin> S)"

definition entries_ok :: "u64 set \<Rightarrow> (bytes, event_record) fmap \<Rightarrow> (u64, bytes) fmap \<Rightarrow> bool" where
  "entries_ok S seen by_seq \<longleftrightarrow>
     (\<forall>s i. fmlookup by_seq s = Some i \<longleftrightarrow> s \<noteq> 0 \<and> (\<exists>r. fmlookup seen i = Some r \<and> event_seq r = s)) \<and>
     (\<forall>i s ty. fmlookup seen i = Some (InFlight s ty) \<longrightarrow> s \<noteq> 0 \<and> s \<notin> S) \<and>
     (\<forall>i s ty out. fmlookup seen i = Some (Settled s ty out) \<longrightarrow> s = 0 \<or> s \<in> S)"

definition win_ok :: "usize \<Rightarrow> u64 set \<Rightarrow> client_dedupe_window \<Rightarrow> bool" where
  "win_ok n S w \<longleftrightarrow>
     distinct (win_order w) \<and> set (win_order w) = fset (fmdom (seen_ids w)) \<and> length (win_order w) \<le> n \<and>
     frontier_ok S (last_contiguous_processed_seq w) (settled_out_of_order w) \<and>
     entries_ok S (seen_ids w) (ids_by_seq w) \<and>
     (\<forall>s. s |\<in>| settled_out_of_order w \<longrightarrow> s |\<in>| fmdom (ids_by_seq w)) \<and>
     (\<forall>i r. fmlookup (seen_ids w) i = Some r \<longrightarrow> unat (event_seq r) \<le> unat (last_contiguous_processed_seq w) + n)"

definition below :: "u64 \<Rightarrow> u64 set" where
  "below f = {s. s \<noteq> 0 \<and> s \<le> f}"

lemma unat_next: "f \<noteq> - 1 \<Longrightarrow> unat (f + 1) = Suc (unat f)" for f :: u64
  using unatSuc [of f] by (metis add.commute add_eq_0_iff)

lemma checked_next_eq: "checked_add f 1 = (if f = - 1 then None else Some (f + 1))" for f :: u64
proof (cases "f = - 1")
  case True
  then show ?thesis by (simp add: checked_add_def unsigned_minus_1_eq_mask mask_eq_exp_minus_1)
next
  case False
  then show ?thesis using unat_next [OF False] unat_u64_bound [of "f + 1"] by (simp add: checked_add_def)
qed

lemma next_not_le: "f \<noteq> - 1 \<Longrightarrow> \<not> f + 1 \<le> (f :: u64)"
  using unat_next [of f] by (simp add: word_le_nat_alt)

lemma window_restored_ok:
  "win_ok n (below f) (window_new\<lparr>last_contiguous_processed_seq := f\<rparr>)"
  using next_not_le by (auto simp: win_ok_def window_new_def frontier_ok_def entries_ok_def below_def)

lemma window_new_ok: "win_ok n {} window_new"
  using window_restored_ok [of n 0] by (simp add: window_new_def below_def)

lemma card_seen: "win_ok n S w \<Longrightarrow> fcard (fmdom (seen_ids w)) = length (win_order w)"
  by (metis win_ok_def distinct_card fcard.rep_eq)

subsection \<open>Eviction\<close>

lemma entries_drop:
  assumes E: "entries_ok S seen by_seq" and i: "fmlookup seen i = Some r"
  shows "entries_ok S (fmdrop i seen) (if event_seq r = 0 then by_seq else fmdrop (event_seq r) by_seq)"
proof -
  from E have idx: "fmlookup by_seq s = Some j \<longleftrightarrow> s \<noteq> 0 \<and> (\<exists>r. fmlookup seen j = Some r \<and> event_seq r = s)" for s j
    unfolding entries_ok_def by blast
  have own: "j = i" if "event_seq r \<noteq> 0" "fmlookup seen j = Some r'" "event_seq r' = event_seq r" for j r'
    using idx [of "event_seq r" i] idx [of "event_seq r" j] that i by auto
  have "fmlookup (if event_seq r = 0 then by_seq else fmdrop (event_seq r) by_seq) s = Some j \<longleftrightarrow>
      s \<noteq> 0 \<and> (\<exists>r. fmlookup (fmdrop i seen) j = Some r \<and> event_seq r = s)" for s j
  proof (cases "event_seq r \<noteq> 0 \<and> s = event_seq r")
    case True
    then show ?thesis using own [of j] by (cases "j = i") auto
  next
    case False
    then show ?thesis using idx [of s j] i by (cases "j = i") auto
  qed
  then show ?thesis using E unfolding entries_ok_def by auto
qed

lemma evict_settled_spec:
  assumes ok: "win_ok n S w" and run: "evict_oldest_settled w = (True, w')"
  shows "win_ok n S w' \<and> last_contiguous_processed_seq w' = last_contiguous_processed_seq w \<and>
    (\<forall>i. window_contains w' i \<longrightarrow> window_contains w i) \<and> (\<forall>s. s |\<in>| fmdom (ids_by_seq w') \<longrightarrow> s |\<in>| fmdom (ids_by_seq w))"
proof -
  let ?P = "\<lambda>i. case fmlookup (seen_ids w) i of
      Some r \<Rightarrow> is_evictable r (last_contiguous_processed_seq w) | None \<Rightarrow> False"
  from run obtain pre i post where ex: "List.extract ?P (win_order w) = Some (pre, i, post)"
    by (auto simp: evict_oldest_settled_def split: option.splits)
  from extract_SomeE [OF ex] have ord: "win_order w = pre @ i # post" "?P i" by simp_all
  then obtain s ty out where r: "fmlookup (seen_ids w) i = Some (Settled s ty out)"
    and s: "s = 0 \<or> s \<le> last_contiguous_processed_seq w"
    by (auto simp: is_evictable_def split: option.splits event_record.splits)
  have F: "frontier_ok S (last_contiguous_processed_seq w) (settled_out_of_order w)"
    and E: "entries_ok S (seen_ids w) (ids_by_seq w)" using ok by (auto simp: win_ok_def)
  have out_: "s |\<notin>| settled_out_of_order w"
  proof
    assume "s |\<in>| settled_out_of_order w"
    then have "s \<in> S" "last_contiguous_processed_seq w < s" using F by (auto simp: frontier_ok_def)
    with s F show False by (auto simp: frontier_ok_def)
  qed
  have w': "w' = w\<lparr>win_order := pre @ post, seen_ids := fmdrop i (seen_ids w),
      ids_by_seq := (if s = 0 then ids_by_seq w else fmdrop s (ids_by_seq w))\<rparr>"
    using run ex r out_ by (simp add: evict_oldest_settled_def Let_def split: if_splits)
  have "entries_ok S (seen_ids w') (ids_by_seq w')" using entries_drop [OF E r] by (auto simp: w' split: if_splits)
  then show ?thesis using ok ord(1) out_ by (auto simp: win_ok_def w' window_contains_def)
qed

lemma make_room_spec:
  assumes "win_ok n S w" "make_room m w = (b, w')"
  shows "win_ok n S w' \<and> last_contiguous_processed_seq w' = last_contiguous_processed_seq w \<and>
    (\<forall>i. window_contains w' i \<longrightarrow> window_contains w i) \<and>
    (\<forall>s. s |\<in>| fmdom (ids_by_seq w') \<longrightarrow> s |\<in>| fmdom (ids_by_seq w)) \<and> (b \<longrightarrow> length (win_order w') < m)"
  using assms
proof (induction m w arbitrary: w' rule: make_room.induct)
  case (1 m w)
  show ?case
  proof (cases "fcard (fmdom (seen_ids w)) \<ge> m")
    case False
    then show ?thesis using 1 card_seen [OF "1.prems"(1)] by (simp add: make_room.simps [of m w])
  next
    case True
    obtain c u where ev: "evict_oldest_settled w = (c, u)" by (cases "evict_oldest_settled w")
    show ?thesis
    proof (cases c)
      case False
      then have "u = w" using ev by (auto simp: evict_oldest_settled_def Let_def split: option.splits)
      with False True ev "1.prems" show ?thesis by (simp add: make_room.simps [of m w])
    next
      case c: True
      then have u: "win_ok n S u" "last_contiguous_processed_seq u = last_contiguous_processed_seq w"
        "\<forall>i. window_contains u i \<longrightarrow> window_contains w i" "\<forall>s. s |\<in>| fmdom (ids_by_seq u) \<longrightarrow> s |\<in>| fmdom (ids_by_seq w)"
        using evict_settled_spec [OF "1.prems"(1)] ev by auto
      have "make_room m u = (b, w')" using True c ev "1.prems"(2) by (simp add: make_room.simps [of m w])
      from "1.IH" [OF True ev [symmetric] _ u(1) this] c u show ?thesis by auto
    qed
  qed
qed

subsection \<open>Admission\<close>

lemma entries_admit:
  assumes E: "entries_ok S seen by_seq" and i: "fmlookup seen i = None" and s: "s |\<notin>| fmdom by_seq" "s \<noteq> 0" "s \<notin> S"
  shows "entries_ok S (fmupd i (InFlight s ty) seen) (fmupd s i by_seq)"
proof -
  from E have idx: "fmlookup by_seq t = Some j \<longleftrightarrow> t \<noteq> 0 \<and> (\<exists>r. fmlookup seen j = Some r \<and> event_seq r = t)" for t j
    unfolding entries_ok_def by blast
  have none: "fmlookup by_seq s = None" using s(1) by (simp add: fmdom_notD)
  have "fmlookup (fmupd s i by_seq) t = Some j \<longleftrightarrow>
      t \<noteq> 0 \<and> (\<exists>r. fmlookup (fmupd i (InFlight s ty) seen) j = Some r \<and> event_seq r = t)" for t j
    using idx [of t j] idx [of t i] none i s(2) by (cases "t = s"; cases "j = i") auto
  then show ?thesis using E s(2,3) unfolding entries_ok_def by auto
qed

definition in_window :: "usize \<Rightarrow> u64 \<Rightarrow> u64 \<Rightarrow> bool" where
  "in_window n f s \<longleftrightarrow> unat f < unat s \<and> unat s \<le> unat f + n"

lemma window_test:
  "(s = 0 \<or> s \<le> f \<or> s > saturating_add f (if n < 2 ^ 64 then of_nat n else - 1)) \<longleftrightarrow> \<not> in_window n f s"
proof -
  have top: "unat (- 1 :: u64) = 18446744073709551615" by (simp add: unsigned_minus_1_eq_mask mask_eq_exp_minus_1)
  have "unat (saturating_add f (if n < 2 ^ 64 then of_nat n else - 1 :: u64)) =
      min (unat f + (if n < 2 ^ 64 then n else 18446744073709551615)) 18446744073709551615"
    by (simp add: unat_saturating_add unat_of_nat_u64 top)
  moreover have "s = 0 \<longleftrightarrow> unat s = 0" by (simp add: unat_eq_0)
  moreover have bound: "unat s \<le> 18446744073709551615" using unat_u64_bound [of s] by linarith
  ultimately show ?thesis
    using bound unfolding in_window_def word_le_nat_alt word_less_nat_alt by (auto simp: min_def)
qed

lemma admit_new:
  assumes "fmlookup (seen_ids w) i = None"
  shows "admit i s ty n w =
    (if s |\<in>| fmdom (ids_by_seq w) then (Error (SequenceAlreadyAssigned s), w)
     else if \<not> in_window n (last_contiguous_processed_seq w) s
     then (Error (OutsideReceiveWindow s (saturating_add (last_contiguous_processed_seq w) 1)
            (saturating_add (last_contiguous_processed_seq w) (if n < 2 ^ 64 then of_nat n else - 1))), w)
     else (case make_room n w of
         (False, w) \<Rightarrow> (Error ReceiveWindowFull, w)
       | (True, w) \<Rightarrow>
           (Ok (Fresh (last_contiguous_processed_seq w)),
            w\<lparr>win_order := win_order w @ [i], ids_by_seq := fmupd s i (ids_by_seq w),
              seen_ids := fmupd i (InFlight s ty) (seen_ids w)\<rparr>)))"
  unfolding admit_def Let_def window_test using assms by simp

lemma admit_spec:
  assumes ok: "win_ok n S w" and run: "admit i s ty n w = (r, w')"
  shows "win_ok n S w' \<and> last_contiguous_processed_seq w' = last_contiguous_processed_seq w \<and>
    (\<forall>f. r = Ok (Fresh f) \<longrightarrow> s \<noteq> 0 \<and> s \<notin> S \<and> fmlookup (seen_ids w') i = Some (InFlight s ty)) \<and>
    (\<forall>f. r = Ok (Pending f) \<longrightarrow> (\<exists>ty. fmlookup (seen_ids w) i = Some (InFlight s ty)) \<and> w' = w) \<and>
    (\<forall>out f. r = Ok (Duplicate out f) \<longrightarrow> (\<exists>ty. fmlookup (seen_ids w) i = Some (Settled s ty out)) \<and> w' = w) \<and>
    ((\<exists>x. r = Ok x) \<or> (\<exists>e. r = Error e))"
proof (cases "fmlookup (seen_ids w) i")
  case (Some rec)
  then show ?thesis using ok run by (cases rec) (auto simp: admit_def split: if_splits)
next
  case None
  let ?f = "last_contiguous_processed_seq w"
  consider (refused) e where "r = Error e" "w' = w"
    | (full) u where "make_room n w = (False, u)" "r = Error ReceiveWindowFull" "w' = u"
    | (fresh) u where "s |\<notin>| fmdom (ids_by_seq w)" "in_window n ?f s" "make_room n w = (True, u)"
        "r = Ok (Fresh (last_contiguous_processed_seq u))"
        "w' = u\<lparr>win_order := win_order u @ [i], ids_by_seq := fmupd s i (ids_by_seq u),
           seen_ids := fmupd i (InFlight s ty) (seen_ids u)\<rparr>"
    using run unfolding admit_new [OF None]
    by (auto split: if_splits prod.splits bool.splits)
  then show ?thesis
  proof cases
    case full
    then show ?thesis using make_room_spec [OF ok full(1)] by simp
  next
    case fresh
    from make_room_spec [OF ok fresh(3)] have u: "win_ok n S u" "last_contiguous_processed_seq u = ?f"
      "length (win_order u) < n" "\<not> window_contains u i" "s |\<notin>| fmdom (ids_by_seq u)"
      using None fresh(1) by (auto simp: window_contains_def fmdom_notI)
    have F: "frontier_ok S ?f (settled_out_of_order u)"
      and own: "\<forall>s. s |\<in>| settled_out_of_order u \<longrightarrow> s |\<in>| fmdom (ids_by_seq u)"
      and E: "entries_ok S (seen_ids u) (ids_by_seq u)" using u by (auto simp: win_ok_def)
    have s: "s \<noteq> 0" "\<not> s \<le> ?f" using fresh(2) by (auto simp: in_window_def word_le_nat_alt)
    have "s \<notin> S"
    proof
      assume "s \<in> S"
      then have "s |\<in>| settled_out_of_order u" using F s(2) by (auto simp: frontier_ok_def not_le)
      with own u(5) show False by blast
    qed
    moreover have i: "fmlookup (seen_ids u) i = None" using u(4) by (simp add: window_contains_def fmdom_notD)
    ultimately have "entries_ok S (seen_ids w') (ids_by_seq w')"
      using entries_admit [OF E i u(5) s(1)] by (simp add: fresh(5))
    moreover have "i \<notin> set (win_order u)" using u(1,4) by (simp add: win_ok_def window_contains_def)
    moreover have "unat s \<le> unat ?f + n" using fresh(2) by (simp add: in_window_def)
    ultimately show ?thesis using u \<open>s \<notin> S\<close> s(1) fresh by (auto simp: win_ok_def)
  qed (use ok in auto)
qed

lemma legacy_spec:
  assumes ok: "win_ok n S w" and run: "insert_legacy_settled i out n w = (b, w')"
  shows "win_ok n S w'"
proof (cases "i |\<in>| fmdom (seen_ids w)")
  case False
  obtain c u where mr: "make_room n w = (c, u)" by (cases "make_room n w")
  from make_room_spec [OF ok mr] have u: "win_ok n S u" "c \<Longrightarrow> length (win_order u) < n" "i |\<notin>| fmdom (seen_ids u)"
    using False by (auto simp: window_contains_def)
  have "entries_ok S (fmupd i (Settled 0 None out) (seen_ids u)) (ids_by_seq u)"
  proof -
    have "entries_ok S (seen_ids u) (ids_by_seq u)" using u(1) by (simp add: win_ok_def)
    moreover have "fmlookup (seen_ids u) i = None" using u(3) by (simp add: fmdom_notD)
    ultimately show ?thesis unfolding entries_ok_def by auto
  qed
  then show ?thesis using u run False mr
    by (cases c) (auto simp: insert_legacy_settled_def win_ok_def split: if_splits)
qed (use ok run in \<open>simp add: insert_legacy_settled_def\<close>)

subsection \<open>Settling\<close>

text \<open>The frontier moves over the numbers that wait behind it.\<close>

lemma advance_spec:
  assumes "0 \<notin> S" "\<forall>s. s \<noteq> 0 \<longrightarrow> s \<le> last_contiguous_processed_seq w \<longrightarrow> s \<in> S"
    and "fset (settled_out_of_order w) = {s \<in> S. last_contiguous_processed_seq w < s}"
  shows "frontier_ok S (last_contiguous_processed_seq (advance_frontier w)) (settled_out_of_order (advance_frontier w)) \<and>
    settled_out_of_order (advance_frontier w) |\<subseteq>| settled_out_of_order w \<and>
    last_contiguous_processed_seq w \<le> last_contiguous_processed_seq (advance_frontier w) \<and>
    seen_ids (advance_frontier w) = seen_ids w \<and> ids_by_seq (advance_frontier w) = ids_by_seq w \<and>
    win_order (advance_frontier w) = win_order w"
  using assms
proof (induction w rule: advance_frontier.induct)
  case (1 w)
  let ?f = "last_contiguous_processed_seq w" and ?o = "settled_out_of_order w"
  show ?case
  proof (cases "?f = - 1 \<or> ?f + 1 |\<notin>| ?o")
    case True
    then have "advance_frontier w = w" by (auto simp: advance_frontier.simps [of w] checked_next_eq)
    moreover have "?f \<noteq> - 1 \<longrightarrow> ?f + 1 \<notin> S" using True 1(4) next_not_le [of ?f] unfolding not_le by blast
    ultimately show ?thesis using 1 by (simp add: frontier_ok_def)
  next
    case False
    let ?w = "w\<lparr>settled_out_of_order := ?o |-| {|?f + 1|}, last_contiguous_processed_seq := ?f + 1\<rparr>"
    have nx: "checked_add ?f 1 = Some (?f + 1)" using False by (simp add: checked_next_eq)
    have step: "advance_frontier w = advance_frontier ?w" using False nx by (simp add: advance_frontier.simps [of w])
    have le: "s \<le> ?f + 1 \<longleftrightarrow> s \<le> ?f \<or> s = ?f + 1" for s
      using unat_next [of ?f] False by (auto simp: word_le_nat_alt word_unat_eq_iff)
    have inS: "?f + 1 \<in> S" using False 1(4) by auto
    have "\<forall>s. s \<noteq> 0 \<longrightarrow> s \<le> last_contiguous_processed_seq ?w \<longrightarrow> s \<in> S" using 1(3) inS by (auto simp: le)
    moreover have "fset (settled_out_of_order ?w) = {s \<in> S. last_contiguous_processed_seq ?w < s}"
      using 1(4) by (auto simp: le not_le [symmetric])
    ultimately have "frontier_ok S (last_contiguous_processed_seq (advance_frontier ?w)) (settled_out_of_order (advance_frontier ?w)) \<and>
      settled_out_of_order (advance_frontier ?w) |\<subseteq>| settled_out_of_order ?w \<and>
      last_contiguous_processed_seq ?w \<le> last_contiguous_processed_seq (advance_frontier ?w) \<and>
      seen_ids (advance_frontier ?w) = seen_ids ?w \<and> ids_by_seq (advance_frontier ?w) = ids_by_seq ?w \<and>
      win_order (advance_frontier ?w) = win_order ?w"
      using 1(1) [OF nx _ 1(2)] False by auto
    moreover have "?f \<le> ?f + 1" by (simp add: le)
    ultimately show ?thesis unfolding step by auto
  qed
qed

lemma entries_settle:
  assumes E: "entries_ok S seen by_seq" and i: "fmlookup seen i = Some (InFlight s ty)"
  shows "entries_ok (insert s S) (fmupd i (Settled s ty out) seen) by_seq"
proof -
  from E have idx: "fmlookup by_seq t = Some j \<longleftrightarrow> t \<noteq> 0 \<and> (\<exists>r. fmlookup seen j = Some r \<and> event_seq r = t)" for t j
    unfolding entries_ok_def by blast
  have s: "s \<noteq> 0" using E i unfolding entries_ok_def by blast
  let ?seen = "fmupd i (Settled s ty out) seen"
  have "fmlookup by_seq t = Some j \<longleftrightarrow> t \<noteq> 0 \<and> (\<exists>r. fmlookup ?seen j = Some r \<and> event_seq r = t)" for t j
    using idx [of t j] i by (cases "j = i") auto
  moreover have "t \<noteq> 0 \<and> t \<notin> insert s S" if "fmlookup ?seen j = Some (InFlight t ty')" for j t ty'
  proof -
    have j: "j \<noteq> i" "fmlookup seen j = Some (InFlight t ty')" using that by (auto split: if_splits)
    then have "t \<noteq> s" using idx [of s i] idx [of s j] i s by auto
    then show ?thesis using E j unfolding entries_ok_def by blast
  qed
  moreover have "t = 0 \<or> t \<in> insert s S" if "fmlookup ?seen j = Some (Settled t ty' out')" for j t ty' out'
  proof (cases "j = i")
    case False
    with that have "fmlookup seen j = Some (Settled t ty' out')" by simp
    then show ?thesis using E unfolding entries_ok_def by blast
  qed (use that in simp)
  ultimately show ?thesis unfolding entries_ok_def by blast
qed

lemma settle_spec:
  assumes ok: "win_ok n S w" and i: "fmlookup (seen_ids w) i = Some (InFlight s ty)"
    and run: "settle i out w = (m, w')"
  shows "win_ok n (insert s S) w' \<and> m = last_contiguous_processed_seq w' \<and>
    last_contiguous_processed_seq w \<le> last_contiguous_processed_seq w' \<and>
    fmlookup (seen_ids w') i = Some (Settled s ty out)"
proof -
  let ?w = "w\<lparr>seen_ids := fmupd i (Settled s ty out) (seen_ids w)\<rparr>" and ?f = "last_contiguous_processed_seq w"
  have F: "frontier_ok S ?f (settled_out_of_order w)" and E: "entries_ok S (seen_ids w) (ids_by_seq w)"
    and own: "\<forall>s. s |\<in>| settled_out_of_order w \<longrightarrow> s |\<in>| fmdom (ids_by_seq w)"
    using ok by (auto simp: win_ok_def)
  have s: "s \<noteq> 0" "s \<notin> S" using E i unfolding entries_ok_def by blast+
  then have gt: "\<not> s \<le> ?f" using F unfolding frontier_ok_def by blast
  have sown: "s |\<in>| fmdom (ids_by_seq w)" using E i s(1) unfolding entries_ok_def by (metis event_record.sel(1) fmdomI)
  have E': "entries_ok (insert s S) (seen_ids ?w) (ids_by_seq w)" using entries_settle [OF E i] by simp
  have dom: "set (win_order w) = fset (fmdom (seen_ids ?w))"
    using ok i by (auto simp: win_ok_def fmdomI)
  have reach: "unat (event_seq r) \<le> unat ?f + n" if "fmlookup (seen_ids ?w) j = Some r" for j r
  proof -
    have old: "fmlookup (seen_ids w) j = Some r \<Longrightarrow> unat (event_seq r) \<le> unat ?f + n" for j r
      using ok by (simp add: win_ok_def)
    show ?thesis using that old [of j r] old [OF i] by (auto split: if_splits)
  qed
  have f1: "?f \<noteq> - 1" using gt by auto
  have sat: "saturating_add ?f 1 = ?f + 1"
    using f1 unat_next [OF f1] unat_u64_bound [of "?f + 1"] by (simp add: saturating_add_def)
  have w': "w' = note_settled_sequence s ?w" "m = last_contiguous_processed_seq w'"
    using run i by (auto simp: settle_def Let_def)
  show ?thesis
  proof (cases "s = ?f + 1")
    case True
    let ?v = "?w\<lparr>last_contiguous_processed_seq := s\<rparr>"
    have eq: "w' = advance_frontier ?v" using w'(1) True gt s(1) sat by (simp add: note_settled_sequence_def)
    have le: "t \<le> ?f + 1 \<longleftrightarrow> t \<le> ?f \<or> t = ?f + 1" for t
      using unat_next [OF f1] by (auto simp: word_le_nat_alt word_unat_eq_iff)
    have "0 \<notin> insert s S" "\<forall>t. t \<noteq> 0 \<longrightarrow> t \<le> last_contiguous_processed_seq ?v \<longrightarrow> t \<in> insert s S"
      using F s True by (auto simp: frontier_ok_def le)
    moreover have "fset (settled_out_of_order ?v) = {t \<in> insert s S. last_contiguous_processed_seq ?v < t}"
      using F s True by (auto simp: frontier_ok_def le not_le [symmetric])
    ultimately have A: "frontier_ok (insert s S) (last_contiguous_processed_seq w') (settled_out_of_order w')"
      "settled_out_of_order w' |\<subseteq>| settled_out_of_order w" "s \<le> last_contiguous_processed_seq w'"
      "seen_ids w' = seen_ids ?w" "ids_by_seq w' = ids_by_seq w" "win_order w' = win_order w"
      using advance_spec [of "insert s S" ?v] unfolding eq by auto
    moreover have le: "unat ?f \<le> unat (last_contiguous_processed_seq w')" using A(3) gt by (simp add: word_le_nat_alt)
    moreover have "unat (event_seq r) \<le> unat (last_contiguous_processed_seq w') + n" if "fmlookup (seen_ids ?w) j = Some r" for j r
      using reach [OF that] le by simp
    ultimately show ?thesis using ok E' own dom w'(2) unfolding win_ok_def A(4-6) word_le_nat_alt
      by (auto simp del: fmupd_lookup) (auto simp: word_le_nat_alt)
  next
    case False
    have eq: "w' = ?w\<lparr>settled_out_of_order := finsert s (settled_out_of_order w)\<rparr>"
      using w'(1) False gt s(1) sat by (simp add: note_settled_sequence_def)
    have "frontier_ok (insert s S) ?f (finsert s (settled_out_of_order w))"
      using F s gt False by (auto simp: frontier_ok_def not_le)
    then show ?thesis using ok E' own dom sown eq w'(2) reach by (auto simp: win_ok_def simp del: fmupd_lookup) simp
  qed
qed

lemma abandon_spec:
  assumes ok: "win_ok n S w"
  shows "win_ok n S (abandon i w) \<and> last_contiguous_processed_seq (abandon i w) = last_contiguous_processed_seq w"
proof (cases "\<exists>s ty. fmlookup (seen_ids w) i = Some (InFlight s ty)")
  case True
  then obtain s ty where i: "fmlookup (seen_ids w) i = Some (InFlight s ty)" by blast
  have E: "entries_ok S (seen_ids w) (ids_by_seq w)" and F: "frontier_ok S (last_contiguous_processed_seq w) (settled_out_of_order w)"
    using ok by (auto simp: win_ok_def)
  have s: "s \<noteq> 0" "s \<notin> S" using E i unfolding entries_ok_def by blast+
  have "entries_ok S (fmdrop i (seen_ids w)) (fmdrop s (ids_by_seq w))" using entries_drop [OF E i] s by simp
  moreover have "s |\<notin>| settled_out_of_order w" using F s by (auto simp: frontier_ok_def)
  moreover have "length (filter (\<lambda>x. x \<noteq> i) (win_order w)) \<le> n"
    using ok le_trans [OF length_filter_le [of "\<lambda>x. x \<noteq> i" "win_order w"]] by (simp add: win_ok_def)
  ultimately show ?thesis using ok i by (auto simp: abandon_def win_ok_def)
next
  case False
  then have "abandon i w = w" by (auto simp: abandon_def split: option.splits event_record.splits)
  then show ?thesis using ok by simp
qed

subsection \<open>There is always room for a number inside the window\<close>

text \<open>
  Entries that cannot be evicted hold different numbers above the frontier and inside the
  window; when one number of the window is free they are fewer than its width.
\<close>

lemma room_left:
  assumes ok: "win_ok n S w" and s: "in_window n (last_contiguous_processed_seq w) s" "s |\<notin>| fmdom (ids_by_seq w)"
    and pinned: "\<And>i r. fmlookup (seen_ids w) i = Some r \<Longrightarrow> \<not> is_evictable r (last_contiguous_processed_seq w)"
  shows "length (win_order w) < n"
proof -
  let ?f = "last_contiguous_processed_seq w"
  let ?g = "\<lambda>i. unat (event_seq (the (fmlookup (seen_ids w) i)))"
  let ?D = "fset (fmdom (seen_ids w))"
  have E: "entries_ok S (seen_ids w) (ids_by_seq w)" and F: "frontier_ok S ?f (settled_out_of_order w)" using ok by (auto simp: win_ok_def)
  have above: "event_seq r \<noteq> 0 \<and> \<not> event_seq r \<le> ?f" if "fmlookup (seen_ids w) i = Some r" for i r
  proof (cases r)
    case (InFlight a ty)
    with E that have "a \<noteq> 0" "a \<notin> S" unfolding entries_ok_def by blast+
    with F InFlight show ?thesis unfolding frontier_ok_def by auto
  next
    case (Settled a ty out)
    with pinned [OF that] show ?thesis by (simp add: is_evictable_def)
  qed
  have owner: "fmlookup (ids_by_seq w) (event_seq r) = Some i" if "fmlookup (seen_ids w) i = Some r" for i r
    using E that above [OF that] unfolding entries_ok_def by blast
  have "inj_on ?g ?D"
  proof (rule inj_onI)
    fix i j assume "i \<in> ?D" "j \<in> ?D" and eq: "?g i = ?g j"
    then obtain a b where ab: "fmlookup (seen_ids w) i = Some a" "fmlookup (seen_ids w) j = Some b" by (auto simp: fmlookup_dom_iff)
    then have "event_seq a = event_seq b" using eq by (simp add: word_unat_eq_iff)
    with owner [OF ab(1)] owner [OF ab(2)] show "i = j" by simp
  qed
  moreover have "?g ` ?D \<subseteq> {unat ?f <.. unat ?f + n} - {unat s}"
  proof
    fix x assume "x \<in> ?g ` ?D"
    then obtain i r where r: "fmlookup (seen_ids w) i = Some r" "x = unat (event_seq r)" by (auto simp: fmlookup_dom_iff)
    have "unat (event_seq r) \<le> unat ?f + n" using ok r(1) by (simp add: win_ok_def)
    moreover have "event_seq r \<noteq> s" using owner [OF r(1)] s(2) by (auto simp: fmdomI)
    ultimately show "x \<in> {unat ?f <.. unat ?f + n} - {unat s}"
      using above [OF r(1)] r(2) by (auto simp: word_le_nat_alt word_unat_eq_iff)
  qed
  ultimately have "card ?D \<le> card ({unat ?f <.. unat ?f + n} - {unat s})"
    by (intro card_inj_on_le) auto
  also have "\<dots> < n" using s(1) by (auto simp: in_window_def)
  finally show ?thesis using card_seen [OF ok] by (simp add: fcard.rep_eq)
qed

lemma evict_none:
  assumes "evict_oldest_settled w = (False, w')" "win_ok n S w" "fmlookup (seen_ids w) i = Some r"
  shows "\<not> is_evictable r (last_contiguous_processed_seq w)"
proof
  assume ev: "is_evictable r (last_contiguous_processed_seq w)"
  have "i \<in> set (win_order w)" using assms(2,3) by (auto simp: win_ok_def fmdomI)
  with ev assms(1,3) show False
    by (auto simp: evict_oldest_settled_def extract_None_iff Let_def split: option.splits)
qed

lemma make_room_succeeds:
  assumes "win_ok n S w" "in_window n (last_contiguous_processed_seq w) s" "s |\<notin>| fmdom (ids_by_seq w)"
  shows "fst (make_room n w)"
  using assms
proof (induction n w rule: make_room.induct)
  case (1 n w)
  obtain c u where ev: "evict_oldest_settled w = (c, u)" by (cases "evict_oldest_settled w")
  show ?case
  proof (cases "fcard (fmdom (seen_ids w)) \<ge> n")
    case True
    have c: c
    proof (rule ccontr)
      assume "\<not> c"
      with ev have "evict_oldest_settled w = (False, u)" by simp
      from room_left [OF "1.prems"] evict_none [OF this "1.prems"(1)] have "length (win_order w) < n" by blast
      with True card_seen [OF "1.prems"(1)] show False by simp
    qed
    with ev evict_settled_spec [OF "1.prems"(1)] have u: "win_ok n S u" "last_contiguous_processed_seq u = last_contiguous_processed_seq w"
      "s |\<notin>| fmdom (ids_by_seq u)" using "1.prems"(3) by auto
    have "fst (make_room n u)" using "1.IH" [OF True ev [symmetric]] c u "1.prems"(2) by simp
    then show ?thesis using True ev c by (simp add: make_room.simps [of n w])
  qed (simp add: make_room.simps [of n w])
qed

section \<open>The invariant of the deduplicator\<close>

text \<open>
  \<open>T\<close> gives the settled numbers of each client.  What is demanded of it concerns the clients
  that are still remembered: by a window, or by the frontier of an evicted one.
\<close>

definition tracked :: "event_deduplicator \<Rightarrow> bytes \<Rightarrow> bool" where
  "tracked d c \<longleftrightarrow> c |\<in>| fmdom (clients d) \<or> c |\<in>| fmdom (evicted_frontiers d)"

definition dedup_ok :: "event_deduplicator \<Rightarrow> (bytes \<Rightarrow> u64 set) \<Rightarrow> bool" where
  "dedup_ok d T \<longleftrightarrow>
     0 < max_entries_per_client d \<and> 0 < max_client_windows d \<and>
     distinct (client_order d) \<and> set (client_order d) = fset (fmdom (clients d)) \<and>
     length (client_order d) \<le> max_client_windows d \<and>
     distinct (frontier_order d) \<and> set (frontier_order d) = fset (fmdom (evicted_frontiers d)) \<and>
     length (frontier_order d) \<le> max_client_windows d \<and>
     (\<forall>c w. fmlookup (clients d) c = Some w \<longrightarrow>
        win_ok (max_entries_per_client d) (T c) w \<and> c |\<notin>| fmdom (evicted_frontiers d)) \<and>
     (\<forall>c f. fmlookup (evicted_frontiers d) c = Some f \<longrightarrow> T c = below f)"

definition forget :: "event_deduplicator \<Rightarrow> (bytes \<Rightarrow> u64 set) \<Rightarrow> bytes \<Rightarrow> u64 set" where
  "forget d T = (\<lambda>c. if tracked d c then T c else {})"

lemma forget_ok: "dedup_ok d T \<Longrightarrow> dedup_ok d (forget d T)"
  by (auto simp: dedup_ok_def forget_def tracked_def fmdomI)

lemma drop_oldest_spec:
  "distinct cs \<Longrightarrow> set cs = fset (fmdom fs) \<Longrightarrow> drop_oldest_frontiers m cs fs = (cs', fs') \<Longrightarrow>
   distinct cs' \<and> set cs' = fset (fmdom fs') \<and> length cs' \<le> m \<and> (\<forall>c f. fmlookup fs' c = Some f \<longrightarrow> fmlookup fs c = Some f)"
proof (induction m cs fs arbitrary: cs' fs' rule: drop_oldest_frontiers.induct)
  case (2 m c cs fs)
  show ?case
  proof (cases "length (c # cs) > m")
    case True
    have "set cs = fset (fmdom (fmdrop c fs))" using "2.prems"(1,2) by auto
    moreover have "drop_oldest_frontiers m cs (fmdrop c fs) = (cs', fs')" using "2.prems"(3) True by simp
    ultimately have "distinct cs' \<and> set cs' = fset (fmdom fs') \<and> length cs' \<le> m \<and>
        (\<forall>x f. fmlookup fs' x = Some f \<longrightarrow> fmlookup (fmdrop c fs) x = Some f)"
      using "2.IH" [OF True] "2.prems"(1) by simp
    then show ?thesis by (metis fmlookup_drop option.distinct(1))
  next
    case False
    then have "cs' = c # cs" "fs' = fs" using "2.prems"(3) by (simp_all only: drop_oldest_frontiers.simps if_False prod.inject)
    then show ?thesis using False "2.prems"(1,2) by simp
  qed
qed simp

lemma retain_frontier_spec:
  assumes ok: "dedup_ok d T" and c: "\<not> tracked d c" "T c = below f"
  shows "dedup_ok (retain_frontier c f d) T \<and> clients (retain_frontier c f d) = clients d \<and>
    client_order (retain_frontier c f d) = client_order d \<and> max_client_windows (retain_frontier c f d) = max_client_windows d \<and>
    max_entries_per_client (retain_frontier c f d) = max_entries_per_client d \<and>
    (\<forall>x. x |\<in>| fmdom (evicted_frontiers (retain_frontier c f d)) \<longrightarrow> x = c \<or> x |\<in>| fmdom (evicted_frontiers d))"
proof (cases "f = 0")
  case True
  then show ?thesis using ok by (simp add: retain_frontier_def)
next
  case False
  let ?fs = "fmupd c f (evicted_frontiers d)"
  have none: "fmlookup (evicted_frontiers d) c = None" using c(1) by (simp add: tracked_def fmdom_notD)
  obtain cs' fs' where dr: "drop_oldest_frontiers (max_client_windows d) (frontier_order d @ [c]) ?fs = (cs', fs')" by fastforce
  have "distinct (frontier_order d @ [c])" "set (frontier_order d @ [c]) = fset (fmdom ?fs)"
    using ok c(1) by (auto simp: dedup_ok_def tracked_def)
  from drop_oldest_spec [OF this dr] have D: "distinct cs'" "set cs' = fset (fmdom fs')" "length cs' \<le> max_client_windows d"
    "\<And>x y. fmlookup fs' x = Some y \<Longrightarrow> fmlookup ?fs x = Some y" by blast+
  have eq: "retain_frontier c f d = d\<lparr>frontier_order := cs', evicted_frontiers := fs'\<rparr>"
    using False none dr by (simp add: retain_frontier_def Let_def)
  have sub: "x = c \<or> x |\<in>| fmdom (evicted_frontiers d)" if "x |\<in>| fmdom fs'" for x
    using that D(4) by (fastforce simp: fmlookup_dom_iff split: if_splits)
  have "T x = below y" if "fmlookup fs' x = Some y" for x y
    using D(4) [OF that] c(2) ok by (auto simp: dedup_ok_def split: if_splits)
  moreover have "x |\<notin>| fmdom fs'" if "fmlookup (clients d) x = Some w" for x w
    using that sub [of x] ok c(1) by (auto simp: dedup_ok_def tracked_def fmdomI)
  ultimately show ?thesis using ok D(1-3) sub by (auto simp: eq dedup_ok_def)
qed

lemma unpinned_below:
  assumes "win_ok n S w" "\<not> is_pinned w"
  shows "S = below (last_contiguous_processed_seq w)"
proof -
  have "{s \<in> S. last_contiguous_processed_seq w < s} = {}" and
    "\<forall>s. s \<noteq> 0 \<longrightarrow> s \<le> last_contiguous_processed_seq w \<longrightarrow> s \<in> S" "0 \<notin> S"
    using assms by (auto simp: win_ok_def frontier_ok_def is_pinned_def)
  then show ?thesis unfolding below_def by (auto simp: not_less)
qed

lemma card_clients: "dedup_ok d T \<Longrightarrow> fcard (fmdom (clients d)) = length (client_order d)"
  by (metis dedup_ok_def distinct_card fcard.rep_eq)

lemma make_room_client_spec:
  assumes "dedup_ok d T" "make_room_for_new_client d = (r, d')"
  shows "dedup_ok d' T \<and> max_client_windows d' = max_client_windows d \<and> max_entries_per_client d' = max_entries_per_client d \<and>
    (\<forall>x. x |\<in>| fmdom (clients d') \<longrightarrow> x |\<in>| fmdom (clients d)) \<and>
    (\<forall>x. x |\<in>| fmdom (evicted_frontiers d') \<longrightarrow> tracked d x) \<and>
    (r = Ok () \<and> length (client_order d') < max_client_windows d \<or>
     r = Error (ClientWindowCapacityExhausted (max_client_windows d)))"
  using assms
proof (induction d arbitrary: d' rule: make_room_for_new_client.induct)
  case (1 d)
  show ?case
  proof (cases "fcard (fmdom (clients d)) \<ge> max_client_windows d")
    case False
    then show ?thesis using 1(2,3) card_clients [OF 1(2)] by (simp add: make_room_for_new_client.simps [of d] tracked_def)
  next
    case True
    let ?P = "\<lambda>c. case fmlookup (clients d) c of Some w \<Rightarrow> \<not> is_pinned w | None \<Rightarrow> False"
    show ?thesis
    proof (cases "List.extract ?P (client_order d)")
      case None
      then show ?thesis using True 1(2,3) by (auto simp: make_room_for_new_client.simps [of d] tracked_def)
    next
      case (Some res)
      then obtain pre c post where ex: "List.extract ?P (client_order d) = Some (pre, c, post)" by (cases res) auto
      from extract_SomeE [OF ex] obtain w where ord: "client_order d = pre @ c # post"
        and w: "fmlookup (clients d) c = Some w" "\<not> is_pinned w" by (auto split: option.splits)
      let ?f = "last_contiguous_processed_seq w"
      let ?u = "d\<lparr>client_order := pre @ post, clients := fmdrop c (clients d)\<rparr>"
      have wok: "win_ok (max_entries_per_client d) (T c) w" "c |\<notin>| fmdom (evicted_frontiers d)"
        using 1(2) w(1) by (auto simp: dedup_ok_def)
      have uok: "dedup_ok ?u T" using 1(2) ord by (auto simp: dedup_ok_def)
      have c: "\<not> tracked ?u c" "T c = below ?f" using wok(2) unpinned_below [OF wok(1) w(2)] by (simp_all add: tracked_def)
      note R = retain_frontier_spec [OF uok c]
      have step: "make_room_for_new_client (retain_frontier c ?f ?u) = (r, d')"
        using True ex w(1) 1(3) by (simp add: make_room_for_new_client.simps [of d] Let_def)
      have IH: "dedup_ok d' T" "max_client_windows d' = max_client_windows d" "max_entries_per_client d' = max_entries_per_client d"
        "\<forall>x. x |\<in>| fmdom (clients d') \<longrightarrow> x |\<in>| fmdom (clients (retain_frontier c ?f ?u))"
        "\<forall>x. x |\<in>| fmdom (evicted_frontiers d') \<longrightarrow> tracked (retain_frontier c ?f ?u) x"
        "r = Ok () \<and> length (client_order d') < max_client_windows d \<or> r = Error (ClientWindowCapacityExhausted (max_client_windows d))"
        using 1(1) [OF True ex refl refl refl, of "?f" ?u] step R w(1) by auto
      have "tracked d x" if "tracked (retain_frontier c ?f ?u) x" for x
        using that R w(1) by (auto simp: tracked_def fmdomI)
      then show ?thesis using IH R by auto
    qed
  qed
qed

section \<open>Histories\<close>

lemma touch_spec:
  assumes "dedup_ok d T"
  shows "dedup_ok (touch_client c d) T \<and> clients (touch_client c d) = clients d \<and>
    evicted_frontiers (touch_client c d) = evicted_frontiers d \<and> max_entries_per_client (touch_client c d) = max_entries_per_client d"
  using assms by (auto simp: touch_client_def dedup_ok_def split: option.splits dest!: extract_SomeE)

lemma update_window_ok:
  assumes "dedup_ok d T" "fmlookup (clients d) c = Some w" "win_ok (max_entries_per_client d) S w'"
  shows "dedup_ok (d\<lparr>clients := fmupd c w' (clients d)\<rparr>) (T(c := S))"
proof -
  have "c |\<in>| fmdom (clients d)" "fmlookup (evicted_frontiers d) c = None"
    using assms by (auto simp: dedup_ok_def fmdomI fmdom_notD)
  then show ?thesis using assms by (auto simp: dedup_ok_def)
qed

text \<open>The numbers a client has settled, when it starts a new window.\<close>

lemma window_for_new_spec:
  assumes ok: "dedup_ok d T" and T: "\<And>x. \<not> tracked d x \<Longrightarrow> T x = {}" and c: "fmlookup (clients d) c = None"
    and run: "window_for_new_client c d = (w, u)"
  shows "win_ok n (T c) w \<and> T c = below (last_contiguous_processed_seq w) \<and> dedup_ok u T \<and> \<not> tracked u c \<and>
    clients u = clients d \<and> max_entries_per_client u = max_entries_per_client d"
proof (cases "fmlookup (evicted_frontiers d) c")
  case None
  then have "T c = {}" using T [of c] c by (simp add: tracked_def fmdom_notI)
  moreover have "w = window_new" "u = d" "below 0 = {}" "last_contiguous_processed_seq window_new = 0"
    using run None by (auto simp: window_for_new_client_def window_new_def below_def)
  ultimately show ?thesis using ok c None window_new_ok [of n] by (simp add: tracked_def fmdom_notI)
next
  case (Some f)
  have "T c = below f" using ok Some by (simp add: dedup_ok_def)
  moreover have "length (filter (\<lambda>x. x \<noteq> c) (frontier_order d)) \<le> max_client_windows d"
    using ok by (intro le_trans [OF length_filter_le]) (simp add: dedup_ok_def)
  then have "dedup_ok u T" using run Some ok by (auto simp: window_for_new_client_def dedup_ok_def split: if_splits)
  moreover have "w = window_new\<lparr>last_contiguous_processed_seq := f\<rparr>" "clients u = clients d"
    "max_entries_per_client u = max_entries_per_client d" "\<not> tracked u c"
    using run Some c by (auto simp: window_for_new_client_def tracked_def fmdom_notI)
  moreover have "last_contiguous_processed_seq (window_new\<lparr>last_contiguous_processed_seq := f\<rparr>) = f" by simp
  ultimately show ?thesis using window_restored_ok [of n f] by metis
qed

lemma new_client_ok:
  assumes "dedup_ok d T" "\<not> tracked d c" "length (client_order d) < max_client_windows d"
    and "win_ok (max_entries_per_client d) (T c) w"
  shows "dedup_ok (d\<lparr>clients := fmupd c w (clients d), client_order := client_order d @ [c]\<rparr>) T"
  using assms by (auto simp: dedup_ok_def tracked_def)

lemma admit_event_spec:
  assumes ok: "dedup_ok d T" and T: "\<And>x. \<not> tracked d x \<Longrightarrow> T x = {}" and run: "admit_event e d = (r, d')"
  shows "dedup_ok d' T \<and>
    (\<forall>k. r = Ok (Fresh k) \<longrightarrow> ev_event_seq e \<noteq> 0 \<and> ev_event_seq e \<notin> T (ev_client_instance_id e) \<and>
       is_in_flight d' (ev_client_instance_id e) (ev_event_id e))"
proof -
  let ?c = "ev_client_instance_id e" and ?n = "max_entries_per_client d"
  let ?admit = "admit (ev_event_id e) (ev_event_seq e) (ev_event_type e)"
  show ?thesis
  proof (cases "ev_event_id e = []")
    case True
    then show ?thesis using run ok by (auto simp: admit_event_def)
  next
    case id: False
    show ?thesis
    proof (cases "fmlookup (clients d) ?c")
      case (Some w)
      note t = touch_spec [OF ok, of ?c]
      obtain r' w' where a: "?admit ?n w = (r', w')" by fastforce
      have wok: "win_ok ?n (T ?c) w" using ok Some by (simp add: dedup_ok_def)
      note A = admit_spec [OF wok a]
      have d': "r = r'" "d' = (touch_client ?c d)\<lparr>clients := fmupd ?c w' (clients d)\<rparr>"
        using run id Some a t by (auto simp: admit_event_def Let_def)
      have "dedup_ok d' (T(?c := T ?c))"
        using update_window_ok [of "touch_client ?c d" T ?c w "T ?c" w'] t Some A by (simp add: d')
      then show ?thesis using A d' by (auto simp: is_in_flight_def)
    next
      case None
      obtain w u where wu: "window_for_new_client ?c d = (w, u)" by fastforce
      note W = window_for_new_spec [OF ok T None wu, of ?n]
      obtain r' w' where a: "?admit ?n w = (r', w')" by fastforce
      have wok: "win_ok ?n (T ?c) w" using W by blast
      note A = admit_spec [OF wok a]
      show ?thesis
      proof (cases r')
        case (Inl f)
        then have "r = Inl f" "d' = retain_frontier ?c (last_contiguous_processed_seq w) u"
          using run id None wu a W by (auto simp: admit_event_def Let_def)
        then show ?thesis using retain_frontier_spec [of u T ?c] W by auto
      next
        case (Inr out)
        obtain q v where mr: "make_room_for_new_client u = (q, v)" by fastforce
        have uok: "dedup_ok u T" using W by simp
        note M = make_room_client_spec [OF uok mr]
        have ntr: "\<not> tracked v ?c" using M W by (auto simp: tracked_def)
        show ?thesis
        proof (cases q)
          case (Inl f)
          then have "r = Inl f" "d' = retain_frontier ?c (last_contiguous_processed_seq w) v"
            using run id None wu a W Inr mr by (auto simp: admit_event_def Let_def)
          then show ?thesis using retain_frontier_spec [of v T ?c] W M ntr by auto
        next
          case q: (Inr x)
          then have d': "r = r'" "d' = v\<lparr>clients := fmupd ?c w' (clients v), client_order := client_order v @ [?c]\<rparr>"
            using run id None wu a W Inr mr by (auto simp: admit_event_def Let_def)
          have "dedup_ok d' T"
            using new_client_ok [of v T ?c w'] M W A ntr q by (auto simp: d')
          then show ?thesis using A d' by (auto simp: is_in_flight_def)
        qed
      qed
    qed
  qed
qed

text \<open>The number that settling an event adds to those of its client.\<close>

definition settled_now :: "event_deduplicator \<Rightarrow> event \<Rightarrow> u64 set" where
  "settled_now d e =
     (if ev_event_id e = [] then {}
      else (case fmlookup (clients d) (ev_client_instance_id e) of
          None \<Rightarrow> {}
        | Some w \<Rightarrow> (case fmlookup (seen_ids w) (ev_event_id e) of Some (InFlight s _) \<Rightarrow> {s} | _ \<Rightarrow> {})))"

lemma settle_event_spec:
  assumes ok: "dedup_ok d T" and run: "settle_event e out d = (k, d')"
  shows "dedup_ok d' (T(ev_client_instance_id e := T (ev_client_instance_id e) \<union> settled_now d e)) \<and>
    (\<forall>x. tracked d' x = tracked d x)"
proof (cases "ev_event_id e = [] \<or> fmlookup (clients d) (ev_client_instance_id e) = None")
  case True
  then show ?thesis using run ok touch_spec [OF ok, of "ev_client_instance_id e"]
    by (auto simp: settle_event_def settled_now_def Let_def tracked_def)
next
  case False
  let ?c = "ev_client_instance_id e" and ?i = "ev_event_id e"
  from False obtain w where w: "fmlookup (clients d) ?c = Some w" by auto
  obtain m w' where s: "settle ?i out w = (m, w')" by fastforce
  note t = touch_spec [OF ok, of ?c]
  have d': "d' = (touch_client ?c d)\<lparr>clients := fmupd ?c w' (clients d)\<rparr>"
    using run False w s t by (simp add: settle_event_def Let_def)
  have wok: "win_ok (max_entries_per_client d) (T ?c) w" using ok w by (simp add: dedup_ok_def)
  have "win_ok (max_entries_per_client d) (T ?c \<union> settled_now d e) w'"
  proof (cases "\<exists>n ty. fmlookup (seen_ids w) ?i = Some (InFlight n ty)")
    case True
    then show ?thesis using settle_spec [OF wok _ s] False w by (auto simp: settled_now_def)
  next
    case none: False
    then have "w' = w" using s by (auto simp: settle_def split: option.splits event_record.splits)
    then show ?thesis using wok none w False by (auto simp: settled_now_def split: option.splits event_record.splits)
  qed
  then show ?thesis
    using update_window_ok [of "touch_client ?c d" T ?c w _ w'] t w by (auto simp: d' tracked_def fmdomI)
qed

lemma abandon_event_spec:
  assumes ok: "dedup_ok d T"
  shows "dedup_ok (abandon_event e d) T \<and> (\<forall>x. tracked (abandon_event e d) x = tracked d x)"
proof (cases "ev_event_id e = [] \<or> fmlookup (clients d) (ev_client_instance_id e) = None")
  case True
  then show ?thesis using ok by (auto simp: abandon_event_def Let_def)
next
  case False
  let ?c = "ev_client_instance_id e"
  from False obtain w where w: "fmlookup (clients d) ?c = Some w" by auto
  have "win_ok (max_entries_per_client d) (T ?c) (abandon (ev_event_id e) w)"
    using abandon_spec ok w by (simp add: dedup_ok_def)
  from update_window_ok [OF ok w this] w False show ?thesis
    by (auto simp: abandon_event_def Let_def tracked_def fmdomI)
qed

lemma remove_client_ok: "dedup_ok d T \<Longrightarrow> dedup_ok (remove_client c d) T"
  using le_trans [OF length_filter_le]
  by (auto simp: dedup_ok_def remove_client_def split: if_splits)

text \<open>
  The states of a deduplicator with the numbers each client has settled; a client that is
  tracked no longer, neither by a window nor by a kept frontier, is forgotten.
\<close>

inductive dedup_run :: "event_deduplicator \<Rightarrow> (bytes \<Rightarrow> u64 set) \<Rightarrow> bool" where
  init: "dedup_run (dedup_with_limits n m) (\<lambda>_. {})"
| admits: "dedup_run d T \<Longrightarrow> admit_event e d = (r, d') \<Longrightarrow> dedup_run d' (forget d' T)"
| settles: "dedup_run d T \<Longrightarrow> settle_event e out d = (k, d') \<Longrightarrow>
    dedup_run d' (T(ev_client_instance_id e := T (ev_client_instance_id e) \<union> settled_now d e))"
| abandons: "dedup_run d T \<Longrightarrow> dedup_run (abandon_event e d) T"
| removes: "dedup_run d T \<Longrightarrow> dedup_run (remove_client c d) (forget (remove_client c d) T)"

lemma dedup_run_ok: "dedup_run d T \<Longrightarrow> dedup_ok d T \<and> (\<forall>x. \<not> tracked d x \<longrightarrow> T x = {})"
proof (induction rule: dedup_run.induct)
  case (init n m)
  then show ?case by (simp add: dedup_ok_def dedup_with_limits_def max_def)
next
  case (admits d T e r d')
  then have "dedup_ok d' T" using admit_event_spec by blast
  then show ?case using forget_ok by (auto simp: forget_def)
next
  case (settles d T e out k d')
  have "settled_now d e = {}" if "\<not> tracked d (ev_client_instance_id e)"
    using that by (simp add: settled_now_def tracked_def fmdom_notD)
  then show ?case using settle_event_spec [OF _ settles.hyps(2), of T] settles.IH
    by (metis Un_empty_right fun_upd_triv fun_upd_other)
next
  case (abandons d T e)
  then show ?case using abandon_event_spec by blast
next
  case (removes d T c)
  then show ?case using remove_client_ok forget_ok by (auto simp: forget_def)
qed

section \<open>What is remembered stays\<close>

lemma drop_oldest_last:
  assumes "0 < m" "distinct (cs @ [c])" "drop_oldest_frontiers m (cs @ [c]) fs = (cs', fs')"
  shows "fmlookup fs' c = fmlookup fs c"
  using assms
proof (induction cs arbitrary: fs)
  case (Cons x cs)
  then show ?case by (cases "length (x # cs @ [c]) > m") auto
qed simp

lemma retain_frontier_tracked:
  assumes ok: "dedup_ok d T" and c: "\<not> tracked d c" and f: "f \<noteq> 0"
  shows "tracked (retain_frontier c f d) c"
proof -
  obtain cs' fs' where dr: "drop_oldest_frontiers (max_client_windows d) (frontier_order d @ [c]) (fmupd c f (evicted_frontiers d)) = (cs', fs')" by fastforce
  have "distinct (frontier_order d @ [c])" "0 < max_client_windows d" using ok c by (auto simp: dedup_ok_def tracked_def)
  from drop_oldest_last [OF this(2,1) dr] have "c |\<in>| fmdom fs'" by (simp add: fmdomI)
  moreover have "fmlookup (evicted_frontiers d) c = None" using c by (simp add: tracked_def fmdom_notD)
  ultimately show ?thesis using f dr by (simp add: retain_frontier_def tracked_def Let_def)
qed

text \<open>An admission tracks no client but its own anew, and never loses what its own client has settled.\<close>

lemma admit_event_tracked:
  assumes ok: "dedup_ok d T" and T: "\<And>x. \<not> tracked d x \<Longrightarrow> T x = {}" and run: "admit_event e d = (r, d')"
  shows "(\<forall>x. tracked d' x \<longrightarrow> x = ev_client_instance_id e \<or> tracked d x) \<and>
    (T (ev_client_instance_id e) = {} \<or> tracked d' (ev_client_instance_id e))"
proof (cases "ev_event_id e = [] \<or> fmlookup (clients d) (ev_client_instance_id e) \<noteq> None")
  case True
  let ?c = "ev_client_instance_id e"
  show ?thesis
  proof (cases "ev_event_id e = []")
    case True
    then have "d' = d" using run by (simp add: admit_event_def)
    then show ?thesis using T by blast
  next
    case id: False
    with True obtain w where w: "fmlookup (clients d) ?c = Some w" by auto
    then obtain w' where "d' = (touch_client ?c d)\<lparr>clients := fmupd ?c w' (clients d)\<rparr>"
      using run id touch_spec [OF ok, of ?c] by (auto simp: admit_event_def Let_def split: prod.splits)
    then show ?thesis using w touch_spec [OF ok, of ?c] by (auto simp: tracked_def)
  qed
next
  case False
  let ?c = "ev_client_instance_id e"
  obtain w u where wu: "window_for_new_client ?c d = (w, u)" by fastforce
  let ?f = "last_contiguous_processed_seq w"
  have none: "fmlookup (clients d) ?c = None" using False by simp
  have W: "T ?c = below ?f" "dedup_ok u T" "\<not> tracked u ?c" "max_entries_per_client u = max_entries_per_client d"
    using window_for_new_spec [OF ok T none wu, of 0] by blast+
  have ut: "tracked d x" if "tracked u x" for x
    using that wu by (auto simp: tracked_def window_for_new_client_def split: option.splits if_splits)
  have kept: "(\<forall>x. tracked (retain_frontier ?c ?f v) x \<longrightarrow> x = ?c \<or> tracked d x) \<and> (T ?c = {} \<or> tracked (retain_frontier ?c ?f v) ?c)"
    if "dedup_ok v T" "\<not> tracked v ?c" "\<And>x. tracked v x \<Longrightarrow> tracked u x" for v
  proof (cases "?f = 0")
    case True
    then show ?thesis using W(1) that ut by (auto simp: retain_frontier_def below_def)
  next
    case False
    then show ?thesis using retain_frontier_tracked [OF that(1,2) False] retain_frontier_spec [OF that(1,2) W(1)] that(3) ut
      by (metis tracked_def)
  qed
  obtain q v where mr: "make_room_for_new_client u = (q, v)" by fastforce
  note M = make_room_client_spec [OF W(2) mr]
  have vt: "tracked u x" if "tracked v x" for x using that M by (auto simp: tracked_def)
  then have nv: "\<not> tracked v ?c" using W(3) by blast
  obtain a w' where a: "admit (ev_event_id e) (ev_event_seq e) (ev_event_type e) (max_entries_per_client d) w = (a, w')" by fastforce
  consider (u) "d' = retain_frontier ?c ?f u" | (v) "d' = retain_frontier ?c ?f v"
    | (new) "d' = v\<lparr>clients := fmupd ?c w' (clients v), client_order := client_order v @ [?c]\<rparr>"
    using run False wu a W(4) mr by (auto simp: admit_event_def Let_def split: sum.splits)
  then show ?thesis
  proof cases
    case new
    then show ?thesis using vt ut by (auto simp: tracked_def)
  qed (use kept [OF W(2,3)] kept [OF _ nv] M vt in auto)
qed

section \<open>Entries in flight stay\<close>

lemma evict_keeps:
  assumes "evict_oldest_settled w = (b, w')" "fmlookup (seen_ids w) j = Some (InFlight s ty)"
  shows "fmlookup (seen_ids w') j = Some (InFlight s ty)"
  using assms
  by (auto simp: evict_oldest_settled_def is_evictable_def Let_def split: option.splits if_splits dest!: extract_SomeE)

lemma make_room_keeps:
  "make_room n w = (b, w') \<Longrightarrow> fmlookup (seen_ids w) j = Some (InFlight s ty) \<Longrightarrow>
   fmlookup (seen_ids w') j = Some (InFlight s ty)"
proof (induction n w arbitrary: b w' rule: make_room.induct)
  case (1 n w)
  obtain c u where ev: "evict_oldest_settled w = (c, u)" by fastforce
  with "1.IH" [of c u] "1.prems" evict_keeps [OF ev "1.prems"(2)] show ?case
    by (auto simp: make_room.simps [of n w] split: if_splits bool.splits)
qed

lemma admit_keeps:
  assumes "admit i s ty n w = (r, w')" "fmlookup (seen_ids w) j = Some (InFlight t ty')"
  shows "fmlookup (seen_ids w') j = Some (InFlight t ty')"
proof (cases "fmlookup (seen_ids w) i")
  case None
  then show ?thesis using assms make_room_keeps [of n w _ _ j t ty'] unfolding admit_new [OF None]
    by (auto split: if_splits prod.splits bool.splits)
next
  case (Some rec)
  then show ?thesis using assms by (cases rec) (auto simp: admit_def split: if_splits)
qed

lemma retain_frontier_clients [simp]: "clients (retain_frontier c f d) = clients d"
  by (simp add: retain_frontier_def Let_def split: prod.splits)

lemma touch_clients [simp]: "clients (touch_client c d) = clients d"
  by (simp add: touch_client_def split: option.splits)

lemma window_for_new_clients: "window_for_new_client c d = (w, u) \<Longrightarrow> clients u = clients d"
  by (auto simp: window_for_new_client_def split: option.splits)

lemma make_room_client_keeps:
  "make_room_for_new_client d = (r, d') \<Longrightarrow> fmlookup (clients d) c = Some w \<Longrightarrow> is_pinned w \<Longrightarrow>
   fmlookup (clients d') c = Some w"
proof (induction d arbitrary: r d' rule: make_room_for_new_client.induct)
  case (1 d)
  let ?P = "\<lambda>c. case fmlookup (clients d) c of Some w \<Rightarrow> \<not> is_pinned w | None \<Rightarrow> False"
  show ?case
  proof (cases "fcard (fmdom (clients d)) \<ge> max_client_windows d \<and> List.extract ?P (client_order d) \<noteq> None")
    case False
    then show ?thesis using "1.prems" by (auto simp: make_room_for_new_client.simps [of d] split: if_splits option.splits)
  next
    case True
    then obtain pre x post where ex: "List.extract ?P (client_order d) = Some (pre, x, post)" by auto
    from extract_SomeE [OF ex] "1.prems"(2,3) have x: "x \<noteq> c" by auto
    with True ex "1.prems" "1.IH" [OF conjunct1 [OF True] ex refl refl refl refl refl] show ?thesis
      by (simp add: make_room_for_new_client.simps [of d] Let_def)
  qed
qed

lemma in_flight_pinned: "fmlookup (seen_ids w) i = Some (InFlight s ty) \<Longrightarrow> is_pinned w"
  by (force simp: is_pinned_def has_in_flight_def dest: fmranI)

text \<open>What the fresh admission of an event leaves behind.\<close>

lemma fresh_entry:
  assumes "admit_event e d = (Ok (Fresh k), d')"
  shows "ev_event_id e \<noteq> [] \<and> (\<exists>w. fmlookup (clients d') (ev_client_instance_id e) = Some w \<and>
    fmlookup (seen_ids w) (ev_event_id e) = Some (InFlight (ev_event_seq e) (ev_event_type e))) \<and>
    \<not> is_in_flight d (ev_client_instance_id e) (ev_event_id e)"
proof -
  have new: "fmlookup (seen_ids w) i = None \<and> fmlookup (seen_ids w') i = Some (InFlight s ty)"
    if "admit i s ty n w = (Ok (Fresh k), w')" for i s ty n w w'
  proof (cases "fmlookup (seen_ids w) i")
    case None
    then show ?thesis using that unfolding admit_new [OF None] by (auto split: if_splits prod.splits bool.splits)
  next
    case (Some rec)
    then show ?thesis using that by (cases rec) (auto simp: admit_def split: if_splits)
  qed
  show ?thesis using assms
    by (auto simp: admit_event_def is_in_flight_def Let_def split: if_splits option.splits prod.splits sum.splits dest!: new)
qed

section \<open>Answers\<close>

lemma advance_seen [simp]: "seen_ids (advance_frontier w) = seen_ids w"
  by (induction w rule: advance_frontier.induct)
    (subst advance_frontier.simps, auto split: option.splits)

lemma note_settled_seen [simp]: "seen_ids (note_settled_sequence s w) = seen_ids w"
  by (simp add: note_settled_sequence_def)

lemma admit_never_full:
  assumes "win_ok n S w"
  shows "fst (admit i s ty n w) \<noteq> Error ReceiveWindowFull"
proof (cases "fmlookup (seen_ids w) i")
  case None
  then show ?thesis using make_room_succeeds [OF assms, of s] unfolding admit_new [OF None]
    by (cases "s |\<in>| fmdom (ids_by_seq w)") (auto split: prod.splits bool.splits)
next
  case (Some rec)
  then show ?thesis by (cases rec) (auto simp: admit_def)
qed


text \<open>
  When the window of a client has been evicted its frontier stays: a replay of a settled number is refused, not run again.
\<close>

lemma evicted_replay_refused:
  assumes "fmlookup (clients d) (ev_client_instance_id e) = None" "fmlookup (evicted_frontiers d) (ev_client_instance_id e) = Some f"
    and "ev_event_id e \<noteq> []" "ev_event_seq e \<le> f"
  shows "\<exists>a b. fst (admit_event e d) = Error (OutsideReceiveWindow (ev_event_seq e) a b)"
proof -
  have "\<not> in_window n f (ev_event_seq e)" for n using assms(4) by (simp add: in_window_def word_le_nat_alt)
  then show ?thesis using assms
    by (simp add: admit_event_def window_for_new_client_def admit_new window_new_def Let_def)
qed


definition sample_event :: event where
  "sample_event = \<lparr>ev_client_instance_id = [1], ev_event_id = [7], ev_event_seq = 1, ev_event_type = Some (1, 0)\<rparr>"

definition sample_window :: client_dedupe_window where
  "sample_window = \<lparr>seen_ids = fmupd [7] (InFlight 1 (Some (1, 0))) fmempty, ids_by_seq = fmupd 1 [7] fmempty, win_order = [[7]],
     last_contiguous_processed_seq = 0, settled_out_of_order = {||}\<rparr>"

definition sample_dedup :: event_deduplicator where
  "sample_dedup = \<lparr>max_entries_per_client = 2, max_client_windows = 2, clients = fmupd [1] sample_window fmempty,
     client_order = [[1]], evicted_frontiers = fmempty, frontier_order = []\<rparr>"

lemma sample_admits: "admit_event sample_event (dedup_with_limits 2 2) = (Ok (Fresh 0), sample_dedup)"
proof -
  have "in_window 2 0 1" by (simp add: in_window_def)
  moreover have "make_room 2 window_new = (True, window_new)" by (subst make_room.simps) (simp add: window_new_def fcard.rep_eq)
  ultimately have "admit [7] 1 (Some (1, 0)) 2 window_new = (Ok (Fresh 0), sample_window)"
    by (subst admit_new) (simp_all add: window_new_def sample_window_def)
  then show ?thesis
    by (simp add: admit_event_def sample_event_def dedup_with_limits_def sample_dedup_def window_for_new_client_def
      make_room_for_new_client.simps fcard.rep_eq numeral_2_eq_2 Let_def)
qed

lemma sample_run: "dedup_run sample_dedup (forget sample_dedup (\<lambda>_. {}))"
  by (rule dedup_run.admits [OF dedup_run.init sample_admits])


lemma admit_event_in_flight:
  assumes fl: "is_in_flight d c i" and run: "admit_event e d = (r, d')"
  shows "is_in_flight d' c i"
proof -
  from fl obtain w s ty where w: "fmlookup (clients d) c = Some w" "fmlookup (seen_ids w) i = Some (InFlight s ty)"
    by (auto simp: is_in_flight_def split: option.splits event_record.splits)
  note pin = in_flight_pinned [OF w(2)]
  have "\<exists>w'. fmlookup (clients d') c = Some w' \<and> fmlookup (seen_ids w') i = Some (InFlight s ty)"
  proof (cases "ev_event_id e = [] \<or> fmlookup (clients d) (ev_client_instance_id e) \<noteq> None")
    case True
    then show ?thesis using run w admit_keeps [OF _ w(2)]
      by (auto simp: admit_event_def Let_def split: option.splits prod.splits if_splits)
  next
    case False
    obtain w0 u where wu: "window_for_new_client (ev_client_instance_id e) d = (w0, u)" by fastforce
    note cl = window_for_new_clients [OF wu]
    obtain q v where mr: "make_room_for_new_client u = (q, v)" by fastforce
    have "fmlookup (clients v) c = Some w" using make_room_client_keeps [OF mr _ pin] w(1) cl by simp
    moreover have "c \<noteq> ev_client_instance_id e" using False w(1) by auto
    ultimately show ?thesis using run False w wu cl mr
      by (auto simp: admit_event_def Let_def split: prod.splits sum.splits)
  qed
  then show ?thesis by (auto simp: is_in_flight_def)
qed

text \<open>
  An event in flight stays in flight through every admission, of its own client or of others:
  neither the bound on entries nor the one on clients evicts it.
\<close>

theorem in_flight_kept:
  assumes "is_in_flight d c i" and "admit_event e d = (r, d')"
  shows "is_in_flight d' c i"
  using assms by (rule admit_event_in_flight)

theorem in_flight_kept_witness:
  "is_in_flight sample_dedup [1] [7] \<and> is_in_flight (snd (admit_event sample_event sample_dedup)) [1] [7]"
proof -
  have fl: "is_in_flight sample_dedup [1] [7]"
    by (simp add: is_in_flight_def sample_dedup_def sample_window_def)
  then show ?thesis using in_flight_kept [OF fl, of sample_event] by (metis prod.collapse)
qed

text \<open>
  The frontier acknowledged to a client is exactly the end of the gapless beginning of the
  sequence numbers it has settled, also after its window has been evicted and restored.
\<close>

theorem frontier_exact:
  assumes "dedup_run d T"
  shows "(\<forall>s. s \<noteq> 0 \<longrightarrow> s \<le> dedup_frontier d c \<longrightarrow> s \<in> T c) \<and>
    (dedup_frontier d c \<noteq> - 1 \<longrightarrow> dedup_frontier d c + 1 \<notin> T c)"
proof -
  note ok = dedup_run_ok [OF assms]
  have restored: "s \<in> below f \<longleftrightarrow> s \<noteq> 0 \<and> s \<le> f" for s f by (simp add: below_def)
  show ?thesis
  proof (cases "fmlookup (clients d) c")
    case (Some w)
    then have "frontier_ok (T c) (last_contiguous_processed_seq w) (settled_out_of_order w)"
      using ok by (simp add: dedup_ok_def win_ok_def)
    then show ?thesis using Some by (simp add: dedup_frontier_def frontier_ok_def)
  next
    case None
    then have "T c = below (dedup_frontier d c)"
      using ok by (auto simp: dedup_frontier_def dedup_ok_def tracked_def fmdom_notI restored split: option.splits)
    then show ?thesis using next_not_le by (simp add: restored)
  qed
qed

theorem frontier_exact_witness:
  "dedup_run sample_dedup (forget sample_dedup (\<lambda>_. {})) \<and> dedup_frontier sample_dedup [1] + 1 \<notin> forget sample_dedup (\<lambda>_. {}) [1]"
  using frontier_exact [OF sample_run, of "[1]"] sample_run
  by (simp add: dedup_frontier_def sample_dedup_def sample_window_def)

text \<open>No window can be given up: all are taken, and every one holds events that are not settled in order.\<close>

definition windows_exhausted :: "event_deduplicator \<Rightarrow> bool" where
  "windows_exhausted d \<longleftrightarrow> max_client_windows d \<le> client_count d \<and> (\<forall>c w. fmlookup (clients d) c = Some w \<longrightarrow> is_pinned w)"

lemma make_room_client_result:
  assumes ok: "dedup_ok d T"
  shows "fst (make_room_for_new_client d) = (if windows_exhausted d then Error (ClientWindowCapacityExhausted (max_client_windows d)) else Ok ())"
proof -
  let ?P = "\<lambda>c. case fmlookup (clients d) c of Some w \<Rightarrow> \<not> is_pinned w | None \<Rightarrow> False"
  have dom: "set (client_order d) = fset (fmdom (clients d))" and le: "length (client_order d) \<le> max_client_windows d"
    using ok by (auto simp: dedup_ok_def)
  have count: "client_count d = fcard (fmdom (clients d))" by (simp add: client_count_def)
  show ?thesis
  proof (cases "fcard (fmdom (clients d)) \<ge> max_client_windows d")
    case False
    then show ?thesis by (simp add: make_room_for_new_client.simps [of d] windows_exhausted_def count)
  next
    case full: True
    show ?thesis
    proof (cases "List.extract ?P (client_order d)")
      case None
      have "is_pinned w" if "fmlookup (clients d) c = Some w" for c w
      proof -
        have "\<not> ?P c" using None dom fmdomI [OF that] unfolding extract_None_iff by blast
        then show ?thesis by (simp add: that)
      qed
      then show ?thesis using full None by (simp add: make_room_for_new_client.simps [of d] windows_exhausted_def count)
    next
      case (Some res)
      then obtain pre c post where ex: "List.extract ?P (client_order d) = Some (pre, c, post)" by (cases res) auto
      from extract_SomeE [OF ex] obtain w where ord: "client_order d = pre @ c # post" and w: "fmlookup (clients d) c = Some w" "\<not> is_pinned w"
        by (auto split: option.splits)
      let ?u = "d\<lparr>client_order := pre @ post, clients := fmdrop c (clients d)\<rparr>"
      let ?v = "retain_frontier c (last_contiguous_processed_seq w) ?u"
      have "fcard (fmdom (fmdrop c (clients d))) < max_client_windows d"
        using w(1) le card_clients [OF ok] ord by (simp add: fmdomI fcard_fminus_fsingleton)
      then have "make_room_for_new_client ?v = (Ok (), ?v)"
        by (subst make_room_for_new_client.simps) (simp add: retain_frontier_def Let_def split: prod.splits)
      moreover have "make_room_for_new_client d = make_room_for_new_client ?v"
        using full ex w(1) by (simp add: make_room_for_new_client.simps [of d] Let_def)
      ultimately show ?thesis using w by (auto simp: windows_exhausted_def)
    qed
  qed
qed

definition seq_owned :: "event_deduplicator \<Rightarrow> bytes \<Rightarrow> u64 \<Rightarrow> bool" where
  "seq_owned d c s \<longleftrightarrow> (case fmlookup (clients d) c of Some w \<Rightarrow> s |\<in>| fmdom (ids_by_seq w) | None \<Rightarrow> False)"

lemma admit_fresh_id:
  assumes "win_ok n S w" "fmlookup (seen_ids w) i = None"
  shows "fst (admit i s ty n w) =
    (if s |\<in>| fmdom (ids_by_seq w) then Error (SequenceAlreadyAssigned s)
     else if in_window n (last_contiguous_processed_seq w) s then Ok (Fresh (last_contiguous_processed_seq w))
     else Error (OutsideReceiveWindow s (saturating_add (last_contiguous_processed_seq w) 1)
            (saturating_add (last_contiguous_processed_seq w) (if n < 2 ^ 64 then of_nat n else - 1))))"
proof (cases "s |\<in>| fmdom (ids_by_seq w) \<or> \<not> in_window n (last_contiguous_processed_seq w) s")
  case True
  then show ?thesis unfolding admit_new [OF assms(2)] by auto
next
  case False
  obtain u where u: "make_room n w = (True, u)"
    using make_room_succeeds [OF assms(1), of s] False by (cases "make_room n w") auto
  then show ?thesis using False make_room_spec [OF assms(1) u] unfolding admit_new [OF assms(2)] by simp
qed



text \<open>
  A replay of a processed event is answered from memory: once an admitted event has been
  settled, sending it again yields the recorded outcome and the same frontier, not a second run.
\<close>

theorem replay_answered:
  assumes "admit_event e d = (Ok (Fresh k), d1)" and "settle_event e out d1 = (n, d2)"
  shows "fst (admit_event e d2) = Ok (Duplicate out n)"
proof -
  from fresh_entry [OF assms(1)] obtain w where i: "ev_event_id e \<noteq> []"
    and w: "fmlookup (clients d1) (ev_client_instance_id e) = Some w"
    "fmlookup (seen_ids w) (ev_event_id e) = Some (InFlight (ev_event_seq e) (ev_event_type e))" by blast
  obtain w' where s: "settle (ev_event_id e) out w = (n, w')" "fmlookup (clients d2) (ev_client_instance_id e) = Some w'"
    using assms(2) i w(1) by (auto simp: settle_event_def Let_def split: prod.splits)
  from s(1) w(2) have "fmlookup (seen_ids w') (ev_event_id e) = Some (Settled (ev_event_seq e) (ev_event_type e) out)"
    "n = last_contiguous_processed_seq w'" by (auto simp: settle_def Let_def)
  with i s(2) show ?thesis by (simp add: admit_event_def admit_def Let_def split: prod.splits)
qed

theorem replay_answered_witness:
  "fst (admit_event sample_event (snd (settle_event sample_event \<lparr>accepted = True, revision_after_effect = 5, reject_reason = []\<rparr> sample_dedup))) =
   Ok (Duplicate \<lparr>accepted = True, revision_after_effect = 5, reject_reason = []\<rparr> 1)"
proof -
  let ?out = "\<lparr>accepted = True, revision_after_effect = 5, reject_reason = []\<rparr> :: event_outcome_record"
  have "fst (settle_event sample_event ?out sample_dedup) = 1"
    by (simp add: settle_event_def settle_def sample_event_def sample_dedup_def sample_window_def touch_client_def
      note_settled_sequence_def saturating_add_def advance_frontier.simps checked_add_def extract_Cons_code extract_Nil_code Let_def)
  then have "settle_event sample_event ?out sample_dedup = (1, snd (settle_event sample_event ?out sample_dedup))"
    by (metis prod.collapse)
  from replay_answered [OF sample_admits this] show ?thesis .
qed

lemma settle_event_in_flight:
  assumes "is_in_flight d c i" "settle_event e out d = (k, d')" "(ev_client_instance_id e, ev_event_id e) \<noteq> (c, i)"
  shows "is_in_flight d' c i"
  using assms
  by (auto simp: is_in_flight_def settle_event_def settle_def Let_def split: if_splits option.splits event_record.splits)

text \<open>
  The memory of a deduplicator is bounded: at most the configured number of client windows,
  of entries in each of them and of kept frontiers.
\<close>

theorem dedup_bounded:
  assumes "dedup_run d T"
  shows "len_map (clients d) \<le> max_client_windows d \<and> len_map (evicted_frontiers d) \<le> max_client_windows d \<and>
    (\<forall>c w. fmlookup (clients d) c = Some w \<longrightarrow>
       len_map (seen_ids w) \<le> max_entries_per_client d \<and> length (win_order w) = len_map (seen_ids w))"
proof -
  from dedup_run_ok [OF assms] have ok: "dedup_ok d T" by blast
  have "len_map (evicted_frontiers d) = length (frontier_order d)"
    using ok by (metis dedup_ok_def distinct_card fcard.rep_eq)
  moreover have "len_map (seen_ids w) = length (win_order w) \<and> length (win_order w) \<le> max_entries_per_client d"
    if "fmlookup (clients d) c = Some w" for c w
  proof -
    have "win_ok (max_entries_per_client d) (T c) w" using ok that by (simp add: dedup_ok_def)
    then show ?thesis using card_seen by (simp add: win_ok_def)
  qed
  ultimately show ?thesis using ok card_clients [OF ok] by (auto simp: dedup_ok_def)
qed

theorem dedup_bounded_witness:
  "dedup_run sample_dedup (forget sample_dedup (\<lambda>_. {})) \<and> len_map (clients sample_dedup) \<le> 2"
  using dedup_bounded [OF sample_run] sample_run by (simp add: sample_dedup_def)

end
