(* ===== verification/Codec.thy ===== *)
theory Codec
  imports Prelude
begin

text \<open>
  Length-delimited framing: \<^verbatim>\<open>protocol/src/framing.rs\<close> and \<^verbatim>\<open>protocol/src/codec.rs\<close>.  A frame is
  the length of the message as a varint, followed by the message.  The protobuf library is a
  parameter, a record with the functions the sources call; \<open>prost_ok\<close> states what it documents.
  The reservation of buffer capacity has no effect on the result and is left out.
\<close>

section \<open>Data\<close>

definition DEFAULT_MAX_FRAME_SIZE :: usize where
  "DEFAULT_MAX_FRAME_SIZE = 16 * 1024 * 1024"

datatype framing_error =
    FrameSizeLimitExceeded usize usize
  | EncodeError string
  | DecodeError string

record 'm prost =
  encoded_len :: "'m \<Rightarrow> usize"
  encode_length_delimited :: "'m \<Rightarrow> string + u8 list"
  decode_length_delimited :: "u8 list \<Rightarrow> string + 'm"
  decode_length_delimiter :: "u8 list \<Rightarrow> (usize \<times> u8 list) option"
  decode_message :: "u8 list \<Rightarrow> string + 'm"

section \<open>Framing of single messages\<close>

definition framed_payload_len :: "'m prost \<Rightarrow> 'm \<Rightarrow> usize" where
  "framed_payload_len P msg = encoded_len P msg"

definition encode_framed_with_limit :: "'m prost \<Rightarrow> 'm \<Rightarrow> usize \<Rightarrow> (framing_error, u8 list) result" where
  "encode_framed_with_limit P msg max_frame_size =
     (let payload_len = encoded_len P msg
      in if payload_len > max_frame_size then Error (FrameSizeLimitExceeded max_frame_size payload_len)
         else (case encode_length_delimited P msg of Inl e \<Rightarrow> Error (EncodeError e) | Inr buf \<Rightarrow> Ok buf))"

definition encode_framed :: "'m prost \<Rightarrow> 'm \<Rightarrow> (framing_error, u8 list) result" where
  "encode_framed P msg = encode_framed_with_limit P msg DEFAULT_MAX_FRAME_SIZE"

definition decode_framed_with_limit :: "'m prost \<Rightarrow> u8 list \<Rightarrow> usize \<Rightarrow> (framing_error, 'm) result" where
  "decode_framed_with_limit P buf max_frame_size =
     and_then
       (case decode_length_delimiter P buf of
          None \<Rightarrow> Ok ()
        | Some (varint_len, _) \<Rightarrow>
            if varint_len > max_frame_size then Error (FrameSizeLimitExceeded max_frame_size varint_len) else Ok ())
       (\<lambda>_. case decode_length_delimited P buf of Inl e \<Rightarrow> Error (DecodeError e) | Inr m \<Rightarrow> Ok m)"

definition decode_framed :: "'m prost \<Rightarrow> u8 list \<Rightarrow> (framing_error, 'm) result" where
  "decode_framed P buf = decode_framed_with_limit P buf DEFAULT_MAX_FRAME_SIZE"

section \<open>The stream codec\<close>

record srui_codec =
  max_frame_size :: usize

definition with_max_frame_size :: "usize \<Rightarrow> srui_codec" where
  "with_max_frame_size n = \<lparr>max_frame_size = n\<rparr>"

definition codec_new :: srui_codec where
  "codec_new = with_max_frame_size DEFAULT_MAX_FRAME_SIZE"

text \<open>
  \<open>decode\<close> returns the message, if one is complete, and the bytes it leaves in the buffer.  The
  overflow of the checked addition \<open>header_len + varint_len\<close> is written out for 64 bits.
\<close>

definition decode :: "'m prost \<Rightarrow> srui_codec \<Rightarrow> u8 list \<Rightarrow> (framing_error, 'm option) result \<times> u8 list" where
  "decode P self src =
     (if src = [] then (Ok None, src)
      else case decode_length_delimiter P src of
        None \<Rightarrow>
          if length src \<ge> 10
          then (Error (DecodeError ''malformed or overlong varint length prefix (exceeds 10 bytes)''), src)
          else (Ok None, src)
      | Some (varint_len, peek_buf) \<Rightarrow>
          if varint_len > max_frame_size self
          then (Error (FrameSizeLimitExceeded (max_frame_size self) varint_len), src)
          else
            let header_len = length src - length peek_buf;
                total_frame_len = header_len + varint_len
            in if total_frame_len \<ge> 2 ^ 64
               then (Error (FrameSizeLimitExceeded (max_frame_size self) (2 ^ 64 - 1)), src)
               else if length src < total_frame_len then (Ok None, src)
               else (case decode_message P (drop header_len (take total_frame_len src)) of
                   Inl e \<Rightarrow> (Error (DecodeError e), drop total_frame_len src)
                 | Inr msg \<Rightarrow> (Ok (Some msg), drop total_frame_len src)))"

definition encode :: "'m prost \<Rightarrow> srui_codec \<Rightarrow> 'm \<Rightarrow> u8 list \<Rightarrow> (framing_error, unit) result \<times> u8 list" where
  "encode P self item dst =
     (let payload_len = encoded_len P item
      in if payload_len > max_frame_size self
         then (Error (FrameSizeLimitExceeded (max_frame_size self) payload_len), dst)
         else (case encode_length_delimited P item of
             Inl e \<Rightarrow> (Error (EncodeError e), dst)
           | Inr bytes \<Rightarrow> (Ok (), dst @ bytes)))"

section \<open>The protobuf library\<close>

text \<open>
  What the library documents, for messages that fit a buffer (at most \<open>isize::MAX\<close> bytes): a delimited
  message is the delimiter and the body, the delimiter has one to ten bytes, is read back whatever follows it and is
  not accepted before its last byte, and bodies decode to what was encoded.
\<close>

definition prost_ok :: "'m prost \<Rightarrow> (usize \<Rightarrow> u8 list) \<Rightarrow> ('m \<Rightarrow> u8 list) \<Rightarrow> bool" where
  "prost_ok P delimiter body \<longleftrightarrow>
     (\<forall>m. length (body m) = encoded_len P m \<and> encoded_len P m < 2 ^ 63 \<and>
        encode_length_delimited P m = Inr (delimiter (encoded_len P m) @ body m) \<and>
        decode_message P (body m) = Inr m \<and>
        (\<forall>rest. decode_length_delimited P (delimiter (encoded_len P m) @ body m @ rest) = Inr m)) \<and>
     (\<forall>n < 2 ^ 64. 0 < length (delimiter n) \<and> length (delimiter n) \<le> 10 \<and>
        (\<forall>rest. decode_length_delimiter P (delimiter n @ rest) = Some (n, rest)) \<and>
        (\<forall>k < length (delimiter n). decode_length_delimiter P (take k (delimiter n)) = None))"

lemma prost_okD:
  assumes "prost_ok P delimiter body"
  shows "length (body m) = encoded_len P m" "encode_length_delimited P m = Inr (delimiter (encoded_len P m) @ body m)"
    "decode_message P (body m) = Inr m" "decode_length_delimited P (delimiter (encoded_len P m) @ body m @ rest) = Inr m"
    "decode_length_delimiter P (delimiter (encoded_len P m) @ rest) = Some (encoded_len P m, rest)"
    "k < length (delimiter (encoded_len P m)) \<Longrightarrow> decode_length_delimiter P (take k (delimiter (encoded_len P m))) = None"
    "0 < length (delimiter (encoded_len P m))" "length (delimiter (encoded_len P m)) \<le> 10"
    "length (delimiter (encoded_len P m)) + encoded_len P m < 2 ^ 64"
proof -
  from assms have len: "encoded_len P m < 2 ^ 63" for m by (simp add: prost_ok_def)
  then have "encoded_len P m < 2 ^ 64" by (rule less_trans) simp
  with assms have ten: "length (delimiter (encoded_len P m)) \<le> 10"
    and delim: "0 < length (delimiter (encoded_len P m))" "\<forall>rest. decode_length_delimiter P (delimiter (encoded_len P m) @ rest) = Some (encoded_len P m, rest)"
      "\<forall>k < length (delimiter (encoded_len P m)). decode_length_delimiter P (take k (delimiter (encoded_len P m))) = None"
    unfolding prost_ok_def by blast+
  from assms show "length (body m) = encoded_len P m" "encode_length_delimited P m = Inr (delimiter (encoded_len P m) @ body m)"
    "decode_message P (body m) = Inr m" "decode_length_delimited P (delimiter (encoded_len P m) @ body m @ rest) = Inr m"
    by (simp_all add: prost_ok_def)
  from delim show "decode_length_delimiter P (delimiter (encoded_len P m) @ rest) = Some (encoded_len P m, rest)"
    "0 < length (delimiter (encoded_len P m))" by simp_all
  from ten show "length (delimiter (encoded_len P m)) \<le> 10" .
  from ten len [of m] show "length (delimiter (encoded_len P m)) + encoded_len P m < 2 ^ 64" by simp
  from delim(3) show "k < length (delimiter (encoded_len P m)) \<Longrightarrow> decode_length_delimiter P (take k (delimiter (encoded_len P m))) = None"
    by blast
qed

section \<open>Decoding a stream\<close>

text \<open>
  A reader that appends each chunk it receives to its buffer and decodes as long as messages are
  complete.  The fuel is one more than the bytes in the buffer; a message takes at least one byte.
\<close>

fun drain :: "'m prost \<Rightarrow> srui_codec \<Rightarrow> nat \<Rightarrow> u8 list \<Rightarrow> (framing_error, 'm list) result \<times> u8 list" where
  "drain P self 0 src = (Inl Diverge, src)"
| "drain P self (Suc fuel) src =
     (case decode P self src of
        (Inl e, src') \<Rightarrow> (Inl e, src')
      | (Inr None, src') \<Rightarrow> (Ok [], src')
      | (Inr (Some m), src') \<Rightarrow> and_then_st (drain P self fuel src') (\<lambda>ms src''. (Ok (m # ms), src'')))"

fun read_chunks :: "'m prost \<Rightarrow> srui_codec \<Rightarrow> u8 list list \<Rightarrow> u8 list \<Rightarrow> (framing_error, 'm list) result \<times> u8 list" where
  "read_chunks P self [] src = (Ok [], src)"
| "read_chunks P self (chunk # chunks) src =
     and_then_st (drain P self (Suc (length (src @ chunk))) (src @ chunk)) (\<lambda>ms src'.
     and_then_st (read_chunks P self chunks src') (\<lambda>ms' src''. (Ok (ms @ ms'), src'')))"

definition frame_of :: "'m prost \<Rightarrow> (usize \<Rightarrow> u8 list) \<Rightarrow> ('m \<Rightarrow> u8 list) \<Rightarrow> 'm \<Rightarrow> u8 list" where
  "frame_of P delimiter body m = delimiter (encoded_len P m) @ body m"

text \<open>What is left in the buffer: the beginning of the next frame, or nothing.\<close>

definition pending :: "('m \<Rightarrow> u8 list) \<Rightarrow> 'm list \<Rightarrow> u8 list \<Rightarrow> bool" where
  "pending frame ms p \<longleftrightarrow> (case ms of [] \<Rightarrow> p = [] | m # _ \<Rightarrow> \<exists>k < length (frame m). p = take k (frame m))"

lemma decode_complete:
  assumes "prost_ok P delimiter body" "encoded_len P m \<le> max_frame_size self"
  shows "decode P self (frame_of P delimiter body m @ rest) = (Ok (Some m), rest)"
proof -
  note ok = prost_okD [OF assms(1)]
  have "decode_length_delimiter P (frame_of P delimiter body m @ rest) = Some (encoded_len P m, body m @ rest)"
    using ok(5) [of m "body m @ rest"] by (simp add: frame_of_def)
  moreover have "frame_of P delimiter body m @ rest \<noteq> []" using ok(7) [of m] by (auto simp: frame_of_def)
  ultimately show ?thesis using assms(2) ok(1,3,9) [of m] by (simp add: decode_def frame_of_def Let_def)
qed

lemma decode_incomplete:
  assumes "prost_ok P delimiter body" "encoded_len P m \<le> max_frame_size self" "k < length (frame_of P delimiter body m)"
  shows "decode P self (take k (frame_of P delimiter body m)) = (Ok None, take k (frame_of P delimiter body m))"
proof -
  note ok = prost_okD [OF assms(1)]
  let ?d = "delimiter (encoded_len P m)"
  show ?thesis
  proof (cases "k < length ?d")
    case True
    then have "take k (frame_of P delimiter body m) = take k ?d" by (simp add: frame_of_def)
    moreover have "\<not> 10 \<le> length (take k ?d)" using True ok(8) [of m] by simp
    ultimately show ?thesis using ok(6) [OF True] by (auto simp: decode_def simp del: length_take)
  next
    case False
    then have p: "take k (frame_of P delimiter body m) = ?d @ take (k - length ?d) (body m)" by (simp add: frame_of_def)
    have "?d \<noteq> []" using ok(7) [of m] by auto
    then show ?thesis unfolding p using assms(2,3) False ok(1,9) [of m] ok(5) [of m "take (k - length ?d) (body m)"]
      by (simp add: decode_def frame_of_def Let_def)
  qed
qed

lemma decode_pending:
  assumes "prost_ok P delimiter body" "\<forall>m \<in> set ms. encoded_len P m \<le> max_frame_size self" "pending (frame_of P delimiter body) ms p"
  shows "decode P self p = (Ok None, p)"
proof (cases ms)
  case Nil
  then show ?thesis using assms(3) by (simp add: pending_def decode_def)
next
  case (Cons m rest)
  then obtain k where "k < length (frame_of P delimiter body m)" "p = take k (frame_of P delimiter body m)"
    using assms(3) by (auto simp: pending_def)
  then show ?thesis using decode_incomplete [OF assms(1)] assms(2) Cons by simp
qed

lemma drain_complete:
  assumes ok: "prost_ok P delimiter body"
  shows "\<forall>m \<in> set (ms @ ms'). encoded_len P m \<le> max_frame_size self \<Longrightarrow> pending (frame_of P delimiter body) ms' p \<Longrightarrow>
    length (concat (map (frame_of P delimiter body) ms) @ p) < fuel \<Longrightarrow>
    drain P self fuel (concat (map (frame_of P delimiter body) ms) @ p) = (Ok ms, p)"
proof (induction ms arbitrary: fuel)
  case Nil
  then obtain f where "fuel = Suc f" by (cases fuel) auto
  then show ?case using decode_pending [OF ok] Nil by simp
next
  case (Cons m ms)
  then obtain f where f: "fuel = Suc f" by (cases fuel) auto
  have "0 < length (frame_of P delimiter body m)" using prost_okD(7) [OF ok, of m] by (simp add: frame_of_def)
  then have "length (concat (map (frame_of P delimiter body) ms) @ p) < f" using Cons.prems(3) f by (auto simp del: length_greater_0_conv)
  then show ?case using Cons.IH [of f] Cons.prems(1,2) decode_complete [OF ok, of m self] f by simp
qed

lemma prefix_frames:
  assumes "a @ b = concat (map frame ms)" "\<And>m. frame m \<noteq> []"
  shows "\<exists>ms1 ms2 p. ms = ms1 @ ms2 \<and> a = concat (map frame ms1) @ p \<and> pending frame ms2 p"
  using assms(1)
proof (induction ms arbitrary: a)
  case Nil
  then show ?case by (simp add: pending_def)
next
  case (Cons m ms)
  show ?case
  proof (cases "length a < length (frame m)")
    case True
    have "a = take (length a) (frame m @ concat (map frame ms))" using arg_cong [OF Cons.prems, of "take (length a)"] by simp
    then have "a = take (length a) (frame m)" using True by simp
    then have "pending frame (m # ms) a" using True unfolding pending_def by auto
    then show ?thesis by (intro exI [of _ "[]"] exI [of _ "m # ms"] exI [of _ a]) simp
  next
    case False
    moreover have "take (length (frame m)) (a @ b) = frame m" using Cons.prems by simp
    ultimately have "take (length (frame m)) a = frame m" by simp
    then obtain a' where a: "a = frame m @ a'" by (metis append_take_drop_id)
    with Cons.prems have "a' @ b = concat (map frame ms)" by simp
    from Cons.IH [OF this] obtain ms1 ms2 p where "ms = ms1 @ ms2" "a' = concat (map frame ms1) @ p" "pending frame ms2 p" by blast
    then show ?thesis using a by (intro exI [of _ "m # ms1"] exI [of _ ms2] exI [of _ p]) simp
  qed
qed

lemma read_stream:
  assumes ok: "prost_ok P delimiter body"
  shows "\<forall>m \<in> set ms. encoded_len P m \<le> max_frame_size self \<Longrightarrow> pending (frame_of P delimiter body) ms p \<Longrightarrow>
    p @ concat chunks = concat (map (frame_of P delimiter body) ms) \<Longrightarrow> read_chunks P self chunks p = (Ok ms, [])"
proof (induction chunks arbitrary: p ms)
  case Nil
  then show ?case by (cases ms) (auto simp: pending_def dest: arg_cong [where f = length])
next
  case (Cons chunk chunks)
  let ?frame = "frame_of P delimiter body"
  have ne: "?frame m \<noteq> []" for m using prost_okD(7) [OF ok, of m] by (auto simp: frame_of_def)
  have "(p @ chunk) @ concat chunks = concat (map ?frame ms)" using Cons.prems(3) by simp
  from prefix_frames [OF this ne] obtain ms1 ms2 q where
    split: "ms = ms1 @ ms2" "p @ chunk = concat (map ?frame ms1) @ q" "pending ?frame ms2 q" by blast
  have "drain P self (Suc (length (p @ chunk))) (p @ chunk) = (Ok ms1, q)"
    unfolding split(2) using Cons.prems(1) split(1,3) by (intro drain_complete [OF ok]) auto
  moreover have "q @ concat chunks = concat (map ?frame ms2)" 
    using \<open>(p @ chunk) @ concat chunks = concat (map ?frame ms)\<close> unfolding split(1,2) by simp
  ultimately show ?case using Cons.IH [of ms2 q] Cons.prems(1) split(1,3) by simp
qed

section \<open>Properties\<close>

text \<open>
  C25: Decoding does not depend on how the stream is cut: whatever the chunks in which a sequence of
  encoded messages arrives, a reader obtains exactly these messages in order, and nothing is left.
\<close>

theorem stream_decoding_exact:
  assumes "prost_ok P delimiter body" and "\<forall>m \<in> set ms. encoded_len P m \<le> max_frame_size self"
    and "fold (\<lambda>m (r, dst). if r = Ok () then encode P self m dst else (r, dst)) ms (Ok (), []) = (Ok (), concat chunks)"
  shows "read_chunks P self chunks [] = (Ok ms, [])"
proof -
  let ?frame = "frame_of P delimiter body"
  have enc: "encode P self m dst = (Ok (), dst @ ?frame m)" if "m \<in> set ms" for m dst
    using assms(2) that prost_okD(2) [OF assms(1), of m] by (simp add: encode_def frame_of_def Let_def leD)
  have "fold (\<lambda>m (r, dst). if r = Ok () then encode P self m dst else (r, dst)) xs (Ok (), dst) = (Ok (), dst @ concat (map ?frame xs))"
    if "set xs \<subseteq> set ms" for xs dst
    using that by (induction xs arbitrary: dst) (simp_all add: enc)
  from this [of ms "[]"] assms(3) have "concat chunks = concat (map ?frame ms)" by simp
  moreover have "pending ?frame ms []"
    using prost_okD(7) [OF assms(1)] by (cases ms) (auto simp: pending_def frame_of_def)
  ultimately show ?thesis using read_stream [OF assms(1,2), of "[]" chunks] by simp
qed


text \<open>The varint of the protobuf format: seven bits a byte, the low ones first.\<close>

fun varint :: "nat \<Rightarrow> u8 list" where
  "varint n = (if n < 128 then [of_nat n] else of_nat (128 + n mod 128) # varint (n div 128))"

declare varint.simps [simp del]

fun read_varint :: "u8 list \<Rightarrow> (nat \<times> u8 list) option" where
  "read_varint [] = None"
| "read_varint (b # bs) =
     (if unat b < 128 then Some (unat b, bs)
      else map_option (\<lambda>(k, rest). (unat b - 128 + 128 * k, rest)) (read_varint bs))"

lemma unat_high_byte: "unat (of_nat (128 + n mod 128) :: u8) = 128 + n mod 128"
  by (simp add: unsigned_of_nat take_bit_nat_eq_self del: of_nat_add)

lemma read_varint_varint: "read_varint (varint n @ rest) = Some (n, rest)"
proof (induction n rule: varint.induct)
  case (1 n)
  have "n < 128 \<Longrightarrow> unat (of_nat n :: u8) = n" by (simp add: unsigned_of_nat take_bit_nat_eq_self)
  with 1 unat_high_byte [of n] show ?case by (subst varint.simps) (simp del: of_nat_add)
qed

lemma read_varint_prefix: "k < length (varint n) \<Longrightarrow> read_varint (take k (varint n)) = None"
proof (induction n arbitrary: k rule: varint.induct)
  case (1 n)
  note u = unat_high_byte [of n]
  show ?case
  proof (cases "n < 128")
    case True
    then show ?thesis using 1(2) by (simp add: varint.simps [of n])
  next
    case False
    then have v: "varint n = of_nat (128 + n mod 128) # varint (n div 128)" by (simp add: varint.simps [of n])
    show ?thesis using 1(2) 1(1) [OF False, of "k - 1"] u unfolding v by (cases k) (simp_all del: of_nat_add)
  qed
qed

lemma length_varint: "n < 128 ^ Suc k \<Longrightarrow> 0 < length (varint n) \<and> length (varint n) \<le> Suc k"
proof (induction k arbitrary: n)
  case (Suc k)
  have "n div 128 < 128 ^ Suc k" using Suc.prems by (simp add: less_mult_imp_div_less mult.commute)
  from Suc.IH [OF this] show ?case by (subst varint.simps, subst (2) varint.simps) simp
qed (simp add: varint.simps)

definition decode_number :: "u8 list \<Rightarrow> string + u64" where
  "decode_number bs = (case read_varint bs of Some (n, []) \<Rightarrow> Inr (of_nat n) | _ \<Rightarrow> Inl ''malformed'')"

definition number_messages :: "u64 prost" where
  "number_messages = \<lparr>encoded_len = \<lambda>m. length (varint (unat m)),
     encode_length_delimited = \<lambda>m. Inr (varint (length (varint (unat m))) @ varint (unat m)),
     decode_length_delimited = \<lambda>bs. (case read_varint bs of Some (n, rest) \<Rightarrow> decode_number (take n rest) | None \<Rightarrow> Inl ''truncated''),
     decode_length_delimiter = read_varint, decode_message = decode_number\<rparr>"

lemma number_messages_ok: "prost_ok number_messages varint (\<lambda>m. varint (unat m))"
proof -
  have len: "0 < length (varint n)" "length (varint n) \<le> 10" if "n < 2 ^ 64" for n
    using length_varint [of n 9] that by simp_all
  have body: "decode_number (varint (unat m)) = Inr m" for m :: u64
    using read_varint_varint [of "unat m" "[]"] by (simp add: decode_number_def)
  have "length (varint (unat m)) < 2 ^ 63" for m :: u64
    using len(2) [of "unat m"] unat_u64_bound [of m] by simp
  then show ?thesis unfolding prost_ok_def
    by (simp add: number_messages_def read_varint_varint read_varint_prefix body len del: length_greater_0_conv)
qed

theorem stream_decoding_exact_witness:
  "read_chunks number_messages codec_new [[1], [5, 2, 172], [2]] [] = (Ok [5, 300], [])"
proof -
  have v: "varint (Suc 0) = [1]" "varint (Suc (Suc 0)) = [2]" "varint 2 = [2]" "varint 5 = [5]" "varint 300 = [172, 2]"
    by (simp_all add: varint.simps)
  show ?thesis
    using stream_decoding_exact [OF number_messages_ok, of "[5, 300]" codec_new "[[1], [5, 2, 172], [2]]"]
    by (simp add: number_messages_def codec_new_def with_max_frame_size_def DEFAULT_MAX_FRAME_SIZE_def encode_def v)
qed

text \<open>
  A framed message decodes to itself, whatever bytes follow it, and both directions refuse a
  message longer than the limit with the same error.
\<close>

theorem framed_round_trip:
  assumes "prost_ok P delimiter body"
  shows "(case encode_framed_with_limit P m limit of
      Inr bytes \<Rightarrow> encoded_len P m \<le> limit \<and> decode_framed_with_limit P (bytes @ padding) limit = Ok m
    | Inl e \<Rightarrow> e = Err (FrameSizeLimitExceeded limit (encoded_len P m)) \<and> limit < encoded_len P m \<and>
        (\<forall>bytes larger. encode_framed_with_limit P m larger = Ok bytes \<longrightarrow>
           decode_framed_with_limit P (bytes @ padding) limit = Error (FrameSizeLimitExceeded limit (encoded_len P m))))"
proof -
  note ok = prost_okD [OF assms]
  have "decode_length_delimiter P (delimiter (encoded_len P m) @ body m @ padding) = Some (encoded_len P m, body m @ padding)"
    by (rule ok(5))
  then show ?thesis using ok(2,4) [of m]
    by (auto simp: encode_framed_with_limit_def decode_framed_with_limit_def Let_def)
qed

theorem framed_round_trip_witness:
  "decode_framed_with_limit number_messages ([2, 172, 2] @ [9]) 2 = Ok 300"
proof -
  have v: "varint (Suc (Suc 0)) = [2]" "varint 300 = [172, 2]" by (simp_all add: varint.simps)
  then have "encode_framed_with_limit number_messages 300 2 = Ok [2, 172, 2]"
    by (simp add: encode_framed_with_limit_def number_messages_def)
  then show ?thesis using framed_round_trip [OF number_messages_ok, where m = 300 and limit = 2 and padding = "[9]"] by simp
qed

end
