(* ===== verification/Snapshot_Export.thy ===== *)
theory Snapshot_Export
  imports Session_Commit Codec
begin

text \<open>
  Export of the authoritative store as one transaction and the plan of its delivery:
  \<^verbatim>\<open>sessiond/src/session/snapshot.rs\<close>.  The encoded length of an item (\<open>item_len\<close>) is a parameter.
  \<open>HashMap\<close> iteration over the properties of a node is in key order here; the order is not
  observable once the properties are collected again.
\<close>

definition SNAPSHOT_MODEL_RANGE_MAX_BYTES :: usize where
  "SNAPSHOT_MODEL_RANGE_MAX_BYTES = 2 ^ 20"

section \<open>Delivery\<close>

record client_limits =
  cl_max_frame_size :: u32
  cl_max_transaction_operations :: u32
  cl_max_resource_size :: u32
  cl_max_snapshot_parts :: u32

definition nonzero :: "u32 \<Rightarrow> usize option" where
  "nonzero v = (if v \<noteq> 0 then Some (unat v) else None)"

definition envelope_budget :: "u32 \<Rightarrow> client_limits option \<Rightarrow> usize" where
  "envelope_budget server_max_frame_size client_limits =
     Min (set (List.map_filter id
       [Some DEFAULT_MAX_FRAME_SIZE, nonzero server_max_frame_size,
        Option.bind client_limits (\<lambda>l. nonzero (cl_max_frame_size l))]))"

definition plan_snapshot_delivery ::
  "(u64 \<Rightarrow> usize) \<Rightarrow> (wire_operation \<Rightarrow> usize) \<Rightarrow> wire_transaction \<Rightarrow> u32 \<Rightarrow> client_limits option \<Rightarrow>
   (session_error, snapshot_frame_plan) result" where
  "plan_snapshot_delivery vlen oplen snapshot server_max_frame_size client_limits =
     and_then
       (case Option.bind client_limits (\<lambda>l. nonzero (cl_max_transaction_operations l)) of
          None \<Rightarrow> Ok ()
        | Some limit \<Rightarrow>
            if length (w_operations snapshot) > limit
            then Error (SnapshotUnrepresentable limit (length (w_operations snapshot))) else Ok ())
       (\<lambda>_. map_err SnapshotUndeliverable
          (plan_snapshot_frames vlen oplen snapshot (envelope_budget server_max_frame_size client_limits)
             (case client_limits of None \<Rightarrow> 0 | Some l \<Rightarrow> cl_max_snapshot_parts l)))"

section \<open>Models\<close>

definition push_model_reset_range ::
  "model_id \<Rightarrow> u64 \<Rightarrow> wire_model_item list \<Rightarrow> wire_operation list \<Rightarrow> wire_operation list" where
  "push_model_reset_range i start its ops = ops @ [Some (WModelResetRange i start its 0)]"

text \<open>The state of the loop over one range: the operations, the start of the chunk, its items and bytes.\<close>

type_synonym chunking = "wire_operation list \<times> u64 \<times> wire_model_item list \<times> usize"

definition flush :: "model_id \<Rightarrow> chunking \<Rightarrow> chunking" where
  "flush i st = (case st of (ops, chunk_start, chunk, _) \<Rightarrow> (push_model_reset_range i chunk_start chunk ops, chunk_start, [], 0))"

definition export_index :: "(wire_model_item \<Rightarrow> usize) \<Rightarrow> model \<Rightarrow> u64 \<Rightarrow> chunking \<Rightarrow> chunking" where
  "export_index item_len m idx st =
     (case get_item_by_index m idx of
        Some it \<Rightarrow>
          (let item = item_to_wire it;
               item_bytes = item_len item;
               st = (case st of (ops, chunk_start, chunk, chunk_bytes) \<Rightarrow>
                       if chunk \<noteq> [] \<and> chunk_bytes + item_bytes > SNAPSHOT_MODEL_RANGE_MAX_BYTES
                       then flush (m_id m) st else st);
               st = (case st of (ops, chunk_start, chunk, chunk_bytes) \<Rightarrow>
                       (ops, if chunk = [] then idx else chunk_start, chunk @ [item], chunk_bytes + item_bytes))
           in case st of (_, _, chunk, _) \<Rightarrow>
                if length chunk = DEFAULT_MAX_ITEMS_PER_MODEL_OPERATION then flush (m_id m) st else st)
      | None \<Rightarrow> (case st of (_, _, chunk, _) \<Rightarrow> if chunk \<noteq> [] then flush (m_id m) st else st))"

definition export_range ::
  "(wire_model_item \<Rightarrow> usize) \<Rightarrow> model \<Rightarrow> u64 \<times> u64 \<Rightarrow> wire_operation list \<Rightarrow> (session_error, wire_operation list) result" where
  "export_range item_len m r ops =
     and_then (expect (checked_add (fst r) (snd r))) (\<lambda>stop.
       (case fold (export_index item_len m) (map of_nat [unat (fst r) ..< unat stop]) (ops, fst r, [], 0) of
          (ops, chunk_start, chunk, _) \<Rightarrow>
            Ok (if chunk \<noteq> [] then push_model_reset_range (m_id m) chunk_start chunk ops else ops)))"

fun export_ranges ::
  "(wire_model_item \<Rightarrow> usize) \<Rightarrow> model \<Rightarrow> (u64 \<times> u64) list \<Rightarrow> wire_operation list \<Rightarrow>
   (session_error, wire_operation list) result" where
  "export_ranges item_len m [] ops = Ok ops"
| "export_ranges item_len m (r # rs) ops = and_then (export_range item_len m r ops) (export_ranges item_len m rs)"

definition export_model ::
  "(wire_model_item \<Rightarrow> usize) \<Rightarrow> model \<Rightarrow> wire_operation list \<Rightarrow> (session_error, wire_operation list) result" where
  "export_model item_len m ops =
     export_ranges item_len m (cached_ranges m)
       (ops @ [Some (WCreateModel (m_id m) (Some (model_type m)) (item_count m))])"

text \<open>The models in the order of their ids.\<close>

fun export_models ::
  "(wire_model_item \<Rightarrow> usize) \<Rightarrow> semantic_store \<Rightarrow> model_id list \<Rightarrow> wire_operation list \<Rightarrow>
   (session_error, wire_operation list) result" where
  "export_models item_len s [] ops = Ok ops"
| "export_models item_len s (i # is) ops =
     and_then (case fmlookup (models s) i of None \<Rightarrow> Ok ops | Some m \<Rightarrow> export_model item_len m ops)
       (export_models item_len s is)"

section \<open>Nodes\<close>

definition export_node :: "node \<Rightarrow> u32 \<Rightarrow> wire_operation" where
  "export_node n child_index =
     Some (WCreateNode (Some
       \<lparr>wn_node_id = n_id n, wn_type = Some (node_type n),
        wn_parent_id = (case parent_id n of Some p \<Rightarrow> p | None \<Rightarrow> 0), wn_child_index = child_index,
        wn_properties = map property_to_wire (sorted_list_of_fmap (properties n))\<rparr>))"

text \<open>The loop over siblings; the recursion carries fuel like the other walks over the graph.\<close>

fun visit_all ::
  "(node_id \<Rightarrow> u32 \<Rightarrow> wire_operation list \<Rightarrow> (session_error, wire_operation list) result) \<Rightarrow>
   nat \<Rightarrow> node_id list \<Rightarrow> wire_operation list \<Rightarrow> (session_error, wire_operation list) result" where
  "visit_all visit idx [] ops = Ok ops"
| "visit_all visit idx (c # cs) ops = and_then (visit c (of_nat idx) ops) (visit_all visit (Suc idx) cs)"

primrec visit_node ::
  "nat \<Rightarrow> semantic_store \<Rightarrow> node_id \<Rightarrow> u32 \<Rightarrow> wire_operation list \<Rightarrow> (session_error, wire_operation list) result" where
  "visit_node 0 s i child_index ops = Inl Diverge"
| "visit_node (Suc fuel) s i child_index ops =
     (case fmlookup (nodes s) i of
        None \<Rightarrow> Ok ops
      | Some n \<Rightarrow> visit_all (visit_node fuel s) 0 (ordered_children n) (ops @ [export_node n child_index]))"

definition export_snapshot_transaction ::
  "(wire_model_item \<Rightarrow> usize) \<Rightarrow> semantic_store \<Rightarrow> (session_error, wire_transaction) result" where
  "export_snapshot_transaction item_len s =
     and_then (export_models item_len s (map fst (sorted_list_of_fmap (models s))) []) (\<lambda>ops.
     and_then (visit_all (visit_node (graph_fuel (nodes s)) s) 0 (roots s) ops) (\<lambda>ops.
       if length ops > max_transaction_operations (limits s)
       then Error (SnapshotUnrepresentable (max_transaction_operations (limits s)) (length ops))
       else Ok \<lparr>w_base_revision = 0, w_new_revision = revision s, w_operations = ops, w_priority = 0\<rparr>))"

section \<open>The exported operations\<close>

subsection \<open>Models\<close>

text \<open>A segment \<open>(a, n)\<close> of the cache and the operation that restores it.\<close>

definition seg_items :: "model \<Rightarrow> nat \<times> nat \<Rightarrow> model_item list" where
  "seg_items m g = map (\<lambda>j. the (cache m j)) [fst g ..< fst g + snd g]"

definition seg_op :: "model \<Rightarrow> nat \<times> nat \<Rightarrow> operation" where
  "seg_op m g = ModelResetRange (m_id m) (of_nat (fst g)) (seg_items m g) None"

definition seg_span :: "nat \<times> nat \<Rightarrow> nat list" where
  "seg_span g = [fst g ..< fst g + snd g]"

definition seg_fits :: "nat \<times> nat \<Rightarrow> bool" where
  "seg_fits g \<longleftrightarrow> 0 < snd g \<and> snd g \<le> DEFAULT_MAX_ITEMS_PER_MODEL_OPERATION"

lemma push_seg:
  "push_model_reset_range (m_id m) (of_nat (fst g)) (map item_to_wire (seg_items m g)) ops = ops @ [operation_to_wire (seg_op m g)]"
  by (simp add: push_model_reset_range_def seg_op_def or_zero_def)

text \<open>The state of the loop before index \<open>k\<close>: the finished segments and the open one, which ends at \<open>k\<close>.\<close>

definition chunking_at :: "model \<Rightarrow> wire_operation list \<Rightarrow> nat \<Rightarrow> (nat \<times> nat) list \<Rightarrow> nat \<Rightarrow> chunking \<Rightarrow> bool" where
  "chunking_at m base k gs n st \<longleftrightarrow>
     (\<exists>bytes cs. st = (base @ map (operation_to_wire \<circ> seg_op m) gs, cs, map item_to_wire (seg_items m (k - n, n)), bytes) \<and>
        (0 < n \<longrightarrow> cs = of_nat (k - n)) \<and> n \<le> k \<and> (\<forall>g \<in> set gs. seg_fits g))"

lemma flush_at:
  assumes "chunking_at m base k gs n st" "0 < n" "n \<le> DEFAULT_MAX_ITEMS_PER_MODEL_OPERATION"
  shows "chunking_at m base k (gs @ [(k - n, n)]) 0 (flush (m_id m) st)"
  using assms push_seg [of m "(k - n, n)"]
  by (auto simp: chunking_at_def flush_def seg_items_def seg_fits_def)

lemma seg_items_nil [simp]: "seg_items m (a, 0) = []"
  by (simp add: seg_items_def)

lemma seg_items_eq_nil [simp]: "seg_items m g = [] \<longleftrightarrow> snd g = 0"
  by (auto simp: seg_items_def)

lemma seg_items_Suc: "seg_items m (a, Suc n) = seg_items m (a, n) @ [the (cache m (a + n))]"
  by (simp add: seg_items_def)

lemma export_index_Some:
  assumes "get_item_by_index m idx = Some it"
  shows "export_index item_len m idx (ops, cs, chunk, bytes) =
    (case (if chunk \<noteq> [] \<and> bytes + item_len (item_to_wire it) > SNAPSHOT_MODEL_RANGE_MAX_BYTES
           then flush (m_id m) (ops, cs, chunk, bytes) else (ops, cs, chunk, bytes)) of
       (ops1, cs1, chunk1, bytes1) \<Rightarrow>
         let st2 = (ops1, if chunk1 = [] then idx else cs1, chunk1 @ [item_to_wire it], bytes1 + item_len (item_to_wire it))
         in if Suc (length chunk1) = DEFAULT_MAX_ITEMS_PER_MODEL_OPERATION then flush (m_id m) st2 else st2)"
  using assms by (auto simp: export_index_def Let_def split: prod.splits)

lemma export_index_step:
  assumes at: "chunking_at m base k gs n st" and n: "n < DEFAULT_MAX_ITEMS_PER_MODEL_OPERATION" and k: "k < 2 ^ 64" "cache m k \<noteq> None"
  shows "\<exists>gs' n'. chunking_at m base (Suc k) gs' n' (export_index item_len m (of_nat k) st) \<and>
    n' < DEFAULT_MAX_ITEMS_PER_MODEL_OPERATION \<and>
    concat (map seg_span gs') @ [Suc k - n' ..< Suc k] = concat (map seg_span gs) @ [k - n ..< Suc k]"
proof -
  from k obtain it where it: "get_item_by_index m (of_nat k) = Some it" "cache m k = Some it"
    by (auto simp: get_item_by_index_def cache_def)
  let ?item = "item_to_wire it"
  obtain ops cs chunk bytes where st: "st = (ops, cs, chunk, bytes)" by (cases st) auto
  define st1 where "st1 = (if chunk \<noteq> [] \<and> bytes + item_len ?item > SNAPSHOT_MODEL_RANGE_MAX_BYTES then flush (m_id m) st else st)"
  obtain gs1 n1 where g1: "chunking_at m base k gs1 n1 st1" "n1 < DEFAULT_MAX_ITEMS_PER_MODEL_OPERATION"
    "concat (map seg_span gs1) @ [k - n1 ..< k] = concat (map seg_span gs) @ [k - n ..< k]"
  proof (cases "chunk \<noteq> [] \<and> bytes + item_len ?item > SNAPSHOT_MODEL_RANGE_MAX_BYTES")
    case True
    then have "0 < n" "n \<le> k" using at st by (auto simp: chunking_at_def)
    then show ?thesis using that [of "gs @ [(k - n, n)]" 0] flush_at [OF at] n True by (simp add: st1_def seg_span_def)
  next
    case False
    then have "st1 = st" by (simp only: st1_def if_False)
    then show ?thesis using that [of gs n] at n by simp
  qed
  obtain ops1 cs1 chunk1 bytes1 where st1: "st1 = (ops1, cs1, chunk1, bytes1)" by (cases st1) auto
  define st2 where "st2 = (ops1, if chunk1 = [] then of_nat k else cs1, chunk1 @ [?item], bytes1 + item_len ?item)"
  have n1: "n1 \<le> k" "chunk1 = [] \<longleftrightarrow> n1 = 0" "length chunk1 = n1"
    using g1(1) st1 by (auto simp: chunking_at_def seg_items_def)
  have g2: "chunking_at m base (Suc k) gs1 (Suc n1) st2"
    using g1(1) st1 n1 it(2) by (auto simp: chunking_at_def st2_def seg_items_Suc)
  have run: "export_index item_len m (of_nat k) st = (if Suc n1 = DEFAULT_MAX_ITEMS_PER_MODEL_OPERATION then flush (m_id m) st2 else st2)"
    unfolding st export_index_Some [OF it(1)] using st1 n1(3) by (simp add: st Let_def st2_def flip: st1_def [unfolded st])
  have upt: "[k - j ..< Suc k] = [k - j ..< k] @ [k]" for j by simp
  show ?thesis
  proof (cases "Suc n1 = DEFAULT_MAX_ITEMS_PER_MODEL_OPERATION")
    case True
    have "chunking_at m base (Suc k) (gs1 @ [(k - n1, Suc n1)]) 0 (flush (m_id m) st2)"
      using flush_at [OF g2] True by (metis diff_Suc_Suc order_refl zero_less_Suc)
    moreover have "seg_span (k - n1, Suc n1) = [k - n1 ..< Suc k]" using n1(1) by (simp add: seg_span_def)
    ultimately show ?thesis using run True g1(3)
      by (intro exI [of _ "gs1 @ [(k - n1, Suc n1)]"] exI [of _ 0]) (simp add: DEFAULT_MAX_ITEMS_PER_MODEL_OPERATION_def)
  next
    case False
    then show ?thesis using run g2 g1(2,3) n1(1) by (intro exI [of _ gs1] exI [of _ "Suc n1"]) simp
  qed
qed

lemma export_indices:
  assumes "\<forall>j \<in> set [k ..< k + d]. j < 2 ^ 64 \<and> cache m j \<noteq> None"
    and "chunking_at m base k gs n st" "n < DEFAULT_MAX_ITEMS_PER_MODEL_OPERATION"
  shows "\<exists>gs' n'. chunking_at m base (k + d) gs' n' (fold (export_index item_len m) (map of_nat [k ..< k + d]) st) \<and>
    n' < DEFAULT_MAX_ITEMS_PER_MODEL_OPERATION \<and>
    concat (map seg_span gs') @ [k + d - n' ..< k + d] = concat (map seg_span gs) @ [k - n ..< k + d]"
  using assms
proof (induction d arbitrary: k gs n st)
  case 0
  then show ?case by auto
next
  case (Suc d)
  from Suc.prems have "k < 2 ^ 64" "cache m k \<noteq> None" by auto
  from export_index_step [OF Suc.prems(2,3) this, of item_len] obtain gs1 n1 where
    one: "chunking_at m base (Suc k) gs1 n1 (export_index item_len m (of_nat k) st)" "n1 < DEFAULT_MAX_ITEMS_PER_MODEL_OPERATION"
      "concat (map seg_span gs1) @ [Suc k - n1 ..< Suc k] = concat (map seg_span gs) @ [k - n ..< Suc k]" by blast
  have "\<forall>j \<in> set [Suc k ..< Suc k + d]. j < 2 ^ 64 \<and> cache m j \<noteq> None" using Suc.prems(1) by (simp del: upt_Suc)
  from Suc.IH [OF this one(1,2)] obtain gs' n' where
    rest: "chunking_at m base (Suc k + d) gs' n' (fold (export_index item_len m) (map of_nat [Suc k ..< Suc k + d]) (export_index item_len m (of_nat k) st))"
      "n' < DEFAULT_MAX_ITEMS_PER_MODEL_OPERATION"
      "concat (map seg_span gs') @ [Suc k + d - n' ..< Suc k + d] = concat (map seg_span gs1) @ [Suc k - n1 ..< Suc k + d]" by (elim exE conjE) rule
  have n: "n \<le> k" "n1 \<le> Suc k" using Suc.prems(2) one(1) by (auto simp: chunking_at_def)
  have "[Suc k - n1 ..< Suc k + d] = [Suc k - n1 ..< Suc k] @ [Suc k ..< Suc k + d]"
    "[k - n ..< Suc k + d] = [k - n ..< Suc k] @ [Suc k ..< Suc k + d]" using n by (intro upt_add_eq_append; simp)+
  with rest(3) one(3) have "concat (map seg_span gs') @ [Suc k + d - n' ..< Suc k + d] = concat (map seg_span gs) @ [k - n ..< Suc k + d]"
    by (metis append.assoc)
  moreover have "[k ..< k + Suc d] = k # [Suc k ..< Suc k + d]" by (simp add: upt_conv_Cons)
  ultimately show ?case using rest(1,2) by (auto simp del: upt_Suc)
qed

lemma export_range_segs:
  assumes cached: "\<forall>j \<in> set (range_span r). cache m j \<noteq> None" and fits: "unat (fst r) + unat (snd r) < 2 ^ 64"
  shows "\<exists>gs. export_range item_len m r ops = Ok (ops @ map (operation_to_wire \<circ> seg_op m) gs) \<and>
    concat (map seg_span gs) = range_span r \<and> (\<forall>g \<in> set gs. seg_fits g)"
proof -
  let ?a = "unat (fst r)" and ?d = "unat (snd r)"
  have stop: "checked_add (fst r) (snd r) = Some (fst r + snd r)" "unat (fst r + snd r) = ?a + ?d"
    using fits by (simp_all add: checked_add_def unat_plus_no_overflow)
  have init: "chunking_at m ops ?a [] 0 (ops, fst r, [], 0)" by (simp add: chunking_at_def)
  have "\<forall>j \<in> set [?a ..< ?a + ?d]. j < 2 ^ 64 \<and> cache m j \<noteq> None"
    using cached fits by (auto simp: range_span_def)
  from export_indices [OF this init, of item_len] obtain gs n where
    at: "chunking_at m ops (?a + ?d) gs n (fold (export_index item_len m) (map of_nat [?a ..< ?a + ?d]) (ops, fst r, [], 0))"
    and n: "n < DEFAULT_MAX_ITEMS_PER_MODEL_OPERATION"
    and spans: "concat (map seg_span gs) @ [?a + ?d - n ..< ?a + ?d] = [?a ..< ?a + ?d]"
    by (auto simp: DEFAULT_MAX_ITEMS_PER_MODEL_OPERATION_def)
  from at obtain bytes cs where st: "fold (export_index item_len m) (map of_nat [?a ..< ?a + ?d]) (ops, fst r, [], 0) =
      (ops @ map (operation_to_wire \<circ> seg_op m) gs, cs, map item_to_wire (seg_items m (?a + ?d - n, n)), bytes)"
    and c: "0 < n \<longrightarrow> cs = of_nat (?a + ?d - n)" "n \<le> ?a + ?d" "\<forall>g \<in> set gs. seg_fits g"
    by (auto simp: chunking_at_def)
  show ?thesis
  proof (cases "n = 0")
    case True
    then show ?thesis using st c stop spans by (intro exI [of _ gs]) (simp add: export_range_def range_span_def)
  next
    case False
    let ?g = "(?a + ?d - n, n)"
    have "export_range item_len m r ops = Ok (ops @ map (operation_to_wire \<circ> seg_op m) (gs @ [?g]))"
      using st c stop False push_seg [of m ?g] by (simp add: export_range_def)
    moreover have "concat (map seg_span (gs @ [?g])) = range_span r"
      using spans c(2) by (simp add: seg_span_def range_span_def)
    moreover have "\<forall>g \<in> set (gs @ [?g]). seg_fits g" using c(3) False n by (simp add: seg_fits_def)
    ultimately show ?thesis by blast
  qed
qed

lemma export_ranges_segs:
  assumes "\<forall>r \<in> set rs. (\<forall>j \<in> set (range_span r). cache m j \<noteq> None) \<and> unat (fst r) + unat (snd r) < 2 ^ 64"
  shows "\<exists>gs. export_ranges item_len m rs ops = Ok (ops @ map (operation_to_wire \<circ> seg_op m) gs) \<and>
    concat (map seg_span gs) = concat (map range_span rs) \<and> (\<forall>g \<in> set gs. seg_fits g)"
  using assms
proof (induction rs arbitrary: ops)
  case Nil
  then show ?case by (intro exI [of _ "[]"]) simp
next
  case (Cons r rs)
  from export_range_segs [of r m item_len ops] Cons.prems obtain gs1 where
    one: "export_range item_len m r ops = Ok (ops @ map (operation_to_wire \<circ> seg_op m) gs1)"
      "concat (map seg_span gs1) = range_span r" "\<forall>g \<in> set gs1. seg_fits g" by auto
  have "\<forall>r \<in> set rs. (\<forall>j \<in> set (range_span r). cache m j \<noteq> None) \<and> unat (fst r) + unat (snd r) < 2 ^ 64"
    using Cons.prems by simp
  from Cons.IH [OF this, of "ops @ map (operation_to_wire \<circ> seg_op m) gs1"] obtain gs2 where
    rest: "export_ranges item_len m rs (ops @ map (operation_to_wire \<circ> seg_op m) gs1) =
        Ok ((ops @ map (operation_to_wire \<circ> seg_op m) gs1) @ map (operation_to_wire \<circ> seg_op m) gs2)"
      "concat (map seg_span gs2) = concat (map range_span rs)" "\<forall>g \<in> set gs2. seg_fits g" by blast
  show ?case using one rest by (intro exI [of _ "gs1 @ gs2"]) auto
qed

text \<open>
  The end of a cached range is computed in 64 bits, so no entry may be cached at the very last position; this holds whenever the
  cached entries lie within the length of the model.
\<close>

definition ends_fit :: "model \<Rightarrow> bool" where
  "ends_fit m \<longleftrightarrow> fmlookup (items m) (- 1) = None"

lemma cached_within_ends_fit: "cached_within m \<Longrightarrow> ends_fit m"
  unfolding cached_within_def ends_fit_def by (metis option.exhaust word_order.extremum_strict)

lemma ends_fit_below:
  assumes "ends_fit m" "fmlookup (items m) i = Some it"
  shows "unat i + 1 < 2 ^ 64"
proof -
  have "i \<noteq> - 1" using assms by (auto simp: ends_fit_def)
  then have "unat i \<noteq> unat (- 1 :: u64)" by (simp add: word_unat_eq_iff)
  moreover have "unat (- 1 :: u64) = 18446744073709551615" by (simp add: unsigned_minus_1_eq_mask mask_eq_exp_minus_1)
  moreover have "unat i < 18446744073709551616" using unat_u64_bound [of i] by simp
  ultimately have "unat i + 1 < 18446744073709551616" by linarith
  then show ?thesis by simp
qed

lemma ends_fit_small: "ends_fit m \<Longrightarrow> cached_item_count m < 2 ^ 64"
proof -
  assume fit: "ends_fit m"
  have "card (fmdom' (items m)) \<le> card {..< 2 ^ 64 - 1 :: nat}"
    by (rule card_inj_on_le [of unat]) (use ends_fit_below [OF fit] in \<open>fastforce simp: inj_on_def word_unat_eq_iff fmlookup_dom'_iff\<close>)+
  then show ?thesis by (simp add: cached_item_count_def len_map_alt)
qed

definition segments_of :: "model \<Rightarrow> (nat \<times> nat) list \<Rightarrow> bool" where
  "segments_of m gs \<longleftrightarrow> concat (map seg_span gs) = map unat (item_keys m) \<and> (\<forall>g \<in> set gs. seg_fits g)"

lemma export_model_segs:
  assumes fit: "ends_fit m"
  shows "\<exists>gs. segments_of m gs \<and>
    export_model item_len m ops = Ok (ops @ map operation_to_wire (CreateModel (m_id m) (model_type m) (item_count m) # map (seg_op m) gs))"
proof -
  note spec = cached_ranges_spec [OF ends_fit_small [OF fit]]
  have key: "cache m j \<noteq> None \<and> j + 1 < 2 ^ 64" if "j \<in> set (concat (map range_span (cached_ranges m)))" for j
  proof -
    from that obtain i where "i \<in> set (item_keys m)" "j = unat i" unfolding spec(1) by auto
    then show ?thesis using ends_fit_below [OF fit, of i] by (auto simp: set_item_keys fmlookup_dom'_iff)
  qed
  have "(\<forall>j \<in> set (range_span r). cache m j \<noteq> None) \<and> unat (fst r) + unat (snd r) < 2 ^ 64" if r: "r \<in> set (cached_ranges m)" for r
  proof
    show "\<forall>j \<in> set (range_span r). cache m j \<noteq> None" using key r by auto
    show "unat (fst r) + unat (snd r) < 2 ^ 64"
    proof (cases "unat (snd r)")
      case (Suc d)
      then have "unat (fst r) + d \<in> set (range_span r)" by (simp add: range_span_def)
      then have "unat (fst r) + d + 1 < 2 ^ 64" using key [of "unat (fst r) + d"] r by auto
      then show ?thesis using Suc by simp
    qed (use unat_u64_bound [of "fst r"] in simp)
  qed
  from export_ranges_segs [of "cached_ranges m" m item_len, OF ballI, OF this] obtain gs where
    "export_ranges item_len m (cached_ranges m) (ops @ [Some (WCreateModel (m_id m) (Some (model_type m)) (item_count m))]) =
       Ok ((ops @ [Some (WCreateModel (m_id m) (Some (model_type m)) (item_count m))]) @ map (operation_to_wire \<circ> seg_op m) gs)"
    "segments_of m gs" unfolding segments_of_def spec(1) by blast
  then show ?thesis by (intro exI [of _ gs]) (simp add: export_model_def)
qed

definition model_ops :: "model \<Rightarrow> (nat \<times> nat) list \<Rightarrow> operation list" where
  "model_ops m gs = CreateModel (m_id m) (model_type m) (item_count m) # map (seg_op m) gs"

lemma export_models_segs:
  assumes "distinct is" "\<forall>i \<in> set is. \<exists>m. fmlookup (models s) i = Some m \<and> ends_fit m"
  shows "\<exists>segs. (\<forall>i \<in> set is. segments_of (the (fmlookup (models s) i)) (segs i)) \<and>
    export_models item_len s is ops =
      Ok (ops @ map operation_to_wire (concat (map (\<lambda>i. model_ops (the (fmlookup (models s) i)) (segs i)) is)))"
  using assms
proof (induction "is" arbitrary: ops)
  case (Cons i "is")
  then obtain m where m: "fmlookup (models s) i = Some m" "ends_fit m" by auto
  from export_model_segs [OF m(2)] obtain gs where
    gs: "segments_of m gs" "export_model item_len m ops = Ok (ops @ map operation_to_wire (model_ops m gs))"
    unfolding model_ops_def by blast
  from Cons.IH [of "ops @ map operation_to_wire (model_ops m gs)"] Cons.prems obtain segs where
    segs: "\<forall>i \<in> set is. segments_of (the (fmlookup (models s) i)) (segs i)"
      "export_models item_len s is (ops @ map operation_to_wire (model_ops m gs)) =
        Ok ((ops @ map operation_to_wire (model_ops m gs)) @
          map operation_to_wire (concat (map (\<lambda>i. model_ops (the (fmlookup (models s) i)) (segs i)) is)))" by auto
  have "map (\<lambda>i. model_ops (the (fmlookup (models s) i)) (segs i)) is =
      map (\<lambda>j. model_ops (the (fmlookup (models s) j)) ((segs(i := gs)) j)) is"
    using Cons.prems(1) by auto
  with segs gs m Cons.prems(1) show ?case by (intro exI [of _ "segs(i := gs)"]) auto
qed simp

subsection \<open>Nodes\<close>

definition node_op :: "node \<Rightarrow> nat \<Rightarrow> operation" where
  "node_op n idx = CreateNode (n_id n) (node_type n) (parent_id n) (Some idx) (sorted_list_of_fmap (properties n))"

fun forest_ops :: "(nat \<Rightarrow> node_id \<Rightarrow> operation list) \<Rightarrow> nat \<Rightarrow> node_id list \<Rightarrow> operation list" where
  "forest_ops tree idx [] = []"
| "forest_ops tree idx (c # cs) = tree idx c @ forest_ops tree (Suc idx) cs"

primrec tree_ops :: "nat \<Rightarrow> node_map \<Rightarrow> nat \<Rightarrow> node_id \<Rightarrow> operation list" where
  "tree_ops 0 ns idx i = []"
| "tree_ops (Suc fuel) ns idx i =
     (case fmlookup ns i of None \<Rightarrow> [] | Some n \<Rightarrow> node_op n idx # forest_ops (tree_ops fuel ns) 0 (ordered_children n))"

lemma export_node_op: "export_node n (of_nat idx) = operation_to_wire (node_op n idx)"
  by (simp add: export_node_def node_op_def or_zero_def child_index_u32_def)

lemma visit_all_ops:
  assumes "\<And>c idx ops. c \<in> set cs \<Longrightarrow> visit c (of_nat idx) ops = Ok (ops @ map operation_to_wire (tree idx c))"
  shows "visit_all visit idx cs ops = Ok (ops @ map operation_to_wire (forest_ops tree idx cs))"
  using assms by (induction cs arbitrary: idx ops) auto

lemma visit_node_ops:
  assumes ok: "links_ok (nodes s) rts"
  shows "\<forall>j k. desc (nodes s) i j k \<longrightarrow> k < fuel \<Longrightarrow> 0 < fuel \<Longrightarrow>
    visit_node fuel s i (of_nat idx) ops = Ok (ops @ map operation_to_wire (tree_ops fuel (nodes s) idx i))"
proof (induction fuel arbitrary: i idx ops)
  case (Suc fuel)
  show ?case
  proof (cases "fmlookup (nodes s) i")
    case (Some n)
    have "visit_node fuel s c (of_nat idx) ops = Ok (ops @ map operation_to_wire (tree_ops fuel (nodes s) idx c))"
      if c: "c \<in> set (ordered_children n)" for c idx ops
    proof -
      from links_okD(5) [OF ok Some c] obtain cn where cn: "fmlookup (nodes s) c = Some cn" "parent_id cn = Some i" by blast
      have below: "k < fuel" if "desc (nodes s) c j k" for j k
        using Suc.prems(1) desc_child [OF Some cn that] by auto
      then show ?thesis using Suc.IH [of c] desc.self [OF cn(1)] by fastforce
    qed
    then show ?thesis using Some by (simp add: visit_all_ops export_node_op)
  qed simp
qed simp

end
