(* ===== verification/Snapshot_Restore.thy ===== *)
theory Snapshot_Restore
  imports Snapshot_Export
begin

text \<open>
  Applying an exported snapshot to an empty replica gives back the exported store.  The nodes are
  created in pre-order; \<open>part s V\<close> is the store while the nodes of \<open>V\<close> exist.
\<close>

section \<open>Partial stores\<close>

definition keep_children :: "node_id set \<Rightarrow> node \<Rightarrow> node" where
  "keep_children V n = n\<lparr>ordered_children := filter (\<lambda>c. c \<in> V) (ordered_children n)\<rparr>"

definition part :: "semantic_store \<Rightarrow> node_id set \<Rightarrow> semantic_store" where
  "part s V =
     \<lparr>nodes = fmmap (keep_children V) (fmfilter (\<lambda>i. i \<in> V) (nodes s)), roots = filter (\<lambda>i. i \<in> V) (roots s),
      used_ids = ffilter (\<lambda>i. i \<in> V) (fmdom (nodes s)), models = models s, used_model_ids = fmdom (models s),
      limits = limits s, revision = 0\<rparr>"

lemma keep_children_simps [simp]:
  "n_id (keep_children V n) = n_id n" "node_type (keep_children V n) = node_type n" "parent_id (keep_children V n) = parent_id n"
  "properties (keep_children V n) = properties n" "ordered_children (keep_children V n) = filter (\<lambda>c. c \<in> V) (ordered_children n)"
  by (simp_all add: keep_children_def)

lemma part_lookup: "fmlookup (nodes (part s V)) i = (if i \<in> V then map_option (keep_children V) (fmlookup (nodes s) i) else None)"
  by (simp add: part_def)

lemma part_simps [simp]:
  "roots (part s V) = filter (\<lambda>i. i \<in> V) (roots s)" "models (part s V) = models s" "limits (part s V) = limits s"
  "revision (part s V) = 0" "used_model_ids (part s V) = fmdom (models s)" "used_ids (part s V) = ffilter (\<lambda>i. i \<in> V) (fmdom (nodes s))"
  by (simp_all add: part_def)

text \<open>The set of nodes contains the parents of its members.\<close>

definition up_closed :: "node_map \<Rightarrow> node_id set \<Rightarrow> bool" where
  "up_closed ns V \<longleftrightarrow> (\<forall>i \<in> V. \<forall>n p. fmlookup ns i = Some n \<longrightarrow> parent_id n = Some p \<longrightarrow> p \<in> V)"

lemma part_depth: "has_depth (nodes s) i d \<Longrightarrow> up_closed (nodes s) V \<Longrightarrow> i \<in> V \<Longrightarrow> has_depth (nodes (part s V)) i d"
proof (induction rule: has_depth.induct)
  case (root i n)
  then show ?case using has_depth.root [of "nodes (part s V)" i "keep_children V n"] by (simp add: part_lookup)
next
  case (child i n p d)
  then have "has_depth (nodes (part s V)) p d" by (auto simp: up_closed_def)
  then show ?case using child has_depth.child [of "nodes (part s V)" i "keep_children V n" p d] by (simp add: part_lookup)
qed

definition siblings :: "semantic_store \<Rightarrow> node_id option \<Rightarrow> node_id list" where
  "siblings s p = (case p of None \<Rightarrow> roots s | Some q \<Rightarrow> (case fmlookup (nodes s) q of None \<Rightarrow> [] | Some qn \<Rightarrow> ordered_children qn))"

lemma siblings_distinct: "links_ok (nodes s) (roots s) \<Longrightarrow> distinct (siblings s p)"
  using links_okD(2,7) by (auto simp: siblings_def split: option.splits)

lemma filter_new_sibling:
  assumes "cs = as @ i # bs" "distinct cs" "set as \<subseteq> V" "set bs \<inter> V = {}" "i \<notin> V"
  shows "filter (\<lambda>c. c \<in> V) cs = as" "filter (\<lambda>c. c \<in> insert i V) cs = as @ [i]"
proof -
  have "filter (\<lambda>c. c \<in> V) as = as" "filter (\<lambda>c. c \<in> V) bs = []" "filter (\<lambda>c. c = i \<or> c \<in> V) as = as" "filter (\<lambda>c. c = i \<or> c \<in> V) bs = []"
    using assms by (auto simp: filter_id_conv filter_empty_conv)
  then show "filter (\<lambda>c. c \<in> V) cs = as" "filter (\<lambda>c. c \<in> insert i V) cs = as @ [i]" using assms(1,5) by simp_all
qed

lemma create_restores:
  assumes ok: "store_ok s" "refs_ok s" and n: "fmlookup (nodes s) i = Some n"
    and V: "up_closed (nodes s) V" "i \<notin> V" "\<forall>p. parent_id n = Some p \<longrightarrow> p \<in> V"
    and sib: "siblings s (parent_id n) = as @ i # bs" "set as \<subseteq> V" "set bs \<inter> V = {}"
  shows "operation_apply (node_op n (length as)) (part s V) = (Ok (), part s (insert i V))"
proof -
  note L = store_okD(1) [OF ok(1)]
  have id: "n_id n = i" by (rule links_okD(1) [OF L n])
  note F = filter_new_sibling [OF sib(1) siblings_distinct [OF L] sib(2,3) V(2)]
  have unused: "i |\<notin>| used_ids (part s V)" using V(2) by simp
  have "fmdom (nodes (part s V)) |\<subset>| fmdom (nodes s)"
    using n V(2) by (auto simp: part_def fmdomI)
  then have count: "len_map (nodes (part s V)) < max_node_count (limits s)"
    using store_okD(5) [OF ok(1)] pfsubset_fcard_mono by (metis less_le_trans)
  obtain d where d: "has_depth (nodes s) i d" "d \<le> max_tree_depth (limits s)"
    using store_okD(2) [OF ok(1)] n unfolding depth_ok_def by blast
  have depth: "new_node_depth (part s V) (parent_id n) = Ok d"
  proof (cases "parent_id n")
    case None
    then show ?thesis using d(1) n by (auto elim: has_depthE simp: new_node_depth_def)
  next
    case (Some p)
    from d(1) n Some obtain e where e: "has_depth (nodes s) p e" "d = Suc e" by (auto elim: has_depthE)
    have "has_depth (nodes (part s V)) p e" using part_depth [OF e(1) V(1)] V(3) Some by blast
    from node_depth_eq [OF this] show ?thesis using Some e(2) d(2) by (simp add: new_node_depth_def)
  qed
  have props: "validate_properties (part s V) (sorted_list_of_fmap (properties n)) = Ok ()"
    using store_okD(3) [OF ok(1)] ok(2) n
    by (auto simp: validate_properties_iff property_ok_def ball_sorted_list_of_fmap values_ok_def refs_ok_def contains_model_def
        set_sorted_list_of_fmap)
  have kids: "filter (\<lambda>c. c = i \<or> c \<in> V) (ordered_children n) = []"
  proof -
    have "c \<notin> V \<and> c \<noteq> i" if c: "c \<in> set (ordered_children n)" for c
    proof -
      from links_okD(5) [OF L n c] obtain cn where cn: "fmlookup (nodes s) c = Some cn" "parent_id cn = Some i" by blast
      have "c \<noteq> i" using desc_loop_free [of "nodes s" i "Suc 0" d] desc.below [OF desc.self [OF n] cn] d(1) by auto
      then show ?thesis using V(1,2) cn unfolding up_closed_def by blast
    qed
    then show ?thesis by (auto simp: filter_empty_conv)
  qed
  have new: "node_new i (node_type n) (parent_id n) (sorted_list_of_fmap (properties n)) = keep_children (insert i V) n"
    using kids id by (cases n) (simp add: node_new_def keep_children_def collect_sorted)
  have other: "keep_children (insert i V) m = keep_children V m" if "fmlookup (nodes s) j = Some m" "parent_id n \<noteq> Some j" for j m
  proof -
    have "i \<notin> set (ordered_children m)" using links_okD(5) [OF L that(1), of i] n that(2) by auto
    then have "filter (\<lambda>c. c \<in> insert i V) (ordered_children m) = filter (\<lambda>c. c \<in> V) (ordered_children m)"
      by (intro filter_cong) auto
    then show ?thesis by (simp add: keep_children_def)
  qed
  have used: "finsert i (ffilter (\<lambda>i. i \<in> V) (fmdom (nodes s))) = ffilter (\<lambda>j. j \<in> insert i V) (fmdom (nodes s))"
    using n by (auto simp: fmdomI)
  show ?thesis
  proof (cases "parent_id n")
    case None
    have "nodes (part s (insert i V)) = fmupd i (keep_children (insert i V) n) (nodes (part s V))"
    proof (rule fmap_ext)
      fix j
      show "fmlookup (nodes (part s (insert i V))) j = fmlookup (fmupd i (keep_children (insert i V) n) (nodes (part s V))) j"
        using n other [of j] None by (cases "fmlookup (nodes s) j") (auto simp: part_lookup)
    qed
    moreover have "roots (part s V) = as" "roots (part s (insert i V)) = as @ [i]"
      using F None sib(1) by (simp_all add: siblings_def)
    ultimately show ?thesis using None unused count depth props new d(2) id used
      by (simp add: node_op_def create_node_def check_child_index_def attach_new_node_def vec_insert_def part_def)
  next
    case (Some p)
    obtain pn where pn: "fmlookup (nodes s) p = Some pn" using links_okD(4) [OF L n Some] by blast
    have pV: "p \<in> V" "p \<noteq> i" using V(2,3) Some by auto
    have cs: "ordered_children (keep_children V pn) = as" "keep_children (insert i V) pn = (keep_children V pn)\<lparr>ordered_children := as @ [i]\<rparr>"
      using F Some pn by (auto simp: siblings_def keep_children_def)
    have nodes: "nodes (part s (insert i V)) =
        fmupd i (keep_children (insert i V) n) (fmupd p (keep_children (insert i V) pn) (nodes (part s V)))"
    proof (rule fmap_ext)
      fix j
      show "fmlookup (nodes (part s (insert i V))) j =
          fmlookup (fmupd i (keep_children (insert i V) n) (fmupd p (keep_children (insert i V) pn) (nodes (part s V)))) j"
        using n pn pV other [of j] Some by (cases "fmlookup (nodes s) j") (auto simp: part_lookup)
    qed
    have rts: "filter (\<lambda>j. j \<in> insert i V) (roots s) = filter (\<lambda>j. j \<in> V) (roots s)"
      using links_okD(6) [OF L, of i] n Some by (auto intro!: filter_cong)
    have look: "fmlookup (nodes (part s V)) p = Some (keep_children V pn)" using pn pV by (simp add: part_lookup)
    have eq: "part s (insert i V) = (part s V)\<lparr>nodes :=
          fmupd i (keep_children (insert i V) n) (fmupd p ((keep_children V pn)\<lparr>ordered_children := as @ [i]\<rparr>) (nodes (part s V))),
        used_ids := finsert i (used_ids (part s V))\<rparr>"
      by (rule semantic_store.equality) (use nodes rts used cs(2) in simp_all)
    show ?thesis unfolding eq using Some unused count depth props new d(2) id look cs(1)
      by (simp add: node_op_def create_node_def check_child_index_def attach_new_node_def set_children_def place_child_def vec_insert_def)
  qed
qed

section \<open>Subtrees\<close>

definition below_node :: "node_map \<Rightarrow> node_id \<Rightarrow> node_id set" where
  "below_node ns i = {j. \<exists>k. desc ns i j k}"

lemma desc_ancestor_unique: "desc ns a x k \<Longrightarrow> desc ns b x k \<Longrightarrow> a = b"
proof (induction arbitrary: b rule: desc.induct)
  case (self n)
  then show ?case by (auto elim: descE)
next
  case (below j k c cn)
  from below.prems below.hyps(2,3) have "desc ns b j k" by (auto elim: descE)
  then show ?case by (rule below.IH)
qed

lemma siblings_disjoint:
  assumes "has_depth ns a d" "has_depth ns b d" "a \<noteq> b"
  shows "below_node ns a \<inter> below_node ns b = {}"
proof -
  have False if "desc ns a x k" "desc ns b x l" for x k l
  proof -
    have "d + k = d + l" using has_depth_unique [OF desc_depth [OF that(1) assms(1)] desc_depth [OF that(2) assms(2)]] .
    then show False using desc_ancestor_unique that assms(3) by auto
  qed
  then show ?thesis by (auto simp: below_node_def)
qed

lemma sibling_member:
  assumes ok: "links_ok (nodes s) (roots s)" and c: "c \<in> set (siblings s p)"
  shows "\<exists>cn. fmlookup (nodes s) c = Some cn \<and> parent_id cn = p"
proof (cases p)
  case None
  then show ?thesis using c links_okD(6) [OF ok] by (simp add: siblings_def)
next
  case (Some q)
  then obtain qn where "fmlookup (nodes s) q = Some qn" "c \<in> set (ordered_children qn)"
    using c by (cases "fmlookup (nodes s) q") (auto simp: siblings_def)
  then show ?thesis using links_okD(5) [OF ok] Some by simp
qed

lemma sibling_depth:
  assumes ok: "store_ok s" and c: "c \<in> set (siblings s p)" "c' \<in> set (siblings s p)" and d: "has_depth (nodes s) c d"
  shows "has_depth (nodes s) c' d"
proof -
  note m = sibling_member [OF store_okD(1) [OF ok]]
  from m [OF c(1)] m [OF c(2)] obtain cn cn' where cn: "fmlookup (nodes s) c = Some cn" "parent_id cn = p"
    and cn': "fmlookup (nodes s) c' = Some cn'" "parent_id cn' = p" by blast
  from d show ?thesis
  proof cases
    case (root n)
    then show ?thesis using cn cn' has_depth.root by force
  next
    case (child n q e)
    then show ?thesis using cn cn' has_depth.child by force
  qed
qed

lemma below_up_closed:
  assumes "up_closed ns V" "fmlookup ns c = Some cn" "\<forall>p. parent_id cn = Some p \<longrightarrow> p \<in> V"
  shows "up_closed ns (V \<union> below_node ns c)"
  unfolding up_closed_def
proof (intro ballI allI impI)
  fix i n p
  assume i: "i \<in> V \<union> below_node ns c" "fmlookup ns i = Some n" "parent_id n = Some p"
  show "p \<in> V \<union> below_node ns c"
  proof (cases "i \<in> V \<or> i = c")
    case True
    then show ?thesis using i assms by (auto simp: up_closed_def)
  next
    case False
    then obtain k where "desc ns c i k" using i(1) by (auto simp: below_node_def)
    from desc_parent [OF this _ i(2)] False i(3) show ?thesis by (auto simp: below_node_def)
  qed
qed

text \<open>The siblings that are still missing, with everything below them.\<close>

definition missing :: "semantic_store \<Rightarrow> node_id set \<Rightarrow> node_id option \<Rightarrow> node_id list \<Rightarrow> node_id list \<Rightarrow> bool" where
  "missing s V p as rest \<longleftrightarrow>
     siblings s p = as @ rest \<and> set as \<subseteq> V \<and> (\<forall>c \<in> set rest. below_node (nodes s) c \<inter> V = {}) \<and>
     up_closed (nodes s) V \<and> (\<forall>q. p = Some q \<longrightarrow> q \<in> V)"

lemma missing_next:
  assumes ok: "store_ok s" and m: "missing s V p as (c # rest)"
  shows "missing s (V \<union> below_node (nodes s) c) p (as @ [c]) rest"
proof -
  note L = store_okD(1) [OF ok]
  have in_sib: "\<And>x. x \<in> set (c # rest) \<Longrightarrow> x \<in> set (siblings s p)" and dist: "c \<notin> set rest"
    using m siblings_distinct [OF L, of p] by (auto simp: missing_def)
  from sibling_member [OF L in_sib, of c] obtain cn where cn: "fmlookup (nodes s) c = Some cn" "parent_id cn = p" by auto
  obtain d where d: "has_depth (nodes s) c d" using store_okD(2) [OF ok] cn(1) by (auto simp: depth_ok_def)
  have "below_node (nodes s) x \<inter> below_node (nodes s) c = {}" if "x \<in> set rest" for x
    using sibling_depth [OF ok in_sib in_sib d, of x] siblings_disjoint [OF _ d, of x] that dist by auto
  moreover have "c \<in> below_node (nodes s) c" using desc.self [OF cn(1)] by (auto simp: below_node_def)
  moreover have "up_closed (nodes s) (V \<union> below_node (nodes s) c)"
    using below_up_closed [OF _ cn(1)] m cn(2) by (auto simp: missing_def)
  ultimately show ?thesis using m by (auto simp: missing_def)
qed

lemma forest_restores:
  assumes ok: "store_ok s"
    and tree: "\<And>V as c rest k. c \<in> set cs \<Longrightarrow> missing s V p as (c # rest) \<Longrightarrow>
      apply_loop operation_apply k (tree (length as) c) (part s V) = (Ok (), part s (V \<union> below_node (nodes s) c))"
  shows "missing s V p as rest \<Longrightarrow> set rest \<subseteq> set cs \<Longrightarrow>
    apply_loop operation_apply k (forest_ops tree (length as) rest) (part s V) = (Ok (), part s (V \<union> (\<Union>c \<in> set rest. below_node (nodes s) c)))"
proof (induction rest arbitrary: V as k)
  case (Cons c rest)
  have "apply_loop operation_apply (k + length (tree (length as) c)) (forest_ops tree (length (as @ [c])) rest) (part s (V \<union> below_node (nodes s) c)) =
      (Ok (), part s (V \<union> below_node (nodes s) c \<union> (\<Union>c \<in> set rest. below_node (nodes s) c)))"
    using Cons.IH [OF missing_next [OF ok Cons.prems(1)]] Cons.prems(2) by simp
  then show ?case using tree [OF _ Cons.prems(1), of k] Cons.prems(2) by (simp add: apply_loop_append Un_assoc)
qed simp

lemma tree_restores:
  assumes ok: "store_ok s" "refs_ok s"
  shows "missing s V p as (c # rest) \<Longrightarrow> \<forall>j k. desc (nodes s) c j k \<longrightarrow> k < fuel \<Longrightarrow>
    apply_loop operation_apply idx (tree_ops fuel (nodes s) (length as) c) (part s V) = (Ok (), part s (V \<union> below_node (nodes s) c))"
proof (induction fuel arbitrary: V p as c rest idx)
  case 0
  then show ?case using sibling_member [OF store_okD(1) [OF ok(1)], of c p] desc.self by (fastforce simp: missing_def)
next
  case (Suc fuel)
  note L = store_okD(1) [OF ok(1)]
  have "c \<in> set (siblings s p)" using Suc.prems(1) by (auto simp: missing_def)
  from sibling_member [OF L this] obtain n where n: "fmlookup (nodes s) c = Some n" "parent_id n = p" by blast
  have self: "c \<in> below_node (nodes s) c" using desc.self [OF n(1)] by (auto simp: below_node_def)
  have rest: "x \<in> below_node (nodes s) x" if "x \<in> set rest" for x
    using sibling_member [OF L, of x p] Suc.prems(1) that desc.self by (fastforce simp: missing_def below_node_def)
  have "set rest \<inter> V = {}" using Suc.prems(1) rest unfolding missing_def by fastforce
  then have create: "operation_apply (node_op n (length as)) (part s V) = (Ok (), part s (insert c V))"
    using Suc.prems(1) n self by (intro create_restores [OF ok n(1), where bs = rest]) (auto simp: missing_def)
  let ?V = "insert c V"
  have kid: "\<exists>cn. fmlookup (nodes s) x = Some cn \<and> parent_id cn = Some c" if "x \<in> set (ordered_children n)" for x
    by (rule links_okD(5) [OF L n(1) that])
  obtain d where d: "has_depth (nodes s) c d" using store_okD(2) [OF ok(1)] n(1) by (auto simp: depth_ok_def)
  have kids: "missing s ?V (Some c) [] (ordered_children n)"
  proof -
    have "below_node (nodes s) x \<inter> ?V = {}" if "x \<in> set (ordered_children n)" for x
    proof -
      from kid [OF that] obtain cn where cn: "fmlookup (nodes s) x = Some cn" "parent_id cn = Some c" by blast
      have sub: "below_node (nodes s) x \<subseteq> below_node (nodes s) c" using desc_child [OF n(1) cn] by (auto simp: below_node_def)
      have "\<not> desc (nodes s) x c k" for k
        using desc_loop_free [of "nodes s" c "Suc k" d] desc_child [OF n(1) cn, of c k] d by auto
      then have "c \<notin> below_node (nodes s) x" by (simp add: below_node_def)
      moreover have "below_node (nodes s) c \<inter> V = {}" using Suc.prems(1) by (simp add: missing_def)
      ultimately show ?thesis using sub by auto
    qed
    moreover have "up_closed (nodes s) ?V" using Suc.prems(1) n by (auto simp: missing_def up_closed_def)
    ultimately show ?thesis using n(1) by (simp add: missing_def siblings_def)
  qed
  have "apply_loop operation_apply (Suc idx) (forest_ops (tree_ops fuel (nodes s)) (length ([] :: node_id list)) (ordered_children n)) (part s ?V) =
      (Ok (), part s (?V \<union> (\<Union>x \<in> set (ordered_children n). below_node (nodes s) x)))"
  proof (rule forest_restores [OF ok(1) _ kids])
    fix W bs x more k
    assume x: "x \<in> set (ordered_children n)" "missing s W (Some c) bs (x # more)"
    from kid [OF x(1)] obtain cn where cn: "fmlookup (nodes s) x = Some cn" "parent_id cn = Some c" by blast
    have "\<forall>j k. desc (nodes s) x j k \<longrightarrow> k < fuel" using Suc.prems(2) desc_child [OF n(1) cn] by fastforce
    then show "apply_loop operation_apply k (tree_ops fuel (nodes s) (length bs) x) (part s W) = (Ok (), part s (W \<union> below_node (nodes s) x))"
      by (rule Suc.IH [OF x(2)])
  qed simp
  moreover have "?V \<union> (\<Union>x \<in> set (ordered_children n). below_node (nodes s) x) = V \<union> below_node (nodes s) c"
  proof -
    have "below_node (nodes s) c = insert c (\<Union>x \<in> set (ordered_children n). below_node (nodes s) x)"
    proof
      show "below_node (nodes s) c \<subseteq> insert c (\<Union>x \<in> set (ordered_children n). below_node (nodes s) x)"
      proof
        fix j assume "j \<in> below_node (nodes s) c"
        then obtain k where "desc (nodes s) c j k" by (auto simp: below_node_def)
        from desc_split [OF this] show "j \<in> insert c (\<Union>x \<in> set (ordered_children n). below_node (nodes s) x)"
        proof
          assume "\<exists>x cn k'. fmlookup (nodes s) x = Some cn \<and> parent_id cn = Some c \<and> desc (nodes s) x j k' \<and> k = Suc k'"
          then obtain x cn k' where x: "fmlookup (nodes s) x = Some cn" "parent_id cn = Some c" "desc (nodes s) x j k'" by blast
          then have "x \<in> set (ordered_children n)" using links_okD(4) [OF L x(1,2)] n(1) by simp
          with x(3) show ?thesis by (auto simp: below_node_def)
        qed simp
      qed
      show "insert c (\<Union>x \<in> set (ordered_children n). below_node (nodes s) x) \<subseteq> below_node (nodes s) c"
        using self kid desc_child [OF n(1)] by (fastforce simp: below_node_def)
    qed
    then show ?thesis by auto
  qed
  ultimately show ?case using n(1) create by simp
qed

lemma roots_restore:
  assumes ok: "store_ok s" "refs_ok s"
  shows "apply_loop operation_apply k (forest_ops (tree_ops (graph_fuel (nodes s)) (nodes s)) 0 (roots s)) (part s {}) =
    (Ok (), part s (fmdom' (nodes s)))"
proof -
  note L = store_okD(1) [OF ok(1)]
  have start: "missing s {} None [] (roots s)" by (simp add: missing_def siblings_def up_closed_def)
  have "apply_loop operation_apply k (forest_ops (tree_ops (graph_fuel (nodes s)) (nodes s)) (length ([] :: node_id list)) (roots s)) (part s {}) =
      (Ok (), part s ({} \<union> (\<Union>r \<in> set (roots s). below_node (nodes s) r)))"
  proof (rule forest_restores [OF ok(1) _ start])
    fix V as c rest k
    assume c: "c \<in> set (roots s)" "missing s V None as (c # rest)"
    from links_okD(6) [OF L c(1)] obtain n where "fmlookup (nodes s) c = Some n" by blast
    then obtain d where "has_depth (nodes s) c d" using store_okD(2) [OF ok(1)] by (auto simp: depth_ok_def)
    then have "\<forall>j k. desc (nodes s) c j k \<longrightarrow> k < graph_fuel (nodes s)" using desc_dist_bound by (fastforce simp: graph_fuel_def)
    then show "apply_loop operation_apply k (tree_ops (graph_fuel (nodes s)) (nodes s) (length as) c) (part s V) =
        (Ok (), part s (V \<union> below_node (nodes s) c))" by (rule tree_restores [OF ok c(2)])
  qed simp
  moreover have "(\<Union>r \<in> set (roots s). below_node (nodes s) r) = fmdom' (nodes s)"
  proof
    show "(\<Union>r \<in> set (roots s). below_node (nodes s) r) \<subseteq> fmdom' (nodes s)"
      using desc_lookup by (fastforce simp: below_node_def fmlookup_dom'_iff)
    have "\<exists>r \<in> set (roots s). \<exists>k. desc (nodes s) r i k" if "has_depth (nodes s) i d" for i d
      using that
    proof induction
      case (root i n)
      then show ?case using links_okD(3) [OF L] desc.self by blast
    next
      case (child i n p d)
      then show ?case using desc.below by blast
    qed
    then show "fmdom' (nodes s) \<subseteq> (\<Union>r \<in> set (roots s). below_node (nodes s) r)"
      using store_okD(2) [OF ok(1)] by (fastforce simp: depth_ok_def below_node_def fmlookup_dom'_iff)
  qed
  ultimately show ?thesis by simp
qed

lemma part_all:
  assumes "links_ok (nodes s) (roots s)"
  shows "part s (fmdom' (nodes s)) = s\<lparr>used_ids := fmdom (nodes s), used_model_ids := fmdom (models s), revision := 0\<rparr>"
proof -
  have kids: "keep_children (fmdom' (nodes s)) n = n" if "fmlookup (nodes s) i = Some n" for i n
  proof -
    have "filter (\<lambda>c. c \<in> fmdom' (nodes s)) (ordered_children n) = ordered_children n"
      using links_okD(5) [OF assms that] by (auto simp: filter_id_conv fmlookup_dom'_iff)
    then show ?thesis by (simp add: keep_children_def)
  qed
  have "nodes (part s (fmdom' (nodes s))) = nodes s"
  proof (rule fmap_ext)
    fix i show "fmlookup (nodes (part s (fmdom' (nodes s)))) i = fmlookup (nodes s) i"
      using kids by (cases "fmlookup (nodes s) i") (auto simp: part_lookup fmdom'I)
  qed
  moreover have "filter (\<lambda>i. i \<in> fmdom' (nodes s)) (roots s) = roots s"
    using links_okD(6) [OF assms] by (auto simp: filter_id_conv fmlookup_dom'_iff)
  moreover have "ffilter (\<lambda>i. i \<in> fmdom' (nodes s)) (fmdom (nodes s)) = fmdom (nodes s)"
    by (auto simp: fmdom'_alt_def)
  ultimately show ?thesis by (intro semantic_store.equality) simp_all
qed

section \<open>Models\<close>

text \<open>The replica's copy of a model while the entries at the places \<open>A\<close> have arrived.\<close>

definition model_part :: "model \<Rightarrow> nat set \<Rightarrow> model \<Rightarrow> bool" where
  "model_part m A m' \<longleftrightarrow>
     model_ok m' \<and> m_id m' = m_id m \<and> model_type m' = model_type m \<and> item_count m' = item_count m \<and>
     items m' = fmfilter (\<lambda>i. unat i \<in> A) (items m)"

lemma model_part_cache: "model_part m A m' \<Longrightarrow> cache m' j = (if j \<in> A then cache m j else None)"
  by (auto simp: model_part_def cache_def unat_of_nat_u64)

lemma model_part_new: "model_part m {} (model_new (m_id m) (model_type m) (item_count m))"
proof -
  have "fmfilter (\<lambda>i. unat i \<in> {}) (items m) = fmempty" by (rule fmap_ext) simp
  then show ?thesis by (simp add: model_part_def model_new_def model_ok_def)
qed

lemma model_part_all:
  assumes m': "model_part m A m'" and ok: "model_ok m" and A: "\<And>i it. fmlookup (items m) i = Some it \<Longrightarrow> unat i \<in> A"
  shows "m' = m"
proof -
  have items: "items m' = items m" using m' A by (auto simp: model_part_def intro!: fmap_ext)
  have "id_to_index m' = id_to_index m"
  proof (rule fmap_ext)
    fix k
    have iff: "fmlookup (id_to_index x) k = Some i \<longleftrightarrow> (\<exists>it. fmlookup (items x) i = Some it \<and> item_id it = k)" if "model_ok x" for x i
      using that unfolding model_ok_def by blast
    have "fmlookup (id_to_index m') k = Some i \<longleftrightarrow> fmlookup (id_to_index m) k = Some i" for i
      using iff [OF ok] iff [of m'] m' items by (simp add: model_part_def)
    then show "fmlookup (id_to_index m') k = fmlookup (id_to_index m) k" by (metis option.exhaust)
  qed
  with m' items show ?thesis by (intro model.equality) (simp_all add: model_part_def)
qed

lemma seg_items_nth:
  assumes "a \<le> j" "j < a + n" "cache m j \<noteq> None"
  shows "Some (seg_items m (a, n) ! (j - a)) = cache m j"
  using assms by (auto simp: seg_items_def)

lemma cache_id_inj:
  assumes "model_ok m" "cache m j = Some it" "cache m j' = Some it'" "item_id it = item_id it'"
  shows "j = j'"
proof -
  from assms(2,3) obtain i i' where i: "unat i = j" "fmlookup (items m) i = Some it" "unat i' = j'" "fmlookup (items m) i' = Some it'"
    by (auto simp: cache_Some_iff)
  then have "i = i'" using assms(1,4) unfolding model_ok_def by (metis option.inject)
  with i show ?thesis by simp
qed

lemma seg_restores:
  assumes ok: "model_ok m" "cached_within m" and m': "model_part m A m'" and fits: "seg_fits g"
    and span: "\<forall>j \<in> set (seg_span g). cache m j \<noteq> None" "set (seg_span g) \<inter> A = {}"
    and max: "cached_item_count m \<le> max_cached_items_per_model l"
  shows "\<exists>m''. cached_reset l (of_nat (fst g)) (seg_items m g) None m' = (Ok (), m'') \<and> model_part m (A \<union> set (seg_span g)) m''"
proof -
  obtain a n where g: "g = (a, n)" by (cases g)
  let ?its = "seg_items m g"
  have n: "0 < n" "n \<le> 10000" "length ?its = n"
    using fits g by (simp_all add: seg_fits_def DEFAULT_MAX_ITEMS_PER_MODEL_OPERATION_def seg_items_def)
  have in_span: "cache m j \<noteq> None" "j \<notin> A" if "a \<le> j" "j < a + n" for j
    using span that g by (auto simp: seg_span_def)
  have top: "a + n \<le> unat (item_count m)"
  proof -
    have "cache m (a + (n - 1)) \<noteq> None" using in_span(1) n by simp
    then have "a + (n - 1) < fst (sparse_of m)" using ok(2) cached_within_cache by blast
    then show ?thesis using n by (simp add: sparse_of_def)
  qed
  then have small: "a + n < 2 ^ 64" using le_less_trans [OF _ unat_u64_bound [of "item_count m"]] by simp
  have ua: "unat (of_nat a :: u64) = a" "unat (of_nat (a + n) :: u64) = a + n"
    using small by (simp_all add: unat_of_nat_u64 del: of_nat_add)
  have plus: "checked_add (of_nat a) (of_nat n) = Some (of_nat (a + n) :: u64)"
    using checked_add_of_nat(1) [of n "of_nat a" "of_nat (a + n)"] ua small n(2) by simp
  have absent: "fmlookup (id_to_index m') (item_id it) = None" if "it \<in> set ?its" for it
  proof (rule ccontr)
    from that obtain j where j: "a \<le> j" "j < a + n" "cache m j = Some it"
      using in_span(1) g by (auto simp: seg_items_def)
    assume "fmlookup (id_to_index m') (item_id it) \<noteq> None"
    then obtain idx it' where "fmlookup (items m') idx = Some it'" "item_id it' = item_id it"
      using m' unfolding model_part_def model_ok_def by blast
    then have "cache m (unat idx) = Some it'" "unat idx \<in> A" using m' by (auto simp: model_part_def split: if_splits)
    then show False using cache_id_inj [OF ok(1) j(3)] \<open>item_id it' = item_id it\<close> in_span(2) [OF j(1,2)] by metis
  qed
  have "distinct (map item_id ?its)"
  proof -
    have "j = j'" if "j \<in> {a ..< a + n}" "j' \<in> {a ..< a + n}" "item_id (the (cache m j)) = item_id (the (cache m j'))" for j j'
    proof -
      have "cache m j \<noteq> None" "cache m j' \<noteq> None" using in_span(1) that(1,2) by auto
      then obtain it it' where "cache m j = Some it" "cache m j' = Some it'" by blast
      then show ?thesis using cache_id_inj [OF ok(1)] that(3) by simp
    qed
    then show ?thesis by (auto simp: seg_items_def g distinct_map inj_on_def comp_def)
  qed
  then have nodup: "first_duplicate (reset_clash (of_nat a) (of_nat (a + n)) m') {} ?its = None"
    using absent by (simp add: first_duplicate_None reset_clash_def)
  have ic: "item_count m' = item_count m" using m' by (simp add: model_part_def)
  obtain m'' where reset: "reset_range (of_nat a) ?its None m' = (Ok (), m'')"
  proof -
    let ?m1 = "fold remove_index (map (\<lambda>i. of_nat a + of_nat i) [0..<length ?its]) m'"
    obtain m'' where put: "put_items (of_nat a) 0 ?its ?m1 = (Ok (), m'')"
      using put_items_total [of 0 ?its "of_nat a" ?m1] n ua small by auto
    have "\<not> of_nat a > item_count m'" "\<not> of_nat (a + n) > item_count m'"
      using top ic ua by (simp_all add: word_less_nat_alt del: of_nat_add)
    then show ?thesis using that [of m''] put plus nodup n(3) by (simp add: reset_range_def Let_def del: of_nat_add)
  qed
  have mok: "model_ok m'" using m' by (simp add: model_part_def)
  note R = reset_range_Ok [OF reset mok]
  have R': "model_ok m''" "m_id m'' = m_id m'" "model_type m'' = model_type m'"
    "sparse_of m'' = sparse_put a ?its (unat (item_count m'), cache m')"
    using R n ua(1) by (auto simp: hinted_count_def)
  have "items m'' = fmfilter (\<lambda>i. unat i \<in> A \<union> set (seg_span g)) (items m)"
  proof (rule fmap_ext)
    fix i
    have "fmlookup (items m'') i = (if a \<le> unat i \<and> unat i < a + n then Some (?its ! (unat i - a)) else cache m' (unat i))"
    proof -
      have "cache m'' (unat i) = snd (sparse_put a ?its (unat (item_count m'), cache m')) (unat i)"
        using R'(4) by (metis snd_conv sparse_of_def)
      then show ?thesis using n(3) by (simp add: sparse_put_def)
    qed
    also have "\<dots> = (if unat i \<in> A \<union> set (seg_span g) then cache m (unat i) else None)"
      using seg_items_nth [of a "unat i" n m] in_span(1) [of "unat i"] model_part_cache [OF m', of "unat i"] g by (auto simp: seg_span_def)
    finally show "fmlookup (items m'') i = fmlookup (fmfilter (\<lambda>i. unat i \<in> A \<union> set (seg_span g)) (items m)) i" by simp
  qed
  then have part: "model_part m (A \<union> set (seg_span g)) m''"
    using R' m' by (simp add: model_part_def sparse_of_def sparse_put_def word_unat_eq_iff)
  have none: "overlap (of_nat a) (of_nat (a + n)) m' = 0"
    using m' in_span(2) ua by (auto simp: overlap_def filter_empty_conv set_item_keys model_part_def fmlookup_dom'_iff
        word_le_nat_alt word_less_nat_alt simp del: of_nat_add)
  have "cached_item_count m' + n \<le> cached_item_count m"
  proof -
    let ?S = "of_nat ` {a ..< a + n} :: u64 set"
    have un: "unat (of_nat j :: u64) = j" if "j < a + n" for j using that small by (simp add: unat_of_nat_u64)
    have "inj_on (of_nat :: nat \<Rightarrow> u64) {a ..< a + n}" by (rule inj_onI) (metis atLeastLessThan_iff un)
    then have "card ?S = n" by (simp add: card_image)
    moreover have "fmdom' (items m') \<inter> ?S = {}" using m' in_span(2) un by (auto simp: model_part_def fmlookup_dom'_iff)
    moreover have "fmdom' (items m') \<union> ?S \<subseteq> fmdom' (items m)"
      using m' in_span(1) small by (fastforce simp: model_part_def fmlookup_dom'_iff cache_def)
    then have "card (fmdom' (items m') \<union> ?S) \<le> card (fmdom' (items m))" by (rule card_mono [rotated]) simp
    ultimately show ?thesis by (simp add: card_Un_disjoint cached_item_count_def len_map_alt)
  qed
  moreover have "saturating_add (of_nat a) (of_nat n) = (of_nat (a + n) :: u64)"
    using plus by (simp add: saturating_add_def checked_add_def split: if_splits)
  ultimately have "cached_reset l (of_nat a) ?its None m' = reset_range (of_nat a) ?its None m'"
    using none max n(3) by (simp add: cached_reset_def projected_def Let_def del: of_nat_add)
  then show ?thesis using reset part g by simp
qed

lemma segs_restore:
  assumes m: "fmlookup (models s) i = Some m" "m_id m = i" "model_ok m" "cached_within m" "items_all (item_ok (limits s)) m"
      "cached_item_count m \<le> max_cached_items_per_model (limits s)"
    and batch: "DEFAULT_MAX_ITEMS_PER_MODEL_OPERATION \<le> max_items_per_model_operation (limits s)"
    and t: "limits t = limits s" "fmlookup (models t) i = Some m'" "model_part m A m'"
    and gs: "\<forall>g \<in> set gs. seg_fits g" "\<forall>j \<in> set (concat (map seg_span gs)). cache m j \<noteq> None"
      "distinct (concat (map seg_span gs))" "set (concat (map seg_span gs)) \<inter> A = {}"
  shows "\<exists>m''. apply_loop operation_apply k (map (seg_op m) gs) t = (Ok (), t\<lparr>models := fmupd i m'' (models t)\<rparr>) \<and>
    model_part m (A \<union> set (concat (map seg_span gs))) m''"
  using t gs
proof (induction gs arbitrary: t m' A k)
  case Nil
  have "fmupd i m' (models t) = models t" using Nil.prems(2) by (intro fmap_ext) auto
  then show ?case using Nil by (intro exI [of _ m']) simp
next
  case (Cons g gs)
  have g: "seg_fits g" "\<forall>j \<in> set (seg_span g). cache m j \<noteq> None" "set (seg_span g) \<inter> A = {}" using Cons.prems by auto
  from seg_restores [OF m(3,4) Cons.prems(3) g m(6)] obtain m1 where
    m1: "cached_reset (limits s) (of_nat (fst g)) (seg_items m g) None m' = (Ok (), m1)" "model_part m (A \<union> set (seg_span g)) m1" by blast
  have "item_ok (limits s) it" if it: "it \<in> set (seg_items m g)" for it
  proof -
    from it obtain j where "j \<in> set (seg_span g)" "it = the (cache m j)" by (auto simp: seg_items_def seg_span_def)
    then have "cache m j = Some it" using g(2) by auto
    then show ?thesis using m(5) by (auto simp: cache_Some_iff items_all_def)
  qed
  moreover have "length (seg_items m g) \<le> max_items_per_model_operation (limits s)"
    using g(1) batch by (simp add: seg_items_def seg_fits_def)
  ultimately have valid: "validate_items (limits s) (seg_items m g) = Ok ()" by (simp add: validate_items_iff)
  let ?t = "t\<lparr>models := fmupd i m1 (models t)\<rparr>"
  have step: "operation_apply (seg_op m g) t = (Ok (), ?t)"
    using valid m1(1) Cons.prems(1,2) m(2) by (simp add: seg_op_def model_reset_range_def with_model_def)
  have "\<exists>m''. apply_loop operation_apply (Suc k) (map (seg_op m) gs) ?t = (Ok (), ?t\<lparr>models := fmupd i m'' (models ?t)\<rparr>) \<and>
      model_part m ((A \<union> set (seg_span g)) \<union> set (concat (map seg_span gs))) m''"
    using Cons.prems m1(2) by (intro Cons.IH) auto
  then show ?case using step by (auto simp: Un_assoc)
qed

text \<open>The store of a replica while the models of \<open>D\<close> have arrived and no node yet.\<close>

definition with_models :: "semantic_store \<Rightarrow> model_id set \<Rightarrow> semantic_store" where
  "with_models s D = (with_limits_and_revision (limits s) 0)
     \<lparr>models := fmfilter (\<lambda>i. i \<in> D) (models s), used_model_ids := ffilter (\<lambda>i. i \<in> D) (fmdom (models s))\<rparr>"

text \<open>
  The stores whose snapshot a replica with the same limits accepts: beside the invariant, the cached
  entries of each model lie within its length and its bound, the limit on the items of one operation is
  at least the chunk size of the export, no node hangs below the node with id 0, which the wire cannot
  name as a parent, child positions fit the wire, and hashes have the length their type guarantees.
\<close>

definition exportable :: "semantic_store \<Rightarrow> bool" where
  "exportable s \<longleftrightarrow>
     store_ok s \<and> refs_ok s \<and>
     (\<forall>i m. fmlookup (models s) i = Some m \<longrightarrow>
        cached_within m \<and> cached_item_count m \<le> max_cached_items_per_model (limits s) \<and> items_all item_hashes_wf m) \<and>
     DEFAULT_MAX_ITEMS_PER_MODEL_OPERATION \<le> max_items_per_model_operation (limits s) \<and>
     len_map (nodes s) < 2 ^ 32 - 1 \<and>
     (\<forall>i n. fmlookup (nodes s) i = Some n \<longrightarrow>
        parent_id n \<noteq> Some 0 \<and> (\<forall>p v. fmlookup (properties n) p = Some v \<longrightarrow> hashes_wf v))"

lemma model_restores:
  assumes ex: "exportable s" and m: "fmlookup (models s) i = Some m" and i: "i \<notin> D" and gs: "segments_of m gs"
  shows "apply_loop operation_apply k (model_ops m gs) (with_models s D) = (Ok (), with_models s (insert i D))"
proof -
  have ok: "store_ok s" and mm: "cached_within m" "cached_item_count m \<le> max_cached_items_per_model (limits s)"
    and batch: "DEFAULT_MAX_ITEMS_PER_MODEL_OPERATION \<le> max_items_per_model_operation (limits s)"
    using ex m by (auto simp: exportable_def)
  have mok: "m_id m = i" "model_ok m" "items_all (item_ok (limits s)) m"
    using store_okD(6) [OF ok] m by (auto simp: models_ok_def)
  let ?t = "with_models s D"
  have "fmdom (models ?t) |\<subset>| fmdom (models s)" using m i by (auto simp: with_models_def fmdomI)
  then have "len_map (models ?t) < max_model_count (limits s)"
    using store_okD(8) [OF ok] pfsubset_fcard_mono by (metis less_le_trans)
  moreover have "i |\<notin>| used_model_ids ?t" using i by (simp add: with_models_def)
  moreover have "limits ?t = limits s" by (simp add: with_models_def with_limits_and_revision_def)
  moreover define m0 where "m0 = model_new (m_id m) (model_type m) (item_count m)"
  moreover define t1 where "t1 = ?t\<lparr>models := fmupd i m0 (models ?t), used_model_ids := finsert i (used_model_ids ?t)\<rparr>"
  ultimately have create: "operation_apply (CreateModel (m_id m) (model_type m) (item_count m)) ?t = (Ok (), t1)"
    using mok(1) by (simp add: create_model_def)
  have spans: "concat (map seg_span gs) = map unat (item_keys m)" "\<forall>g \<in> set gs. seg_fits g" using gs by (auto simp: segments_of_def)
  have "distinct (concat (map seg_span gs))" unfolding spans(1)
    by (simp add: distinct_map distinct_item_keys inj_on_def word_unat_eq_iff)
  moreover have "\<forall>j \<in> set (concat (map seg_span gs)). cache m j \<noteq> None" unfolding spans(1)
    by (auto simp: set_item_keys fmlookup_dom'_iff)
  ultimately obtain m'' where
    run: "apply_loop operation_apply (Suc k) (map (seg_op m) gs) t1 = (Ok (), t1\<lparr>models := fmupd i m'' (models t1)\<rparr>)"
      "model_part m ({} \<union> set (concat (map seg_span gs))) m''"
    using segs_restore [OF m mok(1,2) mm(1) mok(3) mm(2) batch, of t1 m0 "{}" gs "Suc k"] spans(2) model_part_new [of m] mok(1)
    by (auto simp: t1_def m0_def with_models_def with_limits_and_revision_def)
  have "m'' = m" by (rule model_part_all [OF run(2) mok(2)]) (auto simp: spans(1) set_item_keys fmdom'I)
  moreover have "fmupd i m (fmupd i m0 (models ?t)) = models (with_models s (insert i D))"
    using m by (intro fmap_ext) (auto simp: with_models_def)
  moreover have "finsert i (used_model_ids ?t) = used_model_ids (with_models s (insert i D))"
    using m by (auto simp: with_models_def fmdomI)
  ultimately have "t1\<lparr>models := fmupd i m'' (models t1)\<rparr> = with_models s (insert i D)"
    by (intro semantic_store.equality) (simp_all add: t1_def with_models_def)
  then show ?thesis using create run(1) by (simp add: model_ops_def)
qed

lemma models_restore:
  assumes ex: "exportable s"
  shows "distinct is \<Longrightarrow> set is \<inter> D = {} \<Longrightarrow> \<forall>i \<in> set is. fmlookup (models s) i \<noteq> None \<and> segments_of (the (fmlookup (models s) i)) (segs i) \<Longrightarrow>
    apply_loop operation_apply k (concat (map (\<lambda>i. model_ops (the (fmlookup (models s) i)) (segs i)) is)) (with_models s D) =
      (Ok (), with_models s (D \<union> set is))"
proof (induction "is" arbitrary: D k)
  case (Cons i "is")
  then obtain m where m: "fmlookup (models s) i = Some m" "segments_of m (segs i)" by auto
  have one: "apply_loop operation_apply k (model_ops m (segs i)) (with_models s D) = (Ok (), with_models s (insert i D))"
    using model_restores [OF ex m(1) _ m(2)] Cons.prems(2) by simp
  have "apply_loop operation_apply (k + length (model_ops m (segs i))) (concat (map (\<lambda>i. model_ops (the (fmlookup (models s) i)) (segs i)) is)) (with_models s (insert i D)) =
      (Ok (), with_models s (insert i D \<union> set is))"
    using Cons.prems by (intro Cons.IH) auto
  then show ?case using one m(1) by (simp add: apply_loop_append)
qed simp

section \<open>The exported transaction\<close>

lemma forest_ops_member:
  "op \<in> set (forest_ops tree k cs) \<Longrightarrow> \<exists>j < length cs. op \<in> set (tree (k + j) (cs ! j))"
proof (induction cs arbitrary: k)
  case (Cons c cs)
  show ?case
  proof (cases "op \<in> set (tree k c)")
    case True
    then show ?thesis by (intro exI [of _ 0]) simp
  next
    case False
    then have "op \<in> set (forest_ops tree (Suc k) cs)" using Cons.prems by simp
    from Cons.IH [OF this] obtain j where "j < length cs" "op \<in> set (tree (Suc k + j) (cs ! j))" by blast
    then show ?thesis by (intro exI [of _ "Suc j"]) simp
  qed
qed simp

lemma children_count:
  assumes "links_ok ns rts" "fmlookup ns i = Some n"
  shows "length (ordered_children n) \<le> len_map ns"
proof -
  have "card (set (ordered_children n)) \<le> card (fmdom' ns)"
    using links_okD(5) [OF assms] by (intro card_mono subsetI) (fastforce simp: fmlookup_dom'_iff)+
  then show ?thesis using links_okD(2) [OF assms] by (simp add: distinct_card len_map_alt)
qed

lemma roots_count:
  assumes "links_ok ns rts"
  shows "length rts \<le> len_map ns"
proof -
  have "card (set rts) \<le> card (fmdom' ns)"
    using links_okD(6) [OF assms] by (intro card_mono subsetI) (fastforce simp: fmlookup_dom'_iff)+
  then show ?thesis using links_okD(7) [OF assms] by (simp add: distinct_card len_map_alt)
qed

lemma tree_ops_member:
  assumes ok: "links_ok ns rts"
  shows "op \<in> set (tree_ops fuel ns idx i) \<Longrightarrow> idx < len_map ns \<Longrightarrow>
    \<exists>j n k. fmlookup ns j = Some n \<and> op = node_op n k \<and> k < len_map ns"
proof (induction fuel arbitrary: idx i)
  case (Suc fuel)
  then obtain n where n: "fmlookup ns i = Some n" by (cases "fmlookup ns i") auto
  with Suc.prems consider "op = node_op n idx" | "op \<in> set (forest_ops (tree_ops fuel ns) 0 (ordered_children n))" by auto
  then show ?case
  proof cases
    case 1
    then show ?thesis using n Suc.prems(2) by blast
  next
    case 2
    from forest_ops_member [OF this] obtain j where "j < length (ordered_children n)" "op \<in> set (tree_ops fuel ns (0 + j) (ordered_children n ! j))" by blast
    then show ?thesis using Suc.IH [of j] children_count [OF ok n] by simp
  qed
qed simp

text \<open>The operations of a snapshot, before they are encoded.\<close>

definition snapshot_ops :: "semantic_store \<Rightarrow> (model_id \<Rightarrow> (nat \<times> nat) list) \<Rightarrow> operation list" where
  "snapshot_ops s segs =
     concat (map (\<lambda>i. model_ops (the (fmlookup (models s) i)) (segs i)) (map fst (sorted_list_of_fmap (models s)))) @
     forest_ops (tree_ops (graph_fuel (nodes s)) (nodes s)) 0 (roots s)"

definition segments :: "semantic_store \<Rightarrow> (model_id \<Rightarrow> (nat \<times> nat) list) \<Rightarrow> bool" where
  "segments s segs \<longleftrightarrow> (\<forall>i m. fmlookup (models s) i = Some m \<longrightarrow> segments_of m (segs i))"

lemma model_id_list: "set (map fst (sorted_list_of_fmap m)) = fmdom' m"
  by (simp add: map_fst_sorted_list_of_fmap fmdom'_alt_def)

lemma export_ops:
  assumes ok: "store_ok s" and fit: "\<forall>i m. fmlookup (models s) i = Some m \<longrightarrow> ends_fit m"
  shows "\<exists>segs. segments s segs \<and> export_snapshot_transaction item_len s =
    (if length (snapshot_ops s segs) > max_transaction_operations (limits s)
     then Error (SnapshotUnrepresentable (max_transaction_operations (limits s)) (length (snapshot_ops s segs)))
     else Ok \<lparr>w_base_revision = 0, w_new_revision = revision s, w_operations = map operation_to_wire (snapshot_ops s segs), w_priority = 0\<rparr>)"
proof -
  note L = store_okD(1) [OF ok]
  let ?is = "map fst (sorted_list_of_fmap (models s))"
  have keys: "i \<in> set ?is \<longleftrightarrow> fmlookup (models s) i \<noteq> None" for i
    unfolding model_id_list by (simp add: fmlookup_dom'_iff)
  have "\<forall>i \<in> set ?is. \<exists>m. fmlookup (models s) i = Some m \<and> ends_fit m"
    using fit keys by fastforce
  from export_models_segs [OF distinct_fst_sorted_list_of_fmap this, of item_len "[]"] obtain segs where
    segs: "\<forall>i \<in> set ?is. segments_of (the (fmlookup (models s) i)) (segs i)"
      "export_models item_len s ?is [] = Ok (map operation_to_wire (concat (map (\<lambda>i. model_ops (the (fmlookup (models s) i)) (segs i)) ?is)))"
    by auto
  have "visit_all (visit_node (graph_fuel (nodes s)) s) 0 (roots s) ops =
      Ok (ops @ map operation_to_wire (forest_ops (tree_ops (graph_fuel (nodes s)) (nodes s)) 0 (roots s)))" for ops
  proof (rule visit_all_ops)
    fix c idx ops assume "c \<in> set (roots s)"
    then obtain n where n: "fmlookup (nodes s) c = Some n" using links_okD(6) [OF L] by blast
    then obtain d where "has_depth (nodes s) c d" using store_okD(2) [OF ok] by (auto simp: depth_ok_def)
    then have "\<forall>j k. desc (nodes s) c j k \<longrightarrow> k < graph_fuel (nodes s)" using desc_dist_bound by (fastforce simp: graph_fuel_def)
    then show "visit_node (graph_fuel (nodes s)) s c (of_nat idx) ops = Ok (ops @ map operation_to_wire (tree_ops (graph_fuel (nodes s)) (nodes s) idx c))"
      by (intro visit_node_ops [OF L]) (simp_all add: graph_fuel_def)
  qed
  then have "export_snapshot_transaction item_len s =
    (if length (snapshot_ops s segs) > max_transaction_operations (limits s)
     then Error (SnapshotUnrepresentable (max_transaction_operations (limits s)) (length (snapshot_ops s segs)))
     else Ok \<lparr>w_base_revision = 0, w_new_revision = revision s, w_operations = map operation_to_wire (snapshot_ops s segs), w_priority = 0\<rparr>)"
    using segs(2) by (simp add: export_snapshot_transaction_def snapshot_ops_def Let_def)
  moreover have "segments s segs" using segs(1) keys by (force simp: segments_def)
  ultimately show ?thesis by blast
qed

lemma exportable_export:
  assumes "exportable s"
  shows "store_ok s" "\<forall>i m. fmlookup (models s) i = Some m \<longrightarrow> ends_fit m"
  using assms cached_within_ends_fit by (auto simp: exportable_def)

lemma snapshot_ops_faithful:
  assumes ex: "exportable s" and segs: "segments s segs" and op: "op \<in> set (snapshot_ops s segs)"
  shows "wire_faithful op"
proof -
  have ok: "store_ok s" and small: "len_map (nodes s) < 2 ^ 32 - 1" using ex by (simp_all add: exportable_def)
  note L = store_okD(1) [OF ok]
  from op consider (model) i m where "fmlookup (models s) i = Some m" "op \<in> set (model_ops m (segs i))"
    | (node) "op \<in> set (forest_ops (tree_ops (graph_fuel (nodes s)) (nodes s)) 0 (roots s))"
    by (fastforce simp: snapshot_ops_def set_sorted_list_of_fmap)
  then show ?thesis
  proof cases
    case (model i m)
    have wf: "items_all item_hashes_wf m" using ex model(1) by (auto simp: exportable_def)
    have spans: "concat (map seg_span (segs i)) = map unat (item_keys m)"
      using segs model(1) by (auto simp: segments_def segments_of_def)
    have "item_hashes_wf it" if g: "g \<in> set (segs i)" and it: "it \<in> set (seg_items m g)" for g it
    proof -
      from it obtain j where j: "j \<in> set (seg_span g)" "it = the (cache m j)" by (auto simp: seg_items_def seg_span_def)
      then have "j \<in> set (map unat (item_keys m))" using g unfolding spans [symmetric] by auto
      then obtain i' x where "fmlookup (items m) i' = Some x" "unat i' = j" by (auto simp: set_item_keys fmlookup_dom'_iff)
      then show ?thesis using wf j(2) by (auto simp: items_all_def)
    qed
    then show ?thesis using model(2) by (auto simp: model_ops_def seg_op_def)
  next
    case node
    from forest_ops_member [OF node] obtain j where
      j: "j < length (roots s)" "op \<in> set (tree_ops (graph_fuel (nodes s)) (nodes s) (0 + j) (roots s ! j))" by blast
    then obtain x n k where "fmlookup (nodes s) x = Some n" "op = node_op n k" "k < len_map (nodes s)"
      using tree_ops_member [OF L, of op _ j] roots_count [OF L] by fastforce
    then show ?thesis using ex small by (auto simp: node_op_def exportable_def ball_sorted_list_of_fmap set_sorted_list_of_fmap)
  qed
qed

lemma snapshot_ops_restore:
  assumes ex: "exportable s" and segs: "segments s segs"
  shows "apply_loop operation_apply 0 (snapshot_ops s segs) (with_limits_and_revision (limits s) 0) =
    (Ok (), s\<lparr>used_ids := fmdom (nodes s), used_model_ids := fmdom (models s), revision := 0\<rparr>)"
proof -
  have ok: "store_ok s" "refs_ok s" using ex by (simp_all add: exportable_def)
  let ?is = "map fst (sorted_list_of_fmap (models s))"
  have keys: "set ?is = fmdom' (models s)" by (rule model_id_list)
  have start: "with_limits_and_revision (limits s) 0 = with_models s {}"
    by (auto simp: with_models_def with_limits_and_revision_def intro!: fmap_ext)
  have all: "with_models s (fmdom' (models s)) = part s {}"
    by (intro semantic_store.equality) (auto simp: with_models_def with_limits_and_revision_def part_def fmdom'_alt_def fmlookup_dom'_iff fmdom_notD [symmetric] intro!: fmap_ext)
  have "apply_loop operation_apply 0 (concat (map (\<lambda>i. model_ops (the (fmlookup (models s) i)) (segs i)) ?is)) (with_models s {}) =
      (Ok (), with_models s ({} \<union> set ?is))"
    using segs keys by (intro models_restore [OF ex]) (auto simp: segments_def distinct_fst_sorted_list_of_fmap fmlookup_dom'_iff)
  then show ?thesis using roots_restore [OF ok] part_all [OF store_okD(1) [OF ok(1)]] keys
    by (simp add: snapshot_ops_def apply_loop_append start all del: set_map)
qed

section \<open>Properties\<close>

lemma snapshot_applies:
  assumes ex: "exportable s" and w: "export_snapshot_transaction item_len s = Ok w"
    and r: "limits r = limits s" "revision r \<le> revision s"
  shows "\<exists>snap. snapshot_from_wire w = Ok snap \<and>
    replace_from_snapshot snap r = (Ok (revision s), s\<lparr>used_ids := fmdom (nodes s), used_model_ids := fmdom (models s)\<rparr>)"
proof -
  from export_ops [OF exportable_export [OF ex], where item_len = item_len] obtain segs where segs: "segments s segs"
    and w': "w = \<lparr>w_base_revision = 0, w_new_revision = revision s, w_operations = map operation_to_wire (snapshot_ops s segs), w_priority = 0\<rparr>"
    and len: "length (snapshot_ops s segs) \<le> max_transaction_operations (limits s)"
    using w by (auto split: if_splits)
  obtain ops where ops: "traverse operation_from_wire (map operation_to_wire (snapshot_ops s segs)) = Ok ops"
    "map operation_apply ops = map operation_apply (snapshot_ops s segs)"
    using operations_round_trip snapshot_ops_faithful [OF ex segs] by blast
  let ?snap = "ResyncSnapshot \<lparr>base_revision = 0, new_revision = revision s, operations = ops, priority = 0\<rparr>"
  have "snapshot_from_wire w = Ok ?snap"
    using ops(1) w' by (simp add: snapshot_from_wire_def transaction_from_wire_def snapshot_try_from_def INITIAL_def)
  moreover have "stage operation_apply (limits s) ops (with_limits_and_revision (limits s) 0) =
      Ok (s\<lparr>used_ids := fmdom (nodes s), used_model_ids := fmdom (models s), revision := 0\<rparr>)"
    unfolding stage_map [OF ops(2)] using len snapshot_ops_restore [OF ex segs] by (simp add: stage_def)
  then have "replace_from_snapshot ?snap r = (Ok (revision s), s\<lparr>used_ids := fmdom (nodes s), used_model_ids := fmdom (models s)\<rparr>)"
    using r by (simp add: replace_from_snapshot_def Let_def INITIAL_def commit_staging_def with_limits_and_revision_def)
  ultimately show ?thesis by blast
qed

text \<open>
  C13: A client that resynchronises ends with the store of the server, when that store is exportable:
  well-formed, with every model reference resolved, every cached entry within the length of its model and
  every model within its cache bound (a model that a range reset has shortened may keep entries behind its end,
  and its snapshot is refused), the limit on the items of one operation at least the chunk size of the
  export, fewer than \<open>2 ^ 32 - 1\<close> nodes, no child of node 0, and hashes of 32 bytes.  The client has the limits
  of the server, a replica that is not newer, and a non-zero limit on operations.  Then the exported snapshot, if it has
  operations and once a plan for its delivery exists, is split into envelopes within the frame limit; the client stages
  them, obtains exactly the snapshot with the last envelope, and replacing its replica
  gives the nodes, roots, models and revision of the server (only the sets of ids used so far start
  with the living ones).
\<close>

theorem snapshot_resync:
  assumes ex: "exportable s" and w: "export_snapshot_transaction item_len s = Ok w" "w_operations w \<noteq> []"
    and l: "cl_max_transaction_operations l \<noteq> 0"
    and plan: "plan_snapshot_delivery vlen oplen w server_max_frame_size (Some l) = Ok p"
    and r: "limits r = limits s" "revision r \<le> revision s"
  shows "\<exists>parts n asm snap. split_plan p w = Ok parts \<and> announced_parts p = Ok n \<and>
    assembler_new (revision s) n (cl_max_snapshot_parts l) (unat (cl_max_transaction_operations l)) = Ok asm \<and>
    (\<forall>part \<in> set parts. part_bytes vlen oplen w (w_operations part) \<le> DEFAULT_MAX_FRAME_SIZE) \<and>
    receive parts asm = Ok (replicate (length parts - 1) None @ [Some w]) \<and> snapshot_from_wire w = Ok snap \<and>
    replace_from_snapshot snap r = (Ok (revision s), s\<lparr>used_ids := fmdom (nodes s), used_model_ids := fmdom (models s)\<rparr>)"
proof -
  have rev: "w_base_revision w = 0" "w_new_revision w = revision s"
    using export_ops [OF exportable_export [OF ex], where item_len = item_len] w(1) by (auto split: if_splits)
  let ?budget = "envelope_budget server_max_frame_size (Some l)"
  have frames: "plan_snapshot_frames vlen oplen w ?budget (cl_max_snapshot_parts l) = Ok p"
    and len: "length (w_operations w) \<le> unat (cl_max_transaction_operations l)"
    using plan l by (auto simp: plan_snapshot_delivery_def nonzero_def map_err_Ok split: if_splits)
  have "?budget \<le> DEFAULT_MAX_FRAME_SIZE" unfolding envelope_budget_def by (intro Min_le) (simp_all add: List.map_filter_def)
  with snapshot_delivered [OF rev(1) w(2) len frames] snapshot_applies [OF ex w(1) r] rev(2) show ?thesis
    by (fastforce intro: le_trans)
qed


lemma sorted_list_of_fmap_small [simp]:
  "sorted_list_of_fmap fmempty = []" "sorted_list_of_fmap (fmupd k v fmempty) = [(k, v)]"
  by (simp_all add: sorted_list_of_fmap_def sorted_list_of_fset.rep_eq)

definition roomy_client :: client_limits where
  "roomy_client = \<lparr>cl_max_frame_size = 0, cl_max_transaction_operations = 100, cl_max_resource_size = 0, cl_max_snapshot_parts = 4\<rparr>"

lemma node_pair_roots: "roots node_pair = [1]" "models node_pair = fmempty" "len_map (nodes node_pair) = 2" "limits node_pair = default_limits"
  "revision node_pair = 0"
  by (simp_all add: node_pair_def create_eval)

lemma node_pair_lookup: "fmlookup (nodes node_pair) i = Some n \<Longrightarrow> i = 1 \<or> i = 2"
  by (simp add: node_pair_def create_eval split: if_splits)

lemma node_pair_exportable: "exportable node_pair"
proof -
  have "refs_ok node_pair" using node_pair_lookup node_pair_nodes by (fastforce simp: refs_ok_def)
  then show ?thesis using node_pair_ok node_pair_roots node_pair_lookup node_pair_nodes
    by (fastforce simp: exportable_def limits_eval)
qed

definition pair_snapshot :: wire_transaction where
  "pair_snapshot = \<lparr>w_base_revision = 0, w_new_revision = 0, w_operations =
     [Some (WCreateNode (Some \<lparr>wn_node_id = 1, wn_type = Some (standard_type 1), wn_parent_id = 0, wn_child_index = 0, wn_properties = []\<rparr>)),
      Some (WCreateNode (Some \<lparr>wn_node_id = 2, wn_type = Some (standard_type 2), wn_parent_id = 1, wn_child_index = 0, wn_properties = []\<rparr>))],
     w_priority = 0\<rparr>"

lemma node_pair_export: "export_snapshot_transaction item_len node_pair = Ok pair_snapshot"
proof -
  have fuel: "graph_fuel (nodes node_pair) = Suc (Suc (Suc 0))" by (simp add: graph_fuel_def node_pair_roots)
  show ?thesis unfolding export_snapshot_transaction_def fuel
    by (simp add: node_pair_roots node_pair_nodes export_node_def pair_snapshot_def limits_eval)
qed

theorem snapshot_resync_witness:
  "\<exists>p parts n asm snap. plan_snapshot_delivery (\<lambda>_. 1) (\<lambda>_. 3) pair_snapshot 0 (Some roomy_client) = Ok p \<and>
    split_plan p pair_snapshot = Ok parts \<and> announced_parts p = Ok n \<and> assembler_new 0 n 4 100 = Ok asm \<and>
    receive parts asm = Ok (replicate (length parts - 1) None @ [Some pair_snapshot]) \<and> snapshot_from_wire pair_snapshot = Ok snap \<and>
    nodes (snd (replace_from_snapshot snap store_new)) = nodes node_pair"
proof -
  have plan: "plan_snapshot_delivery (\<lambda>_. 1) (\<lambda>_. 3) pair_snapshot 0 (Some roomy_client) = Ok (plan_single (Suc (Suc 0)))"
    by (simp add: plan_snapshot_delivery_def roomy_client_def nonzero_def envelope_budget_def plan_snapshot_frames_def
      pair_snapshot_def envelope_len_def operation_field_len_def DEFAULT_MAX_FRAME_SIZE_def List.map_filter_def Let_def)
  have ne: "w_operations pair_snapshot \<noteq> []" "cl_max_transaction_operations roomy_client \<noteq> 0"
    "limits store_new = limits node_pair" "revision store_new \<le> revision node_pair"
    by (simp_all add: pair_snapshot_def roomy_client_def node_pair_roots store_new_def with_limits_def with_limits_and_revision_def)
  from snapshot_resync [OF node_pair_exportable node_pair_export ne(1,2) plan ne(3,4)] plan show ?thesis
    by (fastforce simp: roomy_client_def node_pair_roots)
qed

text \<open>
  C26: The export of a well-formed store in which no model caches an entry at the position \<open>2 ^ 64 - 1\<close> always
  returns: its walks end and its arithmetic does not
  overflow, and the only refusal is the one for a store that needs more operations than a transaction
  may carry.
\<close>

theorem export_returns:
  assumes "store_ok s" "\<forall>i m. fmlookup (models s) i = Some m \<longrightarrow> ends_fit m"
  shows "case export_snapshot_transaction item_len s of
      Inr w \<Rightarrow> w_base_revision w = 0 \<and> w_new_revision w = revision s \<and> length (w_operations w) \<le> max_transaction_operations (limits s)
    | Inl f \<Rightarrow> \<exists>n > max_transaction_operations (limits s). f = Err (SnapshotUnrepresentable (max_transaction_operations (limits s)) n)"
  using export_ops [OF assms, where item_len = item_len] by (auto split: if_splits)

theorem export_returns_witness:
  "store_ok node_pair \<and> (case export_snapshot_transaction (\<lambda>_. 1) node_pair of
      Inr w \<Rightarrow> w_new_revision w = 0 | Inl f \<Rightarrow> \<exists>n > 10000. f = Err (SnapshotUnrepresentable 10000 n))"
  using export_returns [OF exportable_export [OF node_pair_exportable], where item_len = "\<lambda>_. 1"] exportable_export(1) [OF node_pair_exportable] node_pair_export
  by (auto simp: node_pair_roots split: sum.splits)

section \<open>A model that has been shortened\<close>

definition stale_item :: model_item where
  "stale_item = \<lparr>item_id = 7, item_value = VNull, item_properties = fmempty\<rparr>"

definition shortened_store :: semantic_store where
  "shortened_store = snd (model_reset_range 1 0 [] (Some 1)
     (snd (model_reset_range 1 1 [stale_item] None (snd (create_model 1 (standard_type 1) 2 store_new)))))"

text \<open>
  A range reset whose \<open>total_count\<close> shortens the model keeps the cached entries behind the new end.
  The snapshot of such a store is refused by every replica.
\<close>

definition shortened_model :: model where
  "shortened_model = \<lparr>m_id = 1, model_type = standard_type 1, item_count = 1, items = fmupd 1 stale_item fmempty,
     id_to_index = fmupd 7 1 fmempty\<rparr>"

lemma shortened_store_eval:
  "shortened_store = store_new\<lparr>models := fmupd 1 shortened_model fmempty, used_model_ids := {|1|}\<rparr>"
  by (simp add: shortened_store_def shortened_model_def stale_item_def model_reset_range_def validate_items_def validate_item_def
    validate_model_items_batch_def with_model_def cached_reset_def projected_def overlap_def cached_item_count_def item_keys_def
    reset_range_def first_duplicate.simps reset_clash_def remove_index_def checked_add_def saturating_add_def create_eval Let_def)

lemma shortened_snapshot_refused:
  "\<exists>w snap. export_snapshot_transaction item_len shortened_store = Ok w \<and> snapshot_from_wire w = Ok snap \<and>
     fst (replace_from_snapshot snap store_new) = Error (OpFailed 1 (ModelIndexOutOfBounds 2 1))"
proof -
  let ?ops = "[CreateModel 1 (standard_type 1) 1, ModelResetRange 1 1 [stale_item] None]"
  have ranges: "cached_ranges shortened_model = [(1, 1)]"
    by (simp add: cached_ranges_def item_keys_def shortened_model_def)
  have loop: "fold (export_index item_len shortened_model) [1] ([Some (WCreateModel 1 (Some (standard_type 1)) 1)], 1, [], 0) =
      ([Some (WCreateModel 1 (Some (standard_type 1)) 1)], 1, [item_to_wire stale_item], item_len (item_to_wire stale_item))"
    by (simp add: export_index_def get_item_by_index_def shortened_model_def DEFAULT_MAX_ITEMS_PER_MODEL_OPERATION_def Let_def)
  have "export_ranges item_len shortened_model [(1, 1)] [Some (WCreateModel 1 (Some (standard_type 1)) 1)] = Ok (map operation_to_wire ?ops)"
    using loop by (simp add: export_range_def checked_add_def push_model_reset_range_def shortened_model_def or_zero_def upt_rec)
  then have w: "export_snapshot_transaction item_len shortened_store =
      Ok \<lparr>w_base_revision = 0, w_new_revision = 0, w_operations = map operation_to_wire ?ops, w_priority = 0\<rparr>"
    by (simp add: export_snapshot_transaction_def shortened_store_eval export_model_def ranges create_eval)
      (simp add: shortened_model_def)
  have dec: "traverse operation_from_wire (map operation_to_wire ?ops) = Ok ?ops"
    by (simp add: operation_from_wire_def item_from_wire_def item_to_wire_def stale_item_def collect_properties_def or_zero_def)
  then have snap: "snapshot_from_wire \<lparr>w_base_revision = 0, w_new_revision = 0, w_operations = map operation_to_wire ?ops, w_priority = 0\<rparr> =
      Ok (ResyncSnapshot \<lparr>base_revision = 0, new_revision = 0, operations = ?ops, priority = 0\<rparr>)"
    by (simp add: snapshot_from_wire_def transaction_from_wire_def snapshot_try_from_def INITIAL_def del: operation_to_wire.simps list.map)
  have "fst (replace_from_snapshot (ResyncSnapshot \<lparr>base_revision = 0, new_revision = 0, operations = ?ops, priority = 0\<rparr>) store_new) =
      Error (OpFailed 1 (ModelIndexOutOfBounds 2 1))"
    by (simp add: replace_from_snapshot_def stage_def INITIAL_def model_reset_range_def validate_items_def validate_item_def stale_item_def
      validate_model_items_batch_def with_model_def cached_reset_def projected_def overlap_def cached_item_count_def item_keys_def
      reset_range_def checked_add_def saturating_add_def create_eval Let_def)
  then show ?thesis using w snap by blast
qed

end
