(* ===== verification/Extensions.thy ===== *)
theory Extensions
  imports Outbound Event_Dedupe
begin

text \<open>
  The whole session and its extension namespaces: \<^verbatim>\<open>sessiond/src/session.rs\<close> (construction),
  \<^verbatim>\<open>session/extensions.rs\<close>, the namespace part of \<^verbatim>\<open>session/terminal.rs\<close> and the contract that
  \<^verbatim>\<open>session/handshake.rs\<close> validates before every answer.  The record \<open>session\<close> joins the fields of
  \<open>SessionInner\<close> that the commits use (\<open>session_inner\<close>) with the others and with the outbound hub of \<open>Session\<close>.
  Event handlers, policies, model range providers and the terminal processes have no field.
\<close>

section \<open>The session\<close>

record extension_namespace_mapping =
  extension_uri :: "u8 list"
  em_namespace_id :: u32

record server_limits =
  sl_max_frame_size :: u32
  sl_max_transaction_operations :: u32
  sl_max_tree_depth :: u32
  sl_max_node_count :: u32
  sl_max_string_length :: u32
  sl_max_resource_size :: u32

record session =
  session_id :: "u8 list"
  s_inner :: session_inner
  s_dedupe :: event_deduplicator
  s_capabilities :: server_capabilities
  s_limits :: server_limits
  s_resources :: resource_store
  client_resource_ceilings :: "(client_id, u64) fmap"
  extension_namespaces :: "extension_namespace_mapping list"
  has_negotiated :: bool
  outbound_hub :: outbound_hub
  outbound_queue_capacity :: usize

definition standard_namespace_mapping :: extension_namespace_mapping where
  "standard_namespace_mapping = \<lparr>extension_uri = PROFILE_STANDARD_WIDGETS, em_namespace_id = 0\<rparr>"

definition session_limits :: server_limits where
  "session_limits =
     \<lparr>sl_max_frame_size = 16 * 1024 * 1024, sl_max_transaction_operations = of_nat (max_transaction_operations default_limits),
      sl_max_tree_depth = of_nat (max_tree_depth default_limits), sl_max_node_count = of_nat (max_node_count default_limits),
      sl_max_string_length = of_nat (max_string_length default_limits), sl_max_resource_size = 50 * 1024 * 1024\<rparr>"

definition with_config :: "u8 list \<Rightarrow> server_capabilities \<Rightarrow> usize \<Rightarrow> usize \<Rightarrow> (session_error, session) result" where
  "with_config sid caps journal_capacity queue_capacity =
     and_then (session_with_config journal_capacity queue_capacity) (\<lambda>i.
       Ok \<lparr>session_id = sid, s_inner = i, s_dedupe = dedup_default, s_capabilities = caps, s_limits = session_limits,
          s_resources = resource_store_new, client_resource_ceilings = fmempty,
          extension_namespaces = [standard_namespace_mapping], has_negotiated = False,
          outbound_hub = hub_new, outbound_queue_capacity = queue_capacity\<rparr>)"

section \<open>Core version\<close>

definition CORE_VERSION :: "u8 list" where
  "CORE_VERSION = str_bytes ''0.5.0''"

fun str_split :: "u8 \<Rightarrow> u8 list \<Rightarrow> u8 list list" where
  "str_split d [] = [[]]"
| "str_split d (b # s) =
     (if b = d then [] # str_split d s
      else case str_split d s of x # xs \<Rightarrow> (b # x) # xs | [] \<Rightarrow> [[b]])"

definition numeric :: "u8 list \<Rightarrow> bool" where
  "numeric s \<longleftrightarrow> s \<noteq> [] \<and> list_all is_ascii_digit s"

definition major_minor :: "u8 list \<Rightarrow> (u8 list \<times> u8 list) option" where
  "major_minor v =
     (case str_split 46 v of
        major # minor # _ \<Rightarrow> if numeric major \<and> numeric minor then Some (major, minor) else None
      | _ \<Rightarrow> None)"

definition core_version_is_compatible :: "u8 list \<Rightarrow> bool" where
  "core_version_is_compatible requested =
     (case (major_minor requested, major_minor CORE_VERSION) of
        (Some r, Some supported) \<Rightarrow> r = supported
      | _ \<Rightarrow> False)"

section \<open>The namespace contract\<close>

definition check_standard_mapping :: "extension_namespace_mapping list \<Rightarrow> (session_error, unit) result" where
  "check_standard_mapping ns =
     (case filter (\<lambda>m. extension_uri m = PROFILE_STANDARD_WIDGETS) ns of
        [] \<Rightarrow> Error (BadConfiguration StandardMappingMissing)
      | m # rest \<Rightarrow>
          if em_namespace_id m \<noteq> 0 then Error (BadConfiguration StandardMappingNonzero)
          else if rest \<noteq> [] then Error (BadConfiguration StandardMappingRepeated)
          else Ok ())"

definition check_advertised :: "extension_namespace_mapping list \<Rightarrow> profile \<Rightarrow> (session_error, unit) result" where
  "check_advertised ns p =
     (if profile_name p = PROFILE_STANDARD_WIDGETS
      then if p \<noteq> standard_widgets_v1 then Error (BadConfiguration (UnsupportedStandardProfile p)) else Ok ()
      else case filter (\<lambda>m. extension_uri m = profile_to_string p) ns of
          [] \<Rightarrow> Error (BadConfiguration (NoNamespaceMapping p))
        | m # rest \<Rightarrow>
            if em_namespace_id m = 0 then Error (BadConfiguration (ZeroNamespaceMapping p))
            else if rest \<noteq> [] then Error (BadConfiguration (RepeatedNamespaceMapping p))
            else Ok ())"

definition check_mapping :: "server_capabilities \<Rightarrow> extension_namespace_mapping \<Rightarrow> (session_error, unit) result" where
  "check_mapping caps m =
     (if extension_uri m = PROFILE_STANDARD_WIDGETS
      then if em_namespace_id m \<noteq> 0 then Error (BadConfiguration StandardMappingNonzero) else Ok ()
      else if em_namespace_id m = 0 then Error (BadConfiguration (ZeroNamespaceUri (extension_uri m)))
      else and_then (map_err (\<lambda>e. BadConfiguration (UriNotAProfile (extension_uri m) e)) (profile_parse (extension_uri m))) (\<lambda>p.
        if profile_to_string p \<noteq> extension_uri m
        then Error (BadConfiguration (UriNotCanonical (extension_uri m) (profile_to_string p)))
        else if profile_name p = PROFILE_STANDARD_WIDGETS then Error (BadConfiguration StandardAlias)
        else if p |\<notin>| cap_required caps \<and> p |\<notin>| cap_optional caps
        then Error (BadConfiguration (UriNotAdvertised (extension_uri m)))
        else Ok ()))"

fun check_mappings ::
  "server_capabilities \<Rightarrow> u32 fset \<Rightarrow> u8 list fset \<Rightarrow> extension_namespace_mapping list \<Rightarrow> (session_error, unit) result" where
  "check_mappings caps ids_seen uris_seen [] = Ok ()"
| "check_mappings caps ids_seen uris_seen (m # ms) =
     and_then (check_mapping caps m) (\<lambda>_.
       if em_namespace_id m |\<in>| ids_seen then Error (BadConfiguration (DuplicateNamespaceId (em_namespace_id m)))
       else if extension_uri m |\<in>| uris_seen then Error (BadConfiguration (DuplicateExtensionUri (extension_uri m)))
       else check_mappings caps (finsert (em_namespace_id m) ids_seen) (finsert (extension_uri m) uris_seen) ms)"

definition validate_extension_namespace_contract ::
  "server_capabilities \<Rightarrow> extension_namespace_mapping list \<Rightarrow> (session_error, unit) result" where
  "validate_extension_namespace_contract caps ns =
     and_then (check_standard_mapping ns) (\<lambda>_.
     and_then (for_each (check_advertised ns) (sorted_list_of_fset (cap_required caps) @ sorted_list_of_fset (cap_optional caps))) (\<lambda>_.
       check_mappings caps {||} {||} ns))"

section \<open>Registration of extensions\<close>

text \<open>The search for the lowest free namespace; the counter is a checked \<open>u32\<close>.\<close>

function next_namespace_from :: "u32 fset \<Rightarrow> u32 \<Rightarrow> (session_error, u32) result" where
  "next_namespace_from used candidate =
     (if candidate |\<notin>| used then Ok candidate
      else case checked_add candidate 1 of
          None \<Rightarrow> Error (InvalidInput NamespacesExhausted)
        | Some c \<Rightarrow> next_namespace_from used c)"
  by auto

termination
  by (relation "measure (\<lambda>(used, c). 2 ^ 32 - unat c)")
    (auto simp: checked_add_Some unat_plus_no_overflow intro!: diff_less_mono2)

declare next_namespace_from.simps [simp del]

definition next_extension_namespace :: "extension_namespace_mapping list \<Rightarrow> (session_error, u32) result" where
  "next_extension_namespace existing = next_namespace_from (fset_of_list (map em_namespace_id existing)) 1"

definition capabilities_fixed :: "session \<Rightarrow> bool" where
  "capabilities_fixed s \<longleftrightarrow> si_attached_connections (s_inner s) > 0 \<or> has_negotiated s"

definition register_optional_extension_profile :: "profile \<Rightarrow> session \<Rightarrow> (session_error, u32) result \<times> session" where
  "register_optional_extension_profile p s =
     (if p = standard_widgets_v1 then (Error (InvalidInput StandardWidgetsReserved), s)
      else if p = terminal_v1 then (Error (InvalidInput TerminalReserved), s)
      else if capabilities_fixed s then (Error (InvalidInput ExtensionsFixed), s)
      else if p |\<in>| cap_required (s_capabilities s) then (Error (InvalidInput (ProfileAlreadyRequired p)), s)
      else
        let uri = profile_to_string p;
            add_optional = (\<lambda>s. s\<lparr>s_capabilities := (s_capabilities s)\<lparr>cap_optional := finsert p (cap_optional (s_capabilities s))\<rparr>\<rparr>)
        in case find (\<lambda>m. extension_uri m = uri) (extension_namespaces s) of
             Some m \<Rightarrow> (Ok (em_namespace_id m), add_optional s)
           | None \<Rightarrow>
               (case next_extension_namespace (extension_namespaces s) of
                  Inl e \<Rightarrow> (Inl e, s)
                | Inr n \<Rightarrow>
                    (Ok n, (add_optional s)\<lparr>extension_namespaces :=
                       extension_namespaces s @ [\<lparr>extension_uri = uri, em_namespace_id = n\<rparr>]\<rparr>)))"

definition TERMINAL_PROFILE_URI :: "u8 list" where
  "TERMINAL_PROFILE_URI = str_bytes ''org.srui.terminal/1''"

definition TERMINAL_LOCAL_TYPE_ID :: u32 where
  "TERMINAL_LOCAL_TYPE_ID = 1"

record terminal_type_rollback =
  was_required :: bool
  was_optional :: bool
  created_namespace :: "u32 option"

definition prepare_terminal_type :: "session \<Rightarrow> (session_error, type_ref \<times> terminal_type_rollback) result \<times> session" where
  "prepare_terminal_type s =
     (if capabilities_fixed s then (Error (InvalidInput TerminalsFixed), s)
      else
        let existing = find (\<lambda>m. extension_uri m = TERMINAL_PROFILE_URI) (extension_namespaces s)
        in case (case existing of
               Some m \<Rightarrow> Ok (em_namespace_id m, None)
             | None \<Rightarrow> and_then (next_extension_namespace (extension_namespaces s)) (\<lambda>n. Ok (n, Some n))) of
             Inl e \<Rightarrow> (Inl e, s)
           | Inr (n, fresh) \<Rightarrow>
               let caps = s_capabilities s;
                   rollback = \<lparr>was_required = terminal_v1 |\<in>| cap_required caps,
                     was_optional = terminal_v1 |\<in>| cap_optional caps, created_namespace = fresh\<rparr>;
                   caps = caps\<lparr>cap_required := finsert terminal_v1 (cap_required caps),
                     cap_optional := cap_optional caps |-| {|terminal_v1|}\<rparr>
               in (Ok (TypeRef n TERMINAL_LOCAL_TYPE_ID, rollback),
                   s\<lparr>s_capabilities := caps, extension_namespaces := extension_namespaces s @
                     (case fresh of None \<Rightarrow> [] | Some c \<Rightarrow> [\<lparr>extension_uri = TERMINAL_PROFILE_URI, em_namespace_id = c\<rparr>])\<rparr>))"

text \<open>The ids of the live terminal streams are an argument.\<close>

definition rollback_terminal_type :: "node_id list \<Rightarrow> terminal_type_rollback \<Rightarrow> session \<Rightarrow> session" where
  "rollback_terminal_type live r s =
     (if capabilities_fixed s \<or> live \<noteq> [] then s
      else
        let caps = s_capabilities s;
            caps = (if was_required r then caps else caps\<lparr>cap_required := cap_required caps |-| {|terminal_v1|}\<rparr>);
            caps = (if was_optional r then caps\<lparr>cap_optional := finsert terminal_v1 (cap_optional caps)\<rparr> else caps)
        in s\<lparr>s_capabilities := caps, extension_namespaces :=
             (case created_namespace r of
                None \<Rightarrow> extension_namespaces s
              | Some n \<Rightarrow> filter (\<lambda>m. em_namespace_id m \<noteq> n) (extension_namespaces s))\<rparr>)"

section \<open>What the contract says\<close>

definition advertised :: "server_capabilities \<Rightarrow> profile \<Rightarrow> bool" where
  "advertised caps p \<longleftrightarrow> p |\<in>| cap_required caps \<or> p |\<in>| cap_optional caps"

definition mapping_ok :: "server_capabilities \<Rightarrow> extension_namespace_mapping \<Rightarrow> bool" where
  "mapping_ok caps m \<longleftrightarrow>
     m = standard_namespace_mapping \<or>
     em_namespace_id m \<noteq> 0 \<and>
       (\<exists>p. profile_ok p \<and> extension_uri m = profile_to_string p \<and> profile_name p \<noteq> PROFILE_STANDARD_WIDGETS \<and> advertised caps p)"

definition contract_ok :: "server_capabilities \<Rightarrow> extension_namespace_mapping list \<Rightarrow> bool" where
  "contract_ok caps ns \<longleftrightarrow>
     distinct (map em_namespace_id ns) \<and> distinct (map extension_uri ns) \<and> standard_namespace_mapping \<in> set ns \<and>
     (\<forall>m \<in> set ns. mapping_ok caps m) \<and>
     (\<forall>p. advertised caps p \<longrightarrow> p = standard_widgets_v1 \<or>
        profile_name p \<noteq> PROFILE_STANDARD_WIDGETS \<and>
          (\<exists>m \<in> set ns. extension_uri m = profile_to_string p \<and> em_namespace_id m \<noteq> 0))"

lemma standard_name [simp]: "profile_name standard_widgets_v1 = PROFILE_STANDARD_WIDGETS"
  by (simp add: standard_widgets_v1_def)

lemma standard_mapping_simps [simp]:
  "extension_uri standard_namespace_mapping = PROFILE_STANDARD_WIDGETS" "em_namespace_id standard_namespace_mapping = 0"
  by (simp_all add: standard_namespace_mapping_def)

lemma standard_no_slash: "47 \<notin> set PROFILE_STANDARD_WIDGETS"
  by (simp add: PROFILE_STANDARD_WIDGETS_def str_bytes_def byte_of_char_def)

lemma profile_string_not_standard: "profile_to_string p \<noteq> PROFILE_STANDARD_WIDGETS"
proof
  assume "profile_to_string p = PROFILE_STANDARD_WIDGETS"
  then have "47 \<in> set PROFILE_STANDARD_WIDGETS" by (metis in_set_conv_decomp profile_to_string_def)
  then show False using standard_no_slash by blast
qed

lemma check_mapping_Ok: "check_mapping caps m = Ok () \<longleftrightarrow> mapping_ok caps m"
proof (cases "extension_uri m = PROFILE_STANDARD_WIDGETS")
  case True
  then show ?thesis using profile_string_not_standard
    by (auto simp: check_mapping_def mapping_ok_def standard_namespace_mapping_def dest: sym)
next
  case False
  have "(\<exists>p. profile_parse (extension_uri m) = Ok p \<and> profile_to_string p = extension_uri m \<and> Q p) \<longleftrightarrow>
      (\<exists>p. profile_ok p \<and> extension_uri m = profile_to_string p \<and> Q p)" for Q
    using parse_ok parse_to_string by metis
  from this [of "\<lambda>p. profile_name p \<noteq> PROFILE_STANDARD_WIDGETS \<and> advertised caps p"] False show ?thesis
    by (auto simp: check_mapping_def mapping_ok_def advertised_def result_simps map_err_Ok)
qed

lemma ball_fresh: "(\<forall>x \<in> A. f x |\<notin>| finsert a S) \<longleftrightarrow> (\<forall>x \<in> A. f x |\<notin>| S) \<and> a \<notin> f ` A"
  by (simp add: image_iff) metis

lemma check_mappings_Ok:
  "check_mappings caps ids uris ms = Ok () \<longleftrightarrow>
     (\<forall>m \<in> set ms. mapping_ok caps m) \<and> distinct (map em_namespace_id ms) \<and> distinct (map extension_uri ms) \<and>
     (\<forall>m \<in> set ms. em_namespace_id m |\<notin>| ids \<and> extension_uri m |\<notin>| uris)"
proof (induction ms arbitrary: ids uris)
  case (Cons m ms)
  have "(\<forall>x \<in> set ms. em_namespace_id x |\<notin>| finsert (em_namespace_id m) ids \<and> extension_uri x |\<notin>| finsert (extension_uri m) uris) \<longleftrightarrow>
      (\<forall>x \<in> set ms. em_namespace_id x |\<notin>| ids \<and> extension_uri x |\<notin>| uris) \<and>
      em_namespace_id m \<notin> em_namespace_id ` set ms \<and> extension_uri m \<notin> extension_uri ` set ms"
    unfolding ball_conj_distrib ball_fresh by blast
  note ih = Cons.IH [of "finsert (em_namespace_id m) ids" "finsert (extension_uri m) uris", unfolded this]
  have "check_mappings caps ids uris (m # ms) = Ok () \<longleftrightarrow> mapping_ok caps m \<and> em_namespace_id m |\<notin>| ids \<and> extension_uri m |\<notin>| uris \<and>
      check_mappings caps (finsert (em_namespace_id m) ids) (finsert (extension_uri m) uris) ms = Ok ()"
    by (auto simp: result_simps check_mapping_Ok)
  then show ?case unfolding ih by auto
qed simp

lemma filter_one: "distinct (map f ms) \<Longrightarrow> m \<in> set ms \<Longrightarrow> filter (\<lambda>x. f x = f m) ms = [m]"
  by (induction ms) (auto simp: filter_empty_conv dest: sym)

lemma check_advertised_Ok:
  assumes "distinct (map extension_uri ns)"
  shows "check_advertised ns p = Ok () \<longleftrightarrow> p = standard_widgets_v1 \<or>
    profile_name p \<noteq> PROFILE_STANDARD_WIDGETS \<and> (\<exists>m \<in> set ns. extension_uri m = profile_to_string p \<and> em_namespace_id m \<noteq> 0)"
proof (cases "\<exists>m \<in> set ns. extension_uri m = profile_to_string p")
  case True
  then obtain m where m: "m \<in> set ns" "extension_uri m = profile_to_string p" by blast
  with filter_one [OF assms, of m] have f: "filter (\<lambda>x. extension_uri x = profile_to_string p) ns = [m]" by simp
  have "x = m" if "x \<in> set ns" "extension_uri x = profile_to_string p" for x
  proof -
    from that have "x \<in> set (filter (\<lambda>x. extension_uri x = profile_to_string p) ns)" by simp
    with f show ?thesis by simp
  qed
  with m have "(\<exists>x \<in> set ns. extension_uri x = profile_to_string p \<and> em_namespace_id x \<noteq> 0) \<longleftrightarrow> em_namespace_id m \<noteq> 0" by blast
  then show ?thesis using f by (cases "p = standard_widgets_v1") (simp_all add: check_advertised_def)
next
  case False
  then have "filter (\<lambda>x. extension_uri x = profile_to_string p) ns = []" by (simp add: filter_empty_conv)
  with False show ?thesis by (auto simp: check_advertised_def)
qed

lemma check_standard_Ok:
  assumes "distinct (map extension_uri ns)" 
  shows "check_standard_mapping ns = Ok () \<longleftrightarrow> standard_namespace_mapping \<in> set ns"
proof (cases "\<exists>m \<in> set ns. extension_uri m = PROFILE_STANDARD_WIDGETS")
  case True
  then obtain m where m: "m \<in> set ns" "extension_uri m = PROFILE_STANDARD_WIDGETS" by blast
  with filter_one [OF assms, of m] have f: "filter (\<lambda>x. extension_uri x = PROFILE_STANDARD_WIDGETS) ns = [m]" by simp
  have "x = m" if "x \<in> set ns" "extension_uri x = PROFILE_STANDARD_WIDGETS" for x
  proof -
    from that have "x \<in> set (filter (\<lambda>x. extension_uri x = PROFILE_STANDARD_WIDGETS) ns)" by simp
    with f show ?thesis by simp
  qed
  with m have "standard_namespace_mapping \<in> set ns \<longleftrightarrow> m = standard_namespace_mapping" by (metis standard_mapping_simps(1))
  moreover have "m = standard_namespace_mapping \<longleftrightarrow> em_namespace_id m = 0" using m(2) by (cases m) (simp add: standard_namespace_mapping_def)
  ultimately show ?thesis using f by (simp add: check_standard_mapping_def)
next
  case False
  then have "filter (\<lambda>x. extension_uri x = PROFILE_STANDARD_WIDGETS) ns = []" by (simp add: filter_empty_conv)
  with False show ?thesis by (auto simp: check_standard_mapping_def standard_namespace_mapping_def)
qed

lemma contract_iff: "validate_extension_namespace_contract caps ns = Ok () \<longleftrightarrow> contract_ok caps ns"
proof (cases "distinct (map extension_uri ns)")
  case True
  then show ?thesis
    by (auto simp: validate_extension_namespace_contract_def contract_ok_def result_simps check_standard_Ok check_advertised_Ok
      check_mappings_Ok advertised_def sorted_list_of_fset.rep_eq)
qed (auto simp: validate_extension_namespace_contract_def contract_ok_def result_simps check_mappings_Ok)

section \<open>Free namespaces\<close>

lemma next_namespace_spec:
  "next_namespace_from used c = Inr n \<Longrightarrow> n |\<notin>| used \<and> c \<le> n \<and> (\<forall>k. c \<le> k \<and> k < n \<longrightarrow> k |\<in>| used)"
proof (induction used c rule: next_namespace_from.induct)
  case (1 used c)
  show ?case
  proof (cases "c |\<in>| used")
    case False
    then show ?thesis using 1(2) by (auto simp: next_namespace_from.simps [of used c])
  next
    case True
    then obtain d where d: "checked_add c 1 = Some d" "next_namespace_from used d = Inr n"
      using 1(2) by (auto simp: next_namespace_from.simps [of used c] split: option.splits)
    then have u: "unat d = unat c + 1" by (auto simp: checked_add_Some unat_plus_no_overflow)
    from 1(1) [OF _ d] True have ih: "n |\<notin>| used" "d \<le> n" "\<forall>k. d \<le> k \<and> k < n \<longrightarrow> k |\<in>| used" by auto
    have "k = c \<or> d \<le> k" if "c \<le> k" for k using that u by (auto simp: word_le_nat_alt word_unat_eq_iff)
    with ih True u show ?thesis by (auto simp: word_le_nat_alt)
  qed
qed

lemma next_namespace_fails: "next_namespace_from used c = Inl e \<Longrightarrow> \<forall>k. c \<le> k \<longrightarrow> k |\<in>| used"
proof (induction used c rule: next_namespace_from.induct)
  case (1 used c)
  from 1(2) have c: "c |\<in>| used" by (auto simp: next_namespace_from.simps [of used c] split: if_splits)
  show ?case
  proof (cases "checked_add c 1")
    case None
    then have "unat c + 1 = 2 ^ 32" using unat_u32_bound [of c] by (simp add: checked_add_None)
    then have "k = c" if "c \<le> k" for k using that unat_u32_bound [of k] by (simp add: word_le_nat_alt word_unat_eq_iff)
    with c show ?thesis by blast
  next
    case (Some d)
    then have u: "unat d = unat c + 1" by (auto simp: checked_add_Some unat_plus_no_overflow)
    have "next_namespace_from used d = Inl e" using 1(2) c Some by (simp add: next_namespace_from.simps [of used c])
    from 1(1) [OF _ Some this] c have "\<forall>k. d \<le> k \<longrightarrow> k |\<in>| used" by auto
    moreover have "k = c \<or> d \<le> k" if "c \<le> k" for k using that u by (auto simp: word_le_nat_alt word_unat_eq_iff)
    ultimately show ?thesis using c by blast
  qed
qed

lemma next_extension_spec:
  assumes "next_extension_namespace ns = Inr n"
  shows "n \<noteq> 0" "n \<notin> em_namespace_id ` set ns" "\<And>k. k \<noteq> 0 \<Longrightarrow> k < n \<Longrightarrow> k \<in> em_namespace_id ` set ns"
proof -
  from next_namespace_spec [OF assms [unfolded next_extension_namespace_def]]
  have n: "n |\<notin>| fset_of_list (map em_namespace_id ns)" "1 \<le> n" "\<forall>k. 1 \<le> k \<and> k < n \<longrightarrow> k |\<in>| fset_of_list (map em_namespace_id ns)" by auto
  then show "n \<noteq> 0" "n \<notin> em_namespace_id ` set ns" by (auto simp: fset_of_list.rep_eq word_le_nat_alt)
  fix k :: u32 assume "k \<noteq> 0" "k < n"
  then have "1 \<le> k" by (metis unat_eq_zero word_le_nat_alt unat_1 less_one not_le)
  then show "k \<in> em_namespace_id ` set ns" using n(3) \<open>k < n\<close> by (auto simp: fset_of_list.rep_eq)
qed

section \<open>Namespaces of profiles\<close>

definition namespace_of :: "extension_namespace_mapping list \<Rightarrow> profile \<Rightarrow> u32 option" where
  "namespace_of ns p =
     map_of (map (\<lambda>m. (extension_uri m, em_namespace_id m)) ns)
       (if p = standard_widgets_v1 then PROFILE_STANDARD_WIDGETS else profile_to_string p)"

lemma map_of_uri:
  assumes "distinct (map extension_uri ns)"
  shows "map_of (map (\<lambda>m. (extension_uri m, em_namespace_id m)) ns) u = Some n \<longleftrightarrow>
    (\<exists>m \<in> set ns. extension_uri m = u \<and> em_namespace_id m = n)"
proof -
  have "distinct (map fst (map (\<lambda>m. (extension_uri m, em_namespace_id m)) ns))" using assms by (simp add: comp_def)
  from map_of_eq_Some_iff [OF this, of u n] show ?thesis by auto
qed

lemma contract_okD:
  assumes "contract_ok caps ns"
  shows "distinct (map em_namespace_id ns)" "distinct (map extension_uri ns)" "standard_namespace_mapping \<in> set ns"
    "m \<in> set ns \<Longrightarrow> mapping_ok caps m"
    "advertised caps p \<Longrightarrow> p = standard_widgets_v1 \<or> profile_name p \<noteq> PROFILE_STANDARD_WIDGETS \<and>
      (\<exists>m \<in> set ns. extension_uri m = profile_to_string p \<and> em_namespace_id m \<noteq> 0)"
  using assms unfolding contract_ok_def by blast+

lemma namespace_of_advertised:
  assumes ok: "contract_ok caps ns" and p: "advertised caps p"
  shows "\<exists>m \<in> set ns. namespace_of ns p = Some (em_namespace_id m) \<and> (em_namespace_id m = 0 \<longleftrightarrow> p = standard_widgets_v1) \<and>
    extension_uri m = (if p = standard_widgets_v1 then PROFILE_STANDARD_WIDGETS else profile_to_string p)"
proof (cases "p = standard_widgets_v1")
  case True
  then show ?thesis using contract_okD(3) [OF ok] map_of_uri [OF contract_okD(2) [OF ok]]
    by (intro bexI [of _ standard_namespace_mapping]) (auto simp: namespace_of_def intro!: bexI [of _ standard_namespace_mapping])
next
  case False
  with contract_okD(5) [OF ok p] obtain m where "m \<in> set ns" "extension_uri m = profile_to_string p" "em_namespace_id m \<noteq> 0" by blast
  with False show ?thesis using map_of_uri [OF contract_okD(2) [OF ok], of "profile_to_string p" "em_namespace_id m"]
    by (intro bexI [of _ m]) (auto simp: namespace_of_def)
qed

definition profile_uri :: "profile \<Rightarrow> u8 list" where
  "profile_uri p = (if p = standard_widgets_v1 then PROFILE_STANDARD_WIDGETS else profile_to_string p)"

lemma distinct_key_filter: "distinct (map f xs) \<Longrightarrow> m \<in> set xs \<Longrightarrow> filter (\<lambda>k. f k = f m) xs = [m]"
  by (induction xs) (auto simp: filter_empty_conv rev_image_eqI)

text \<open>
  C31: After a validated handshake the numeric namespaces are unambiguous.  For every negotiated profile the list has exactly one
  mapping with its URI, and no other mapping has the number of that one; it is the namespace of the profile, and
  it is 0 for the standard widgets alone.  Two negotiated
  profiles never share a namespace, so a peer can read every type reference back.  (The profiles of the
  client come from the parser.)
\<close>

theorem namespaces_unambiguous:
  assumes "validate_extension_namespace_contract caps ns = Ok ()" and "server_negotiate caps offered = Ok negotiated"
    and "\<And>p. p |\<in>| offered \<Longrightarrow> \<exists>s. profile_parse s = Ok p"
  shows "(\<forall>p. p |\<in>| negotiated \<longrightarrow> (\<exists>m. filter (\<lambda>k. extension_uri k = profile_uri p) ns = [m] \<and>
      filter (\<lambda>k. em_namespace_id k = em_namespace_id m) ns = [m] \<and>
      namespace_of ns p = Some (em_namespace_id m) \<and> (em_namespace_id m = 0 \<longleftrightarrow> p = standard_widgets_v1))) \<and>
    (\<forall>p q. p |\<in>| negotiated \<longrightarrow> q |\<in>| negotiated \<longrightarrow> namespace_of ns p = namespace_of ns q \<longrightarrow> p = q)"
proof -
  have ok: "contract_ok caps ns" using assms(1) by (simp add: contract_iff)
  have neg: "advertised caps p \<and> p |\<in>| offered" if "p |\<in>| negotiated" for p
    using that assms(2) by (auto simp: server_negotiate_def negotiate_iff advertised_def split: if_splits)
  have "p = q" if pq: "p |\<in>| negotiated" "q |\<in>| negotiated" "namespace_of ns p = namespace_of ns q" for p q
  proof -
    obtain m where m: "m \<in> set ns" "namespace_of ns p = Some (em_namespace_id m)" "em_namespace_id m = 0 \<longleftrightarrow> p = standard_widgets_v1"
      "extension_uri m = (if p = standard_widgets_v1 then PROFILE_STANDARD_WIDGETS else profile_to_string p)"
      using namespace_of_advertised [OF ok, of p] neg [OF pq(1)] by blast
    obtain k where k: "k \<in> set ns" "namespace_of ns q = Some (em_namespace_id k)" "em_namespace_id k = 0 \<longleftrightarrow> q = standard_widgets_v1"
      "extension_uri k = (if q = standard_widgets_v1 then PROFILE_STANDARD_WIDGETS else profile_to_string q)"
      using namespace_of_advertised [OF ok, of q] neg [OF pq(2)] by blast
    have ids: "em_namespace_id m = em_namespace_id k" using m(2) k(2) pq(3) by simp
    then have "m = k" using contract_okD(1) [OF ok] m(1) k(1) by (metis distinct_map inj_on_eq_iff)
    have pok: "profile_ok p" "profile_ok q" using neg pq assms(3) parse_ok by blast+
    show ?thesis
    proof (cases "p = standard_widgets_v1")
      case True
      then show ?thesis using m(3) k(3) ids by simp
    next
      case False
      then have "q \<noteq> standard_widgets_v1" using m(3) k(3) ids by simp
      with False m(4) k(4) have "profile_to_string p = profile_to_string q" unfolding \<open>m = k\<close> by simp
      then show ?thesis by (rule profile_to_string_inj [OF pok])
    qed
  qed
  moreover have "\<exists>m. filter (\<lambda>k. extension_uri k = profile_uri p) ns = [m] \<and> filter (\<lambda>k. em_namespace_id k = em_namespace_id m) ns = [m] \<and>
      namespace_of ns p = Some (em_namespace_id m) \<and> (em_namespace_id m = 0 \<longleftrightarrow> p = standard_widgets_v1)" if n: "p |\<in>| negotiated" for p
  proof -
    obtain m where m: "m \<in> set ns" "namespace_of ns p = Some (em_namespace_id m)" "em_namespace_id m = 0 \<longleftrightarrow> p = standard_widgets_v1"
      "extension_uri m = profile_uri p" using namespace_of_advertised [OF ok, of p] neg [OF n] unfolding profile_uri_def by blast
    with distinct_key_filter [OF contract_okD(1) [OF ok]] distinct_key_filter [OF contract_okD(2) [OF ok]] show ?thesis by metis
  qed
  ultimately show ?thesis by blast
qed

section \<open>Registrations keep the contract\<close>

lemma profile_to_string_terminal: "profile_to_string terminal_v1 = TERMINAL_PROFILE_URI"
  by (simp add: profile_to_string_def terminal_v1_def PROFILE_TERMINAL_def TERMINAL_PROFILE_URI_def decimal.simps str_bytes_def byte_of_char_def)

lemma terminal_ok: "profile_ok terminal_v1" "profile_name terminal_v1 \<noteq> PROFILE_STANDARD_WIDGETS" "terminal_v1 \<noteq> standard_widgets_v1"
  using parse_ok [OF spaced_terminal_parses]
  by (simp_all add: terminal_v1_def standard_widgets_v1_def PROFILE_TERMINAL_def PROFILE_STANDARD_WIDGETS_def str_bytes_def byte_of_char_def)

lemma mapping_ok_mono: "mapping_ok caps m \<Longrightarrow> (\<And>p. advertised caps p \<Longrightarrow> advertised caps' p) \<Longrightarrow> mapping_ok caps' m"
  by (auto simp: mapping_ok_def)

text \<open>One more advertised profile, with its mapping already there or appended.\<close>

lemma contract_advertise:
  assumes ok: "contract_ok caps ns" and p: "profile_ok p" "profile_name p \<noteq> PROFILE_STANDARD_WIDGETS"
    and adv: "\<And>q. advertised caps' q \<longleftrightarrow> advertised caps q \<or> q = p"
    and m: "m \<in> set ns" "extension_uri m = profile_to_string p"
  shows "contract_ok caps' ns"
proof -
  have "em_namespace_id m \<noteq> 0" using contract_okD(4) [OF ok m(1)] m(2) profile_string_not_standard [of p]
    by (auto simp: mapping_ok_def)
  then show ?thesis unfolding contract_ok_def
    using contract_okD [OF ok] adv m p(2) mapping_ok_mono [of caps _ caps'] by blast
qed

lemma contract_append:
  assumes ok: "contract_ok caps ns" and p: "profile_ok p" "profile_name p \<noteq> PROFILE_STANDARD_WIDGETS"
    and adv: "\<And>q. advertised caps' q \<longleftrightarrow> advertised caps q \<or> q = p"
    and m: "m = \<lparr>extension_uri = profile_to_string p, em_namespace_id = n\<rparr>" "n \<noteq> 0" "n \<notin> em_namespace_id ` set ns"
      "profile_to_string p \<notin> extension_uri ` set ns"
  shows "contract_ok caps' (ns @ [m])"
proof -
  have "mapping_ok caps' m" using m(1,2) p adv by (auto simp: mapping_ok_def)
  then have maps: "mapping_ok caps' k" if "k \<in> set (ns @ [m])" for k
    using that contract_okD(4) [OF ok] adv mapping_ok_mono [of caps k caps'] by auto
  have "q = standard_widgets_v1 \<or> profile_name q \<noteq> PROFILE_STANDARD_WIDGETS \<and>
      (\<exists>k \<in> set (ns @ [m]). extension_uri k = profile_to_string q \<and> em_namespace_id k \<noteq> 0)" if "advertised caps' q" for q
  proof (cases "q = p")
    case True
    then show ?thesis using m(1,2) p(2) by simp
  next
    case False
    with that adv have "advertised caps q" by blast
    from contract_okD(5) [OF ok this] show ?thesis by auto
  qed
  moreover have "distinct (map em_namespace_id (ns @ [m]))" "distinct (map extension_uri (ns @ [m]))"
    using contract_okD(1,2) [OF ok] m by simp_all
  ultimately show ?thesis unfolding contract_ok_def using contract_okD(3) [OF ok] maps by simp
qed

lemma find_uri_None: "find (\<lambda>m. extension_uri m = u) ns = None \<longleftrightarrow> u \<notin> extension_uri ` set ns"
  by (auto simp: find_None_iff)

lemma find_uri_Some: "find (\<lambda>m. extension_uri m = u) ns = Some m \<Longrightarrow> m \<in> set ns \<and> extension_uri m = u"
  by (auto simp: find_Some_iff)

lemma register_keeps_contract:
  assumes ok: "contract_ok (s_capabilities s) (extension_namespaces s)" and p: "profile_ok p" "profile_name p \<noteq> PROFILE_STANDARD_WIDGETS"
    and run: "register_optional_extension_profile p s = (Inr n, s')"
  shows "contract_ok (s_capabilities s') (extension_namespaces s')" "namespace_of (extension_namespaces s') p = Some n"
    "prefix (extension_namespaces s) (extension_namespaces s')"
proof -
  let ?caps = "(s_capabilities s)\<lparr>cap_optional := finsert p (cap_optional (s_capabilities s))\<rparr>"
  have adv: "advertised ?caps q \<longleftrightarrow> advertised (s_capabilities s) q \<or> q = p" for q by (auto simp: advertised_def)
  have std: "p \<noteq> standard_widgets_v1" using p(2) by auto
  have "contract_ok (s_capabilities s') (extension_namespaces s') \<and> prefix (extension_namespaces s) (extension_namespaces s') \<and>
      (\<exists>m \<in> set (extension_namespaces s'). extension_uri m = profile_to_string p \<and> em_namespace_id m = n)"
  proof (cases "find (\<lambda>m. extension_uri m = profile_to_string p) (extension_namespaces s)")
    case None
    then obtain "next_extension_namespace (extension_namespaces s) = Inr n" and s': "s' = s\<lparr>s_capabilities := ?caps,
        extension_namespaces := extension_namespaces s @ [\<lparr>extension_uri = profile_to_string p, em_namespace_id = n\<rparr>]\<rparr>"
      using run by (auto simp: register_optional_extension_profile_def Let_def split: if_splits sum.splits)
    with next_extension_spec [of "extension_namespaces s" n] None show ?thesis
      using contract_append [OF ok p adv] by (auto simp: find_uri_None s')
  next
    case (Some m)
    then have s': "s' = s\<lparr>s_capabilities := ?caps\<rparr>" "n = em_namespace_id m"
      using run by (auto simp: register_optional_extension_profile_def Let_def split: if_splits)
    with find_uri_Some [OF Some] contract_advertise [OF ok p adv, of m] show ?thesis by auto
  qed
  then show "contract_ok (s_capabilities s') (extension_namespaces s')" "prefix (extension_namespaces s) (extension_namespaces s')"
    and ns: "namespace_of (extension_namespaces s') p = Some n"
    using map_of_uri [OF contract_okD(2)] std by (auto simp: namespace_of_def)
qed

lemma prepare_cases:
  assumes "prepare_terminal_type s = (Inr (t, r), s')"
  obtains n fresh where "\<not> capabilities_fixed s" "t = TypeRef n TERMINAL_LOCAL_TYPE_ID"
    "fresh = Some n \<and> next_extension_namespace (extension_namespaces s) = Inr n \<and> TERMINAL_PROFILE_URI \<notin> extension_uri ` set (extension_namespaces s) \<or>
     fresh = None \<and> (\<exists>m \<in> set (extension_namespaces s). extension_uri m = TERMINAL_PROFILE_URI \<and> em_namespace_id m = n)"
    "r = \<lparr>was_required = terminal_v1 |\<in>| cap_required (s_capabilities s),
       was_optional = terminal_v1 |\<in>| cap_optional (s_capabilities s), created_namespace = fresh\<rparr>"
    "s' = s\<lparr>s_capabilities := (s_capabilities s)\<lparr>cap_required := finsert terminal_v1 (cap_required (s_capabilities s)),
         cap_optional := cap_optional (s_capabilities s) |-| {|terminal_v1|}\<rparr>,
       extension_namespaces := extension_namespaces s @
         (case fresh of None \<Rightarrow> [] | Some c \<Rightarrow> [\<lparr>extension_uri = TERMINAL_PROFILE_URI, em_namespace_id = c\<rparr>])\<rparr>"
proof (cases "find (\<lambda>m. extension_uri m = TERMINAL_PROFILE_URI) (extension_namespaces s)")
  case None
  then have "TERMINAL_PROFILE_URI \<notin> extension_uri ` set (extension_namespaces s)" by (simp add: find_uri_None)
  with None assms show thesis
    by (auto simp: prepare_terminal_type_def Let_def result_simps split: if_splits sum.splits intro: that)
next
  case (Some m)
  with assms find_uri_Some [OF Some] show thesis
    by (auto simp: prepare_terminal_type_def Let_def split: if_splits intro!: that [of "em_namespace_id m" None])
qed

lemma prepare_keeps_contract:
  assumes ok: "contract_ok (s_capabilities s) (extension_namespaces s)" and run: "prepare_terminal_type s = (Inr (t, r), s')"
  shows "contract_ok (s_capabilities s') (extension_namespaces s')" "namespace_of (extension_namespaces s') terminal_v1 = Some (tr_namespace_id t)"
    "terminal_v1 |\<in>| cap_required (s_capabilities s')" "rollback_terminal_type [] r s' = s"
proof -
  let ?caps = "(s_capabilities s)\<lparr>cap_required := finsert terminal_v1 (cap_required (s_capabilities s)),
         cap_optional := cap_optional (s_capabilities s) |-| {|terminal_v1|}\<rparr>"
  from run obtain n fresh where f: "\<not> capabilities_fixed s" "t = TypeRef n TERMINAL_LOCAL_TYPE_ID"
    "fresh = Some n \<and> next_extension_namespace (extension_namespaces s) = Inr n \<and> TERMINAL_PROFILE_URI \<notin> extension_uri ` set (extension_namespaces s) \<or>
     fresh = None \<and> (\<exists>m \<in> set (extension_namespaces s). extension_uri m = TERMINAL_PROFILE_URI \<and> em_namespace_id m = n)"
    "r = \<lparr>was_required = terminal_v1 |\<in>| cap_required (s_capabilities s),
       was_optional = terminal_v1 |\<in>| cap_optional (s_capabilities s), created_namespace = fresh\<rparr>"
    "s' = s\<lparr>s_capabilities := ?caps, extension_namespaces := extension_namespaces s @
         (case fresh of None \<Rightarrow> [] | Some c \<Rightarrow> [\<lparr>extension_uri = TERMINAL_PROFILE_URI, em_namespace_id = c\<rparr>])\<rparr>"
    by (rule prepare_cases)
  have adv: "advertised ?caps q \<longleftrightarrow> advertised (s_capabilities s) q \<or> q = terminal_v1" for q by (auto simp: advertised_def)
  note p = terminal_ok(1,2)
  have "contract_ok (s_capabilities s') (extension_namespaces s') \<and>
      (\<exists>m \<in> set (extension_namespaces s'). extension_uri m = profile_to_string terminal_v1 \<and> em_namespace_id m = n)"
    using f(3)
  proof (elim disjE conjE)
    assume "fresh = Some n" "next_extension_namespace (extension_namespaces s) = Inr n" "TERMINAL_PROFILE_URI \<notin> extension_uri ` set (extension_namespaces s)"
    then show ?thesis using f(5) next_extension_spec [of "extension_namespaces s" n] contract_append [OF ok p adv]
      by (auto simp: profile_to_string_terminal)
  next
    assume "fresh = None" "\<exists>m \<in> set (extension_namespaces s). extension_uri m = TERMINAL_PROFILE_URI \<and> em_namespace_id m = n"
    then show ?thesis using f(5) contract_advertise [OF ok p adv] by (auto simp: profile_to_string_terminal)
  qed
  then show "contract_ok (s_capabilities s') (extension_namespaces s')" "namespace_of (extension_namespaces s') terminal_v1 = Some (tr_namespace_id t)"
    using map_of_uri [OF contract_okD(2)] terminal_ok(3) f(2) by (auto simp: namespace_of_def)
  show "terminal_v1 |\<in>| cap_required (s_capabilities s')" by (simp add: f(5))
  have "filter (\<lambda>m. em_namespace_id m \<noteq> n) (extension_namespaces s) = extension_namespaces s" if "fresh = Some n"
    using f(3) that next_extension_spec(2) [of "extension_namespaces s" n] by (auto simp: filter_id_conv)
  moreover have "fresh = None \<or> fresh = Some n" using f(3) by blast
  moreover have "finsert terminal_v1 A |-| {|terminal_v1|} = A" if "terminal_v1 |\<notin>| A" for A using that by auto
  moreover have "finsert terminal_v1 (A |-| {|terminal_v1|}) = A" if "terminal_v1 |\<in>| A" for A using that by auto
  moreover have "A |-| {|terminal_v1|} = A" if "terminal_v1 |\<notin>| A" for A using that by auto
  ultimately show "rollback_terminal_type [] r s' = s" using f(1)
    by (cases s; cases "s_capabilities s") (auto simp: f(4,5) rollback_terminal_type_def capabilities_fixed_def Let_def finsert_absorb)
qed

text \<open>
  C32: Registering extensions before the first client never breaks the handshake.  If the advertised
  contract is valid, it stays valid when an optional extension with a name of its own is registered
  and when a terminal type is prepared; the profile has the returned namespace afterwards and no
  existing mapping changes.  The rollback of a prepared terminal type restores the session exactly.
\<close>

theorem registration_keeps_contract:
  assumes "validate_extension_namespace_contract (s_capabilities s) (extension_namespaces s) = Ok ()"
  shows "(profile_ok p \<and> profile_name p \<noteq> PROFILE_STANDARD_WIDGETS \<and> register_optional_extension_profile p s = (Inr n, s1) \<longrightarrow>
      validate_extension_namespace_contract (s_capabilities s1) (extension_namespaces s1) = Ok () \<and>
      namespace_of (extension_namespaces s1) p = Some n \<and> prefix (extension_namespaces s) (extension_namespaces s1)) \<and>
    (prepare_terminal_type s = (Inr (t, r), s2) \<longrightarrow>
      validate_extension_namespace_contract (s_capabilities s2) (extension_namespaces s2) = Ok () \<and>
      namespace_of (extension_namespaces s2) terminal_v1 = Some (tr_namespace_id t) \<and>
      terminal_v1 |\<in>| cap_required (s_capabilities s2) \<and> rollback_terminal_type [] r s2 = s)"
  using assms register_keeps_contract [of s p n s1] prepare_keeps_contract [of s t r s2] by (simp add: contract_iff)

definition plain_session :: session where
  "plain_session = \<lparr>session_id = [1], s_inner = session_a, s_dedupe = dedup_default, s_capabilities = server_standard_widgets,
     s_limits = session_limits, s_resources = resource_store_new, client_resource_ceilings = fmempty,
     extension_namespaces = [standard_namespace_mapping], has_negotiated = False, outbound_hub = hub_new, outbound_queue_capacity = 1\<rparr>"

lemma plain_session_config: "with_config [1] server_standard_widgets 4 1 = Ok plain_session"
  unfolding with_config_def session_a_config plain_session_def by simp

lemma plain_contract: "contract_ok server_standard_widgets [standard_namespace_mapping]"
  by (auto simp: contract_ok_def mapping_ok_def advertised_def server_standard_widgets_def)

lemma next_namespace_first: "next_extension_namespace [standard_namespace_mapping] = Ok 1"
  by (simp add: next_extension_namespace_def next_namespace_from.simps)

theorem registration_keeps_contract_witness:
  "\<exists>t r s2. prepare_terminal_type plain_session = (Inr (t, r), s2) \<and> tr_namespace_id t = 1 \<and>
     validate_extension_namespace_contract (s_capabilities s2) (extension_namespaces s2) = Ok () \<and> rollback_terminal_type [] r s2 = plain_session"
proof -
  have u: "TERMINAL_PROFILE_URI \<noteq> PROFILE_STANDARD_WIDGETS" using profile_string_not_standard [of terminal_v1] by (simp add: profile_to_string_terminal)
  obtain t r s2 where run: "prepare_terminal_type plain_session = (Inr (t, r), s2)" "tr_namespace_id t = 1"
    using u by (simp add: prepare_terminal_type_def capabilities_fixed_def plain_session_def session_a_def next_namespace_first Let_def)
  with registration_keeps_contract [of plain_session] plain_contract show ?thesis
    by (fastforce simp: contract_iff plain_session_def)
qed

theorem namespaces_unambiguous_witness:
  "(\<exists>m. filter (\<lambda>k. extension_uri k = profile_uri standard_widgets_v1) [standard_namespace_mapping] = [m] \<and>
      namespace_of [standard_namespace_mapping] standard_widgets_v1 = Some (em_namespace_id m)) \<and>
   (\<exists>negotiated. server_negotiate server_standard_widgets {|standard_widgets_v1|} = Ok negotiated)"
proof -
  have neg: "server_negotiate server_standard_widgets {|standard_widgets_v1|} = Ok {|standard_widgets_v1|}"
    by (simp add: server_negotiate_def negotiate_iff server_standard_widgets_def)
  have "trim PROFILE_STANDARD_WIDGETS = PROFILE_STANDARD_WIDGETS"
    by (simp add: trim_def str_bytes_def byte_of_char_def white_space_def trim_start.simps trim_end.simps PROFILE_STANDARD_WIDGETS_def suffix_to_prefix)
  then have "profile_ok standard_widgets_v1" by (simp add: profile_ok_def standard_widgets_v1_def PROFILE_STANDARD_WIDGETS_def str_bytes_def)
  from parse_to_string [OF this] have "\<exists>s. profile_parse s = Ok p" if "p |\<in>| {|standard_widgets_v1|}" for p using that by auto
  from namespaces_unambiguous [OF plain_contract [folded contract_iff] neg this]
  have "\<exists>m. filter (\<lambda>k. extension_uri k = profile_uri standard_widgets_v1) [standard_namespace_mapping] = [m] \<and>
      namespace_of [standard_namespace_mapping] standard_widgets_v1 = Some (em_namespace_id m)" by blast
  with neg show ?thesis by blast
qed

text \<open>A second version of the standard widgets is registered without complaint and then fails every handshake.\<close>

lemma standard_v2_breaks_handshakes:
  "\<exists>n s'. register_optional_extension_profile (Profile PROFILE_STANDARD_WIDGETS 2) plain_session = (Inr n, s') \<and>
     validate_extension_namespace_contract (s_capabilities s') (extension_namespaces s') =
       Error (BadConfiguration (UnsupportedStandardProfile (Profile PROFILE_STANDARD_WIDGETS 2)))"
proof -
  let ?p = "Profile PROFILE_STANDARD_WIDGETS 2"
  have ne: "?p \<noteq> standard_widgets_v1" "?p \<noteq> terminal_v1" using terminal_ok(2) by (auto simp: standard_widgets_v1_def terminal_v1_def)
  let ?s = "plain_session\<lparr>s_capabilities := server_standard_widgets\<lparr>cap_optional := {|?p|}\<rparr>,
     extension_namespaces := [standard_namespace_mapping, \<lparr>extension_uri = profile_to_string ?p, em_namespace_id = 1\<rparr>]\<rparr>"
  have "register_optional_extension_profile ?p plain_session = (Inr 1, ?s)"
    using ne profile_string_not_standard [of ?p]
    by (simp add: register_optional_extension_profile_def capabilities_fixed_def plain_session_def session_a_def server_standard_widgets_def
      next_namespace_first Let_def)
  moreover have "validate_extension_namespace_contract (s_capabilities ?s) (extension_namespaces ?s) =
      Error (BadConfiguration (UnsupportedStandardProfile ?p))"
    using ne profile_string_not_standard [of ?p]
    by (simp add: validate_extension_namespace_contract_def check_standard_mapping_def check_advertised_def server_standard_widgets_def
      plain_session_def sorted_list_of_fset.rep_eq)
  ultimately show ?thesis by blast
qed

section \<open>Core versions\<close>

lemma str_split_cons: "\<exists>x xs. str_split d s = x # xs"
  by (induction s) (auto split: list.splits)

lemma str_split_first: "str_split d s = x # y # r \<longleftrightarrow> (\<exists>t. s = x @ d # t \<and> d \<notin> set x \<and> str_split d t = y # r)"
proof (induction s arbitrary: x)
  case (Cons b s)
  obtain u us where u: "str_split d s = u # us" using str_split_cons by blast
  show ?case
  proof (cases "b = d")
    case True
    then show ?thesis by (cases x) auto
  next
    case False
    with u Cons.IH [of "tl x"] show ?thesis by (cases x) (auto simp: Cons_eq_append_conv)
  qed
qed simp

lemma str_split_one: "str_split d s = [x] \<longleftrightarrow> s = x \<and> d \<notin> set x"
proof (induction s arbitrary: x)
  case Nil
  then show ?case by auto
next
  case (Cons b s)
  obtain u us where "str_split d s = u # us" using str_split_cons by blast
  with Cons.IH [of "tl x"] Cons.IH [of u] show ?case by (cases x) auto
qed

text \<open>
  A core version is served if and only if it is 0.5, with or without anything behind a second dot; in particular
  the empty version is refused.
\<close>

theorem core_version_exact:
  "core_version_is_compatible v \<longleftrightarrow> v = str_bytes ''0.5'' \<or> prefix (str_bytes ''0.5.'') v"
proof -
  have core: "major_minor CORE_VERSION = Some (str_bytes ''0'', str_bytes ''5'')"
    by (simp add: major_minor_def CORE_VERSION_def str_bytes_def byte_of_char_def numeric_def is_ascii_digit_def)
  have num: "numeric (str_bytes ''0'')" "numeric (str_bytes ''5'')"
    by (simp_all add: numeric_def str_bytes_def byte_of_char_def is_ascii_digit_def)
  have a: "core_version_is_compatible v \<longleftrightarrow> (\<exists>r. str_split 46 v = str_bytes ''0'' # str_bytes ''5'' # r)"
    unfolding core_version_is_compatible_def core using num
    by (auto simp: major_minor_def split: option.splits list.splits if_splits)
  have b: "(\<exists>r. str_split 46 v = str_bytes ''0'' # str_bytes ''5'' # r) \<longleftrightarrow>
      (\<exists>t. v = str_bytes ''0.'' @ t \<and> (\<exists>r. str_split 46 t = str_bytes ''5'' # r))"
    unfolding str_split_first by (auto simp: str_bytes_def byte_of_char_def)
  have c: "(\<exists>r. str_split 46 t = str_bytes ''5'' # r) \<longleftrightarrow> t = str_bytes ''5'' \<or> (\<exists>u. t = str_bytes ''5.'' @ u)" for t
  proof -
    have "(\<exists>r. str_split 46 t = str_bytes ''5'' # r) \<longleftrightarrow> str_split 46 t = [str_bytes ''5''] \<or> (\<exists>y r. str_split 46 t = str_bytes ''5'' # y # r)"
      by (metis neq_Nil_conv)
    then show ?thesis unfolding str_split_first str_split_one using str_split_cons
      by (auto simp: str_bytes_def byte_of_char_def)
  qed
  have "(\<exists>t. v = str_bytes ''0.'' @ t \<and> (t = str_bytes ''5'' \<or> (\<exists>u. t = str_bytes ''5.'' @ u))) \<longleftrightarrow>
      v = str_bytes ''0.5'' \<or> prefix (str_bytes ''0.5.'') v"
    by (auto simp: str_bytes_def byte_of_char_def prefix_def)
  then show ?thesis unfolding a b c .
qed

end
