(* ===== verification/Pending_Edits.thy ===== *)
theory Pending_Edits
  imports Extensions
begin

text \<open>
  Bounded identities of events (\<^verbatim>\<open>sessiond/src/session.rs\<close>) and the text edits a resuming client
  reports as pending (\<^verbatim>\<open>sessiond/src/session/text_edit.rs\<close>).  SHA-256 is a parameter.  The log lines
  have no effect on the result, so the mismatch that is only logged is left out.
\<close>

section \<open>Bounded identities\<close>

definition MAX_EVENT_ID_BYTES :: usize where
  "MAX_EVENT_ID_BYTES = 64"

definition OVERSIZED_EVENT_DIGEST_BYTES :: usize where
  "OVERSIZED_EVENT_DIGEST_BYTES = 16"

text \<open>The loop that searches backwards for a character boundary.\<close>

fun floor_boundary :: "u8 list \<Rightarrow> nat \<Rightarrow> nat" where
  "floor_boundary s 0 = 0"
| "floor_boundary s (Suc i) = (if is_char_boundary s (Suc i) then Suc i else floor_boundary s i)"

definition bound_diagnostic_string :: "u8 list \<Rightarrow> usize \<Rightarrow> u8 list" where
  "bound_diagnostic_string s max_len = (if length s \<le> max_len then s else take (floor_boundary s max_len) s)"

definition to_be_bytes :: "u64 \<Rightarrow> u8 list" where
  "to_be_bytes x = map (\<lambda>i. ucast (drop_bit (8 * (7 - i)) x)) [0..<8]"

definition oversized_event_digest :: "(u8 list \<Rightarrow> u8 list) \<Rightarrow> bytes \<Rightarrow> u8 list" where
  "oversized_event_digest sha256 event_id = take OVERSIZED_EVENT_DIGEST_BYTES (sha256 event_id)"

definition oversized_event_dedupe_id :: "(u8 list \<Rightarrow> u8 list) \<Rightarrow> u64 \<Rightarrow> bytes \<Rightarrow> bytes" where
  "oversized_event_dedupe_id sha256 sequence event_id =
     to_be_bytes sequence @ oversized_event_digest sha256 event_id @
     replicate (MAX_EVENT_ID_BYTES + 1 - (8 + OVERSIZED_EVENT_DIGEST_BYTES)) 0xFF"

definition bounded_rejected_event_id :: "(u8 list \<Rightarrow> u8 list) \<Rightarrow> u64 \<Rightarrow> bytes \<Rightarrow> bytes" where
  "bounded_rejected_event_id sha256 sequence event_id =
     str_bytes ''srui-rejected-oversized:'' @ to_be_bytes sequence @ oversized_event_digest sha256 event_id"

definition bounded_event_id_for_response :: "(u8 list \<Rightarrow> u8 list) \<Rightarrow> event \<Rightarrow> bytes" where
  "bounded_event_id_for_response sha256 e =
     (if length (ev_event_id e) \<le> MAX_EVENT_ID_BYTES then ev_event_id e
      else bounded_rejected_event_id sha256 (ev_event_seq e) (ev_event_id e))"

definition oversized_event_placeholder :: "(u8 list \<Rightarrow> u8 list) \<Rightarrow> event \<Rightarrow> event" where
  "oversized_event_placeholder sha256 e =
     \<lparr>ev_client_instance_id = ev_client_instance_id e,
      ev_event_id = oversized_event_dedupe_id sha256 (ev_event_seq e) (ev_event_id e),
      ev_event_seq = ev_event_seq e, ev_event_type = ev_event_type e\<rparr>"

section \<open>Pending edits of a resume\<close>

record pending_text_edit_ref =
  pr_event_id :: bytes
  pr_event_seq :: u64
  pr_node_id :: u64
  pr_edit_seq :: u64

record validated_pending_text_edit_ref =
  vp_reference :: pending_text_edit_ref
  vp_dedupe_event_id :: bytes
  vp_edit_seq :: u64

definition dedupe_event_id :: "(u8 list \<Rightarrow> u8 list) \<Rightarrow> pending_text_edit_ref \<Rightarrow> bytes" where
  "dedupe_event_id sha256 r =
     (if length (pr_event_id r) > MAX_EVENT_ID_BYTES
      then oversized_event_dedupe_id sha256 (pr_event_seq r) (pr_event_id r) else pr_event_id r)"

definition response_event_id :: "(u8 list \<Rightarrow> u8 list) \<Rightarrow> pending_text_edit_ref \<Rightarrow> bytes" where
  "response_event_id sha256 r =
     (if length (pr_event_id r) > MAX_EVENT_ID_BYTES
      then bounded_rejected_event_id sha256 (pr_event_seq r) (pr_event_id r) else pr_event_id r)"

fun validate_refs ::
  "(u8 list \<Rightarrow> u8 list) \<Rightarrow> bytes fset \<Rightarrow> bytes fset \<Rightarrow> pending_text_edit_ref list \<Rightarrow>
   (session_error, validated_pending_text_edit_ref list) result" where
  "validate_refs sha256 dedupe_ids response_ids [] = Ok []"
| "validate_refs sha256 dedupe_ids response_ids (r # rs) =
     (let d = dedupe_event_id sha256 r; x = response_event_id sha256 r
      in if pr_event_id r = [] \<or> pr_event_seq r = 0 then Error (InvalidInput PendingTextEditIncomplete)
         else if d |\<in>| dedupe_ids \<or> x |\<in>| response_ids then Error (InvalidInput PendingTextEditRepeated)
         else if pr_edit_seq r = 0 then Error (InvalidInput PendingTextEditWithoutEditSeq)
         else and_then (validate_refs sha256 (finsert d dedupe_ids) (finsert x response_ids) rs) (\<lambda>vs.
           Ok (\<lparr>vp_reference = r\<lparr>pr_event_id := x\<rparr>, vp_dedupe_event_id = d, vp_edit_seq = pr_edit_seq r\<rparr> # vs)))"

definition validate_pending_text_edit_refs ::
  "(u8 list \<Rightarrow> u8 list) \<Rightarrow> pending_text_edit_ref list \<Rightarrow> (session_error, validated_pending_text_edit_ref list) result" where
  "validate_pending_text_edit_refs sha256 refs =
     (if length refs > MAX_TEXT_EDIT_STREAMS then Error (InvalidInput (TooManyPendingTextEdits (length refs)))
      else validate_refs sha256 {||} {||} refs)"

text \<open>The registry entry \<^verbatim>\<open>TEXT_EDIT\<close> (id 5 of the events of \<^verbatim>\<open>protocol/registry.yaml\<close>).\<close>

definition EVENT_TEXT_EDIT :: event_type where
  "EVENT_TEXT_EDIT = Some (0, 5)"

record pending_text_edit_cancellation =
  staged_dedupe :: event_deduplicator
  discarded :: "pending_text_edit_ref list"

definition canceled_outcome :: "semantic_store \<Rightarrow> event_outcome_record" where
  "canceled_outcome st =
     \<lparr>accepted = False, revision_after_effect = revision st,
      reject_reason = bound_diagnostic_string (str_bytes ''canceled on same-session resync'') (max_string_length (limits st))\<rparr>"

definition pending_placeholder :: "client_id \<Rightarrow> validated_pending_text_edit_ref \<Rightarrow> event" where
  "pending_placeholder c v =
     \<lparr>ev_client_instance_id = c, ev_event_id = vp_dedupe_event_id v, ev_event_seq = pr_event_seq (vp_reference v),
      ev_event_type = EVENT_TEXT_EDIT\<rparr>"

definition cancel_one ::
  "client_id \<Rightarrow> event_outcome_record \<Rightarrow> validated_pending_text_edit_ref \<Rightarrow> pending_text_edit_cancellation \<Rightarrow>
   pending_text_edit_cancellation" where
  "cancel_one c out v p =
     (let e = pending_placeholder c v;
          d = (case admit_event e (staged_dedupe p) of
                 (Inr (Fresh _), d) \<Rightarrow> snd (settle_event e out d)
               | (_, d) \<Rightarrow> d)
      in \<lparr>staged_dedupe = d, discarded = discarded p @ [vp_reference v]\<rparr>)"

definition prepare_pending_text_edit_cancellation ::
  "session \<Rightarrow> client_id \<Rightarrow> validated_pending_text_edit_ref list \<Rightarrow> pending_text_edit_cancellation" where
  "prepare_pending_text_edit_cancellation s c refs =
     fold (cancel_one c (canceled_outcome (si_store (s_inner s)))) refs \<lparr>staged_dedupe = s_dedupe s, discarded = []\<rparr>"

definition cancellation_frontier :: "pending_text_edit_cancellation \<Rightarrow> client_id \<Rightarrow> u64" where
  "cancellation_frontier p c = dedup_frontier (staged_dedupe p) c"

definition cancellation_commit :: "pending_text_edit_cancellation \<Rightarrow> session \<Rightarrow> session" where
  "cancellation_commit p s = s\<lparr>s_dedupe := staged_dedupe p\<rparr>"

section \<open>Identities stay distinct\<close>

lemma length_to_be_bytes [simp]: "length (to_be_bytes x) = 8"
  by (simp add: to_be_bytes_def)

lemma byte_of_bit: "bit (ucast (drop_bit (8 * j) x) :: u8) n \<longleftrightarrow> n < 8 \<and> bit x (8 * j + n)" for x :: u64
  by (auto simp: bit_simps add.commute)

lemma to_be_bytes_inj: "to_be_bytes x = to_be_bytes y \<Longrightarrow> x = y"
proof (rule bit_word_eqI)
  fix n assume eq: "to_be_bytes x = to_be_bytes y" and n: "n < LENGTH(64)"
  let ?i = "7 - n div 8"
  have i: "?i < 8" "8 * (7 - ?i) + n mod 8 = n" using n by auto
  have "(ucast (drop_bit (8 * (7 - ?i)) x) :: u8) = ucast (drop_bit (8 * (7 - ?i)) y)"
    using arg_cong [OF eq, of "\<lambda>l. l ! ?i"] i(1) by (simp add: to_be_bytes_def del: diff_diff_cancel)
  from arg_cong [OF this, of "\<lambda>w. bit w (n mod 8)"] show "bit x n = bit y n" using i(2) by (simp add: byte_of_bit del: diff_diff_cancel)
qed

lemma floor_boundary_spec: "floor_boundary s i \<le> i \<and> (floor_boundary s i = 0 \<or> is_char_boundary s (floor_boundary s i))"
  by (induction i) auto

text \<open>A diagnostic never exceeds its bound and is cut between characters.\<close>

lemma bound_diagnostic_spec:
  "length (bound_diagnostic_string s n) \<le> n \<and> prefix (bound_diagnostic_string s n) s \<and>
   (length s \<le> n \<longrightarrow> bound_diagnostic_string s n = s)"
  using floor_boundary_spec [of s n] by (auto simp: bound_diagnostic_string_def take_is_prefix min.coboundedI2)

definition digest_ok :: "(u8 list \<Rightarrow> u8 list) \<Rightarrow> bool" where
  "digest_ok sha256 \<longleftrightarrow> (\<forall>x. length (sha256 x) = 32)"

lemma digest_length: "digest_ok sha256 \<Longrightarrow> length (oversized_event_digest sha256 x) = 16"
  by (simp add: digest_ok_def oversized_event_digest_def OVERSIZED_EVENT_DIGEST_BYTES_def)

lemma oversized_lengths:
  assumes "digest_ok sha256"
  shows "length (oversized_event_dedupe_id sha256 n x) = MAX_EVENT_ID_BYTES + 1" "length (bounded_rejected_event_id sha256 n x) = 48"
  using digest_length [OF assms]
  by (simp_all add: oversized_event_dedupe_id_def bounded_rejected_event_id_def MAX_EVENT_ID_BYTES_def OVERSIZED_EVENT_DIGEST_BYTES_def str_bytes_def)

lemma oversized_eq_iff:
  assumes "digest_ok sha256"
  shows "oversized_event_dedupe_id sha256 n x = oversized_event_dedupe_id sha256 m y \<longleftrightarrow>
      n = m \<and> oversized_event_digest sha256 x = oversized_event_digest sha256 y"
    "bounded_rejected_event_id sha256 n x = bounded_rejected_event_id sha256 m y \<longleftrightarrow>
      n = m \<and> oversized_event_digest sha256 x = oversized_event_digest sha256 y"
  using to_be_bytes_inj digest_length [OF assms]
  by (auto simp: oversized_event_dedupe_id_def bounded_rejected_event_id_def)

lemma dedupe_event_id_eq:
  assumes "digest_ok sha256" "dedupe_event_id sha256 r = dedupe_event_id sha256 q"
  shows "pr_event_id r = pr_event_id q \<or>
    MAX_EVENT_ID_BYTES < length (pr_event_id r) \<and> MAX_EVENT_ID_BYTES < length (pr_event_id q) \<and> pr_event_seq r = pr_event_seq q \<and>
      oversized_event_digest sha256 (pr_event_id r) = oversized_event_digest sha256 (pr_event_id q)"
proof -
  let ?big = "\<lambda>r. MAX_EVENT_ID_BYTES < length (pr_event_id r)"
  have len: "length (dedupe_event_id sha256 r) = MAX_EVENT_ID_BYTES + 1 \<longleftrightarrow> ?big r \<or> length (pr_event_id r) = MAX_EVENT_ID_BYTES + 1" for r
    using oversized_lengths(1) [OF assms(1)] by (simp add: dedupe_event_id_def)
  have "?big r = ?big q" using len [of r] len [of q] assms(2) by auto
  then show ?thesis using assms(2) oversized_eq_iff(1) [OF assms(1)] by (cases "?big r") (simp_all add: dedupe_event_id_def)
qed

lemma validate_refs_Ok:
  assumes "validate_refs sha256 ds xs refs = Inr vs"
  shows "map vp_reference vs = map (\<lambda>r. r\<lparr>pr_event_id := response_event_id sha256 r\<rparr>) refs \<and>
    map vp_dedupe_event_id vs = map (dedupe_event_id sha256) refs \<and> map vp_edit_seq vs = map pr_edit_seq refs \<and>
    distinct (map (dedupe_event_id sha256) refs) \<and> distinct (map (response_event_id sha256) refs) \<and>
    (\<forall>r \<in> set refs. pr_event_id r \<noteq> [] \<and> pr_event_seq r \<noteq> 0 \<and> pr_edit_seq r \<noteq> 0 \<and>
       dedupe_event_id sha256 r |\<notin>| ds \<and> response_event_id sha256 r |\<notin>| xs)"
  using assms
proof (induction refs arbitrary: ds xs vs)
  case (Cons r refs)
  then obtain us where u: "validate_refs sha256 (finsert (dedupe_event_id sha256 r) ds) (finsert (response_event_id sha256 r) xs) refs = Inr us"
    and v: "vs = \<lparr>vp_reference = r\<lparr>pr_event_id := response_event_id sha256 r\<rparr>, vp_dedupe_event_id = dedupe_event_id sha256 r,
      vp_edit_seq = pr_edit_seq r\<rparr> # us" and g: "pr_event_id r \<noteq> []" "pr_event_seq r \<noteq> 0" "pr_edit_seq r \<noteq> 0"
      "dedupe_event_id sha256 r |\<notin>| ds" "response_event_id sha256 r |\<notin>| xs"
    by (auto simp: Let_def result_simps split: if_splits)
  from Cons.IH [OF u] v g show ?case by auto
qed simp

section \<open>Cancellation\<close>

text \<open>
  What a deduplicator remembers before and after operations of client \<open>c\<close>: that client and those still tracked
  lose no settled number, and no other client gains one.
\<close>

definition remembers :: "client_id \<Rightarrow> event_deduplicator \<Rightarrow> (bytes \<Rightarrow> u64 set) \<Rightarrow> event_deduplicator \<Rightarrow> (bytes \<Rightarrow> u64 set) \<Rightarrow> bool" where
  "remembers c d T d' T' \<longleftrightarrow> (\<forall>x. tracked d' x \<longrightarrow> x = c \<or> tracked d x) \<and> (\<forall>x. tracked d' x \<longrightarrow> T x \<subseteq> T' x) \<and>
     (\<forall>x. x \<noteq> c \<longrightarrow> T' x \<subseteq> T x) \<and> (T c = {} \<or> tracked d' c)"

lemma remembers_trans: "remembers c d T d1 T1 \<Longrightarrow> remembers c d1 T1 d2 T2 \<Longrightarrow> remembers c d T d2 T2"
  unfolding remembers_def by (smt (verit) subset_empty subset_trans empty_subsetI)

lemma admit_remembers:
  assumes "dedup_run d T" "admit_event e d = (r, d')"
  shows "remembers (ev_client_instance_id e) d T d' (forget d' T)"
  using dedup_run_ok [OF assms(1)] admit_event_tracked [OF _ _ assms(2), of T] by (auto simp: remembers_def forget_def)

lemma settle_remembers:
  assumes "dedup_run d T" "settle_event e out d = (k, d')"
  shows "remembers (ev_client_instance_id e) d T d' (T(ev_client_instance_id e := T (ev_client_instance_id e) \<union> settled_now d e))"
  using dedup_run_ok [OF assms(1)] settle_event_spec [OF _ assms(2), of T] by (auto simp: remembers_def)

lemma cancel_one_spec:
  assumes run: "dedup_run (staged_dedupe p) T"
  obtains T' where "dedup_run (staged_dedupe (cancel_one c out v p)) T'"
    "remembers c (staged_dedupe p) T (staged_dedupe (cancel_one c out v p)) T'"
    "discarded (cancel_one c out v p) = discarded p @ [vp_reference v]"
    "\<And>x i. is_in_flight (staged_dedupe p) x i \<Longrightarrow> is_in_flight (staged_dedupe (cancel_one c out v p)) x i"
proof -
  let ?e = "pending_placeholder c v"
  have c: "ev_client_instance_id ?e = c" by (simp add: pending_placeholder_def)
  obtain r d where ad: "admit_event ?e (staged_dedupe p) = (r, d)" by fastforce
  note step = dedup_run.admits [OF run ad] and rem = admit_remembers [OF run ad, unfolded c]
  have keep: "is_in_flight d x i" if "is_in_flight (staged_dedupe p) x i" for x i by (rule admit_event_in_flight [OF that ad])
  show thesis
  proof (cases "\<exists>k. r = Ok (Fresh k)")
    case True
    then obtain k where r: "r = Ok (Fresh k)" by blast
    obtain n d' where st: "settle_event ?e out d = (n, d')" by fastforce
    have c': "cancel_one c out v p = \<lparr>staged_dedupe = d', discarded = discarded p @ [vp_reference v]\<rparr>"
      by (simp add: cancel_one_def ad r st Let_def)
    have "is_in_flight d' x i" if fl: "is_in_flight (staged_dedupe p) x i" for x i
    proof (rule settle_event_in_flight [OF keep [OF fl] st])
      show "(ev_client_instance_id ?e, ev_event_id ?e) \<noteq> (x, i)" using fresh_entry [OF ad [unfolded r]] fl by auto
    qed
    then show thesis
      using that dedup_run.settles [OF step st] remembers_trans [OF rem settle_remembers [OF step st, unfolded c]] by (simp add: c' c)
  next
    case False
    then have "cancel_one c out v p = \<lparr>staged_dedupe = d, discarded = discarded p @ [vp_reference v]\<rparr>"
      by (auto simp: cancel_one_def ad Let_def split: sum.splits record_outcome.splits)
    then show thesis using that step keep rem by simp
  qed
qed

lemma cancel_all_spec:
  assumes "dedup_run (staged_dedupe p) T"
  shows "\<exists>T'. dedup_run (staged_dedupe (fold (cancel_one c out) vs p)) T' \<and>
    remembers c (staged_dedupe p) T (staged_dedupe (fold (cancel_one c out) vs p)) T' \<and>
    discarded (fold (cancel_one c out) vs p) = discarded p @ map vp_reference vs \<and>
    (\<forall>x i. is_in_flight (staged_dedupe p) x i \<longrightarrow> is_in_flight (staged_dedupe (fold (cancel_one c out) vs p)) x i)"
  using assms
proof (induction vs arbitrary: p T)
  case Nil
  then show ?case using dedup_run_ok [OF Nil] by (auto simp: remembers_def)
next
  case (Cons v vs)
  obtain T' where one: "dedup_run (staged_dedupe (cancel_one c out v p)) T'"
    "remembers c (staged_dedupe p) T (staged_dedupe (cancel_one c out v p)) T'"
    "discarded (cancel_one c out v p) = discarded p @ [vp_reference v]"
    "\<And>x i. is_in_flight (staged_dedupe p) x i \<Longrightarrow> is_in_flight (staged_dedupe (cancel_one c out v p)) x i"
    by (rule cancel_one_spec [OF Cons.prems]) blast
  from Cons.IH [OF one(1)] one(2-4) show ?case using remembers_trans by fastforce
qed

text \<open>
  C27: A resume that cancels pending edits is safe.  SHA-256 gives 32 bytes.  The identities are bounded whatever the client
  sends: an echoed identifier has at most 64 bytes.  The marker does not confuse identities: two references, accepted or
  not, have the same identity in the deduplicator only if their identifiers are equal, or both are longer than 64 bytes and agree in sequence
  number and digest; an accepted list repeats no identity.  The cancellation answers every reference, in order.  It ends in a
  reachable state of the deduplicator, and the history survives: the resuming client and every client still
  tracked keep all the numbers they have settled, so none of these is admitted again, and no number of another
  client is settled.  An edit that is being processed stays in flight: it is never settled behind the back of its policy.
\<close>

theorem pending_cancellation_safe:
  assumes "validate_pending_text_edit_refs sha256 refs = Ok vs" and "digest_ok sha256" and "dedup_run (s_dedupe s) T"
  shows "let p = prepare_pending_text_edit_cancellation s c vs in
    discarded p = map (\<lambda>r. r\<lparr>pr_event_id := response_event_id sha256 r\<rparr>) refs \<and>
    (\<forall>r \<in> set (discarded p). length (pr_event_id r) \<le> MAX_EVENT_ID_BYTES) \<and>
    (\<forall>r q. dedupe_event_id sha256 r = dedupe_event_id sha256 q \<longrightarrow> pr_event_id r = pr_event_id q \<or>
       MAX_EVENT_ID_BYTES < length (pr_event_id r) \<and> MAX_EVENT_ID_BYTES < length (pr_event_id q) \<and> pr_event_seq r = pr_event_seq q \<and>
         oversized_event_digest sha256 (pr_event_id r) = oversized_event_digest sha256 (pr_event_id q)) \<and>
    map vp_dedupe_event_id vs = map (dedupe_event_id sha256) refs \<and>
    distinct (map vp_dedupe_event_id vs) \<and> distinct (map pr_event_id (discarded p)) \<and>
    (\<exists>T'. dedup_run (staged_dedupe p) T' \<and> (\<forall>x. x = c \<or> tracked (staged_dedupe p) x \<longrightarrow> T x \<subseteq> T' x) \<and> (\<forall>x. x \<noteq> c \<longrightarrow> T' x \<subseteq> T x)) \<and>
    (\<forall>x i. is_in_flight (s_dedupe s) x i \<longrightarrow> is_in_flight (staged_dedupe p) x i)"
proof -
  have v: "validate_refs sha256 {||} {||} refs = Inr vs"
    using assms(1) by (simp add: validate_pending_text_edit_refs_def split: if_splits)
  note vs = validate_refs_Ok [OF v]
  let ?p = "prepare_pending_text_edit_cancellation s c vs"
  obtain T' where all: "dedup_run (staged_dedupe ?p) T'" "remembers c (s_dedupe s) T (staged_dedupe ?p) T'"
    "discarded ?p = map vp_reference vs" "\<forall>x i. is_in_flight (s_dedupe s) x i \<longrightarrow> is_in_flight (staged_dedupe ?p) x i"
    using cancel_all_spec [of "\<lparr>staged_dedupe = s_dedupe s, discarded = []\<rparr>" T] assms(3)
    unfolding prepare_pending_text_edit_cancellation_def by fastforce
  have run: "\<exists>T'. dedup_run (staged_dedupe ?p) T' \<and> (\<forall>x. x = c \<or> tracked (staged_dedupe ?p) x \<longrightarrow> T x \<subseteq> T' x) \<and> (\<forall>x. x \<noteq> c \<longrightarrow> T' x \<subseteq> T x)"
  proof (intro exI conjI)
    show "\<forall>x. x = c \<or> tracked (staged_dedupe ?p) x \<longrightarrow> T x \<subseteq> T' x" using all(2) by (auto simp: remembers_def)
  qed (use all(1,2) in \<open>simp_all add: remembers_def\<close>)
  have "length (response_event_id sha256 r) \<le> MAX_EVENT_ID_BYTES" for r
    using oversized_lengths(2) [OF assms(2)] by (simp add: response_event_id_def MAX_EVENT_ID_BYTES_def)
  moreover have "map pr_event_id (discarded ?p) = map (response_event_id sha256) refs" using all(3) vs by (simp add: comp_def)
  ultimately have ids: "discarded ?p = map (\<lambda>r. r\<lparr>pr_event_id := response_event_id sha256 r\<rparr>) refs"
    "\<forall>r \<in> set (discarded ?p). length (pr_event_id r) \<le> MAX_EVENT_ID_BYTES" "distinct (map pr_event_id (discarded ?p))"
    using all(3) vs by (auto simp: comp_def)
  have eqs: "\<forall>r q. dedupe_event_id sha256 r = dedupe_event_id sha256 q \<longrightarrow> pr_event_id r = pr_event_id q \<or>
       MAX_EVENT_ID_BYTES < length (pr_event_id r) \<and> MAX_EVENT_ID_BYTES < length (pr_event_id q) \<and> pr_event_seq r = pr_event_seq q \<and>
         oversized_event_digest sha256 (pr_event_id r) = oversized_event_digest sha256 (pr_event_id q)"
    using dedupe_event_id_eq [OF assms(2)] by blast
  have "map vp_dedupe_event_id vs = map (dedupe_event_id sha256) refs" "distinct (map vp_dedupe_event_id vs)" using vs by simp_all
  with ids eqs run all(4) show ?thesis unfolding Let_def by (intro conjI)
qed

definition long_ref :: pending_text_edit_ref where
  "long_ref = \<lparr>pr_event_id = replicate 65 7, pr_event_seq = 1, pr_node_id = 4, pr_edit_seq = 1\<rparr>"

theorem pending_cancellation_safe_witness:
  "\<exists>vs. validate_pending_text_edit_refs (\<lambda>_. replicate 32 0) [long_ref] = Ok vs \<and>
    (let p = prepare_pending_text_edit_cancellation plain_session [1] vs
     in length (discarded p) = 1 \<and> (\<forall>r \<in> set (discarded p). length (pr_event_id r) \<le> MAX_EVENT_ID_BYTES))"
proof -
  obtain vs where v: "validate_pending_text_edit_refs (\<lambda>_. replicate 32 0) [long_ref] = Ok vs"
    by (simp add: validate_pending_text_edit_refs_def MAX_TEXT_EDIT_STREAMS_def long_ref_def)
  have "dedup_run (s_dedupe plain_session) (\<lambda>_. {})"
    using dedup_run.init by (simp add: plain_session_def dedup_default_def dedup_new_def)
  from pending_cancellation_safe [OF v _ this, of "[1]"] have "length (discarded (prepare_pending_text_edit_cancellation plain_session [1] vs)) = 1"
    "\<forall>r \<in> set (discarded (prepare_pending_text_edit_cancellation plain_session [1] vs)). length (pr_event_id r) \<le> MAX_EVENT_ID_BYTES"
    unfolding Let_def by (auto simp: digest_ok_def)
  with v show ?thesis unfolding Let_def by blast
qed

end
