(* ===== verification/Event_Wire.thy ===== *)
theory Event_Wire
  imports Pending_Edits
begin

text \<open>
  Events of clients: the domain type and its validation against the store, \<^verbatim>\<open>semantic-tree/src/event.rs\<close>,
  and the conversion from and to the message, \<^verbatim>\<open>semantic-tree/src/wire.rs\<close>.  The arguments of an event
  are a \<open>HashMap\<close>; they are written in the order of their references.
\<close>

section \<open>The registry\<close>

text \<open>Entries of \<^verbatim>\<open>protocol/registry.yaml\<close>, from which the constants of \<^verbatim>\<open>TypeRef\<close> and \<^verbatim>\<open>PropertyRef\<close> are generated.\<close>

definition TEXT_INPUT :: type_ref where
  "TEXT_INPUT = standard_type 13"

definition TEXT_AREA :: type_ref where
  "TEXT_AREA = standard_type 14"

definition TEXT_EDIT :: type_ref where
  "TEXT_EDIT = standard_type 5"

definition ACTIVATE :: type_ref where
  "ACTIVATE = standard_type 1"

definition VALUE_CHANGED :: type_ref where
  "VALUE_CHANGED = standard_type 2"

definition SELECTION_CHANGED :: type_ref where
  "SELECTION_CHANGED = standard_type 3"

definition EXPANSION_CHANGED :: type_ref where
  "EXPANSION_CHANGED = standard_type 4"

definition VIEWPORT_CHANGED :: type_ref where
  "VIEWPORT_CHANGED = standard_type 6"

definition ENABLED :: property_ref where
  "ENABLED = standard_property 7"

definition READ_ONLY :: property_ref where
  "READ_ONLY = standard_property 8"

definition VALIDATION_STATE :: property_ref where
  "VALIDATION_STATE = standard_property 11"

definition TEXT :: property_ref where
  "TEXT = standard_property 12"

definition VALUE :: property_ref where
  "VALUE = standard_property 13"

section \<open>Events\<close>

record semantic_event =
  se_client_instance_id :: "bytes option"
  se_event_seq :: u64
  se_event_id :: bytes
  se_observed_revision :: u64
  se_node_id :: node_id
  se_event_type :: type_ref
  se_arguments :: "(property_ref, value_t) fmap"
  se_edit_seq :: "u64 option"

record wire_event =
  we_client_instance_id :: bytes
  we_event_seq :: u64
  we_event_id :: bytes
  we_observed_revision :: u64
  we_node_id :: u64
  we_event_type :: "type_ref option"
  we_arguments :: "wire_property list"
  we_edit_seq :: u64

datatype event_wire_error =
    EventIdMissing
  | EventIdTooLong usize
  | EventTypeMissing
  | EditSeqRequired
  | EditSeqUnexpected
  | EventValueConversion value_conversion_error
  | NodeTypeMissing
  | NotCreateNode

definition event_id_try_new :: "bytes \<Rightarrow> (event_wire_error, bytes) result" where
  "event_id_try_new b = (if length b > MAX_EVENT_ID_BYTES then Error (EventIdTooLong (length b)) else Ok b)"

text \<open>A positive number; 0 is absent on the wire.\<close>

definition edit_seq_new :: "u64 \<Rightarrow> u64 option" where
  "edit_seq_new n = (if n = 0 then None else Some n)"

definition edit_seq_from_wire :: "type_ref \<Rightarrow> u64 \<Rightarrow> (event_wire_error, u64 option) result" where
  "edit_seq_from_wire ty n =
     (if ty = TEXT_EDIT then and_then (ok_or EditSeqRequired (edit_seq_new n)) (\<lambda>x. Ok (Some x))
      else if n = 0 then Ok None
      else Error EditSeqUnexpected)"

definition event_from_wire :: "wire_event \<Rightarrow> (event_wire_error, semantic_event) result" where
  "event_from_wire w =
     (if we_event_id w = [] then Error EventIdMissing
      else and_then (event_id_try_new (we_event_id w)) (\<lambda>event_id.
           and_then (ok_or EventTypeMissing (we_event_type w)) (\<lambda>ty.
           and_then (edit_seq_from_wire ty (we_edit_seq w)) (\<lambda>edit_seq.
           and_then (map_err EventValueConversion (traverse property_from_wire (we_arguments w))) (\<lambda>ps.
             Ok \<lparr>se_client_instance_id = (if we_client_instance_id w = [] then None else Some (we_client_instance_id w)),
                se_event_seq = we_event_seq w, se_event_id = event_id, se_observed_revision = we_observed_revision w,
                se_node_id = we_node_id w, se_event_type = ty, se_arguments = collect_properties ps fmempty,
                se_edit_seq = edit_seq\<rparr>)))))"

definition event_to_wire :: "semantic_event \<Rightarrow> wire_event" where
  "event_to_wire e =
     \<lparr>we_client_instance_id = (case se_client_instance_id e of Some c \<Rightarrow> c | None \<Rightarrow> []), we_event_seq = se_event_seq e,
      we_event_id = se_event_id e, we_observed_revision = se_observed_revision e, we_node_id = se_node_id e,
      we_event_type = Some (se_event_type e), we_arguments = map property_to_wire (sorted_list_of_fmap (se_arguments e)),
      we_edit_seq = (case se_edit_seq e of Some n \<Rightarrow> n | None \<Rightarrow> 0)\<rparr>"

section \<open>Building and reading events\<close>

definition event_new ::
  "bytes option \<Rightarrow> u64 \<Rightarrow> bytes \<Rightarrow> u64 \<Rightarrow> node_id \<Rightarrow> type_ref \<Rightarrow> (property_ref \<times> value_t) list \<Rightarrow> semantic_event" where
  "event_new c seq eid observed n ty args =
     \<lparr>se_client_instance_id = c, se_event_seq = seq, se_event_id = eid, se_observed_revision = observed, se_node_id = n,
      se_event_type = ty, se_arguments = collect_properties args fmempty, se_edit_seq = None\<rparr>"

definition activate :: "u64 \<Rightarrow> bytes \<Rightarrow> u64 \<Rightarrow> node_id \<Rightarrow> semantic_event" where
  "activate seq eid observed n = event_new None seq eid observed n ACTIVATE []"

definition value_changed :: "u64 \<Rightarrow> bytes \<Rightarrow> u64 \<Rightarrow> node_id \<Rightarrow> value_t \<Rightarrow> semantic_event" where
  "value_changed seq eid observed n v = event_new None seq eid observed n VALUE_CHANGED [(VALUE, v)]"

definition selection_changed :: "u64 \<Rightarrow> bytes \<Rightarrow> u64 \<Rightarrow> node_id \<Rightarrow> item_id \<Rightarrow> semantic_event" where
  "selection_changed seq eid observed n i = event_new None seq eid observed n SELECTION_CHANGED [(VALUE, VItemId i)]"

definition text_edit :: "u64 \<Rightarrow> bytes \<Rightarrow> u64 \<Rightarrow> node_id \<Rightarrow> u8 list \<Rightarrow> u64 \<Rightarrow> semantic_event" where
  "text_edit seq eid observed n txt edit_seq =
     (event_new None seq eid observed n TEXT_EDIT [(TEXT, VString txt)])\<lparr>se_edit_seq := Some edit_seq\<rparr>"

definition expansion_changed :: "u64 \<Rightarrow> bytes \<Rightarrow> u64 \<Rightarrow> node_id \<Rightarrow> bool \<Rightarrow> semantic_event" where
  "expansion_changed seq eid observed n b = event_new None seq eid observed n EXPANSION_CHANGED [(VALUE, VBool b)]"

definition viewport_changed :: "u64 \<Rightarrow> bytes \<Rightarrow> u64 \<Rightarrow> node_id \<Rightarrow> f64 \<Rightarrow> f64 \<Rightarrow> semantic_event" where
  "viewport_changed seq eid observed n x y = event_new None seq eid observed n VIEWPORT_CHANGED [(VALUE, VSize x y)]"

definition with_client_instance_id :: "bytes \<Rightarrow> semantic_event \<Rightarrow> semantic_event" where
  "with_client_instance_id c e = e\<lparr>se_client_instance_id := Some c\<rparr>"

definition with_edit_seq :: "u64 \<Rightarrow> semantic_event \<Rightarrow> semantic_event" where
  "with_edit_seq n e = e\<lparr>se_edit_seq := Some n\<rparr>"

definition with_argument :: "property_ref \<Rightarrow> value_t \<Rightarrow> semantic_event \<Rightarrow> semantic_event" where
  "with_argument p v e = e\<lparr>se_arguments := fmupd p v (se_arguments e)\<rparr>"

definition get_argument :: "semantic_event \<Rightarrow> property_ref \<Rightarrow> value_t option" where
  "get_argument e p = fmlookup (se_arguments e) p"

definition has_argument :: "semantic_event \<Rightarrow> property_ref \<Rightarrow> bool" where
  "has_argument e p \<longleftrightarrow> p |\<in>| fmdom (se_arguments e)"

definition as_string :: "value_t \<Rightarrow> (u8 list) option" where
  "as_string v = (case v of VString s \<Rightarrow> Some s | _ \<Rightarrow> None)"

definition as_bool :: "value_t \<Rightarrow> bool option" where
  "as_bool v = (case v of VBool b \<Rightarrow> Some b | _ \<Rightarrow> None)"

definition as_item_id :: "value_t \<Rightarrow> item_id option" where
  "as_item_id v = (case v of VItemId i \<Rightarrow> Some i | _ \<Rightarrow> None)"

definition value_arg :: "semantic_event \<Rightarrow> value_t option" where
  "value_arg e = get_argument e VALUE"

definition text_arg :: "semantic_event \<Rightarrow> (u8 list) option" where
  "text_arg e = Option.bind (get_argument e TEXT) as_string"

definition bool_arg :: "semantic_event \<Rightarrow> bool option" where
  "bool_arg e = Option.bind (get_argument e VALUE) as_bool"

definition item_id_arg :: "semantic_event \<Rightarrow> item_id option" where
  "item_id_arg e = Option.bind (get_argument e VALUE) as_item_id"

section \<open>Node records\<close>

record node_record =
  nr_node_id :: node_id
  nr_node_type :: type_ref
  nr_parent_id :: "node_id option"
  nr_child_index :: "usize option"
  nr_properties :: "(property_ref \<times> value_t) list"

definition record_from_node :: "node \<Rightarrow> usize option \<Rightarrow> node_record" where
  "record_from_node n idx =
     \<lparr>nr_node_id = n_id n, nr_node_type = node_type n, nr_parent_id = parent_id n, nr_child_index = idx,
      nr_properties = sorted_list_of_fmap (properties n)\<rparr>"

definition record_get_property :: "node_record \<Rightarrow> property_ref \<Rightarrow> value_t option" where
  "record_get_property r p = map_option snd (List.find (\<lambda>x. fst x = p) (nr_properties r))"

definition record_has_property :: "node_record \<Rightarrow> property_ref \<Rightarrow> bool" where
  "record_has_property r p \<longleftrightarrow> list_ex (\<lambda>x. fst x = p) (nr_properties r)"

definition node_record_to_wire :: "node_record \<Rightarrow> wire_node_record" where
  "node_record_to_wire r =
     \<lparr>wn_node_id = nr_node_id r, wn_type = Some (nr_node_type r), wn_parent_id = or_zero (nr_parent_id r),
      wn_child_index = child_index_u32 (nr_child_index r), wn_properties = map property_to_wire (nr_properties r)\<rparr>"

definition node_record_from_wire :: "wire_node_record \<Rightarrow> (event_wire_error, node_record) result" where
  "node_record_from_wire w =
     and_then (ok_or NodeTypeMissing (wn_type w)) (\<lambda>ty.
     and_then (map_err EventValueConversion (traverse property_from_wire (wn_properties w))) (\<lambda>ps.
       Ok \<lparr>nr_node_id = wn_node_id w, nr_node_type = ty, nr_parent_id = opt_parent (wn_parent_id w),
          nr_child_index = opt_child_index (wn_child_index w), nr_properties = ps\<rparr>))"

definition operation_of_record :: "node_record \<Rightarrow> operation" where
  "operation_of_record r = CreateNode (nr_node_id r) (nr_node_type r) (nr_parent_id r) (nr_child_index r) (nr_properties r)"

fun record_of_operation :: "operation \<Rightarrow> (event_wire_error, node_record) result" where
  "record_of_operation (CreateNode i ty p idx ps) =
     Ok \<lparr>nr_node_id = i, nr_node_type = ty, nr_parent_id = p, nr_child_index = idx, nr_properties = ps\<rparr>"
| "record_of_operation _ = Error NotCreateNode"

text \<open>What the deduplicator reads of a message.\<close>

definition identity_of :: "wire_event \<Rightarrow> event" where
  "identity_of w =
     \<lparr>ev_client_instance_id = we_client_instance_id w, ev_event_id = we_event_id w, ev_event_seq = we_event_seq w,
      ev_event_type = map_option (\<lambda>t. (tr_namespace_id t, tr_local_id t)) (we_event_type w)\<rparr>"

section \<open>Validation\<close>

text \<open>A formatted reason is represented by what is put into it.\<close>

datatype policy_reason =
    MalformedEvent event_wire_error
  | HandlerFailed session_error
  | StoreRefused store_error
  | JournalRefused journal_error
  | PolicyText "u8 list"

datatype event_validation_error =
    EventNodeNotFound node_id
  | EventNodeDisabled node_id
  | FutureRevision u64 u64
  | MissingArgument property_ref
  | InvalidEditSeq
  | EditRefused text_edit_error
  | SupersededGeneration
  | NodeReadOnly node_id
  | UnsupportedNodeType type_ref
  | EventStringTooLong usize usize
  | PolicyRejected policy_reason

definition validate_node_exists :: "semantic_event \<Rightarrow> semantic_store \<Rightarrow> (event_validation_error, node) result" where
  "validate_node_exists e st = ok_or (EventNodeNotFound (se_node_id e)) (fmlookup (nodes st) (se_node_id e))"

definition validate_node_interactive :: "semantic_event \<Rightarrow> semantic_store \<Rightarrow> (event_validation_error, node) result" where
  "validate_node_interactive e st =
     and_then (validate_node_exists e st) (\<lambda>n.
       if fmlookup (properties n) ENABLED = Some (VBool False) then Error (EventNodeDisabled (se_node_id e)) else Ok n)"

definition validate_observed_revision :: "semantic_event \<Rightarrow> u64 \<Rightarrow> (event_validation_error, unit) result" where
  "validate_observed_revision e r =
     (if se_observed_revision e > r then Error (FutureRevision (se_observed_revision e) r) else Ok ())"

definition validate_event :: "semantic_event \<Rightarrow> semantic_store \<Rightarrow> (event_validation_error, node) result" where
  "validate_event e st =
     and_then (validate_observed_revision e (revision st)) (\<lambda>_. validate_node_interactive e st)"

section \<open>Properties\<close>

definition event_wf :: "semantic_event \<Rightarrow> bool" where
  "event_wf e \<longleftrightarrow> se_event_id e \<noteq> [] \<and> length (se_event_id e) \<le> MAX_EVENT_ID_BYTES \<and> se_client_instance_id e \<noteq> Some [] \<and>
     (se_edit_seq e \<noteq> None \<longleftrightarrow> se_event_type e = TEXT_EDIT) \<and> se_edit_seq e \<noteq> Some 0 \<and>
     (\<forall>p v. fmlookup (se_arguments e) p = Some v \<longrightarrow> hashes_wf v)"

lemma event_decodes:
  assumes wf: "event_wf e"
  shows "event_from_wire (event_to_wire e) = Ok e"
proof -
  have ps: "traverse property_from_wire (map property_to_wire (sorted_list_of_fmap (se_arguments e))) = Ok (sorted_list_of_fmap (se_arguments e))"
    using wf by (intro properties_round_trip) (auto simp: event_wf_def set_sorted_list_of_fmap)
  have seq: "edit_seq_from_wire (se_event_type e) (case se_edit_seq e of Some n \<Rightarrow> n | None \<Rightarrow> 0) = Ok (se_edit_seq e)"
    using wf by (cases "se_edit_seq e") (auto simp: event_wf_def edit_seq_from_wire_def edit_seq_new_def)
  show ?thesis
    using wf by (cases "se_client_instance_id e")
      (auto simp: event_from_wire_def event_to_wire_def event_wf_def event_id_try_new_def ps seq collect_sorted intro!: semantic_event.equality)
qed

text \<open>
  C33: Events survive the wire.  An event with a non-empty identifier of at most 64 bytes, with no empty client identifier,
  with a non-zero edit sequence exactly if it is a text edit, and with resource hashes of 32 bytes in its arguments,
  is decoded from its message as it was; and whatever message is accepted decodes to an event with these properties (the hashes, which the type of the
  source bounds, aside) and keeps its identity, so
  the invariants of the domain type hold for everything a peer can send.
\<close>

theorem event_wire_round_trip:
  "(event_wf e \<longrightarrow> event_from_wire (event_to_wire e) = Ok e) \<and>
   (event_from_wire w = Ok e \<longrightarrow> se_event_id e \<noteq> [] \<and> length (se_event_id e) \<le> MAX_EVENT_ID_BYTES \<and>
      se_client_instance_id e \<noteq> Some [] \<and> (se_edit_seq e \<noteq> None \<longleftrightarrow> se_event_type e = TEXT_EDIT) \<and> se_edit_seq e \<noteq> Some 0 \<and>
      identity_of (event_to_wire e) = identity_of w)"
proof (intro conjI impI)
  assume "event_wf e"
  then show "event_from_wire (event_to_wire e) = Ok e" by (rule event_decodes)
next
  assume "event_from_wire w = Ok e"
  then show "se_event_id e \<noteq> []" "length (se_event_id e) \<le> MAX_EVENT_ID_BYTES" "se_client_instance_id e \<noteq> Some []"
    "se_edit_seq e \<noteq> None \<longleftrightarrow> se_event_type e = TEXT_EDIT" "se_edit_seq e \<noteq> Some 0" "identity_of (event_to_wire e) = identity_of w"
    by (auto simp: event_from_wire_def event_id_try_new_def edit_seq_from_wire_def edit_seq_new_def identity_of_def event_to_wire_def
        result_simps split: if_splits)
qed

text \<open>The convenience constructors build events that survive the wire.\<close>

lemma built_events_wf:
  assumes "eid \<noteq> []" "length eid \<le> MAX_EVENT_ID_BYTES"
  shows "event_wf (activate seq eid r n)" "hashes_wf v \<Longrightarrow> event_wf (value_changed seq eid r n v)" "event_wf (selection_changed seq eid r n i)"
    "es \<noteq> 0 \<Longrightarrow> event_wf (text_edit seq eid r n txt es)" "event_wf (expansion_changed seq eid r n b)" "event_wf (viewport_changed seq eid r n x y)"
  using assms
  by (auto simp: event_wf_def event_new_def activate_def value_changed_def selection_changed_def text_edit_def expansion_changed_def
      viewport_changed_def ACTIVATE_def VALUE_CHANGED_def SELECTION_CHANGED_def TEXT_EDIT_def EXPANSION_CHANGED_def VIEWPORT_CHANGED_def
      standard_type_def hashes_wf_def collect_properties_def split: if_splits)

text \<open>What is put into an event is read back.\<close>

lemma built_events_read:
  "value_arg (value_changed seq eid r n v) = Some v" "item_id_arg (selection_changed seq eid r n i) = Some i"
  "text_arg (text_edit seq eid r n txt es) = Some txt" "bool_arg (expansion_changed seq eid r n b) = Some b"
  by (simp_all add: value_arg_def item_id_arg_def text_arg_def bool_arg_def get_argument_def event_new_def value_changed_def
      selection_changed_def text_edit_def expansion_changed_def as_string_def as_bool_def as_item_id_def collect_properties_def)

text \<open>
  The two ways of a created node to the wire agree.  A node record and the creation it stands for are encoded as the
  same message; the record is decoded back unless it uses the parent 0 or a child index beyond 32 bits, which the
  message cannot express; every other operation is refused as a node record.
\<close>

theorem node_record_coherent:
  "operation_to_wire (operation_of_record r) = Some (WCreateNode (Some (node_record_to_wire r))) \<and>
   record_of_operation (operation_of_record r) = Ok r \<and>
   (record_of_operation op = Ok r \<longleftrightarrow> op = operation_of_record r) \<and>
   (wire_faithful (operation_of_record r) \<longrightarrow> node_record_from_wire (node_record_to_wire r) = Ok r)"
proof (intro conjI impI)
  show "operation_to_wire (operation_of_record r) = Some (WCreateNode (Some (node_record_to_wire r)))"
    by (simp add: operation_of_record_def node_record_to_wire_def)
  show "record_of_operation (operation_of_record r) = Ok r" by (simp add: operation_of_record_def)
  show "record_of_operation op = Ok r \<longleftrightarrow> op = operation_of_record r" by (cases op) (auto simp: operation_of_record_def)
  assume wf: "wire_faithful (operation_of_record r)"
  then have ps: "traverse property_from_wire (map property_to_wire (nr_properties r)) = Ok (nr_properties r)"
    by (intro properties_round_trip) (auto simp: operation_of_record_def)
  moreover have "opt_parent (or_zero (nr_parent_id r)) = nr_parent_id r" "opt_child_index (child_index_u32 (nr_child_index r)) = nr_child_index r"
    using wf by (simp_all add: operation_of_record_def opt_parent_round_trip opt_child_index_round_trip)
  ultimately show "node_record_from_wire (node_record_to_wire r) = Ok r"
    by (simp add: node_record_from_wire_def node_record_to_wire_def)
qed

definition sample_edit :: semantic_event where
  "sample_edit = \<lparr>se_client_instance_id = Some [1], se_event_seq = 1, se_event_id = [9], se_observed_revision = 0, se_node_id = 1,
     se_event_type = TEXT_EDIT, se_arguments = fmupd TEXT (VString [104]) fmempty, se_edit_seq = Some 1\<rparr>"

lemma sample_edit_wf: "event_wf sample_edit"
  by (auto simp: event_wf_def sample_edit_def MAX_EVENT_ID_BYTES_def hashes_wf_def split: if_splits)

theorem event_wire_round_trip_witness: "event_from_wire (event_to_wire sample_edit) = Ok sample_edit"
  using event_wire_round_trip [of sample_edit] sample_edit_wf by blast

definition sample_record :: node_record where
  "sample_record = \<lparr>nr_node_id = 2, nr_node_type = TEXT_INPUT, nr_parent_id = Some 1, nr_child_index = Some 0, nr_properties = [(VALUE, VString [104])]\<rparr>"

theorem node_record_coherent_witness: "node_record_from_wire (node_record_to_wire sample_record) = Ok sample_record"
proof -
  have "wire_faithful (operation_of_record sample_record)" by (simp add: sample_record_def operation_of_record_def hashes_wf_def)
  then show ?thesis using node_record_coherent [of sample_record] by blast
qed

end
