(* ===== verification/Handshake.thy ===== *)
theory Handshake
  imports Pending_Edits Snapshot_Restore
begin

text \<open>
  The handshake of a fresh and of a resuming client: \<^verbatim>\<open>sessiond/src/session/handshake.rs\<close> with the
  attachment of terminals of \<^verbatim>\<open>session/terminal.rs\<close>.  A snapshot is exported without the session mutex;
  what other threads do to the session while it is released is a function \<open>h_others\<close> of the host, indexed by
  the number of the release.  The host also gives what the standard library and other crates decide:
  encoded lengths, the key that the iteration over a \<open>HashMap\<close> yields first, which receivers are gone, SHA-256,
  and what the terminal manager answers.  The text of a resync reason is represented by its cause.  The
  callback before the subscription is the empty one of the public entry points.
\<close>

section \<open>Messages\<close>

record client_hello =
  ch_core_version :: "u8 list"
  ch_profiles :: "u8 list list"
  ch_client_instance_id :: client_id
  ch_limits :: "client_limits option"
  ch_known_resource_hashes :: "u8 list list"

record client_resume =
  cr_session_id :: "u8 list"
  cr_client_instance_id :: client_id
  cr_last_applied_revision :: u64
  cr_terminal_stream_offsets :: "(u64, u64) fmap"
  cr_limits :: "client_limits option"
  cr_known_resource_hashes :: "u8 list list"
  cr_pending_text_edits :: "pending_text_edit_ref list"
  cr_core_version :: "u8 list"
  cr_profiles :: "u8 list list"

record server_welcome =
  sw_core_version :: "u8 list"
  sw_required_profiles :: "u8 list list"
  sw_optional_profiles :: "u8 list list"
  sw_session_id :: "u8 list"
  sw_initial_revision :: u64
  sw_extension_namespaces :: "extension_namespace_mapping list"
  sw_limits :: "server_limits option"
  sw_snapshot_parts :: u32

record server_resume_ok =
  ro_session_id :: "u8 list"
  ro_replay_from_revision :: u64
  ro_last_processed_event_seq :: u64
  ro_required_profiles :: "u8 list list"
  ro_optional_profiles :: "u8 list list"
  ro_extension_namespaces :: "extension_namespace_mapping list"

datatype session_continuity = SameSession | Replaced

datatype resync_cause = ReplacedIncarnation | OutboundQueueOverflow | JournalGap

fun continuity :: "resync_cause \<Rightarrow> session_continuity" where
  "continuity ReplacedIncarnation = Replaced"
| "continuity OutboundQueueOverflow = SameSession"
| "continuity JournalGap = SameSession"

record server_resync_required =
  rr_session_id :: "u8 list"
  rr_snapshot_revision :: u64
  rr_reason :: resync_cause
  rr_continuity :: session_continuity
  rr_last_processed_event_seq :: u64
  rr_discarded_text_edits :: "pending_text_edit_ref list"
  rr_required_profiles :: "u8 list list"
  rr_optional_profiles :: "u8 list list"
  rr_extension_namespaces :: "extension_namespace_mapping list"
  rr_snapshot_parts :: u32

section \<open>Terminals\<close>

record ('e, 's) subscribe_outcome =
  so_is_replay :: bool
  so_catch_up_events :: "'e list"
  so_subscription :: 's

record ('e, 's) terminal_attach =
  ta_catch_up :: "(logical_channel_class \<times> 'e) list"
  ta_live :: "'s list"

definition MAX_TERMINAL_RESUME_MAP_ENTRIES :: usize where
  "MAX_TERMINAL_RESUME_MAP_ENTRIES = 256"

definition attach_from_outcomes :: "('e, 's) subscribe_outcome list \<Rightarrow> ('e, 's) terminal_attach" where
  "attach_from_outcomes outcomes =
     \<lparr>ta_catch_up = concat (map (\<lambda>o'. map (Pair (if so_is_replay o' then TerminalNormal else TerminalHigh)) (so_catch_up_events o')) outcomes),
      ta_live = map so_subscription outcomes\<rparr>"

record ('e, 's) host =
  h_vlen :: "u64 \<Rightarrow> usize"
  h_oplen :: "wire_operation \<Rightarrow> usize"
  h_item_len :: "wire_model_item \<Rightarrow> usize"
  h_sha256 :: "u8 list \<Rightarrow> u8 list"
  h_gone :: "nat \<Rightarrow> bool"
  h_first_key :: "(client_id, u64) fmap \<Rightarrow> client_id option"
  h_subscribe_all :: "(u64, u64) fmap \<Rightarrow> u8 list + ('e, 's) subscribe_outcome list"
  h_others :: "nat \<Rightarrow> session \<Rightarrow> session"

definition attach_terminals ::
  "('e, 's) host \<Rightarrow> (u64, u64) fmap \<Rightarrow> bool \<Rightarrow> (session_error, ('e, 's) terminal_attach) result" where
  "attach_terminals h offsets ignore_offsets =
     (if len_map offsets > MAX_TERMINAL_RESUME_MAP_ENTRIES then Error (InvalidInput (TooManyStreamOffsets (len_map offsets)))
      else case h_subscribe_all h (if ignore_offsets then fmempty else offsets) of
          Inl e \<Rightarrow> Error (InvalidInput (TerminalFailure e))
        | Inr outcomes \<Rightarrow> Ok (attach_from_outcomes outcomes))"

section \<open>Negotiation\<close>

definition MAX_OPTIMISTIC_SNAPSHOT_EXPORT_ATTEMPTS :: usize where
  "MAX_OPTIMISTIC_SNAPSHOT_EXPORT_ATTEMPTS = 3"

definition MAX_CLIENT_RESOURCE_CEILINGS :: usize where
  "MAX_CLIENT_RESOURCE_CEILINGS = 256"

definition MAX_CLIENT_INSTANCE_ID_BYTES :: usize where
  "MAX_CLIENT_INSTANCE_ID_BYTES = 64"

definition validate_client_instance_id :: "client_id \<Rightarrow> (session_error, unit) result" where
  "validate_client_instance_id c =
     (if length c > MAX_CLIENT_INSTANCE_ID_BYTES then Error (InvalidInput (ClientInstanceIdTooLong (length c))) else Ok ())"

text \<open>The profiles of a client that can be parsed; the others are ignored.\<close>

definition offered_profiles :: "u8 list list \<Rightarrow> capability_set" where
  "offered_profiles profiles =
     fold (\<lambda>s caps. case profile_parse s of Inr p \<Rightarrow> finsert p caps | Inl _ \<Rightarrow> caps) profiles {||}"

definition negotiate_client :: "session \<Rightarrow> u8 list \<Rightarrow> u8 list list \<Rightarrow> (session_error, capability_set) result" where
  "negotiate_client s core_version profiles =
     (if \<not> core_version_is_compatible core_version then Error (UnsupportedCoreVersion core_version CORE_VERSION)
      else and_then (map_err Negotiation (server_negotiate (s_capabilities s) (offered_profiles profiles))) (\<lambda>negotiated.
           and_then (validate_extension_namespace_contract (s_capabilities s) (extension_namespaces s)) (\<lambda>_. Ok negotiated)))"

definition negotiated_max_resource_size :: "u32 \<Rightarrow> client_limits option \<Rightarrow> u64" where
  "negotiated_max_resource_size server lims =
     (let client = (case lims of None \<Rightarrow> 0 | Some l \<Rightarrow> (ucast (cl_max_resource_size l) :: u64))
      in if client = 0 then ucast server else min (ucast server) client)"

definition negotiate_hello ::
  "session \<Rightarrow> client_hello \<Rightarrow> (session_error, server_welcome \<times> semantic_store option \<times> bool) result" where
  "negotiate_hello s hello =
     and_then (validate_client_instance_id (ch_client_instance_id hello)) (\<lambda>_.
     and_then (negotiate_client s (ch_core_version hello) (ch_profiles hello)) (\<lambda>negotiated.
       let initial_revision = revision (si_store (s_inner s));
           server_limits = (s_limits s)\<lparr>sl_max_resource_size :=
             ucast (negotiated_max_resource_size (sl_max_resource_size (s_limits s)) (ch_limits hello))\<rparr>
       in Ok (\<lparr>sw_core_version = CORE_VERSION, sw_required_profiles = to_string_vec (cap_required (s_capabilities s)),
               sw_optional_profiles = to_string_vec (cap_optional (s_capabilities s)), sw_session_id = session_id s,
               sw_initial_revision = initial_revision, sw_extension_namespaces = extension_namespaces s,
               sw_limits = Some server_limits, sw_snapshot_parts = 0\<rparr>,
              if initial_revision > 0 then Some (si_store (s_inner s)) else None,
              terminal_v1 |\<in>| negotiated)))"

definition known_resource_hashes :: "u8 list list \<Rightarrow> usize \<Rightarrow> resource_hash fset" where
  "known_resource_hashes raw limit = fset_of_list (filter (\<lambda>b. length b = 32) (take limit raw))"

definition remember_client_resource_ceiling ::
  "('e, 's) host \<Rightarrow> client_id \<Rightarrow> u64 \<Rightarrow> (client_id, u64) fmap \<Rightarrow> (client_id, u64) fmap" where
  "remember_client_resource_ceiling h c max_size ceilings =
     (let ceilings =
        (if len_map ceilings \<ge> MAX_CLIENT_RESOURCE_CEILINGS \<and> c |\<notin>| fmdom ceilings
         then (case h_first_key h ceilings of Some k \<Rightarrow> fmdrop k ceilings | None \<Rightarrow> ceilings) else ceilings)
      in fmupd c max_size ceilings)"

fun subscribe_failure :: "subscribe_error \<Rightarrow> session_error" where
  "subscribe_failure InvalidConfiguration = BadConfiguration ZeroQueueCapacity"
| "subscribe_failure HubClosed = SessionOutboundClosed"

text \<open>Returns the cell of the new receiver; the wake-ups of the hub are not recorded here.\<close>

definition subscribe_client_locked ::
  "('e, 's) host \<Rightarrow> client_id \<Rightarrow> u8 list list \<Rightarrow> u64 \<Rightarrow> session \<Rightarrow> (session_error, nat) result \<times> session" where
  "subscribe_client_locked h c advertised_hashes max_resource_size s =
     (let s = s\<lparr>client_resource_ceilings := remember_client_resource_ceiling h c max_resource_size (client_resource_ceilings s)\<rparr>;
          known = known_resource_hashes advertised_hashes (res_max_entries (res_limits (s_resources s)))
      in case subscribe (h_gone h) c (outbound_queue_capacity s) (unat (sl_max_transaction_operations (s_limits s)))
              (unat (sl_max_frame_size (s_limits s))) max_resource_size (outbound_hub s) of
           (r, hub) \<Rightarrow>
             (case map_err subscribe_failure r of
                Inl e \<Rightarrow> (Inl e, s\<lparr>outbound_hub := hub\<rparr>)
              | Inr cell \<Rightarrow>
                  (Ok cell, s\<lparr>outbound_hub := snd (seed_resources_excluding cell (retained_entries (s_resources s)) known hub)\<rparr>)))"

definition export_and_plan ::
  "('e, 's) host \<Rightarrow> u32 \<Rightarrow> client_limits option \<Rightarrow> semantic_store \<Rightarrow>
   (session_error, wire_transaction \<times> snapshot_frame_plan) result" where
  "export_and_plan h server_max_frame_size lims st =
     and_then (export_snapshot_transaction (h_item_len h) st) (\<lambda>snapshot.
     and_then (plan_snapshot_delivery (h_vlen h) (h_oplen h) snapshot server_max_frame_size lims) (\<lambda>plan.
       Ok (snapshot, plan)))"

text \<open>\<open>announced_parts\<close> can only panic, which it does not for a plan within a limit.\<close>

definition announce :: "snapshot_frame_plan \<Rightarrow> (session_error, u32) result" where
  "announce p = (case announced_parts p of Inl _ \<Rightarrow> Inl Panic | Inr n \<Rightarrow> Ok n)"

section \<open>A fresh client\<close>

record ('e, 's) fresh_client_bootstrap =
  fb_welcome :: server_welcome
  fb_snapshot :: "wire_transaction option"
  fb_snapshot_frames :: snapshot_frame_plan
  fb_transactions :: nat
  fb_terminal_negotiated :: bool
  fb_terminal :: "('e, 's) terminal_attach"

definition export_clone ::
  "('e, 's) host \<Rightarrow> u32 \<Rightarrow> client_limits option \<Rightarrow> semantic_store option \<Rightarrow>
   (session_error, (wire_transaction \<times> snapshot_frame_plan) option) result" where
  "export_clone h server_max_frame_size lims store_clone =
     (case store_clone of
        None \<Rightarrow> Ok None
      | Some st \<Rightarrow> and_then (export_and_plan h server_max_frame_size lims st) (\<lambda>x. Ok (Some x)))"

text \<open>
  The retry loop up to the subscription.  The first argument counts the optimistic attempts left; without one
  the export runs under the mutex.  \<open>k\<close> numbers the releases of the mutex.
\<close>

primrec fresh_loop ::
  "nat \<Rightarrow> nat \<Rightarrow> ('e, 's) host \<Rightarrow> client_hello \<Rightarrow> session \<Rightarrow>
   (session_error, server_welcome \<times> (wire_transaction \<times> snapshot_frame_plan) option \<times> bool) result \<times> session" where
  "fresh_loop 0 k h hello s =
     (case negotiate_hello s hello of
        Inl e \<Rightarrow> (Inl e, s)
      | Inr (welcome, store_clone, terminal_negotiated) \<Rightarrow>
          (case export_clone h (case sw_limits welcome of None \<Rightarrow> 0 | Some l \<Rightarrow> sl_max_frame_size l) (ch_limits hello) store_clone of
             Inl e \<Rightarrow> (Inl e, s)
           | Inr snapshot \<Rightarrow> (Ok (welcome, snapshot, terminal_negotiated), s)))"
| "fresh_loop (Suc left) k h hello s =
     (case negotiate_hello s hello of
        Inl e \<Rightarrow> (Inl e, s)
      | Inr (welcome, store_clone, terminal_negotiated) \<Rightarrow>
          (let snapshot_result = export_clone h (case sw_limits welcome of None \<Rightarrow> 0 | Some l \<Rightarrow> sl_max_frame_size l) (ch_limits hello) store_clone;
               s = h_others h k s
           in if revision (si_store (s_inner s)) \<noteq> sw_initial_revision welcome
              then fresh_loop left (k + 2) h hello (h_others h (k + 1) s)
              else (case snapshot_result of
                  Inl e \<Rightarrow> (Inl e, s)
                | Inr snapshot \<Rightarrow> (Ok (welcome, snapshot, terminal_negotiated), s))))"

definition bootstrap_fresh_client ::
  "('e, 's) host \<Rightarrow> client_hello \<Rightarrow> session \<Rightarrow> (session_error, ('e, 's) fresh_client_bootstrap) result \<times> session" where
  "bootstrap_fresh_client h hello s =
     and_then_st (fresh_loop MAX_OPTIMISTIC_SNAPSHOT_EXPORT_ATTEMPTS 0 h hello s) (\<lambda>(welcome, snapshot, terminal_negotiated) s.
       let frames = (case snapshot of Some (_, plan) \<Rightarrow> plan | None \<Rightarrow> plan_single 0)
       in and_then_st (announce frames, s) (\<lambda>parts s.
          and_then_st
            (subscribe_client_locked h (ch_client_instance_id hello) (ch_known_resource_hashes hello)
               (negotiated_max_resource_size (sl_max_resource_size (s_limits s)) (ch_limits hello)) s) (\<lambda>cell s.
          let s = s\<lparr>has_negotiated := True\<rparr>
          in and_then_st (attach_terminals h fmempty False, s) (\<lambda>terminal s.
             (Ok \<lparr>fb_welcome = welcome\<lparr>sw_snapshot_parts := parts\<rparr>, fb_snapshot = map_option fst snapshot,
                  fb_snapshot_frames = frames, fb_transactions = cell, fb_terminal_negotiated = terminal_negotiated,
                  fb_terminal = terminal\<rparr>, s)))))"

section \<open>A resuming client\<close>

datatype resume_outcome =
    Replay server_resume_ok "wire_transaction list"
  | Resync server_resync_required wire_transaction

record ('e, 's) resume_client_bootstrap =
  rb_outcome :: resume_outcome
  rb_snapshot_frames :: snapshot_frame_plan
  rb_transactions :: nat
  rb_terminal_negotiated :: bool
  rb_terminal :: "('e, 's) terminal_attach"

definition determine_resync_cause :: "client_resume \<Rightarrow> session \<Rightarrow> resync_cause option" where
  "determine_resync_cause resume s =
     (if cr_session_id resume \<noteq> session_id s then Some ReplacedIncarnation
      else if is_client_stale (outbound_hub s) (cr_client_instance_id resume) then Some OutboundQueueOverflow
      else if iter_from (si_journal (s_inner s)) (cr_last_applied_revision resume) = None then Some JournalGap
      else None)"

text \<open>The plan a resume ends its loop with: the message, without the parts, and the cancellation to commit.\<close>

datatype resume_plan =
    PlanReplay server_resume_ok "wire_transaction list"
  | PlanResync server_resync_required wire_transaction snapshot_frame_plan "pending_text_edit_cancellation option"

definition replay_plan :: "client_resume \<Rightarrow> session \<Rightarrow> (session_error, resume_plan) result" where
  "replay_plan resume s =
     and_then (expect (iter_from (si_journal (s_inner s)) (cr_last_applied_revision resume))) (\<lambda>replayed.
       Ok (PlanReplay
         \<lparr>ro_session_id = session_id s, ro_replay_from_revision = cr_last_applied_revision resume,
          ro_last_processed_event_seq = dedup_frontier (s_dedupe s) (cr_client_instance_id resume),
          ro_required_profiles = to_string_vec (cap_required (s_capabilities s)),
          ro_optional_profiles = to_string_vec (cap_optional (s_capabilities s)),
          ro_extension_namespaces = extension_namespaces s\<rparr> replayed))"

definition resync_plan ::
  "client_resume \<Rightarrow> validated_pending_text_edit_ref list \<Rightarrow> resync_cause \<Rightarrow> u64 \<Rightarrow>
   wire_transaction \<times> snapshot_frame_plan \<Rightarrow> session \<Rightarrow> resume_plan" where
  "resync_plan resume edits cause at_revision exported s =
     (let c = cr_client_instance_id resume;
          cancellation = (if cause = OutboundQueueOverflow \<or> cause = JournalGap
            then Some (prepare_pending_text_edit_cancellation s c edits) else None)
      in PlanResync
           \<lparr>rr_session_id = session_id s, rr_snapshot_revision = at_revision, rr_reason = cause,
            rr_continuity = continuity cause,
            rr_last_processed_event_seq = (case cancellation of
                None \<Rightarrow> dedup_frontier (s_dedupe s) c
              | Some p \<Rightarrow> cancellation_frontier p c),
            rr_discarded_text_edits = (case cancellation of None \<Rightarrow> [] | Some p \<Rightarrow> discarded p),
            rr_required_profiles = to_string_vec (cap_required (s_capabilities s)),
            rr_optional_profiles = to_string_vec (cap_optional (s_capabilities s)),
            rr_extension_namespaces = extension_namespaces s, rr_snapshot_parts = 0\<rparr>
           (fst exported) (snd exported) cancellation)"

primrec resume_loop ::
  "nat \<Rightarrow> nat \<Rightarrow> ('e, 's) host \<Rightarrow> client_resume \<Rightarrow> validated_pending_text_edit_ref list \<Rightarrow> session \<Rightarrow>
   (session_error, resume_plan \<times> bool) result \<times> session" where
  "resume_loop 0 k h resume edits s =
     (case negotiate_client s (cr_core_version resume) (cr_profiles resume) of
        Inl e \<Rightarrow> (Inl e, s)
      | Inr negotiated \<Rightarrow>
          (case determine_resync_cause resume s of
             None \<Rightarrow> (and_then (replay_plan resume s) (\<lambda>p. Ok (p, terminal_v1 |\<in>| negotiated)), s)
           | Some cause \<Rightarrow>
               (case export_and_plan h (sl_max_frame_size (s_limits s)) (cr_limits resume) (si_store (s_inner s)) of
                  Inl e \<Rightarrow> (Inl e, s)
                | Inr exported \<Rightarrow>
                    (Ok (resync_plan resume edits cause (revision (si_store (s_inner s))) exported s,
                         terminal_v1 |\<in>| negotiated), s))))"
| "resume_loop (Suc left) k h resume edits s =
     (case negotiate_client s (cr_core_version resume) (cr_profiles resume) of
        Inl e \<Rightarrow> (Inl e, s)
      | Inr negotiated \<Rightarrow>
          (case determine_resync_cause resume s of
             None \<Rightarrow> (and_then (replay_plan resume s) (\<lambda>p. Ok (p, terminal_v1 |\<in>| negotiated)), s)
           | Some cause \<Rightarrow>
               (let at_revision = revision (si_store (s_inner s));
                    snapshot_result = export_and_plan h (sl_max_frame_size (s_limits s)) (cr_limits resume) (si_store (s_inner s));
                    s = h_others h k s
                in if revision (si_store (s_inner s)) \<noteq> at_revision \<or> determine_resync_cause resume s \<noteq> Some cause
                   then resume_loop left (k + 2) h resume edits (h_others h (k + 1) s)
                   else (case snapshot_result of
                       Inl e \<Rightarrow> (Inl e, s)
                     | Inr exported \<Rightarrow>
                         (Ok (resync_plan resume edits cause at_revision exported s, terminal_v1 |\<in>| negotiated), s)))))"

definition resume_resource_size :: "client_resume \<Rightarrow> session \<Rightarrow> u64" where
  "resume_resource_size resume s =
     (if cr_limits resume \<noteq> None
      then negotiated_max_resource_size (sl_max_resource_size (s_limits s)) (cr_limits resume)
      else (case fmlookup (client_resource_ceilings s) (cr_client_instance_id resume) of
          Some n \<Rightarrow> n
        | None \<Rightarrow> ucast (sl_max_resource_size (s_limits s))))"

definition plan_is_replaced :: "resume_plan \<Rightarrow> bool" where
  "plan_is_replaced plan = (case plan of PlanResync msg _ _ _ \<Rightarrow> rr_continuity msg = Replaced | PlanReplay _ _ \<Rightarrow> False)"

definition commit_cancellation :: "resume_plan \<Rightarrow> session \<Rightarrow> session" where
  "commit_cancellation plan s = (case plan of PlanResync _ _ _ (Some p) \<Rightarrow> cancellation_commit p s | _ \<Rightarrow> s)"

definition resume_answer :: "resume_plan \<Rightarrow> (session_error, resume_outcome \<times> snapshot_frame_plan) result" where
  "resume_answer plan =
     (case plan of
        PlanReplay msg replayed \<Rightarrow> Ok (Replay msg replayed, plan_single 0)
      | PlanResync msg snapshot frames _ \<Rightarrow>
          and_then (announce frames) (\<lambda>parts. Ok (Resync (msg\<lparr>rr_snapshot_parts := parts\<rparr>) snapshot, frames)))"

definition bootstrap_resume ::
  "('e, 's) host \<Rightarrow> client_resume \<Rightarrow> session \<Rightarrow> (session_error, ('e, 's) resume_client_bootstrap) result \<times> session" where
  "bootstrap_resume h resume s =
     and_then_st (validate_client_instance_id (cr_client_instance_id resume), s) (\<lambda>_ s.
       if len_map (cr_terminal_stream_offsets resume) > MAX_TERMINAL_RESUME_MAP_ENTRIES
       then (Error (InvalidInput (TooManyStreamOffsets (len_map (cr_terminal_stream_offsets resume)))), s)
       else
         and_then_st (validate_pending_text_edit_refs (h_sha256 h) (cr_pending_text_edits resume), s) (\<lambda>edits s.
         and_then_st (resume_loop MAX_OPTIMISTIC_SNAPSHOT_EXPORT_ATTEMPTS 0 h resume edits s) (\<lambda>(plan, terminal_negotiated) s.
         and_then_st
           (subscribe_client_locked h (cr_client_instance_id resume) (cr_known_resource_hashes resume) (resume_resource_size resume s) s) (\<lambda>cell s.
         let s = commit_cancellation plan (s\<lparr>has_negotiated := True\<rparr>)
         in and_then_st (attach_terminals h (cr_terminal_stream_offsets resume) (plan_is_replaced plan), s) (\<lambda>terminal s.
            and_then_st (resume_answer plan, s) (\<lambda>(outcome, frames) s.
              (Ok \<lparr>rb_outcome = outcome, rb_snapshot_frames = frames, rb_transactions = cell,
                   rb_terminal_negotiated = terminal_negotiated, rb_terminal = terminal\<rparr>, s)))))))"

end
