(* ===== verification/Replica.thy ===== *)
theory Replica
  imports Outbound Snapshot_Restore
begin

text \<open>
  A replica that was built from a snapshot does not know the ids that were used and deleted before;
  otherwise it has the server's store.  It can follow: whatever the server accepts, it accepts, and the
  difference stays confined to the two sets of used ids.
\<close>

definition view :: "node_id fset \<Rightarrow> model_id fset \<Rightarrow> semantic_store \<Rightarrow> semantic_store" where
  "view U M s = s\<lparr>used_ids := U, used_model_ids := M\<rparr>"

definition follows :: "semantic_store \<Rightarrow> semantic_store \<Rightarrow> bool" where
  "follows r s \<longleftrightarrow> (\<exists>U M. r = view U M s \<and> U |\<subseteq>| used_ids s \<and> M |\<subseteq>| used_model_ids s)"

lemma view_simps [simp]:
  "nodes (view U M s) = nodes s" "roots (view U M s) = roots s" "models (view U M s) = models s" "limits (view U M s) = limits s"
  "revision (view U M s) = revision s" "used_ids (view U M s) = U" "used_model_ids (view U M s) = M"
  by (simp_all add: view_def)

lemma view_updates [simp]:
  "(view U M s)\<lparr>nodes := ns\<rparr> = view U M (s\<lparr>nodes := ns\<rparr>)" "(view U M s)\<lparr>roots := rs\<rparr> = view U M (s\<lparr>roots := rs\<rparr>)"
  "(view U M s)\<lparr>models := ms\<rparr> = view U M (s\<lparr>models := ms\<rparr>)"
  "(view U M s)\<lparr>nodes := ns, used_ids := V\<rparr> = view V M (s\<lparr>nodes := ns, used_ids := W\<rparr>)"
  "(view U M s)\<lparr>models := ms, used_model_ids := N\<rparr> = view U N (s\<lparr>models := ms, used_model_ids := W'\<rparr>)"
  by (simp_all add: view_def)

section \<open>Parts of the operations\<close>

text \<open>What reads a store reads the same from a view of it, and what writes commutes with taking the view.\<close>

definition moves_along :: "'a store_result \<Rightarrow> 'a store_result \<Rightarrow> node_id fset \<Rightarrow> model_id fset \<Rightarrow> bool" where
  "moves_along a b U M \<longleftrightarrow> fst a = fst b \<and> snd a = view U M (snd b)"

lemma view_walks [simp]:
  "contains_node (view U M s) = contains_node s" "contains_model (view U M s) = contains_model s"
  "node_depth (view U M s) = node_depth s" "subtree_depth (view U M s) = subtree_depth s"
  by (simp_all add: fun_eq_iff contains_node_def contains_model_def node_depth_def subtree_depth_def)

lemma view_reads [simp]:
  "validate_property_references (view U M s) = validate_property_references s"
  "new_node_depth (view U M s) = new_node_depth s" "check_child_index (view U M s) = check_child_index s"
  "check_no_cycle (view U M s) = check_no_cycle s" "parent_depth_of (view U M s) = parent_depth_of s" "dest_len (view U M s) = dest_len s"
  by (simp_all add: fun_eq_iff validate_property_references_def new_node_depth_def check_child_index_def check_no_cycle_def
      parent_depth_of_def dest_len_def cong: if_cong split: option.splits)

lemma validate_properties_view [simp]: "validate_properties (view U M s) = validate_properties s"
  by (simp add: fun_eq_iff validate_properties_def)

lemma set_children_view [simp]: "set_children p cs pn (view U M s) = view U M (set_children p cs pn s)"
  by (simp add: set_children_def)

lemma detach_view [simp]: "detach i p (view U M s) = view U M (detach i p s)"
  by (simp add: detach_def split: option.splits)

lemma moves_along_bind:
  assumes "moves_along a b U M" "\<And>x s. moves_along (f x (view U M s)) (g x s) U M"
  shows "moves_along (and_then_st a f) (and_then_st b g) U M"
  using assms by (cases a; cases b; cases "fst b") (auto simp: moves_along_def)

lemma moves_along_pure [simp]: "moves_along (r, view U M s) (r, s) U M"
  by (simp add: moves_along_def)

lemma attach_new_node_view: "moves_along (attach_new_node i p k (view U M s)) (attach_new_node i p k s) U M"
  by (auto simp: attach_new_node_def moves_along_def split: option.splits)

lemma attach_moved_view: "moves_along (attach_moved i p k (view U M s)) (attach_moved i p k s) U M"
  by (auto simp: attach_moved_def moves_along_def split: option.splits)

lemma set_parent_view: "moves_along (set_parent i p (view U M s)) (set_parent i p s) U M"
  by (auto simp: set_parent_def moves_along_def split: option.splits)

lemma with_model_view: "moves_along (with_model i f (view U M s)) (with_model i f s) U M"
  by (auto simp: with_model_def moves_along_def split: option.splits prod.splits)

section \<open>Operations\<close>

lemma discard_view: "moves_along a b U M \<Longrightarrow> moves_along (discard a) (discard b) U M"
  by (cases a; cases b; cases "fst b") (auto simp: moves_along_def discard_def)

lemma delete_node_view: "moves_along (delete_node i (view U M s)) (delete_node i s) U M"
  by (auto simp: delete_node_def moves_along_def Let_def split: option.splits prod.splits)

lemma set_property_view: "moves_along (set_property i p v (view U M s)) (set_property i p v s) U M"
  unfolding set_property_def by (simp, intro moves_along_bind moves_along_pure) (auto simp: moves_along_def split: option.splits)

lemma clear_property_view: "moves_along (clear_property i p (view U M s)) (clear_property i p s) U M"
  by (auto simp: clear_property_def moves_along_def split: option.splits)

lemma batch_property_set_view: "moves_along (batch_property_set i ps (view U M s)) (batch_property_set i ps s) U M"
  unfolding batch_property_set_def by (simp, intro moves_along_bind moves_along_pure) (auto simp: moves_along_def split: option.splits)

lemma reorder_children_view: "moves_along (reorder_children p order (view U M s)) (reorder_children p order s) U M"
  unfolding reorder_children_def by (auto intro!: moves_along_bind split: option.splits)

lemma model_operations_view:
  "moves_along (model_insert i n its (view U M s)) (model_insert i n its s) U M"
  "moves_along (model_delete i idx k ids (view U M s)) (model_delete i idx k ids s) U M"
  "moves_along (model_update i idx its (view U M s)) (model_update i idx its s) U M"
  "moves_along (model_reset_range i st its tc (view U M s)) (model_reset_range i st its tc s) U M"
  unfolding model_insert_def model_delete_def model_update_def model_reset_range_def
  by (simp_all, (intro moves_along_bind moves_along_pure, simp add: with_model_view)+)

lemma move_node_view: "moves_along (move_node i p k (view U M s)) (move_node i p k s) U M"
  unfolding move_node_def
  by (auto intro!: moves_along_bind simp: attach_moved_view set_parent_view split: option.splits)

text \<open>Creations add to both sides, and a smaller set of used ids refuses less.\<close>

lemma create_node_view:
  assumes "create_node i ty p k ps s = (Inr u, s')" "U |\<subseteq>| used_ids s"
  shows "create_node i ty p k ps (view U M s) = (Inr u, view (finsert i U) M s')"
proof -
  from assms obtain a where run: "i |\<notin>| used_ids s" "attach_new_node i p k s = (Inr (), a)"
    "s' = a\<lparr>nodes := fmupd i (node_new i ty p ps) (nodes a), used_ids := finsert i (used_ids a)\<rparr>"
    by (auto simp: create_node_def result_simps split: if_splits)
  moreover have "attach_new_node i p k (view U M s) = (Inr (), view U M a)"
    using attach_new_node_view [of i p k U M s] run(2) by (cases "attach_new_node i p k (view U M s)") (simp add: moves_along_def)
  ultimately show ?thesis using assms by (auto simp: create_node_def result_simps split: if_splits)
qed

lemma create_model_view:
  assumes "create_model i ty n s = (Inr u, s')" "M |\<subseteq>| used_model_ids s"
  shows "create_model i ty n (view U M s) = (Inr u, view U (finsert i M) s')"
  using assms by (auto simp: create_model_def split: if_splits)

lemma moves_alongD: "moves_along a b U M \<Longrightarrow> b = (r, s') \<Longrightarrow> a = (r, view U M s')"
  by (cases a) (simp add: moves_along_def)

lemma attach_new_used: "attach_new_node i p k s = (r, a) \<Longrightarrow> used_ids a = used_ids s \<and> used_model_ids a = used_model_ids s"
  by (auto simp: attach_new_node_def set_children_def split: option.splits if_splits)

lemma operation_follows:
  assumes "operation_apply op s = (Inr u, s')" "follows r s"
  shows "\<exists>r'. operation_apply op r = (Inr u, r') \<and> follows r' s'"
proof -
  from assms(2) obtain U M where r: "r = view U M s" "U |\<subseteq>| used_ids s" "M |\<subseteq>| used_model_ids s" by (auto simp: follows_def)
  have plain: "\<exists>r'. operation_apply op r = (Inr u, r') \<and> follows r' s'"
    if along: "\<And>U M. moves_along (operation_apply op (view U M s)) (operation_apply op s) U M"
  proof -
    have "view (used_ids s) (used_model_ids s) s = s" by (simp add: view_def)
    with moves_alongD [OF along assms(1)] assms(1) have "s' = view (used_ids s) (used_model_ids s) s'" by (metis Pair_inject)
    then have "used_ids s' = used_ids s" "used_model_ids s' = used_model_ids s" by (metis view_simps(6), metis view_simps(7))
    with moves_alongD [OF along assms(1)] r show ?thesis by (auto simp: follows_def)
  qed
  show ?thesis
  proof (cases op)
    case (CreateNode i ty p k ps)
    then have run: "create_node i ty p k ps s = (Inr u, s')" using assms(1) by simp
    then have "used_ids s' = finsert i (used_ids s)" "used_model_ids s' = used_model_ids s"
      by (auto simp: create_node_def result_simps split: if_splits dest: attach_new_used)
    then have "finsert i U |\<subseteq>| used_ids s'" "M |\<subseteq>| used_model_ids s'" using r by auto
    then show ?thesis unfolding follows_def using create_node_view [OF run r(2), of M] CreateNode r(1)
      by (intro exI [of _ "view (finsert i U) M s'"]) auto
  next
    case (CreateModel i ty n)
    then have run: "create_model i ty n s = (Inr u, s')" using assms(1) by simp
    then have "used_ids s' = used_ids s" "used_model_ids s' = finsert i (used_model_ids s)"
      by (auto simp: create_model_def split: if_splits)
    then have "U |\<subseteq>| used_ids s'" "finsert i M |\<subseteq>| used_model_ids s'" using r by auto
    then show ?thesis unfolding follows_def using create_model_view [OF run r(3), of U] CreateModel r(1)
      by (intro exI [of _ "view U (finsert i M) s'"]) auto
  qed (rule plain, simp add: discard_view delete_node_view set_property_view clear_property_view batch_property_set_view
      reorder_children_view move_node_view model_operations_view)+
qed

section \<open>Transactions\<close>

lemma apply_loop_follows:
  "apply_loop operation_apply k ops s = (Inr u, s') \<Longrightarrow> follows r s \<Longrightarrow>
   \<exists>r'. apply_loop operation_apply k ops r = (Inr u, r') \<and> follows r' s'"
proof (induction ops arbitrary: k s r)
  case (Cons op ops)
  then obtain v t where op: "operation_apply op s = (Inr v, t)" "apply_loop operation_apply (Suc k) ops t = (Inr u, s')"
    by (auto split: prod.splits sum.splits fault.splits)
  from operation_follows [OF op(1) Cons.prems(2)] obtain t' where "operation_apply op r = (Inr v, t')" "follows t' t" by blast
  with Cons.IH [OF op(2)] show ?case by auto
qed auto

lemma follows_simps: "follows r s \<Longrightarrow> limits r = limits s \<and> revision r = revision s"
  by (auto simp: follows_def)

lemma commit_follows: "follows a b \<Longrightarrow> follows r s \<Longrightarrow> follows (commit_staging a n r) (commit_staging b n s)"
proof -
  assume "follows a b" "follows r s"
  then obtain U M where a: "a = view U M b" "U |\<subseteq>| used_ids b" "M |\<subseteq>| used_model_ids b"
    and r: "limits r = limits s" by (auto simp: follows_def)
  then have "commit_staging a n r = view U M (commit_staging b n s)" by (simp add: commit_staging_def view_def)
  with a show ?thesis by (auto simp: follows_def commit_staging_def)
qed

lemma apply_staged_follows:
  assumes "apply_staged ops n s = (Inr u, s')" "follows r s"
  shows "\<exists>r'. apply_staged ops n r = (Inr u, r') \<and> follows r' s'"
proof -
  from assms obtain t where t: "length ops \<le> max_transaction_operations (limits s)" "apply_loop operation_apply 0 ops s = (Inr (), t)"
    "u = n" "s' = commit_staging t n s"
    by (auto simp: apply_staged_def stage_def split: if_splits sum.splits prod.splits)
  from apply_loop_follows [OF t(2) assms(2)] obtain t' where "apply_loop operation_apply 0 ops r = (Inr (), t')" "follows t' t" by blast
  with t follows_simps [OF assms(2)] commit_follows [OF _ assms(2)] show ?thesis
    by (auto simp: apply_staged_def stage_def)
qed

lemma deliver_follows:
  assumes "apply_delivered_transaction tx s = (Inr u, s')" "follows r s"
  shows "\<exists>r'. apply_delivered_transaction tx r = (Inr u, r') \<and> follows r' s'"
proof -
  from assms(1) obtain d where d: "transaction_from_wire tx = Ok d" "deliver d s = (Inr u, s')"
    "validate_commit d = Ok () \<or> validate_delta d = Ok ()" unfolding delivered_Ok by blast
  from d(2) have run: "base_revision d = revision s" "apply_staged (operations d) (new_revision d) s = (Inr u, s')"
    by (auto simp: deliver_def check_base_revision_def result_simps split: if_splits)
  from apply_staged_follows [OF run(2) assms(2)] obtain r' where "apply_staged (operations d) (new_revision d) r = (Inr u, r')" "follows r' s'" by blast
  moreover from this run(1) follows_simps [OF assms(2)] have "deliver d r = (Inr u, r')"
    by (simp add: deliver_def check_base_revision_def)
  ultimately show ?thesis using d unfolding delivered_Ok by blast
qed

lemma replay_follows:
  "replay_all txs s = (Inr u, s') \<Longrightarrow> follows r s \<Longrightarrow> \<exists>r'. replay_all txs r = (Inr u, r') \<and> follows r' s'"
proof (induction txs arbitrary: s r)
  case (Cons tx txs)
  then obtain v t where tx: "apply_delivered_transaction tx s = (Inr v, t)" "replay_all txs t = (Inr u, s')" by (auto simp: result_simps)
  from deliver_follows [OF tx(1) Cons.prems(2)] obtain t' where "apply_delivered_transaction tx r = (Inr v, t')" "follows t' t" by blast
  with Cons.IH [OF tx(2)] show ?case by auto
qed auto

lemma follows_living:
  "store_ok s \<Longrightarrow> follows (s\<lparr>used_ids := fmdom (nodes s), used_model_ids := fmdom (models s)\<rparr>) s"
  unfolding follows_def view_def store_ok_def by blast

section \<open>Properties\<close>

text \<open>
  C4: A client that starts from a snapshot converges to the server.  The store of the server at the subscription is
  exportable: well-formed, with every model reference resolved, every cached entry within the length of its model and
  every model within its cache bound, the limit on the items of one operation at least the chunk size of the export,
  fewer than \<open>2 ^ 32 - 1\<close> nodes, no child of node 0, and hashes of 32 bytes (of other stores, such as one with a
  model that a range reset has shortened, a replica may refuse the snapshot).  The client holds any replica with the limits
  of the server and a revision that is not newer; the bound it negotiated for merges is at most the operation
  limit of the store; and the session commits messages, and closures that ask only for operations the wire can carry and leave
  at their first error.  Then replacing the replica by the exported snapshot succeeds, and everything that is sent to the client
  afterwards, and what is still queued, can be applied one after the other, for every interleaving of commits, merges in
  the queue and sends while the queue does not overflow, and gives the nodes, roots, models and revision of the
  server; the ids the snapshot does not mention never make the difference.
\<close>

theorem snapshot_client_converges:
  assumes "exportable s0" "export_snapshot_transaction item_len s0 = Ok w" "limits r = limits s0" "revision r \<le> revision s0"
    and "connection framed_len s0 max_ops sess st out" "max_ops \<le> max_transaction_operations (limits s0)"
  shows "\<exists>snap r0 r'. snapshot_from_wire w = Ok snap \<and> replace_from_snapshot snap r = (Ok (revision s0), r0) \<and>
    replay_all (out @ items st) r0 = (Ok (), r') \<and> nodes r' = nodes (si_store sess) \<and> roots r' = roots (si_store sess) \<and>
    models r' = models (si_store sess) \<and> revision r' = revision (si_store sess)"
proof -
  let ?r0 = "s0\<lparr>used_ids := fmdom (nodes s0), used_model_ids := fmdom (models s0)\<rparr>"
  have "store_ok s0" using assms(1) by (simp add: exportable_def)
  from replay_follows [OF _ follows_living [OF this]] connection_invariant [OF assms(5,6)]
  obtain r' where r': "replay_all (out @ items st) ?r0 = (Ok (), r')" "follows r' (si_store sess)" by blast
  have "nodes r' = nodes (si_store sess) \<and> roots r' = roots (si_store sess) \<and> models r' = models (si_store sess) \<and>
      revision r' = revision (si_store sess)" using r'(2) by (auto simp: follows_def)
  with r'(1) snapshot_applies [OF assms(1-4)] show ?thesis by blast
qed

lemma store_new_exportable:
  "exportable store_new" "\<exists>w. export_snapshot_transaction item_len store_new = Ok w"
proof -
  show "exportable store_new"
    using session_a_ok by (simp add: exportable_def session_ok_def session_a_store refs_ok_def) (simp add: create_eval limits_eval fcard.rep_eq)
  show "\<exists>w. export_snapshot_transaction item_len store_new = Ok w"
    by (simp add: export_snapshot_transaction_def create_eval)
qed

theorem snapshot_client_converges_witness:
  "\<exists>(sess :: session_inner) out snap r0 r'. contains_node (si_store sess) 1 \<and> replace_from_snapshot snap store_new = (Ok 0, r0) \<and>
     replay_all out r0 = (Ok (), r') \<and> nodes r' = nodes (si_store sess)"
proof -
  obtain w s' eff where com: "transaction_with_result create_root [] session_a = (Ok ((), w), s', eff)" "contains_node (si_store s') 1"
    using create_root_commits by blast
  let ?st = "subscriber_new 1 5 100 0"
  let ?st1 = "?st\<lparr>items := [w], peak_depth := 1\<rparr>"
  have "connection (\<lambda>_. 10) store_new 5 session_a ?st []"
    by (rule connection.subscribed) (simp_all add: session_a_ok session_a_store)
  then have con: "connection (\<lambda>_. 10) store_new 5 s' ?st1 []"
  proof (rule connection.commits)
    show "session_commits session_a w s'" by (rule session_commits.by_closure [OF com(1) create_root_disciplined])
    show "try_push_or_absorb (\<lambda>_. 10) w (incoming_for w ?st) ?st = (Inr True, ?st1)"
      by (simp add: try_push_or_absorb_def incoming_for_def has_unsent_tail_def enqueue_new_def subscriber_new_def)
  qed
  obtain v where v: "export_snapshot_transaction (\<lambda>_. 1) store_new = Ok v" using store_new_exportable(2) by blast
  have "\<exists>snap r0 r'. snapshot_from_wire v = Ok snap \<and> replace_from_snapshot snap store_new = (Ok (revision store_new), r0) \<and>
      replay_all ([] @ items ?st1) r0 = (Ok (), r') \<and> nodes r' = nodes (si_store s') \<and> roots r' = roots (si_store s') \<and>
      models r' = models (si_store s') \<and> revision r' = revision (si_store s')"
    by (rule snapshot_client_converges [OF store_new_exportable(1) v refl order_refl con]) (simp add: session_a_store)
  then obtain snap r0 r' where "replace_from_snapshot snap store_new = (Ok 0, r0)" "replay_all ([] @ items ?st1) r0 = (Ok (), r')"
    "nodes r' = nodes (si_store s')" unfolding session_a_store(2) by blast
  with com(2) show ?thesis by blast
qed

end
