(* ===== verification/Handshake_Properties.thy ===== *)
theory Handshake_Properties
  imports Handshake Replica
begin

text \<open>
  What a handshake guarantees: whatever the other threads do with the session, by its operations and with closures
  that a replica can follow, while a snapshot is exported, the answer and the subscription fit together without a gap.
\<close>

section \<open>What the other threads may do\<close>

inductive session_moves :: "session_inner \<Rightarrow> session_inner \<Rightarrow> bool" for s where
  rests: "session_moves s s"
| commits: "session_moves s t \<Longrightarrow> session_commits t w u \<Longrightarrow> session_moves s u"
| attaches: "session_moves s t \<Longrightarrow> session_moves s (snd (attach t))"
| detaches: "session_moves s t \<Longrightarrow> session_moves s (detach_internal t)"
| terminates: "session_moves s t \<Longrightarrow> session_moves s (terminate t)"
| expires: "session_moves s t \<Longrightarrow> session_moves s (expire t)"
| edits: "session_moves s t \<Longrightarrow> tracker_ok tr \<Longrightarrow> session_moves s (t\<lparr>si_text_edits := tr\<rparr>)"

lemma session_commits_unat:
  assumes "session_commits s w s'" "session_ok s"
  shows "unat (revision (si_store s)) < unat (revision (si_store s'))"
proof -
  obtain r where r: "session_ok s'" "apply_delivered_transaction w (si_store s) = (Ok r, si_store s')" "w_base_revision w < w_new_revision w"
    by (rule session_commits_delivered [OF assms]) blast
  then obtain d where d: "transaction_from_wire w = Ok d" "deliver d (si_store s) = (Ok r, si_store s')" unfolding delivered_Ok by blast
  from d(1) have "base_revision d = w_base_revision w" "new_revision d = w_new_revision w"
    by (auto simp: transaction_from_wire_def result_simps)
  moreover from d(2) have "base_revision d = revision (si_store s)" "new_revision d = revision (si_store s')"
    by (auto simp: deliver_def check_base_revision_def apply_staged_def commit_staging_def result_simps split: if_splits sum.splits prod.splits
        dest!: arg_cong [of _ _ revision])
  ultimately show ?thesis using r(3) by (simp add: word_less_nat_alt)
qed

lemma session_commits_catches_up:
  assumes "session_commits s w s'" "catches_up s snap"
  shows "catches_up s' (snap(revision (si_store s') := si_store s'))"
  using assms(1)
proof (cases rule: session_commits.cases)
  case (by_message tx live eff)
  obtain c st where "committed c st s s' eff" "session_ok s'" "w = transaction_to_wire (commit_transaction c)"
    "apply_delivered_transaction w (si_store s) = (Ok (new_revision (commit_transaction c)), si_store s')"
    by (rule wire_commit_delivered [OF by_message]) (use assms(2) in \<open>auto simp: catches_up_def\<close>)
  with catches_up_step [OF assms(2)] show ?thesis by blast
next
  case (by_closure f live x eff)
  obtain c st where "committed c st s s' eff" "session_ok s'" "w = transaction_to_wire (commit_transaction c)"
    "apply_delivered_transaction w (si_store s) = (Ok (new_revision (commit_transaction c)), si_store s')"
    by (rule closure_commit_delivered [OF by_closure(1) _ by_closure(2)]) (use assms(2) in \<open>auto simp: catches_up_def\<close>)
  with catches_up_step [OF assms(2)] show ?thesis by blast
qed

text \<open>The revision never goes back, and while it is the same the store is the same.\<close>

lemma session_moves_ok:
  assumes "session_moves s t" "session_ok s"
  shows "session_ok t \<and> unat (revision (si_store s)) \<le> unat (revision (si_store t)) \<and>
    (revision (si_store t) = revision (si_store s) \<longrightarrow> si_store t = si_store s)"
  using assms
proof induction
  case (commits t w u)
  then have t: "session_ok t" by simp
  have "session_ok u" by (rule session_commits_delivered [OF commits.hyps(2) t]) blast
  with session_commits_unat [OF commits.hyps(2) t] commits show ?case by auto
qed (auto simp: session_ok_def lifecycle_frame)

lemma session_moves_trans:
  assumes "session_moves t u" "session_moves s t"
  shows "session_moves s u"
  using assms by induction (auto intro: session_moves.intros)

lemma lifecycle_catches_up:
  assumes "catches_up t snap"
  shows "catches_up (snd (attach t)) snap" "catches_up (detach_internal t) snap" "catches_up (terminate t) snap"
    "catches_up (expire t) snap" "tracker_ok tr \<Longrightarrow> catches_up (t\<lparr>si_text_edits := tr\<rparr>) snap"
  using assms by (auto simp: catches_up_def session_ok_def lifecycle_frame)

lemma session_moves_catches_up:
  assumes "session_moves s t" "catches_up s snap"
  shows "\<exists>snap'. catches_up t snap' \<and> (\<forall>r \<le> revision (si_store s). snap' r = snap r)"
  using assms
proof induction
  case (commits t w u)
  then obtain snap' where s': "catches_up t snap'" "\<forall>r \<le> revision (si_store s). snap' r = snap r" by blast
  have "unat (revision (si_store t)) < unat (revision (si_store u))"
    by (rule session_commits_unat [OF commits.hyps(2)]) (use s' in \<open>simp add: catches_up_def\<close>)
  moreover have "unat (revision (si_store s)) \<le> unat (revision (si_store t))"
    using session_moves_ok [OF commits.hyps(1)] commits.prems by (simp add: catches_up_def)
  ultimately have "\<forall>r \<le> revision (si_store s). (snap'(revision (si_store u) := si_store u)) r = snap r"
    using s'(2) by (auto simp: word_le_nat_alt)
  with session_commits_catches_up [OF commits.hyps(2) s'(1)] show ?case by blast
qed (metis lifecycle_catches_up)+

text \<open>
  The identifier, the limits and the capacity of a session are fixed when it is built; other threads move
  the part under the mutex by the operations of the session.
\<close>

definition others_ok :: "('e, 's) host \<Rightarrow> bool" where
  "others_ok h \<longleftrightarrow> (\<forall>k s. let t = h_others h k s in
     session_moves (s_inner s) (s_inner t) \<and> session_id t = session_id s \<and> s_limits t = s_limits s \<and>
     outbound_queue_capacity t = outbound_queue_capacity s)"

lemma others_okD:
  assumes "others_ok h"
  shows "session_moves (s_inner s) (s_inner (h_others h k s))" "session_id (h_others h k s) = session_id s"
    "s_limits (h_others h k s) = s_limits s" "outbound_queue_capacity (h_others h k s) = outbound_queue_capacity s"
  using assms by (auto simp: others_ok_def Let_def)

definition moved :: "session \<Rightarrow> session \<Rightarrow> bool" where
  "moved s t \<longleftrightarrow> session_moves (s_inner s) (s_inner t) \<and> session_id t = session_id s \<and> s_limits t = s_limits s"

lemma moved_refl: "moved s s"
  by (simp add: moved_def session_moves.rests)

lemma moved_others: "others_ok h \<Longrightarrow> moved s (h_others h k s)"
  by (simp add: moved_def others_okD)

lemma moved_trans: "moved s t \<Longrightarrow> moved t u \<Longrightarrow> moved s u"
  by (auto simp: moved_def intro: session_moves_trans)

lemma moved_ok: "moved s t \<Longrightarrow> session_ok (s_inner s) \<Longrightarrow> session_ok (s_inner t) \<and>
    (revision (si_store (s_inner t)) = revision (si_store (s_inner s)) \<longrightarrow> si_store (s_inner t) = si_store (s_inner s))"
  using session_moves_ok by (auto simp: moved_def)

section \<open>The loops\<close>

definition fresh_answer :: "('e, 's) host \<Rightarrow> client_hello \<Rightarrow> session \<Rightarrow> server_welcome \<Rightarrow>
    (wire_transaction \<times> snapshot_frame_plan) option \<Rightarrow> bool" where
  "fresh_answer h hello s welcome snapshot \<longleftrightarrow>
     sw_initial_revision welcome = revision (si_store (s_inner s)) \<and> sw_session_id welcome = session_id s \<and>
     export_clone h (sl_max_frame_size (s_limits s)) (ch_limits hello)
       (if revision (si_store (s_inner s)) > 0 then Some (si_store (s_inner s)) else None) = Ok snapshot"

lemma negotiate_hello_Ok:
  assumes "negotiate_hello s hello = Inr (welcome, clone, neg)"
  shows "length (ch_client_instance_id hello) \<le> MAX_CLIENT_INSTANCE_ID_BYTES \<and> sw_initial_revision welcome = revision (si_store (s_inner s)) \<and>
    sw_session_id welcome = session_id s \<and>
    (\<exists>l. sw_limits welcome = Some l \<and> sl_max_frame_size l = sl_max_frame_size (s_limits s)) \<and>
    clone = (if revision (si_store (s_inner s)) > 0 then Some (si_store (s_inner s)) else None)"
  using assms by (auto simp: negotiate_hello_def validate_client_instance_id_def result_simps Let_def split: if_splits)

lemma fresh_loop_spec:
  assumes "others_ok h" "fresh_loop n k h hello s = (Inr (welcome, snapshot, neg), s')" "session_ok (s_inner s)"
  shows "moved s s' \<and> fresh_answer h hello s' welcome snapshot \<and> length (ch_client_instance_id hello) \<le> MAX_CLIENT_INSTANCE_ID_BYTES"
  using assms(2,3)
proof (induction n arbitrary: k s)
  case 0
  then obtain w clone ng where neg: "negotiate_hello s hello = Inr (w, clone, ng)" by (auto split: sum.splits)
  from negotiate_hello_Ok [OF neg] 0 neg show ?case
    by (auto simp: fresh_answer_def moved_refl split: sum.splits)
next
  case (Suc n)
  then obtain w clone ng where neg: "negotiate_hello s hello = Inr (w, clone, ng)" by (auto split: sum.splits)
  note n' = negotiate_hello_Ok [OF neg]
  let ?t = "h_others h k s"
  have mv: "moved s ?t" "session_ok (s_inner ?t)" using moved_others [OF assms(1)] moved_ok Suc.prems(2) by blast+
  show ?case
  proof (cases "revision (si_store (s_inner ?t)) = sw_initial_revision w")
    case True
    with n' moved_ok [OF mv(1) Suc.prems(2)] have "si_store (s_inner ?t) = si_store (s_inner s)" by simp
    moreover have "sl_max_frame_size (s_limits ?t) = sl_max_frame_size (s_limits s)" "session_id ?t = session_id s" using mv(1) by (simp_all add: moved_def)
    ultimately show ?thesis using Suc.prems(1) True neg n' mv(1)
      by (auto simp: fresh_answer_def Let_def split: sum.splits)
  next
    case False
    with Suc.prems(1) neg have "fresh_loop n (k + 2) h hello (h_others h (k + 1) ?t) = (Inr (welcome, snapshot, neg), s')"
      by (simp add: Let_def)
    moreover have "moved ?t (h_others h (k + 1) ?t)" by (rule moved_others [OF assms(1)])
    ultimately show ?thesis using Suc.IH mv moved_ok moved_trans by blast
  qed
qed

section \<open>The subscription\<close>

lemma seed_cell:
  "cells (snd (seed_resources_excluding c es known hub)) c = cells hub c \<or>
   (\<exists>fresh. cells (snd (seed_resources_excluding c es known hub)) c = fold maybe_enqueue_resource fresh (cells hub c))"
  by (auto simp: seed_resources_excluding_def Let_def split: option.splits)

lemma seed_next [simp]: "next_cell (snd (seed_resources_excluding c es known hub)) = next_cell hub"
  by (auto simp: seed_resources_excluding_def Let_def split: option.splits)

lemma seed_other: "x \<noteq> c \<Longrightarrow> cells (snd (seed_resources_excluding c es known hub)) x = cells hub x"
  by (auto simp: seed_resources_excluding_def Let_def split: option.splits)

lemma connection_seeded:
  "connection framed_len s0 max_ops sess st out \<Longrightarrow> connection framed_len s0 max_ops sess (fold maybe_enqueue_resource es st) out"
  by (induction es arbitrary: st) (auto intro: connection.enqueues)

text \<open>A subscription touches the table of ceilings and the hub only, and there no other receiver.\<close>

lemma subscribe_client_frame:
  assumes "subscribe_client_locked h c hs n s = (r, s')"
  shows "\<exists>hub. s' = s\<lparr>client_resource_ceilings := remember_client_resource_ceiling h c n (client_resource_ceilings s), outbound_hub := hub\<rparr> \<and>
    next_cell (outbound_hub s) \<le> next_cell hub \<and> (\<forall>x < next_cell (outbound_hub s). cells hub x = cells (outbound_hub s) x)"
proof -
  let ?run = "subscribe (h_gone h) c (outbound_queue_capacity s) (unat (sl_max_transaction_operations (s_limits s)))
      (unat (sl_max_frame_size (s_limits s))) n (outbound_hub s)"
  consider "\<exists>e. ?run = (Error e, outbound_hub s)" |
    "fst ?run = Ok (next_cell (outbound_hub s))" "next_cell (outbound_hub s) \<le> next_cell (snd ?run)" "\<forall>x < next_cell (outbound_hub s). cells (snd ?run) x = cells (outbound_hub s) x"
    by (cases "outbound_queue_capacity s = 0"; cases "hub_is_closed (outbound_hub s)") (simp_all add: subscribe_def Let_def)
  then show ?thesis
  proof cases
    case 1
    then show ?thesis using assms
      by (intro exI [of _ "outbound_hub s"]) (cases s, auto simp: subscribe_client_locked_def Let_def)
  next
    case 2
    then show ?thesis using assms by (cases ?run) (auto simp: subscribe_client_locked_def Let_def seed_other)
  qed
qed

lemma subscribe_client_connects:
  assumes "subscribe_client_locked h c hs n s = (Inr cell, s')" "session_ok (s_inner s)"
  shows "s_inner s' = s_inner s \<and>
    connection framed_len (si_store (s_inner s)) (unat (sl_max_transaction_operations (s_limits s))) (s_inner s) (cells (outbound_hub s') cell) []"
proof -
  from assms(1) have cap: "0 < outbound_queue_capacity s" "\<not> hub_is_closed (outbound_hub s)"
    by (auto simp: subscribe_client_locked_def subscribe_def Let_def split: if_splits)
  let ?new = "subscriber_new (outbound_queue_capacity s) (unat (sl_max_transaction_operations (s_limits s))) (unat (sl_max_frame_size (s_limits s))) n"
  let ?subs = "filter (\<lambda>sub. \<not> h_gone h (sub_cell sub) \<and> \<not> is_closed (cells (outbound_hub s) (sub_cell sub))) (subscribers (outbound_hub s))"
  let ?hub = "outbound_hub s\<lparr>cells := (cells (outbound_hub s))(cell := ?new), next_cell := cell + 1, subscribers := ?subs @ [\<lparr>sub_client = c, sub_cell = cell\<rparr>]\<rparr>"
  from assms(1) cap have s': "cell = next_cell (outbound_hub s)" "s_inner s' = s_inner s"
    "outbound_hub s' = snd (seed_resources_excluding cell (retained_entries (s_resources s))
       (known_resource_hashes hs (res_max_entries (res_limits (s_resources s)))) ?hub)"
    by (auto simp: subscribe_client_locked_def subscribe_def Let_def)
  have base: "connection framed_len (si_store (s_inner s)) (unat (sl_max_transaction_operations (s_limits s))) (s_inner s) ?new []"
    using connection.subscribed [OF assms(2) refl cap(1)] by simp
  have "cells ?hub cell = ?new" by simp
  with seed_cell [of cell "retained_entries (s_resources s)" "known_resource_hashes hs (res_max_entries (res_limits (s_resources s)))" ?hub]
  have "cells (outbound_hub s') cell = ?new \<or> (\<exists>fresh. cells (outbound_hub s') cell = fold maybe_enqueue_resource fresh ?new)"
    unfolding s'(3) by simp
  then show ?thesis
  proof (elim disjE exE)
    fix fresh assume "cells (outbound_hub s') cell = fold maybe_enqueue_resource fresh ?new"
    then show ?thesis using connection_seeded [OF base, of fresh] s'(2) by simp
  qed (use base s'(2) in simp)
qed

section \<open>The resume loop\<close>

definition resume_plan_ok :: "('e, 's) host \<Rightarrow> client_resume \<Rightarrow> validated_pending_text_edit_ref list \<Rightarrow> session \<Rightarrow> resume_plan \<Rightarrow> bool" where
  "resume_plan_ok h resume edits s plan \<longleftrightarrow>
     (case determine_resync_cause resume s of
        None \<Rightarrow> replay_plan resume s = Ok plan
      | Some cause \<Rightarrow> \<exists>exported.
          export_and_plan h (sl_max_frame_size (s_limits s)) (cr_limits resume) (si_store (s_inner s)) = Ok exported \<and>
          plan = resync_plan resume edits cause (revision (si_store (s_inner s))) exported s)"

lemma resume_loop_spec:
  assumes "others_ok h" "resume_loop n k h resume edits s = (Inr (plan, neg), s')" "session_ok (s_inner s)"
  shows "moved s s' \<and> resume_plan_ok h resume edits s' plan"
  using assms(2,3)
proof (induction n arbitrary: k s)
  case 0
  then show ?case
    by (auto simp: resume_plan_ok_def moved_refl result_simps split: sum.splits option.splits)
next
  case (Suc n)
  then obtain ng where neg: "negotiate_client s (cr_core_version resume) (cr_profiles resume) = Inr ng" by (auto split: sum.splits)
  let ?t = "h_others h k s"
  have mv: "moved s ?t" "session_ok (s_inner ?t)" using moved_others [OF assms(1)] moved_ok Suc.prems(2) by blast+
  show ?case
  proof (cases "determine_resync_cause resume s")
    case None
    with Suc.prems neg show ?thesis by (auto simp: resume_plan_ok_def moved_refl result_simps)
  next
    case (Some cause)
    show ?thesis
    proof (cases "revision (si_store (s_inner ?t)) = revision (si_store (s_inner s)) \<and> determine_resync_cause resume ?t = Some cause")
      case True
      with moved_ok [OF mv(1) Suc.prems(2)] have "si_store (s_inner ?t) = si_store (s_inner s)" by simp
      moreover have "s_limits ?t = s_limits s" using mv(1) by (simp add: moved_def)
      ultimately show ?thesis using Suc.prems(1) True Some neg mv(1)
        by (auto simp: resume_plan_ok_def Let_def split: sum.splits)
    next
      case False
      with Suc.prems(1) neg Some have "resume_loop n (k + 2) h resume edits (h_others h (k + 1) ?t) = (Inr (plan, neg), s')"
        by (auto simp: Let_def)
      moreover have "moved ?t (h_others h (k + 1) ?t)" by (rule moved_others [OF assms(1)])
      ultimately show ?thesis using Suc.IH mv moved_ok moved_trans by blast
    qed
  qed
qed

lemma commit_cancellation_frame [simp]:
  "s_inner (commit_cancellation p s) = s_inner s" "outbound_hub (commit_cancellation p s) = outbound_hub s"
  "s_limits (commit_cancellation p s) = s_limits s" "session_id (commit_cancellation p s) = session_id s"
  "client_resource_ceilings (commit_cancellation p s) = client_resource_ceilings s"
  by (simp_all add: commit_cancellation_def cancellation_commit_def split: resume_plan.splits option.splits)

lemma announce_Ok: "announce p = Ok n \<longleftrightarrow> announced_parts p = Ok n"
  by (auto simp: announce_def split: sum.splits)

section \<open>What a handshake keeps\<close>

text \<open>The steps a handshake is made of, for a property of sessions that each of them keeps.\<close>

definition handshake_keeps :: "('e, 's) host \<Rightarrow> (session \<Rightarrow> bool) \<Rightarrow> bool" where
  "handshake_keeps h Q \<longleftrightarrow>
     (\<forall>k s. Q s \<longrightarrow> Q (h_others h k s)) \<and>
     (\<forall>c hs n s. length c \<le> MAX_CLIENT_INSTANCE_ID_BYTES \<longrightarrow> Q s \<longrightarrow> Q (snd (subscribe_client_locked h c hs n s))) \<and>
     (\<forall>s. Q s \<longrightarrow> Q (s\<lparr>has_negotiated := True\<rparr>)) \<and> (\<forall>s d. Q s \<longrightarrow> Q (s\<lparr>s_dedupe := d\<rparr>))"

lemma handshake_keepsI:
  assumes "\<And>k s. Q s \<Longrightarrow> Q (h_others h k s)"
    and "\<And>c hs n s. length c \<le> MAX_CLIENT_INSTANCE_ID_BYTES \<Longrightarrow> Q s \<Longrightarrow> Q (snd (subscribe_client_locked h c hs n s))"
    and "\<And>s. Q s \<Longrightarrow> Q (s\<lparr>has_negotiated := True\<rparr>)" and "\<And>s d. Q s \<Longrightarrow> Q (s\<lparr>s_dedupe := d\<rparr>)"
  shows "handshake_keeps h Q"
  using assms unfolding handshake_keeps_def by blast

lemma fresh_loop_keeps:
  "handshake_keeps h Q \<Longrightarrow> Q s \<Longrightarrow> Q (snd (fresh_loop n k h hello s)) \<and>
     (\<forall>x. fst (fresh_loop n k h hello s) = Inr x \<longrightarrow> length (ch_client_instance_id hello) \<le> MAX_CLIENT_INSTANCE_ID_BYTES)"
proof (induction n arbitrary: k s)
  case 0
  then show ?case by (auto dest: negotiate_hello_Ok split: sum.splits)
next
  case (Suc n)
  have "Q (h_others h k s)" "Q (h_others h (k + 1) (h_others h k s))" using Suc.prems by (auto simp: handshake_keeps_def)
  with Suc.IH [OF Suc.prems(1)] Suc.prems(2) show ?case by (auto simp: Let_def dest: negotiate_hello_Ok split: sum.splits)
qed

lemma resume_loop_keeps: "handshake_keeps h Q \<Longrightarrow> Q s \<Longrightarrow> Q (snd (resume_loop n k h resume edits s))"
proof (induction n arbitrary: k s)
  case 0
  then show ?case by (auto split: sum.splits option.splits)
next
  case (Suc n)
  have "Q (h_others h k s)" "Q (h_others h (k + 1) (h_others h k s))" using Suc.prems by (auto simp: handshake_keeps_def)
  with Suc.IH [OF Suc.prems(1)] Suc.prems(2) show ?case by (auto simp: Let_def split: sum.splits option.splits)
qed

lemma and_then_st_keeps: "Q (snd a) \<Longrightarrow> (\<And>x t. a = (Inr x, t) \<Longrightarrow> Q (snd (f x t))) \<Longrightarrow> Q (snd (and_then_st a f))"
  by (cases a; cases "fst a") auto

lemma subscribed_keeps:
  "handshake_keeps h Q \<Longrightarrow> length c \<le> MAX_CLIENT_INSTANCE_ID_BYTES \<Longrightarrow> Q s \<Longrightarrow> subscribe_client_locked h c hs n s = (r, t) \<Longrightarrow>
     Q t \<and> Q (t\<lparr>has_negotiated := True\<rparr>) \<and> Q (commit_cancellation plan (t\<lparr>has_negotiated := True\<rparr>))"
  by (auto simp: handshake_keeps_def commit_cancellation_def cancellation_commit_def split: resume_plan.split option.split) (metis snd_conv)+

lemma bootstrap_fresh_keeps:
  assumes keeps: "handshake_keeps h Q" and Q: "Q s"
  shows "Q (snd (bootstrap_fresh_client h hello s))"
proof -
  obtain r t where loop: "fresh_loop MAX_OPTIMISTIC_SNAPSHOT_EXPORT_ATTEMPTS 0 h hello s = (r, t)" by fastforce
  have t: "Q t" using fresh_loop_keeps [OF keeps Q, of MAX_OPTIMISTIC_SNAPSHOT_EXPORT_ATTEMPTS 0 hello] by (simp add: loop)
  show ?thesis
  proof (cases r)
    case (Inr x)
    obtain wel snapshot neg where x: "x = (wel, snapshot, neg)" by (cases x)
    have len: "length (ch_client_instance_id hello) \<le> MAX_CLIENT_INSTANCE_ID_BYTES"
      using fresh_loop_keeps [OF keeps Q, of MAX_OPTIMISTIC_SNAPSHOT_EXPORT_ATTEMPTS 0 hello] by (simp add: loop Inr x)
    obtain q u where sub: "subscribe_client_locked h (ch_client_instance_id hello) (ch_known_resource_hashes hello)
        (negotiated_max_resource_size (sl_max_resource_size (s_limits t)) (ch_limits hello)) t = (q, u)" by fastforce
    note kept = subscribed_keeps [OF keeps len t sub]
    show ?thesis unfolding bootstrap_fresh_client_def loop Inr x
      by (cases "announce (case snapshot of Some (_, plan) \<Rightarrow> plan | None \<Rightarrow> plan_single 0)"; cases q; cases "attach_terminals h fmempty False")
        (simp_all add: t sub kept Let_def)
  qed (simp add: bootstrap_fresh_client_def loop t)
qed

lemma bootstrap_resume_keeps:
  assumes keeps: "handshake_keeps h Q" and Q: "Q s"
  shows "Q (snd (bootstrap_resume h resume s))"
proof (cases "length (cr_client_instance_id resume) \<le> MAX_CLIENT_INSTANCE_ID_BYTES \<and>
    len_map (cr_terminal_stream_offsets resume) \<le> MAX_TERMINAL_RESUME_MAP_ENTRIES")
  case True
  then have pre: "validate_client_instance_id (cr_client_instance_id resume) = Ok ()" by (simp add: validate_client_instance_id_def)
  show ?thesis
  proof (cases "validate_pending_text_edit_refs (h_sha256 h) (cr_pending_text_edits resume)")
    case (Inr edits)
    obtain r t where loop: "resume_loop MAX_OPTIMISTIC_SNAPSHOT_EXPORT_ATTEMPTS 0 h resume edits s = (r, t)" by fastforce
    have t: "Q t" using resume_loop_keeps [OF keeps Q, of MAX_OPTIMISTIC_SNAPSHOT_EXPORT_ATTEMPTS 0 resume edits] by (simp add: loop)
    show ?thesis
    proof (cases r)
      case x: (Inr x)
      obtain q u where sub: "subscribe_client_locked h (cr_client_instance_id resume) (cr_known_resource_hashes resume)
          (resume_resource_size resume t) t = (q, u)" by fastforce
      have kept: "Q u" "Q (commit_cancellation p (u\<lparr>has_negotiated := True\<rparr>))" for p
        using subscribed_keeps [OF keeps True [THEN conjunct1] t sub] by blast+
      show ?thesis using True
        by (cases x; cases q; cases "attach_terminals h (cr_terminal_stream_offsets resume) (plan_is_replaced (fst x))"; cases "resume_answer (fst x)")
          (simp_all add: bootstrap_resume_def pre Inr loop x t sub Let_def kept split: prod.split)
    qed (use True in \<open>simp add: bootstrap_resume_def pre Inr loop t\<close>)
  qed (use True Q in \<open>simp add: bootstrap_resume_def pre\<close>)
qed (use Q in \<open>auto simp: bootstrap_resume_def validate_client_instance_id_def\<close>)

section \<open>Properties\<close>

lemma bootstrap_fresh_Ok:
  assumes "bootstrap_fresh_client h hello s = (Inr b, s')"
  obtains wel snapshot neg t parts cell u n where
    "fresh_loop MAX_OPTIMISTIC_SNAPSHOT_EXPORT_ATTEMPTS 0 h hello s = (Inr (wel, snapshot, neg), t)"
    "fb_snapshot_frames b = (case snapshot of Some (_, plan) \<Rightarrow> plan | None \<Rightarrow> plan_single 0)"
    "announced_parts (fb_snapshot_frames b) = Ok parts"
    "subscribe_client_locked h (ch_client_instance_id hello) (ch_known_resource_hashes hello) n t = (Inr cell, u)"
    "s' = u\<lparr>has_negotiated := True\<rparr>" "fb_welcome b = wel\<lparr>sw_snapshot_parts := parts\<rparr>" "fb_snapshot b = map_option fst snapshot"
    "fb_transactions b = cell"
  using assms unfolding bootstrap_fresh_client_def
  by (auto simp: result_simps announce_Ok Let_def attach_terminals_def split: prod.splits if_splits sum.splits)

text \<open>
  C5: A fresh handshake has no gap.  The other threads may, between the attempts, use the operations of the session
  as often as they like: its lifecycle, its editor table, commits of messages, and commits of closures that ask only for
  operations the wire can carry and leave at their first error; they do not change its identifier, limits and queue
  capacity.  Then the welcome that is answered names the revision of the store at the moment of the subscription; the
  snapshot, absent only at revision 0, is the export of exactly that store with a plan for its delivery that the welcome
  announces; and the new queue is that of a client connected at that store, so the first transaction it will carry
  continues the snapshot.
\<close>

theorem fresh_handshake_no_gap:
  assumes "others_ok h" "session_ok (s_inner s)" "bootstrap_fresh_client h hello s = (Inr b, s')"
  shows "let st = si_store (s_inner s') in
    session_moves (s_inner s) (s_inner s') \<and> sw_session_id (fb_welcome b) = session_id s \<and>
    sw_initial_revision (fb_welcome b) = revision st \<and> (fb_snapshot b = None \<longleftrightarrow> revision st = 0) \<and>
    (\<forall>w. fb_snapshot b = Some w \<longrightarrow> export_snapshot_transaction (h_item_len h) st = Ok w \<and>
       plan_snapshot_delivery (h_vlen h) (h_oplen h) w (sl_max_frame_size (s_limits s)) (ch_limits hello) = Ok (fb_snapshot_frames b)) \<and>
    announced_parts (fb_snapshot_frames b) = Ok (sw_snapshot_parts (fb_welcome b)) \<and>
    connection framed_len st (unat (sl_max_transaction_operations (s_limits s))) (s_inner s') (cells (outbound_hub s') (fb_transactions b)) []"
proof -
  obtain wel snapshot neg t parts cell u n where run:
    "fresh_loop MAX_OPTIMISTIC_SNAPSHOT_EXPORT_ATTEMPTS 0 h hello s = (Inr (wel, snapshot, neg), t)"
    "fb_snapshot_frames b = (case snapshot of Some (_, plan) \<Rightarrow> plan | None \<Rightarrow> plan_single 0)"
    "announced_parts (fb_snapshot_frames b) = Ok parts"
    "subscribe_client_locked h (ch_client_instance_id hello) (ch_known_resource_hashes hello) n t = (Inr cell, u)"
    "s' = u\<lparr>has_negotiated := True\<rparr>" "fb_welcome b = wel\<lparr>sw_snapshot_parts := parts\<rparr>" "fb_snapshot b = map_option fst snapshot"
    "fb_transactions b = cell" by (rule bootstrap_fresh_Ok [OF assms(3)])
  from fresh_loop_spec [OF assms(1) run(1) assms(2)] have t: "moved s t" "fresh_answer h hello t wel snapshot" by simp_all
  with moved_ok assms(2) have "session_ok (s_inner t)" by blast
  from subscribe_client_connects [OF run(4) this, of framed_len] t(1)
  have con: "s_inner s' = s_inner t" "connection framed_len (si_store (s_inner s')) (unat (sl_max_transaction_operations (s_limits s))) (s_inner s')
      (cells (outbound_hub s') (fb_transactions b)) []" by (simp_all add: run(5,8) moved_def)
  have lim: "s_limits t = s_limits s" "session_id t = session_id s" "session_moves (s_inner s) (s_inner t)" using t(1) by (simp_all add: moved_def)
  have "(fb_snapshot b = None \<longleftrightarrow> revision (si_store (s_inner t)) = 0) \<and>
    (\<forall>w. fb_snapshot b = Some w \<longrightarrow> export_snapshot_transaction (h_item_len h) (si_store (s_inner t)) = Ok w \<and>
       plan_snapshot_delivery (h_vlen h) (h_oplen h) w (sl_max_frame_size (s_limits s)) (ch_limits hello) = Ok (fb_snapshot_frames b))"
    using t(2) lim run(2,7)
    by (auto simp: fresh_answer_def export_clone_def export_and_plan_def result_simps word_gt_0 split: if_splits)
  then show ?thesis using con t(2) lim run(3,6) by (simp add: fresh_answer_def Let_def)
qed

lemma discarded_all: "discarded (fold (cancel_one c out) vs p) = discarded p @ map vp_reference vs"
  by (induction vs arbitrary: p) (simp_all add: cancel_one_def Let_def)

lemma resync_plan_message:
  "\<exists>msg canc. resync_plan resume edits cause rv (w, frames) s = PlanResync msg w frames canc \<and> rr_snapshot_revision msg = rv \<and>
     rr_continuity msg = continuity cause \<and>
     rr_discarded_text_edits msg = (if cause = ReplacedIncarnation then [] else map vp_reference edits)"
  by (cases cause) (simp_all add: resync_plan_def Let_def prepare_pending_text_edit_cancellation_def discarded_all)

lemma answer_resync:
  "resume_answer (PlanResync msg w frames canc) = Inr (out, fr) \<Longrightarrow>
     \<exists>parts. announced_parts frames = Ok parts \<and> out = Resync (msg\<lparr>rr_snapshot_parts := parts\<rparr>) w \<and> fr = frames"
  by (auto simp: resume_answer_def announce_Ok result_simps)

lemma resync_answered:
  assumes "resume_answer (resync_plan resume edits cause rv (w, frames) s) = Inr (out, fr)"
  obtains msg where "out = Resync msg w" "fr = frames" "announced_parts frames = Ok (rr_snapshot_parts msg)" "rr_snapshot_revision msg = rv"
    "rr_continuity msg = Replaced \<longleftrightarrow> cause = ReplacedIncarnation"
    "rr_discarded_text_edits msg = (if cause = ReplacedIncarnation then [] else map vp_reference edits)"
proof -
  obtain m0 canc where m0: "resync_plan resume edits cause rv (w, frames) s = PlanResync m0 w frames canc" "rr_snapshot_revision m0 = rv"
    "rr_continuity m0 = continuity cause" "rr_discarded_text_edits m0 = (if cause = ReplacedIncarnation then [] else map vp_reference edits)"
    using resync_plan_message [of resume edits cause rv w frames s] by metis
  from answer_resync [OF assms [unfolded m0(1)]] obtain parts where
    "announced_parts frames = Ok parts" "out = Resync (m0\<lparr>rr_snapshot_parts := parts\<rparr>) w" "fr = frames" by blast
  with m0 show thesis by (intro that [of "m0\<lparr>rr_snapshot_parts := parts\<rparr>"]) (cases cause; simp)+
qed

lemma bootstrap_resume_Ok:
  assumes "bootstrap_resume h resume s = (Inr b, s')"
  obtains edits plan neg t cell u n where
    "validate_pending_text_edit_refs (h_sha256 h) (cr_pending_text_edits resume) = Ok edits"
    "resume_loop MAX_OPTIMISTIC_SNAPSHOT_EXPORT_ATTEMPTS 0 h resume edits s = (Inr (plan, neg), t)"
    "subscribe_client_locked h (cr_client_instance_id resume) (cr_known_resource_hashes resume) n t = (Inr cell, u)"
    "s' = commit_cancellation plan (u\<lparr>has_negotiated := True\<rparr>)" "resume_answer plan = Ok (rb_outcome b, rb_snapshot_frames b)"
    "rb_transactions b = cell" "length (cr_client_instance_id resume) \<le> MAX_CLIENT_INSTANCE_ID_BYTES"
  using assms unfolding bootstrap_resume_def
  by (auto simp: result_simps validate_client_instance_id_def Let_def split: prod.splits if_splits)

lemma replay_reaches:
  assumes "catches_up s snap" "iter_from (si_journal s) r = Some txs"
  shows "revision (snap r) = r \<and> replay_all txs (snap r) = (Ok (), si_store s)"
proof -
  have "can_replay_from (si_journal s) r" using assms(2) by (auto simp: iter_from_def can_replay_from_def split: if_splits)
  with assms show ?thesis by (auto simp: catches_up_def replay_from_def)
qed

text \<open>
  C6: A resume is answered correctly.  The session has been reached from its start, and the other threads move it during
  the handshake, only by its lifecycle, its editor table, commits of messages, and commits of closures that ask only for
  operations the wire can carry and leave at their first error (after a swallowed error no replay works).  A
  replay is only answered to a client of
  this session, and the transactions bring the store of the revision that the client has applied to the store at the
  moment of the subscription.  Otherwise the answer carries the snapshot of exactly that store with its revision and the
  announced envelopes; it speaks of a replaced session just when the identifiers differ, and in the same session
  all pending edits of the client are answered as discarded, in their order.  In both cases the new queue is that of a
  client connected at that store.
\<close>

theorem resume_handshake_no_gap:
  assumes "others_ok h" "session_history (s_inner s) snap" "bootstrap_resume h resume s = (Inr b, s')"
  shows "let st = si_store (s_inner s') in
    connection framed_len st (unat (sl_max_transaction_operations (s_limits s))) (s_inner s') (cells (outbound_hub s') (rb_transactions b)) [] \<and>
    (case rb_outcome b of
       Replay msg txs \<Rightarrow> cr_session_id resume = session_id s \<and> ro_replay_from_revision msg = cr_last_applied_revision resume \<and>
         (\<exists>snap'. (\<forall>r \<le> revision (si_store (s_inner s)). snap' r = snap r) \<and>
            revision (snap' (cr_last_applied_revision resume)) = cr_last_applied_revision resume \<and>
            replay_all txs (snap' (cr_last_applied_revision resume)) = (Ok (), st))
     | Resync msg w \<Rightarrow> export_snapshot_transaction (h_item_len h) st = Ok w \<and>
         plan_snapshot_delivery (h_vlen h) (h_oplen h) w (sl_max_frame_size (s_limits s)) (cr_limits resume) = Ok (rb_snapshot_frames b) \<and>
         announced_parts (rb_snapshot_frames b) = Ok (rr_snapshot_parts msg) \<and> rr_snapshot_revision msg = revision st \<and>
         (rr_continuity msg = Replaced \<longleftrightarrow> cr_session_id resume \<noteq> session_id s) \<and>
         rr_discarded_text_edits msg = (if cr_session_id resume \<noteq> session_id s then []
           else map (\<lambda>r. r\<lparr>pr_event_id := response_event_id (h_sha256 h) r\<rparr>) (cr_pending_text_edits resume)))"
proof -
  obtain edits plan neg t cell u n where run:
    "validate_pending_text_edit_refs (h_sha256 h) (cr_pending_text_edits resume) = Ok edits"
    "resume_loop MAX_OPTIMISTIC_SNAPSHOT_EXPORT_ATTEMPTS 0 h resume edits s = (Inr (plan, neg), t)"
    "subscribe_client_locked h (cr_client_instance_id resume) (cr_known_resource_hashes resume) n t = (Inr cell, u)"
    "s' = commit_cancellation plan (u\<lparr>has_negotiated := True\<rparr>)" "resume_answer plan = Ok (rb_outcome b, rb_snapshot_frames b)"
    "rb_transactions b = cell" by (rule bootstrap_resume_Ok [OF assms(3)])
  have cu: "catches_up (s_inner s) snap" by (rule session_history_catches_up [OF assms(2)])
  then have ok: "session_ok (s_inner s)" by (simp add: catches_up_def)
  from resume_loop_spec [OF assms(1) run(2) ok] have t: "moved s t" "resume_plan_ok h resume edits t plan" by simp_all
  have lim: "s_limits t = s_limits s" "session_id t = session_id s" "session_moves (s_inner s) (s_inner t)" using t(1) by (simp_all add: moved_def)
  from moved_ok [OF t(1) ok] have "session_ok (s_inner t)" by blast
  from subscribe_client_connects [OF run(3) this, of framed_len] lim
  have con: "s_inner s' = s_inner t" "connection framed_len (si_store (s_inner s')) (unat (sl_max_transaction_operations (s_limits s))) (s_inner s')
      (cells (outbound_hub s') (rb_transactions b)) []" by (simp_all add: run(4,6))
  obtain snap' where sn: "catches_up (s_inner t) snap'" "\<forall>r \<le> revision (si_store (s_inner s)). snap' r = snap r"
    using session_moves_catches_up [OF lim(3) cu] by blast
  have refs: "map vp_reference edits = map (\<lambda>r. r\<lparr>pr_event_id := response_event_id (h_sha256 h) r\<rparr>) (cr_pending_text_edits resume)"
    using run(1) validate_refs_Ok by (auto simp: validate_pending_text_edit_refs_def split: if_splits)
  show ?thesis
  proof (cases "determine_resync_cause resume t")
    case None
    then have id: "cr_session_id resume = session_id s" using lim(2) by (auto simp: determine_resync_cause_def split: if_splits)
    from None t(2) have "replay_plan resume t = Ok plan" by (simp add: resume_plan_ok_def)
    then obtain msg txs where p: "plan = PlanReplay msg txs" "iter_from (si_journal (s_inner t)) (cr_last_applied_revision resume) = Some txs"
      "ro_replay_from_revision msg = cr_last_applied_revision resume" by (auto simp: replay_plan_def result_simps)
    then have "rb_outcome b = Replay msg txs" using run(5) by (simp add: resume_answer_def)
    with replay_reaches [OF sn(1) p(2)] sn(2) id p(3) con show ?thesis by (auto simp: Let_def)
  next
    case (Some cause)
    then have c: "cause = ReplacedIncarnation \<longleftrightarrow> cr_session_id resume \<noteq> session_id s" using lim(2) by (auto simp: determine_resync_cause_def split: if_splits)
    from Some t(2) obtain w frames where p: "export_and_plan h (sl_max_frame_size (s_limits s)) (cr_limits resume) (si_store (s_inner t)) = Ok (w, frames)"
      "plan = resync_plan resume edits cause (revision (si_store (s_inner t))) (w, frames) t" by (auto simp: resume_plan_ok_def lim)
    obtain msg where m: "rb_outcome b = Resync msg w" "rb_snapshot_frames b = frames"
      "announced_parts frames = Ok (rr_snapshot_parts msg)" "rr_snapshot_revision msg = revision (si_store (s_inner t))"
      "rr_continuity msg = Replaced \<longleftrightarrow> cause = ReplacedIncarnation"
      "rr_discarded_text_edits msg = (if cause = ReplacedIncarnation then [] else map vp_reference edits)"
      by (rule resync_answered [OF run(5) [unfolded p(2)]])
    with m p(1) c con refs show ?thesis by (auto simp: Let_def export_and_plan_def result_simps)
  qed
qed

definition untouched :: "session \<Rightarrow> session \<Rightarrow> bool" where
  "untouched s t \<longleftrightarrow>
     session_id t = session_id s \<and> s_inner t = s_inner s \<and> s_capabilities t = s_capabilities s \<and> s_limits t = s_limits s \<and>
     s_resources t = s_resources s \<and> extension_namespaces t = extension_namespaces s \<and>
     outbound_queue_capacity t = outbound_queue_capacity s \<and> next_cell (outbound_hub s) \<le> next_cell (outbound_hub t) \<and>
     (\<forall>x < next_cell (outbound_hub s). cells (outbound_hub t) x = cells (outbound_hub s) x)"

lemma subscribe_untouched:
  assumes "untouched s t"
  shows "untouched s (snd (subscribe_client_locked h c hs n t))"
proof -
  obtain r u where run: "subscribe_client_locked h c hs n t = (r, u)" by fastforce
  from subscribe_client_frame [OF run] assms show ?thesis by (auto simp: run untouched_def)
qed

lemma quiet_untouched:
  assumes "\<And>k t. h_others h k t = t"
  shows "handshake_keeps h (untouched s)" "untouched s s"
proof -
  show "handshake_keeps h (untouched s)"
    by (rule handshake_keepsI) (simp add: assms, rule subscribe_untouched, assumption, simp_all add: untouched_def)
qed (simp add: untouched_def)

text \<open>
  C28: A handshake, whatever its outcome, disturbs nobody.  When no other thread interferes, it leaves the state
  under the mutex (store, journal, lifecycle and editor table), the capabilities, the resources and the namespaces as they were, and the
  queues of the receivers that exist already; a fresh one and a resuming one alike.
\<close>

theorem handshake_isolated:
  assumes "\<And>k t. h_others h k t = t"
  shows "untouched s (snd (bootstrap_fresh_client h hello s)) \<and> untouched s (snd (bootstrap_resume h resume s))"
  using quiet_untouched [OF assms] bootstrap_fresh_keeps bootstrap_resume_keeps by blast

definition ceilings_ok :: "session \<Rightarrow> bool" where
  "ceilings_ok s \<longleftrightarrow> len_map (client_resource_ceilings s) \<le> MAX_CLIENT_RESOURCE_CEILINGS \<and>
     (\<forall>c. c |\<in>| fmdom (client_resource_ceilings s) \<longrightarrow> length c \<le> MAX_CLIENT_INSTANCE_ID_BYTES)"

lemma remember_bounded:
  assumes first: "\<And>m. m \<noteq> fmempty \<Longrightarrow> \<exists>k. h_first_key h m = Some k \<and> k |\<in>| fmdom m"
    and m: "len_map m \<le> MAX_CLIENT_RESOURCE_CEILINGS" "\<forall>k. k |\<in>| fmdom m \<longrightarrow> length k \<le> MAX_CLIENT_INSTANCE_ID_BYTES"
    and c: "length c \<le> MAX_CLIENT_INSTANCE_ID_BYTES"
  shows "len_map (remember_client_resource_ceiling h c n m) \<le> MAX_CLIENT_RESOURCE_CEILINGS \<and>
    (\<forall>k. k |\<in>| fmdom (remember_client_resource_ceiling h c n m) \<longrightarrow> length k \<le> MAX_CLIENT_INSTANCE_ID_BYTES)"
proof (cases "len_map m \<ge> MAX_CLIENT_RESOURCE_CEILINGS \<and> c |\<notin>| fmdom m")
  case True
  then have "m \<noteq> fmempty" by (auto simp: MAX_CLIENT_RESOURCE_CEILINGS_def fcard.rep_eq)
  with first obtain k where k: "h_first_key h m = Some k" "k |\<in>| fmdom m" by blast
  then obtain v where "fmlookup m k = Some v" by (auto simp: fmlookup_dom_iff)
  then have "Suc (len_map (fmdrop k m)) = len_map m" by (rule len_map_fmdrop)
  moreover have "fmlookup (fmdrop k m) c = None" using True by (simp add: fmdom_notD)
  ultimately have "len_map (fmupd c n (fmdrop k m)) = len_map m" by (metis len_map_fmupd_new)
  moreover have "remember_client_resource_ceiling h c n m = fmupd c n (fmdrop k m)"
    using True k(1) by (simp add: remember_client_resource_ceiling_def)
  ultimately show ?thesis using m c by auto
next
  case False
  then have "len_map (fmupd c n m) \<le> MAX_CLIENT_RESOURCE_CEILINGS"
    using m(1) by (cases "fmlookup m c") (auto simp del: fmdom_fmupd simp add: fmap_card fmdom_notI fmdomI)
  with False m c show ?thesis by (auto simp: remember_client_resource_ceiling_def Let_def)
qed

text \<open>
  C29: The table of resource ceilings stays within its bound.  It never has more than 256 entries and no key longer
  than 64 bytes, through every fresh and resuming handshake with every outcome, however clients choose their identifiers;
  of the iteration over the table only that it yields a present key is used.
\<close>

theorem handshake_tables_bounded:
  assumes "\<And>m. m \<noteq> fmempty \<Longrightarrow> \<exists>k. h_first_key h m = Some k \<and> k |\<in>| fmdom m"
    and "\<And>k t. ceilings_ok t \<Longrightarrow> ceilings_ok (h_others h k t)" and "ceilings_ok s"
  shows "ceilings_ok (snd (bootstrap_fresh_client h hello s)) \<and> ceilings_ok (snd (bootstrap_resume h resume s))"
proof -
  have "ceilings_ok (snd (subscribe_client_locked h c hs n t))"
    if "length c \<le> MAX_CLIENT_INSTANCE_ID_BYTES" "ceilings_ok t" for c hs n t
  proof -
    obtain r u where run: "subscribe_client_locked h c hs n t = (r, u)" by fastforce
    have "ceilings_ok u" using subscribe_client_frame [OF run] that
        remember_bounded [OF assms(1), where m = "client_resource_ceilings t" and c = c and n = n]
      by (auto simp: ceilings_ok_def)
    then show ?thesis by (simp add: run)
  qed
  then have "handshake_keeps h ceilings_ok"
    by (intro handshake_keepsI) (erule assms(2), blast, simp_all add: ceilings_ok_def)
  then show ?thesis using bootstrap_fresh_keeps bootstrap_resume_keeps assms(3) by blast
qed

section \<open>Examples\<close>

definition quiet_host :: "(unit, unit) host" where
  "quiet_host = \<lparr>h_vlen = \<lambda>_. 1, h_oplen = \<lambda>_. 3, h_item_len = \<lambda>_. 1, h_sha256 = \<lambda>_. replicate 32 0, h_gone = \<lambda>_. False,
     h_first_key = \<lambda>m. (case map fst (sorted_list_of_fmap m) of [] \<Rightarrow> None | k # _ \<Rightarrow> Some k),
     h_subscribe_all = \<lambda>_. Inr [], h_others = \<lambda>_ s. s\<rparr>"

definition plain_hello :: client_hello where
  "plain_hello = \<lparr>ch_core_version = CORE_VERSION, ch_profiles = [profile_to_string standard_widgets_v1], ch_client_instance_id = [1],
     ch_limits = None, ch_known_resource_hashes = []\<rparr>"

definition plain_resume :: client_resume where
  "plain_resume = \<lparr>cr_session_id = [1], cr_client_instance_id = [1], cr_last_applied_revision = 0, cr_terminal_stream_offsets = fmempty,
     cr_limits = None, cr_known_resource_hashes = [], cr_pending_text_edits = [], cr_core_version = CORE_VERSION,
     cr_profiles = [profile_to_string standard_widgets_v1]\<rparr>"

lemma plain_negotiates: "negotiate_client plain_session CORE_VERSION [profile_to_string standard_widgets_v1] = Ok {|standard_widgets_v1|}"
proof -
  have "trim PROFILE_STANDARD_WIDGETS = PROFILE_STANDARD_WIDGETS"
    by (simp add: trim_def str_bytes_def byte_of_char_def white_space_def trim_start.simps trim_end.simps PROFILE_STANDARD_WIDGETS_def suffix_to_prefix)
  then have "profile_ok standard_widgets_v1" by (simp add: profile_ok_def standard_widgets_v1_def PROFILE_STANDARD_WIDGETS_def str_bytes_def)
  from parse_to_string [OF this] have "offered_profiles [profile_to_string standard_widgets_v1] = {|standard_widgets_v1|}"
    by (simp add: offered_profiles_def)
  moreover have "server_negotiate server_standard_widgets {|standard_widgets_v1|} = Ok {|standard_widgets_v1|}"
    by (simp add: server_negotiate_def negotiate_iff server_standard_widgets_def)
  moreover have "core_version_is_compatible CORE_VERSION" by (simp add: core_version_exact CORE_VERSION_def str_bytes_def)
  moreover have "validate_extension_namespace_contract server_standard_widgets [standard_namespace_mapping] = Ok ()"
    using plain_contract by (simp only: contract_iff)
  ultimately show ?thesis by (simp add: negotiate_client_def plain_session_def)
qed

lemma quiet_others: "others_ok quiet_host" "h_others quiet_host k s = s"
  by (simp_all add: others_ok_def quiet_host_def session_moves.rests)

lemma plain_inner: "s_inner plain_session = session_a" "session_ok (s_inner plain_session)" "session_id plain_session = [1]"
  "revision (si_store session_a) = 0"
  using session_a_ok session_a_store by (simp_all add: plain_session_def)

lemma quiet_terminals: "\<exists>t. attach_terminals quiet_host fmempty b = Ok t"
  by (simp add: attach_terminals_def quiet_host_def fcard.rep_eq MAX_TERMINAL_RESUME_MAP_ENTRIES_def)

text \<open>A host whose other threads commit a node between the first export and the subscription.\<close>

definition meddle :: "nat \<Rightarrow> session \<Rightarrow> session" where
  "meddle k s = (if k = 0 then
       (case transaction_with_result create_root [] (s_inner s) of (Inr _, t, _) \<Rightarrow> s\<lparr>s_inner := t\<rparr> | (Inl _, _, _) \<Rightarrow> s)
     else s)"

definition busy_host :: "(unit, unit) host" where
  "busy_host = quiet_host\<lparr>h_others := meddle\<rparr>"

definition rooted_session :: session where
  "rooted_session = meddle 0 plain_session"

lemma busy_others: "others_ok busy_host"
proof -
  have "session_moves (s_inner s) (s_inner (meddle k s))" for k s
    by (auto simp: meddle_def split: prod.splits sum.splits
      intro!: session_moves.commits [OF session_moves.rests] session_commits.by_closure create_root_disciplined session_moves.rests)
  moreover have "session_id (meddle k s) = session_id s \<and> s_limits (meddle k s) = s_limits s \<and> outbound_queue_capacity (meddle k s) = outbound_queue_capacity s" for k s
    by (auto simp: meddle_def split: prod.splits sum.splits)
  ultimately show ?thesis by (simp add: others_ok_def busy_host_def)
qed

lemma rooted_commit:
  obtains eff where "transaction_with_result create_root [] session_a =
    (Ok ((), transaction_to_wire (with_revisions 0 1 [CreateNode 1 (standard_type 1) None None []] 0)), s_inner rooted_session, eff)"
    "rooted_session = plain_session\<lparr>s_inner := s_inner rooted_session\<rparr>"
proof -
  obtain s' eff where "transaction_with_result create_root [] session_a =
      (Ok ((), transaction_to_wire (with_revisions 0 1 [CreateNode 1 (standard_type 1) None None []] 0)), s', eff)"
    using create_root_commits by blast
  then show thesis by (intro that [of eff]) (simp_all add: rooted_session_def meddle_def plain_inner)
qed

definition root_node :: node where
  "root_node = \<lparr>n_id = 1, node_type = standard_type 1, parent_id = None, ordered_children = [], properties = fmempty\<rparr>"

lemma rooted_store:
  "nodes (si_store (s_inner rooted_session)) = fmupd 1 root_node fmempty" "roots (si_store (s_inner rooted_session)) = [1]"
  "models (si_store (s_inner rooted_session)) = fmempty" "revision (si_store (s_inner rooted_session)) = 1"
  "limits (si_store (s_inner rooted_session)) = default_limits"
proof -
  obtain eff where c: "transaction_with_result create_root [] session_a =
    (Ok ((), transaction_to_wire (with_revisions 0 1 [CreateNode 1 (standard_type 1) None None []] 0)), s_inner rooted_session, eff)"
    by (rule rooted_commit)
  obtain ui where ui: "run_ui (create_root (0, 1)) (ui_new store_new 10000) = (Ok (), ui)" "nodes (ui_staged ui) = fmupd 1 root_node fmempty"
    "roots (ui_staged ui) = [1]" "models (ui_staged ui) = fmempty" "limits (ui_staged ui) = default_limits"
    by (simp add: create_root_def ui_eval contains_node_def root_node_def)
  with closure_commits [OF session_a_ok, of 1 create_root "()" ui "[]"] c
  have "si_store (s_inner rooted_session) = (ui_staged ui)\<lparr>revision := 1\<rparr>" by (auto simp: session_a_store committed_def with_revisions_def)
  with ui(2-5) show "nodes (si_store (s_inner rooted_session)) = fmupd 1 root_node fmempty" "roots (si_store (s_inner rooted_session)) = [1]"
    "models (si_store (s_inner rooted_session)) = fmempty" "revision (si_store (s_inner rooted_session)) = 1"
    "limits (si_store (s_inner rooted_session)) = default_limits" by simp_all
qed

definition root_snapshot :: wire_transaction where
  "root_snapshot = \<lparr>w_base_revision = 0, w_new_revision = 1, w_operations =
     [Some (WCreateNode (Some \<lparr>wn_node_id = 1, wn_type = Some (standard_type 1), wn_parent_id = 0, wn_child_index = 0, wn_properties = []\<rparr>))],
     w_priority = 0\<rparr>"

lemma rooted_export: "export_and_plan busy_host (sl_max_frame_size session_limits) None (si_store (s_inner rooted_session)) = Ok (root_snapshot, plan_single 1)"
proof -
  have fuel: "graph_fuel (nodes (si_store (s_inner rooted_session))) = Suc (Suc 0)" by (simp add: graph_fuel_def rooted_store fcard.rep_eq)
  have "export_snapshot_transaction (h_item_len busy_host) (si_store (s_inner rooted_session)) = Ok root_snapshot"
    unfolding export_snapshot_transaction_def fuel
    by (simp add: rooted_store root_node_def export_node_def root_snapshot_def limits_eval)
  moreover have "plan_snapshot_delivery (h_vlen busy_host) (h_oplen busy_host) root_snapshot (sl_max_frame_size session_limits) None = Ok (plan_single 1)"
    by (simp add: plan_snapshot_delivery_def nonzero_def envelope_budget_def plan_snapshot_frames_def busy_host_def quiet_host_def session_limits_def limits_eval
      root_snapshot_def envelope_len_def operation_field_len_def DEFAULT_MAX_FRAME_SIZE_def List.map_filter_def Let_def)
  ultimately show ?thesis by (simp add: export_and_plan_def)
qed

lemma rooted_frame:
  "session_id rooted_session = [1]" "s_capabilities rooted_session = s_capabilities plain_session"
  "extension_namespaces rooted_session = extension_namespaces plain_session" "s_limits rooted_session = session_limits"
  "outbound_hub rooted_session = hub_new" "outbound_queue_capacity rooted_session = 1"
  "client_resource_ceilings rooted_session = fmempty" "s_dedupe rooted_session = dedup_default"
  by (simp_all add: rooted_session_def meddle_def plain_session_def split: prod.splits sum.splits)

lemma rooted_negotiates: "negotiate_client rooted_session CORE_VERSION [profile_to_string standard_widgets_v1] = Ok {|standard_widgets_v1|}"
  using plain_negotiates unfolding negotiate_client_def rooted_frame .

lemma rooted_subscribes: "\<exists>t. subscribe_client_locked busy_host [1] [] n rooted_session = (Inr 0, t)"
  by (simp add: subscribe_client_locked_def subscribe_def rooted_frame hub_new_def Let_def)

lemma busy_hellos:
  "\<exists>wel neg. negotiate_hello plain_session plain_hello = Inr (wel, None, neg) \<and> sw_initial_revision wel = 0"
  "\<exists>wel neg. negotiate_hello rooted_session plain_hello = Inr (wel, Some (si_store (s_inner rooted_session)), neg) \<and>
     sw_initial_revision wel = 1 \<and> (case sw_limits wel of None \<Rightarrow> 0 | Some l \<Rightarrow> sl_max_frame_size l) = sl_max_frame_size session_limits"
  using plain_negotiates rooted_negotiates
  by (simp_all add: negotiate_hello_def plain_hello_def validate_client_instance_id_def MAX_CLIENT_INSTANCE_ID_BYTES_def plain_inner
      rooted_store rooted_frame Let_def)

lemma busy_rounds:
  "h_others busy_host 0 plain_session = rooted_session" "h_others busy_host (Suc k) s = s"
  by (simp_all add: busy_host_def rooted_session_def meddle_def)

lemma busy_fresh:
  "\<exists>b s'. bootstrap_fresh_client busy_host plain_hello plain_session = (Inr b, s') \<and> fb_transactions b = 0 \<and>
     fb_snapshot b = Some root_snapshot \<and> s_inner s' = s_inner rooted_session"
proof -
  obtain wel0 neg0 where h0: "negotiate_hello plain_session plain_hello = Inr (wel0, None, neg0)" "sw_initial_revision wel0 = 0"
    using busy_hellos(1) by blast
  obtain wel neg where h1: "negotiate_hello rooted_session plain_hello = Inr (wel, Some (si_store (s_inner rooted_session)), neg)"
    "sw_initial_revision wel = 1" "(case sw_limits wel of None \<Rightarrow> 0 | Some l \<Rightarrow> sl_max_frame_size l) = sl_max_frame_size session_limits"
    using busy_hellos(2) by blast
  have clone: "export_clone busy_host (sl_max_frame_size session_limits) (ch_limits plain_hello) (Some (si_store (s_inner rooted_session))) =
      Ok (Some (root_snapshot, plan_single 1))"
    by (simp add: export_clone_def rooted_export plain_hello_def)
  have "fresh_loop (Suc 1) (0 + 2) busy_host plain_hello rooted_session = (Inr (wel, Some (root_snapshot, plan_single 1), neg), rooted_session)"
    unfolding fresh_loop.simps h1(1) using clone h1(2,3) by (simp add: busy_rounds rooted_store Let_def numeral_2_eq_2)
  then have "fresh_loop (Suc (Suc 1)) 0 busy_host plain_hello plain_session = (Inr (wel, Some (root_snapshot, plan_single 1), neg), rooted_session)"
    unfolding fresh_loop.simps(2) [of "Suc 1" 0] h0(1) using h0(2) by (simp add: busy_rounds rooted_store Let_def del: fresh_loop.simps)
  then have loop: "fresh_loop MAX_OPTIMISTIC_SNAPSHOT_EXPORT_ATTEMPTS 0 busy_host plain_hello plain_session =
      (Inr (wel, Some (root_snapshot, plan_single 1), neg), rooted_session)"
    by (simp add: MAX_OPTIMISTIC_SNAPSHOT_EXPORT_ATTEMPTS_def numeral_3_eq_3 del: fresh_loop.simps)
  obtain n where n: "announce (plan_single 1) = Ok n" by (simp add: announce_def announced_parts_def plan_single_def part_count_def)
  obtain t where t: "subscribe_client_locked busy_host [1] []
      (negotiated_max_resource_size (sl_max_resource_size (s_limits rooted_session)) None) rooted_session = (Inr 0, t)" using rooted_subscribes by blast
  have "s_inner t = s_inner rooted_session" using subscribe_client_frame [OF t] by auto
  moreover obtain at where "attach_terminals busy_host fmempty False = Ok at" 
    by (simp add: attach_terminals_def busy_host_def quiet_host_def fcard.rep_eq MAX_TERMINAL_RESUME_MAP_ENTRIES_def)
  ultimately show ?thesis using t n
    by (simp add: bootstrap_fresh_client_def loop Let_def) (simp add: plain_hello_def)
qed

theorem fresh_handshake_no_gap_witness:
  "\<exists>b s'. bootstrap_fresh_client busy_host plain_hello plain_session = (Inr b, s') \<and>
     revision (si_store (s_inner plain_session)) = 0 \<and> sw_initial_revision (fb_welcome b) = 1 \<and> fb_snapshot b = Some root_snapshot \<and>
     connection (\<lambda>_. 10) (si_store (s_inner rooted_session)) 10000 (s_inner rooted_session) (cells (outbound_hub s') 0) []"
proof -
  obtain b s' where run: "bootstrap_fresh_client busy_host plain_hello plain_session = (Inr b, s')" "fb_transactions b = 0"
    "fb_snapshot b = Some root_snapshot" "s_inner s' = s_inner rooted_session" using busy_fresh by blast
  have "unat (sl_max_transaction_operations (s_limits plain_session)) = 10000"
    by (simp add: plain_session_def session_limits_def limits_eval)
  with fresh_handshake_no_gap [OF busy_others plain_inner(2) run(1), of "\<lambda>_. 10"] run show ?thesis
    by (auto simp: Let_def plain_inner rooted_store)
qed

lemma rooted_resumes:
  "\<exists>b s' msg. bootstrap_resume quiet_host plain_resume rooted_session = (Inr b, s') \<and> s_inner s' = s_inner rooted_session \<and>
     rb_outcome b = Replay msg [transaction_to_wire (with_revisions 0 1 [CreateNode 1 (standard_type 1) None None []] 0)]"
proof -
  let ?w = "transaction_to_wire (with_revisions 0 1 [CreateNode 1 (standard_type 1) None None []] 0)"
  obtain eff where "transaction_with_result create_root [] session_a = (Ok ((), ?w), s_inner rooted_session, eff)" by (rule rooted_commit)
  from create_root_journal(3) [OF this] have it: "iter_from (si_journal (s_inner rooted_session)) 0 = Some [?w]" .
  then have "determine_resync_cause plain_resume rooted_session = None" "\<exists>msg. replay_plan plain_resume rooted_session = Ok (PlanReplay msg [?w])"
    by (simp_all add: determine_resync_cause_def replay_plan_def plain_resume_def rooted_frame is_client_stale_def
      registry_contains_def hub_new_def registry_default_def del: transaction_to_wire_def)
  then obtain msg neg where "resume_loop MAX_OPTIMISTIC_SNAPSHOT_EXPORT_ATTEMPTS 0 quiet_host plain_resume [] rooted_session =
      (Inr (PlanReplay msg [?w], neg), rooted_session)"
    using rooted_negotiates by (auto simp: MAX_OPTIMISTIC_SNAPSHOT_EXPORT_ATTEMPTS_def numeral_3_eq_3 plain_resume_def)
  moreover obtain t where t: "subscribe_client_locked quiet_host [1] [] (resume_resource_size plain_resume rooted_session) rooted_session = (Inr 0, t)"
    by (simp add: subscribe_client_locked_def subscribe_def rooted_frame hub_new_def Let_def)
  moreover have "s_inner t = s_inner rooted_session" using subscribe_client_frame [OF t] by auto
  moreover have "cr_client_instance_id plain_resume = [1]" "cr_known_resource_hashes plain_resume = []" "cr_terminal_stream_offsets plain_resume = fmempty"
    "cr_pending_text_edits plain_resume = []" by (simp_all add: plain_resume_def)
  ultimately show ?thesis using quiet_terminals [of False]
    by (auto simp: bootstrap_resume_def Let_def resume_answer_def validate_client_instance_id_def commit_cancellation_def
      MAX_CLIENT_INSTANCE_ID_BYTES_def validate_pending_text_edit_refs_def fcard.rep_eq plan_is_replaced_def)
qed

theorem resume_handshake_no_gap_witness:
  "\<exists>b s' msg w. bootstrap_resume quiet_host plain_resume rooted_session = (Inr b, s') \<and> rb_outcome b = Replay msg [w] \<and>
     ro_replay_from_revision msg = 0 \<and> replay_all [w] store_new = (Ok (), si_store (s_inner rooted_session)) \<and>
     revision (si_store (s_inner rooted_session)) = 1"
proof -
  obtain eff where com: "transaction_with_result create_root [] session_a =
      (Ok ((), transaction_to_wire (with_revisions 0 1 [CreateNode 1 (standard_type 1) None None []] 0)), s_inner rooted_session, eff)"
    by (rule rooted_commit)
  from session_history.closure_commit [OF session_history.start [OF session_a_config] com create_root_disciplined]
  have h: "session_history (s_inner rooted_session) ((\<lambda>_. si_store session_a)(1 := si_store (s_inner rooted_session)))" by (simp add: rooted_store)
  obtain b s' msg w where run: "bootstrap_resume quiet_host plain_resume rooted_session = (Inr b, s')" "s_inner s' = s_inner rooted_session"
    "rb_outcome b = Replay msg [w]" using rooted_resumes by blast
  from resume_handshake_no_gap [OF quiet_others(1) h run(1), of "\<lambda>_. 10"] run(2,3)
  have "ro_replay_from_revision msg = 0" "replay_all [w] store_new = (Ok (), si_store (s_inner rooted_session))"
    by (auto simp: Let_def plain_resume_def session_a_store rooted_store simp del: replay_all.simps)
  with run show ?thesis by (auto simp: rooted_store simp del: replay_all.simps)
qed

theorem handshake_isolated_witness:
  "untouched plain_session (snd (bootstrap_fresh_client quiet_host plain_hello plain_session)) \<and>
   untouched plain_session (snd (bootstrap_resume quiet_host plain_resume plain_session))"
  by (rule handshake_isolated [OF quiet_others(2)])

theorem handshake_tables_bounded_witness:
  "ceilings_ok (snd (bootstrap_fresh_client quiet_host plain_hello plain_session)) \<and>
   ceilings_ok (snd (bootstrap_resume quiet_host plain_resume plain_session))"
proof (rule handshake_tables_bounded)
  fix m :: "(client_id, u64) fmap" assume "m \<noteq> fmempty"
  then have ne: "sorted_list_of_fset (fmdom m) \<noteq> []" by (metis fmdom_empty fmrestrict_fset_dom fmrestrict_fset_null fset_of_list_simps(1) sorted_list_of_fset_simps(2))
  then have "hd (sorted_list_of_fset (fmdom m)) |\<in>| fmdom m" by (metis hd_in_set sorted_list_of_fset_simps(1))
  with ne show "\<exists>k. h_first_key quiet_host m = Some k \<and> k |\<in>| fmdom m"
    by (auto simp: quiet_host_def map_fst_sorted_list_of_fmap split: list.splits)
qed (simp_all add: quiet_others ceilings_ok_def plain_session_def fcard.rep_eq)

end
