(* ===== verification/Event_Dispatch.thy ===== *)
theory Event_Dispatch
  imports Event_Wire Handshake_Properties
begin

text \<open>
  The processing of client events: \<open>Session::process_event\<close> with the dispatch to handlers
  (\<^verbatim>\<open>sessiond/src/session.rs\<close>) and the authoritative text edits with their policy
  (\<^verbatim>\<open>sessiond/src/session/text_edit.rs\<close>).  Handlers and policies are code of the application.  They run
  without the mutex and may use the session; a callback is therefore a function of the session, which also
  covers what other threads do meanwhile, and the session stores its number.  The record \<open>application\<close> has
  these functions and the text of the errors.  Where the mutex is released and no callback runs, before the commit of an
  edit that no policy decides and before the first handler, the function \<open>ap_others\<close> is what other threads do.
\<close>

section \<open>State\<close>

datatype registered_handler = Infallible nat | Fallible nat | TransactionAware nat

record app_session =
  as_session :: session
  as_handlers :: "(node_id \<times> type_ref, registered_handler list) fmap"
  as_text_edit_policy :: "nat option"

datatype handler_result = Returned | Failed session_error | Unwound

datatype standard_validation_state = ValidState | WarningState | ErrorState

text \<open>The tokens of the enumeration 12 of the registry.\<close>

fun validation_token :: "standard_validation_state \<Rightarrow> value_t" where
  "validation_token ValidState = VEnumToken 12 1"
| "validation_token WarningState = VEnumToken 12 2"
| "validation_token ErrorState = VEnumToken 12 3"

record text_edit_request =
  rq_client_instance_id :: bytes
  rq_event_id :: bytes
  rq_event_seq :: u64
  rq_edit_seq :: u64
  rq_node_id :: node_id
  rq_value :: "u8 list"
  rq_observed_revision :: u64

datatype text_edit_decision =
    AcceptEdit
  | CorrectEdit "u8 list" standard_validation_state
  | RejectEdit "(u8 list) option" "u8 list"

record application =
  ap_display :: "event_validation_error \<Rightarrow> u8 list"
  ap_infallible :: "nat \<Rightarrow> wire_event \<Rightarrow> app_session \<Rightarrow> bool \<times> app_session"
  ap_fallible :: "nat \<Rightarrow> wire_event \<Rightarrow> app_session \<Rightarrow> handler_result \<times> app_session"
  ap_transaction_aware :: "nat \<Rightarrow> wire_event \<Rightarrow> wire_transaction option \<Rightarrow> app_session \<Rightarrow> handler_result \<times> app_session"
  ap_policy :: "nat \<Rightarrow> text_edit_request \<Rightarrow> app_session \<Rightarrow> text_edit_decision option \<times> app_session"
  ap_others :: "nat \<Rightarrow> app_session \<Rightarrow> app_session"
  ap_framed_len :: "wire_transaction \<Rightarrow> usize"
  ap_gone :: "nat \<Rightarrow> bool"
  ap_sha256 :: "u8 list \<Rightarrow> u8 list"

datatype event_outcome =
    Processed u64 u64
  | PendingEvent u64
  | DuplicateEvent bool u64 u64 "u8 list"
  | RejectedEvent event_validation_error u64 u64

datatype dispatch_error =
    EventSequence event_sequence_error
  | HandlerError session_error
  | DispatchPanicked

type_synonym dispatch_result = "(dispatch_error, event_outcome) result \<times> app_session"

datatype handler_dispatch_kind = Ordinary | CommittedTextEdit

abbreviation with_session :: "(session \<Rightarrow> session) \<Rightarrow> app_session \<Rightarrow> app_session" where
  "with_session f s \<equiv> s\<lparr>as_session := f (as_session s)\<rparr>"

abbreviation with_tracker :: "(text_edit_tracker \<Rightarrow> text_edit_tracker) \<Rightarrow> session \<Rightarrow> session" where
  "with_tracker f s \<equiv> s\<lparr>s_inner := (s_inner s)\<lparr>si_text_edits := f (si_text_edits (s_inner s))\<rparr>\<rparr>"

section \<open>Handlers\<close>

definition call_handler ::
  "application \<Rightarrow> registered_handler \<Rightarrow> wire_event \<Rightarrow> wire_transaction option \<Rightarrow> app_session \<Rightarrow> handler_result \<times> app_session" where
  "call_handler ap x e txn s =
     (case x of
        Infallible k \<Rightarrow> (case ap_infallible ap k e s of (ok, s) \<Rightarrow> (if ok then Returned else Unwound, s))
      | Fallible k \<Rightarrow> ap_fallible ap k e s
      | TransactionAware k \<Rightarrow> ap_transaction_aware ap k e txn s)"

fun call_handlers ::
  "application \<Rightarrow> registered_handler list \<Rightarrow> wire_event \<Rightarrow> wire_transaction option \<Rightarrow> app_session \<Rightarrow> handler_result \<times> app_session" where
  "call_handlers ap [] e txn s = (Returned, s)"
| "call_handlers ap (x # xs) e txn s =
     (case call_handler ap x e txn s of
        (Returned, s) \<Rightarrow> call_handlers ap xs e txn s
      | (r, s) \<Rightarrow> (r, s))"

definition register_handler :: "node_id \<Rightarrow> type_ref \<Rightarrow> registered_handler \<Rightarrow> app_session \<Rightarrow> app_session" where
  "register_handler n ty x s =
     s\<lparr>as_handlers := fmupd (n, ty) ((case fmlookup (as_handlers s) (n, ty) of Some hs \<Rightarrow> hs | None \<Rightarrow> []) @ [x]) (as_handlers s)\<rparr>"

definition handler_count :: "node_id \<Rightarrow> type_ref \<Rightarrow> app_session \<Rightarrow> usize" where
  "handler_count n ty s = (case fmlookup (as_handlers s) (n, ty) of Some hs \<Rightarrow> length hs | None \<Rightarrow> 0)"

definition clear_handlers :: "app_session \<Rightarrow> app_session" where
  "clear_handlers s = s\<lparr>as_handlers := fmempty\<rparr>"

definition matching_handlers :: "node_id \<Rightarrow> type_ref \<Rightarrow> app_session \<Rightarrow> registered_handler list" where
  "matching_handlers n ty s = (case fmlookup (as_handlers s) (n, ty) of Some hs \<Rightarrow> hs | None \<Rightarrow> [])"

section \<open>Admission and settlement\<close>

definition session_admit_event :: "event \<Rightarrow> session \<Rightarrow> (dispatch_error, event_outcome option) result \<times> session" where
  "session_admit_event i s =
     (case admit_event i (s_dedupe s) of
        (r, d) \<Rightarrow>
          (case map_err EventSequence r of
             Inl e \<Rightarrow> (Inl e, s\<lparr>s_dedupe := d\<rparr>)
           | Inr (Duplicate prior n) \<Rightarrow>
               (Ok (Some (DuplicateEvent (accepted prior) (revision_after_effect prior) n (reject_reason prior))), s\<lparr>s_dedupe := d\<rparr>)
           | Inr (Pending n) \<Rightarrow> (Ok (Some (PendingEvent n)), s\<lparr>s_dedupe := d\<rparr>)
           | Inr (Fresh _) \<Rightarrow> (Ok None, s\<lparr>s_dedupe := d\<rparr>)))"

definition settle_rejected_event :: "application \<Rightarrow> event \<Rightarrow> event_validation_error \<Rightarrow> session \<Rightarrow> event_outcome \<times> session" where
  "settle_rejected_event ap i err s =
     (let st = si_store (s_inner s);
          (n, d) = settle_event i \<lparr>accepted = False, revision_after_effect = revision st,
            reject_reason = bound_diagnostic_string (ap_display ap err) (max_string_length (limits st))\<rparr> (s_dedupe s)
      in (RejectedEvent err (revision st) n, s\<lparr>s_dedupe := d\<rparr>))"

text \<open>The settlement that a rejected outcome of the functions below ends with.\<close>

definition reject :: "application \<Rightarrow> event \<Rightarrow> event_validation_error \<Rightarrow> app_session \<Rightarrow> dispatch_result" where
  "reject ap i err s =
     (case settle_rejected_event ap i err (as_session s) of (out, t) \<Rightarrow> (Ok out, s\<lparr>as_session := t\<rparr>))"

definition dispatch_admitted_event ::
  "application \<Rightarrow> wire_event \<Rightarrow> registered_handler list \<Rightarrow> handler_dispatch_kind \<Rightarrow> wire_transaction option \<Rightarrow>
   app_session \<Rightarrow> dispatch_result" where
  "dispatch_admitted_event ap e hs kind txn s =
     (case call_handlers ap hs e txn (ap_others ap 1 s) of
        (r, s) \<Rightarrow>
          if kind = Ordinary \<and> r = Unwound
          then (Error DispatchPanicked, with_session (\<lambda>t. t\<lparr>s_dedupe := abandon_event (identity_of e) (s_dedupe t)\<rparr>) s)
          else (case (kind, r) of
              (Ordinary, Failed err) \<Rightarrow> reject ap (identity_of e) (PolicyRejected (HandlerFailed err)) s
            | _ \<Rightarrow>
                (let t = as_session s; rv = revision (si_store (s_inner t));
                     (n, d) = settle_event (identity_of e) \<lparr>accepted = True, revision_after_effect = rv, reject_reason = []\<rparr> (s_dedupe t);
                     t = t\<lparr>s_dedupe := d\<rparr>;
                     t = (if kind = CommittedTextEdit
                          then with_tracker (finish_committed_handler_dispatch (we_client_instance_id e) (we_event_seq e)) t else t)
                 in (case r of
                       Returned \<Rightarrow> (Ok (Processed rv n), s\<lparr>as_session := t\<rparr>)
                     | Failed err \<Rightarrow> (Error (HandlerError err), s\<lparr>as_session := t\<rparr>)
                     | Unwound \<Rightarrow> (Error DispatchPanicked, s\<lparr>as_session := t\<rparr>)))))"

section \<open>Text edits\<close>

definition is_editor_type :: "type_ref \<Rightarrow> bool" where
  "is_editor_type ty \<longleftrightarrow> ty = TEXT_INPUT \<or> ty = TEXT_AREA"

definition validate_text_edit :: "session \<Rightarrow> semantic_event \<Rightarrow> (event_validation_error, u64) result" where
  "validate_text_edit s e =
     (let st = si_store (s_inner s)
      in and_then (ok_or InvalidEditSeq (se_edit_seq e)) (\<lambda>edit_seq.
         and_then (validate_observed_revision e (revision st)) (\<lambda>_.
         and_then (validate_node_interactive e st) (\<lambda>n.
           if \<not> is_editor_type (node_type n) then Error (UnsupportedNodeType (node_type n))
           else if fmlookup (properties n) READ_ONLY = Some (VBool True) then Error (NodeReadOnly (se_node_id e))
           else and_then (ok_or (MissingArgument TEXT) (text_arg e)) (\<lambda>txt.
             if length txt > max_string_length (limits st)
             then Error (EventStringTooLong (length txt) (max_string_length (limits st))) else Ok edit_seq)))))"

definition revalidate_editor_for_commit :: "session \<Rightarrow> node_id \<Rightarrow> (event_validation_error, unit) result" where
  "revalidate_editor_for_commit s i =
     and_then (ok_or (EventNodeNotFound i) (fmlookup (nodes (si_store (s_inner s))) i)) (\<lambda>n.
       if \<not> is_editor_type (node_type n) then Error (UnsupportedNodeType (node_type n))
       else if fmlookup (properties n) ENABLED = Some (VBool False) then Error (EventNodeDisabled i)
       else if fmlookup (properties n) READ_ONLY = Some (VBool True) then Error (NodeReadOnly i)
       else Ok ())"

definition current_editor_value :: "session \<Rightarrow> node_id \<Rightarrow> u8 list" where
  "current_editor_value s i =
     (case fmlookup (nodes (si_store (s_inner s))) i of
        None \<Rightarrow> []
      | Some n \<Rightarrow>
          (case Option.bind (fmlookup (properties n) VALUE) as_string of
             Some v \<Rightarrow> v
           | None \<Rightarrow> (case Option.bind (fmlookup (properties n) TEXT) as_string of Some v \<Rightarrow> v | None \<Rightarrow> [])))"

definition reject_reserved ::
  "application \<Rightarrow> wire_event \<Rightarrow> text_edit_request \<Rightarrow> event_validation_error \<Rightarrow> session \<Rightarrow> event_outcome \<times> session" where
  "reject_reserved ap e rq err s =
     settle_rejected_event ap (identity_of e) err
       (with_tracker (mark_terminal (we_client_instance_id e) (rq_node_id rq) (rq_edit_seq rq)) s)"

fun store_refusal :: "store_error \<Rightarrow> event_validation_error" where
  "store_refusal (NodeNotFound i) = EventNodeNotFound i"
| "store_refusal e = PolicyRejected (StoreRefused e)"

definition reject_reserved_store ::
  "application \<Rightarrow> wire_event \<Rightarrow> text_edit_request \<Rightarrow> store_error \<Rightarrow> session \<Rightarrow> event_outcome \<times> session" where
  "reject_reserved_store ap e rq err s = reject_reserved ap e rq (store_refusal err) s"

datatype text_edit_commit = SettledEdit event_outcome | DispatchAccepted wire_transaction

text \<open>What a decision publishes: the value, its validation state, whether it is accepted and the reason.\<close>

definition decided ::
  "text_edit_decision \<Rightarrow> text_edit_request \<Rightarrow> u8 list \<Rightarrow> u8 list \<times> standard_validation_state \<times> bool \<times> u8 list" where
  "decided d rq current =
     (case d of
        AcceptEdit \<Rightarrow> (rq_value rq, ValidState, True, [])
      | CorrectEdit v st \<Rightarrow> (v, st, True, [])
      | RejectEdit v reason \<Rightarrow> ((case v of Some x \<Rightarrow> x | None \<Rightarrow> current), ErrorState, False, reason))"

definition settled_edit :: "event_outcome \<times> session \<Rightarrow> (dispatch_error, text_edit_commit) result \<times> session" where
  "settled_edit r = (Ok (SettledEdit (fst r)), snd r)"

text \<open>The answer for an event that is no longer in flight when its policy has decided.\<close>

definition no_longer_in_flight :: "wire_event \<Rightarrow> session \<Rightarrow> event_outcome" where
  "no_longer_in_flight e s =
     (let c = we_client_instance_id e
      in case settled_outcome (s_dedupe s) c (we_event_id e) of
           Some prior \<Rightarrow> DuplicateEvent (accepted prior) (revision_after_effect prior) (dedup_frontier (s_dedupe s) c) (reject_reason prior)
         | None \<Rightarrow> PendingEvent (dedup_frontier (s_dedupe s) c))"

text \<open>
  The commit of a decided value: the journal has granted the permit.  Returns the transaction, or the settled
  rejection of a policy.
\<close>

definition publish_edit ::
  "application \<Rightarrow> wire_event \<Rightarrow> text_edit_request \<Rightarrow> semantic_store \<Rightarrow> authoritative_commit \<Rightarrow> journal_permit \<Rightarrow> bool \<Rightarrow> u8 list \<Rightarrow>
   session \<Rightarrow> (dispatch_error, text_edit_commit) result \<times> session" where
  "publish_edit ap e rq staged commit permit acc reason s =
     (let i = s_inner s;
          i = i\<lparr>si_store := commit_staging staged (new_revision (commit_transaction commit)) (si_store i)\<rparr>
      in case journal_append permit (si_journal i) of
           (Inl _, j) \<Rightarrow> (Inl Panic, s\<lparr>s_inner := i\<lparr>si_journal := j\<rparr>\<rparr>)
         | (Inr _, j) \<Rightarrow>
             (let i = i\<lparr>si_journal := j, si_text_edits := mark_terminal (we_client_instance_id e) (rq_node_id rq) (rq_edit_seq rq) (si_text_edits i)\<rparr>
              in case (if acc then begin_committed_handler_dispatch (we_client_instance_id e) (we_event_seq e) (we_node_id e) (we_edit_seq e)
                               (si_text_edits i) else (Ok (), si_text_edits i)) of
                   (Inl _, tr) \<Rightarrow> (Inl Panic, s\<lparr>s_inner := i\<lparr>si_text_edits := tr\<rparr>\<rparr>)
                 | (Inr _, tr) \<Rightarrow>
                     (case publish (ap_framed_len ap) (ap_gone ap) (permit_tx permit) (outbound_hub s) of
                        (Inl _, hub) \<Rightarrow> (Inl Panic, s\<lparr>s_inner := i\<lparr>si_text_edits := tr\<rparr>, outbound_hub := hub\<rparr>)
                      | (Inr _, hub) \<Rightarrow>
                          (let s = s\<lparr>s_inner := i\<lparr>si_text_edits := tr\<rparr>, outbound_hub := hub\<rparr>; rv = revision (si_store i)
                           in if acc then (Ok (DispatchAccepted (permit_tx permit)), s)
                              else case settle_event (identity_of e) \<lparr>accepted = False, revision_after_effect = rv, reject_reason = reason\<rparr> (s_dedupe s) of
                                     (n, d) \<Rightarrow> (Ok (SettledEdit (RejectedEvent (PolicyRejected (PolicyText reason)) rv n)), s\<lparr>s_dedupe := d\<rparr>)))))"

definition commit_text_edit_decision ::
  "application \<Rightarrow> wire_event \<Rightarrow> text_edit_request \<Rightarrow> u64 \<Rightarrow> text_edit_decision \<Rightarrow> session \<Rightarrow>
   (dispatch_error, text_edit_commit) result \<times> session" where
  "commit_text_edit_decision ap e rq reserved_generation decision s =
     (let c = we_client_instance_id e; st = si_store (s_inner s); n = rq_node_id rq
      in if \<not> is_in_flight (s_dedupe s) c (we_event_id e) then (Ok (SettledEdit (no_longer_in_flight e s)), s)
         else case revalidate_editor_for_commit s n of
           Inl (Err err) \<Rightarrow> settled_edit (reject_reserved ap e rq err s)
         | Inl Panic \<Rightarrow> (Inl Panic, s)
         | Inl Diverge \<Rightarrow> (Inl Diverge, s)
         | Inr _ \<Rightarrow>
         if (case generation_of (si_text_edits (s_inner s)) c n of Some g \<Rightarrow> g | None \<Rightarrow> 0) \<noteq> reserved_generation
         then settled_edit (reject_reserved ap e rq SupersededGeneration s)
         else case decided decision rq (current_editor_value s n) of
           (v, validation, acc, reason) \<Rightarrow>
           if length v > max_string_length (limits st)
           then settled_edit (reject_reserved ap e rq (EventStringTooLong (length v) (max_string_length (limits st))) s)
           else let reason = bound_diagnostic_string reason (max_string_length (limits st))
             in case ui_set_property n VALUE (VString v) (ui_new (clone_staging st) (max_transaction_operations (limits st))) of
                  (Inl (Err err), _) \<Rightarrow> settled_edit (reject_reserved_store ap e rq err s)
                | (Inl Panic, _) \<Rightarrow> (Inl Panic, s)
                | (Inl Diverge, _) \<Rightarrow> (Inl Diverge, s)
                | (Inr _, ui) \<Rightarrow>
                    (case ui_set_property n VALIDATION_STATE (validation_token validation) ui of
                       (Inl (Err err), _) \<Rightarrow> settled_edit (reject_reserved_store ap e rq err s)
                     | (Inl Panic, _) \<Rightarrow> (Inl Panic, s)
                     | (Inl Diverge, _) \<Rightarrow> (Inl Diverge, s)
                     | (Inr _, ui) \<Rightarrow>
                         (case commit_new (revision st) (ui_operations ui) of
                            Inl _ \<Rightarrow> (Inl Panic, s)
                          | Inr commit \<Rightarrow>
                              (case journal_prepare (si_journal (s_inner s)) commit of
                                 Inl (Err err) \<Rightarrow> settled_edit (reject_reserved ap e rq (PolicyRejected (JournalRefused err)) s)
                               | Inl _ \<Rightarrow> (Inl Panic, s)
                               | Inr permit \<Rightarrow> publish_edit ap e rq (ui_staged ui) commit permit acc reason s))))"

definition abandon_text_edit_after_panic :: "wire_event \<Rightarrow> text_edit_request \<Rightarrow> app_session \<Rightarrow> dispatch_result" where
  "abandon_text_edit_after_panic e rq s =
     (Error DispatchPanicked,
      with_session (\<lambda>t. (with_tracker (abandon_reservation (we_client_instance_id e) (rq_node_id rq) (rq_edit_seq rq)) t)
        \<lparr>s_dedupe := abandon_event (identity_of e) (s_dedupe t)\<rparr>) s)"

definition has_event_sequence_history :: "event_deduplicator \<Rightarrow> bytes \<Rightarrow> bool" where
  "has_event_sequence_history d c \<longleftrightarrow> has_client_window d c \<or> dedup_frontier d c \<noteq> 0"

text \<open>The room that is made in a full table of editor streams before a reservation.\<close>

definition reclaim_if_full :: "session \<Rightarrow> (text_edit_error, unit) result \<times> text_edit_tracker" where
  "reclaim_if_full s =
     (let tr = si_text_edits (s_inner s)
      in if stream_count tr \<ge> max_streams tr
         then reclaim_departed_clients (has_event_sequence_history (s_dedupe s)) tr else (Ok (), tr))"

definition process_admitted_text_edit ::
  "application \<Rightarrow> wire_event \<Rightarrow> semantic_event \<Rightarrow> app_session \<Rightarrow> dispatch_result" where
  "process_admitted_text_edit ap e domain_event s =
     (let c = we_client_instance_id e; n = se_node_id domain_event
      in case validate_text_edit (as_session s) domain_event of
        Inl (Err err) \<Rightarrow> reject ap (identity_of e) err s
      | Inl Panic \<Rightarrow> (Inl Panic, s)
      | Inl Diverge \<Rightarrow> (Inl Diverge, s)
      | Inr edit_seq \<Rightarrow>
      case reclaim_if_full (as_session s) of
        (Inl _, tr) \<Rightarrow> (Inl Panic, with_session (with_tracker (\<lambda>_. tr)) s)
      | (Inr _, tr) \<Rightarrow>
      case reserve c n edit_seq tr of
        (Inl (Err err), tr) \<Rightarrow> reject ap (identity_of e) (EditRefused err) (with_session (with_tracker (\<lambda>_. tr)) s)
      | (Inl Panic, tr) \<Rightarrow> (Inl Panic, with_session (with_tracker (\<lambda>_. tr)) s)
      | (Inl Diverge, tr) \<Rightarrow> (Inl Diverge, with_session (with_tracker (\<lambda>_. tr)) s)
      | (Inr reserved_generation, tr) \<Rightarrow>
          (let s = with_session (with_tracker (\<lambda>_. tr)) s;
               handlers = matching_handlers n (se_event_type domain_event) s;
               rq = \<lparr>rq_client_instance_id = (case se_client_instance_id domain_event of Some x \<Rightarrow> x | None \<Rightarrow> c), rq_event_id = se_event_id domain_event,
                     rq_event_seq = se_event_seq domain_event, rq_edit_seq = edit_seq, rq_node_id = n,
                     rq_value = (case text_arg domain_event of Some x \<Rightarrow> x | None \<Rightarrow> []), rq_observed_revision = se_observed_revision domain_event\<rparr>
           in case (case as_text_edit_policy s of None \<Rightarrow> (Some AcceptEdit, ap_others ap 0 s) | Some k \<Rightarrow> ap_policy ap k rq s) of
                (None, s) \<Rightarrow> abandon_text_edit_after_panic e rq s
              | (Some decision, s) \<Rightarrow>
                  (case commit_text_edit_decision ap e rq reserved_generation decision (as_session s) of
                     (Inl f, t) \<Rightarrow> (Inl f, s\<lparr>as_session := t\<rparr>)
                   | (Inr (SettledEdit out), t) \<Rightarrow> (Ok out, s\<lparr>as_session := t\<rparr>)
                   | (Inr (DispatchAccepted tx), t) \<Rightarrow>
                       dispatch_admitted_event ap e handlers CommittedTextEdit (Some tx) (s\<lparr>as_session := t\<rparr>))))"

definition on_text_edit :: "nat \<Rightarrow> app_session \<Rightarrow> app_session" where
  "on_text_edit k s = s\<lparr>as_text_edit_policy := Some k\<rparr>"

definition clear_text_edit_policy :: "app_session \<Rightarrow> app_session" where
  "clear_text_edit_policy s = s\<lparr>as_text_edit_policy := None\<rparr>"

section \<open>Processing an event\<close>

text \<open>The identity under which an event is admitted: a bounded placeholder for an oversized identifier.\<close>

definition admission_identity :: "application \<Rightarrow> wire_event \<Rightarrow> event" where
  "admission_identity ap e =
     (case event_from_wire e of
        Inl (Err (EventIdTooLong _)) \<Rightarrow> oversized_event_placeholder (ap_sha256 ap) (identity_of e)
      | _ \<Rightarrow> identity_of e)"

definition process_event :: "application \<Rightarrow> wire_event \<Rightarrow> app_session \<Rightarrow> dispatch_result" where
  "process_event ap e s =
     (case session_admit_event (admission_identity ap e) (as_session s) of
        (Inl f, t) \<Rightarrow> (Inl f, s\<lparr>as_session := t\<rparr>)
      | (Inr (Some out), t) \<Rightarrow> (Ok out, s\<lparr>as_session := t\<rparr>)
      | (Inr None, t) \<Rightarrow>
          (let s = s\<lparr>as_session := t\<rparr>
           in case event_from_wire e of
                Inl (Err werr) \<Rightarrow> reject ap (admission_identity ap e) (PolicyRejected (MalformedEvent werr)) s
              | Inl Panic \<Rightarrow> (Inl Panic, s)
              | Inl Diverge \<Rightarrow> (Inl Diverge, s)
              | Inr domain_event \<Rightarrow>
                  if se_event_type domain_event = TEXT_EDIT then process_admitted_text_edit ap e domain_event s
                  else (case validate_event domain_event (si_store (s_inner t)) of
                      Inl (Err err) \<Rightarrow> reject ap (identity_of e) err s
                    | Inl Panic \<Rightarrow> (Inl Panic, s)
                    | Inl Diverge \<Rightarrow> (Inl Diverge, s)
                    | Inr _ \<Rightarrow> dispatch_admitted_event ap e (matching_handlers (se_node_id domain_event) (se_event_type domain_event) s) Ordinary None s)))"

end
