(* ===== verification/Dispatch_Properties.thy ===== *)
theory Dispatch_Properties
  imports Event_Dispatch
begin

text \<open>
  What the processing of events guarantees.
\<close>

section \<open>Commits under the mutex\<close>

text \<open>
  Text edits and ranges of models are committed without the detour over a closure.  Their effect is that of a
  transaction opened by a closure, so everything shown of commits holds for them.
\<close>

lemma commit_new_next: "commit_new base ops = Inr c \<Longrightarrow> \<exists>n. checked_next base = Some n"
  by (cases "checked_next base") (auto simp: commit_new_def transaction_new_def revision_next_def checked_next_def result_simps)

lemma locked_commit_commits:
  assumes "run_ui f (ui_new (si_store s) (max_transaction_operations (limits (si_store s)))) = (Inr (), ui)" and "disciplined f"
    and "\<not> list_ex is_delete_node (ui_operations ui)" and "commit_new (revision (si_store s)) (ui_operations ui) = Inr commit"
    and "journal_prepare (si_journal s) commit = Inr permit" and "journal_append permit (si_journal s) = (Inr u, j)"
  shows "session_commits s (permit_tx permit)
    (s\<lparr>si_store := commit_staging (ui_staged ui) (new_revision (commit_transaction commit)) (si_store s), si_journal := j\<rparr>)"
proof (rule session_commits.by_closure)
  obtain n where n: "checked_next (revision (si_store s)) = Some n" using commit_new_next [OF assms(4)] by blast
  show "transaction_with_result (\<lambda>_. f) [] s = (Inr ((), permit_tx permit),
      s\<lparr>si_store := commit_staging (ui_staged ui) (new_revision (commit_transaction commit)) (si_store s), si_journal := j\<rparr>,
      [Publish (permit_tx permit), CloseTerminals []])"
    using assms n by (cases s) (simp add: transaction_with_result_def finish_commit_def Let_def)
qed (rule assms(2))

definition edit_program :: "node_id \<Rightarrow> u8 list \<Rightarrow> standard_validation_state \<Rightarrow> unit ui_prog" where
  "edit_program n v st =
     Invoke (UiSet n VALUE (VString v)) (\<lambda>(r, _). case r of
         Inl (Err e) \<Rightarrow> Raise e | Inl _ \<Rightarrow> Unwind
       | Inr _ \<Rightarrow> Invoke (UiSet n VALIDATION_STATE (validation_token st)) (\<lambda>(r, _). case r of
           Inl (Err e) \<Rightarrow> Raise e | Inl _ \<Rightarrow> Unwind | Inr _ \<Rightarrow> Return ()))"

lemma edit_program_disciplined: "disciplined (edit_program n v st)"
proof -
  have "hashes_wf (VString v)" "hashes_wf (validation_token st)" by (auto simp: hashes_wf_def, cases st, auto)
  then show ?thesis unfolding edit_program_def by (intro disciplined.intros) (auto intro!: disciplined.intros)
qed

lemma edit_program_runs:
  assumes "ui_set_property n VALUE (VString v) ui = (Inr a, ui1)"
    and "ui_set_property n VALIDATION_STATE (validation_token st) ui1 = (Inr b, ui2)"
  shows "run_ui (edit_program n v st) ui = (Inr (), ui2)"
  using assms by (simp add: edit_program_def reply_with_def)

lemma ui_set_property_ops:
  "ui_set_property n p v ui = (Inr a, ui') \<Longrightarrow> ui_operations ui' = ui_operations ui @ [SetProperty n p v]"
  by (auto simp: ui_set_property_def recorded_def record_op_def Let_def result_simps split: if_splits prod.splits)

lemma set_property_nodes:
  "set_property i p v s = (Inr a, s') \<Longrightarrow> \<exists>n. fmlookup (nodes s) i = Some n \<and>
     nodes s' = fmupd i (n\<lparr>properties := fmupd p v (properties n)\<rparr>) (nodes s)"
  by (auto simp: set_property_def result_simps split: option.splits if_splits)

lemma ui_set_property_nodes:
  "ui_set_property i p v ui = (Inr a, ui') \<Longrightarrow> \<exists>n. fmlookup (nodes (ui_staged ui)) i = Some n \<and>
     nodes (ui_staged ui') = fmupd i (n\<lparr>properties := fmupd p v (properties n)\<rparr>) (nodes (ui_staged ui))"
  by (auto simp: ui_set_property_def recorded_def record_op_def Let_def result_simps dest!: set_property_nodes split: if_splits prod.splits)

lemma edit_written:
  assumes "ui_set_property n VALUE (VString v) ui = (Inr a, ui1)" "ui_set_property n VALIDATION_STATE (validation_token st) ui1 = (Inr b, ui2)"
  shows "\<exists>nd. fmlookup (nodes (ui_staged ui2)) n = Some nd \<and> fmlookup (properties nd) VALUE = Some (VString v) \<and>
    fmlookup (properties nd) VALIDATION_STATE = Some (validation_token st)"
  using ui_set_property_nodes [OF assms(1)] ui_set_property_nodes [OF assms(2)]
  by (auto simp: VALUE_def VALIDATION_STATE_def standard_property_def)

section \<open>The commit of a text edit\<close>

text \<open>A text edit that is published: a commit of the session that writes the value and its validation state.\<close>

definition edit_published :: "session \<Rightarrow> node_id \<Rightarrow> u8 list \<Rightarrow> standard_validation_state \<Rightarrow> wire_transaction \<Rightarrow> session \<Rightarrow> bool" where
  "edit_published s n v st tx t \<longleftrightarrow>
     session_id t = session_id s \<and> s_limits t = s_limits s \<and>
     (\<exists>i tr. session_commits (s_inner s) tx i \<and> tracker_ok tr \<and> s_inner t = i\<lparr>si_text_edits := tr\<rparr> \<and>
        (\<exists>nd. fmlookup (nodes (si_store i)) n = Some nd \<and> fmlookup (properties nd) VALUE = Some (VString v) \<and>
           fmlookup (properties nd) VALIDATION_STATE = Some (validation_token st)))"

text \<open>
  A number is burnt when no reservation of it, or of a smaller one, can be made on its stream any more, and it is not
  in flight.
\<close>

definition number_burnt :: "client_id \<Rightarrow> node_id \<Rightarrow> u64 \<Rightarrow> text_edit_tracker \<Rightarrow> bool" where
  "number_burnt c n edit_seq tr \<longleftrightarrow>
     (\<forall>k \<le> edit_seq. \<exists>w. reserve c n k tr = (Error (StaleEditSeq k w), tr)) \<and>
     (\<forall>x st. find_stream tr c n = Some (x, st) \<longrightarrow> edit_seq |\<notin>| in_flight_edit_seqs st)"

lemma mark_terminal_burns:
  assumes "find_stream tr c n \<noteq> None"
  shows "number_burnt c n edit_seq (mark_terminal c n edit_seq tr)"
proof -
  from assms obtain x st where x: "find_stream tr c n = Some (x, st)" by auto
  let ?st = "st\<lparr>in_flight_edit_seqs := in_flight_edit_seqs st |-| {|edit_seq|}, last_terminal_edit_seq := max (last_terminal_edit_seq st) edit_seq\<rparr>"
  have "edit_seq \<le> watermark ?st" by (simp add: watermark_def max.coboundedI2)
  moreover have "find_stream (mark_terminal c n edit_seq tr) c n = Some (x\<lparr>editor_streams := fmupd n ?st (editor_streams x)\<rparr>, ?st)"
    using x by (simp add: mark_terminal_def put_stream_def find_stream_def)
  ultimately show ?thesis by (auto simp: number_burnt_def reserve_def)
qed

lemma begin_dispatch_burnt:
  assumes "begin_committed_handler_dispatch c e m es tr = (q, tr')" "number_burnt c' n edit_seq tr"
  shows "number_burnt c' n edit_seq tr'"
proof -
  have st: "map_option snd (find_stream tr' c' n) = map_option snd (find_stream tr c' n)"
    using assms(1) by (auto simp: begin_committed_handler_dispatch_def find_stream_def Let_def split: option.splits if_splits)
  obtain x s where s: "find_stream tr c' n = Some (x, s)" "\<forall>k \<le> edit_seq. k \<le> watermark s" "edit_seq |\<notin>| in_flight_edit_seqs s"
  proof (cases "find_stream tr c' n")
    case None
    then show thesis using assms(2) by (auto simp: number_burnt_def reserve_def Let_def split: if_splits)
  next
    case (Some y)
    then show thesis using assms(2) that [of "fst y" "snd y"]
      by (cases y) (fastforce simp: number_burnt_def reserve_def split: if_splits option.splits)
  qed
  with st obtain x' where "find_stream tr' c' n = Some (x', s)" by (cases "find_stream tr' c' n") auto
  with s show ?thesis by (auto simp: number_burnt_def reserve_def)
qed

text \<open>
  A refused edit: only the tracker and the deduplicator change.  The number is terminal, and burnt if its stream still exists,
  and the event is settled with the verdict of the refusal.
\<close>

definition refusal_verdict :: "application \<Rightarrow> event_validation_error \<Rightarrow> session \<Rightarrow> event_outcome_record" where
  "refusal_verdict ap err s =
     \<lparr>accepted = False, revision_after_effect = revision (si_store (s_inner s)),
      reject_reason = bound_diagnostic_string (ap_display ap err) (max_string_length (limits (si_store (s_inner s))))\<rparr>"

definition edit_refused ::
  "application \<Rightarrow> wire_event \<Rightarrow> text_edit_request \<Rightarrow> event_validation_error \<Rightarrow> u64 \<Rightarrow> session \<Rightarrow> session \<Rightarrow> bool" where
  "edit_refused ap e rq err k s t \<longleftrightarrow>
     (let c = we_client_instance_id e; n = rq_node_id rq; tr = si_text_edits (s_inner s);
          tr' = mark_terminal c n (rq_edit_seq rq) tr; d = s_dedupe t
      in t = s\<lparr>s_inner := (s_inner s)\<lparr>si_text_edits := tr'\<rparr>, s_dedupe := d\<rparr> \<and> tracker_ok tr' \<and>
         (find_stream tr c n \<noteq> None \<longrightarrow> number_burnt c n (rq_edit_seq rq) tr') \<and>
         settle_event (identity_of e) (refusal_verdict ap err s) (s_dedupe s) = (k, d) \<and>
         (we_event_id e \<noteq> [] \<longrightarrow> settled_outcome d c (we_event_id e) = Some (refusal_verdict ap err s)))"

text \<open>The answer to a published edit: its handlers are due, or the rejection by the policy is settled.\<close>

definition edit_answered ::
  "wire_event \<Rightarrow> bool \<Rightarrow> u8 list \<Rightarrow> wire_transaction \<Rightarrow> (dispatch_error, text_edit_commit) result \<Rightarrow> session \<Rightarrow> session \<Rightarrow> bool" where
  "edit_answered e acc reason tx r s t \<longleftrightarrow>
     r = Inl Panic \<and> s_dedupe t = s_dedupe s \<or>
     r = Ok (DispatchAccepted tx) \<and> acc \<and> s_dedupe t = s_dedupe s \<or>
     (\<exists>k. r = Ok (SettledEdit (RejectedEvent (PolicyRejected (PolicyText reason)) (revision (si_store (s_inner t))) k)) \<and> \<not> acc \<and>
       settle_event (identity_of e) \<lparr>accepted = False, revision_after_effect = revision (si_store (s_inner t)), reject_reason = reason\<rparr>
         (s_dedupe s) = (k, s_dedupe t))"

lemma publish_edit_published:
  assumes set: "ui_set_property n VALUE (VString v) (ui_new (si_store (s_inner s)) (max_transaction_operations (limits (si_store (s_inner s))))) = (Inr a, ui1)"
      "ui_set_property n VALIDATION_STATE (validation_token st) ui1 = (Inr b, ui)"
    and c: "commit_new (revision (si_store (s_inner s))) (ui_operations ui) = Inr commit"
    and p: "journal_prepare (si_journal (s_inner s)) commit = Inr permit"
    and run: "publish_edit ap e rq (ui_staged ui) commit permit acc reason s = (r, t)" and ok: "tracker_ok (si_text_edits (s_inner s))"
  shows "edit_published s n v st (permit_tx permit) t \<and> edit_answered e acc reason (permit_tx permit) r s t \<and>
    (find_stream (si_text_edits (s_inner s)) (we_client_instance_id e) (rq_node_id rq) \<noteq> None \<longrightarrow>
       number_burnt (we_client_instance_id e) (rq_node_id rq) (rq_edit_seq rq) (si_text_edits (s_inner t)))"
proof -
  let ?i = "(s_inner s)\<lparr>si_store := commit_staging (ui_staged ui) (new_revision (commit_transaction commit)) (si_store (s_inner s))\<rparr>"
  obtain j where j: "journal_append permit (si_journal (s_inner s)) = (Inr (), j)" using journal_append_total [OF p] by blast
  let ?tr = "mark_terminal (we_client_instance_id e) (rq_node_id rq) (rq_edit_seq rq) (si_text_edits (s_inner s))"
  obtain q tr where tr: "(if acc then begin_committed_handler_dispatch (we_client_instance_id e) (we_event_seq e) (we_node_id e) (we_edit_seq e) ?tr
      else (Ok (), ?tr)) = (q, tr)" by fastforce
  obtain w hub where hub: "publish (ap_framed_len ap) (ap_gone ap) (permit_tx permit) (outbound_hub s) = (w, hub)" by fastforce
  have "tracker_ok tr" using tr mark_terminal_ok [OF ok] begin_dispatch_ok by (auto split: if_splits)
  moreover have "ui_operations ui = [SetProperty n VALUE (VString v), SetProperty n VALIDATION_STATE (validation_token st)]"
    using ui_set_property_ops [OF set(1)] ui_set_property_ops [OF set(2)] by (simp add: ui_new_def)
  then have "session_commits (s_inner s) (permit_tx permit) (?i\<lparr>si_journal := j\<rparr>)"
    using locked_commit_commits [OF edit_program_runs [OF set] edit_program_disciplined _ c p j] by (simp add: is_delete_node_def)
  moreover have "s_inner t = (?i\<lparr>si_journal := j\<rparr>)\<lparr>si_text_edits := tr\<rparr>" "session_id t = session_id s" "s_limits t = s_limits s"
    using run j tr hub by (auto simp: publish_edit_def Let_def split: sum.splits if_splits prod.splits)
  moreover have "\<exists>nd. fmlookup (nodes (si_store (?i\<lparr>si_journal := j\<rparr>))) n = Some nd \<and> fmlookup (properties nd) VALUE = Some (VString v) \<and>
      fmlookup (properties nd) VALIDATION_STATE = Some (validation_token st)"
    using edit_written [OF set] by (simp add: commit_staging_def)
  ultimately have "edit_published s n v st (permit_tx permit) t" "s_inner t = (?i\<lparr>si_journal := j\<rparr>)\<lparr>si_text_edits := tr\<rparr>"
    unfolding edit_published_def by blast+
  moreover have "number_burnt (we_client_instance_id e) (rq_node_id rq) (rq_edit_seq rq) tr"
    if "find_stream (si_text_edits (s_inner s)) (we_client_instance_id e) (rq_node_id rq) \<noteq> None"
    using mark_terminal_burns [OF that] tr begin_dispatch_burnt by (auto split: if_splits)
  moreover have "edit_answered e acc reason (permit_tx permit) r s t"
    using run j tr hub by (auto simp: edit_answered_def publish_edit_def Let_def split: sum.splits if_splits prod.splits)
  ultimately show ?thesis by simp
qed

lemma settle_in_flight:
  assumes "is_in_flight d (ev_client_instance_id i) (ev_event_id i)" "ev_event_id i \<noteq> []" "settle_event i out d = (k, d')"
  shows "settled_outcome d' (ev_client_instance_id i) (ev_event_id i) = Some out"
  using assms by (auto simp: is_in_flight_def settle_event_def settle_def settled_outcome_def Let_def
      split: option.splits event_record.splits prod.splits)

lemma reject_reserved_refused:
  assumes "tracker_ok (si_text_edits (s_inner s))" "is_in_flight (s_dedupe s) (we_client_instance_id e) (we_event_id e)"
  obtains k where "edit_refused ap e rq err k s (snd (reject_reserved ap e rq err s))"
    "fst (reject_reserved ap e rq err s) = RejectedEvent err (revision (si_store (s_inner s))) k"
proof -
  obtain k d where d: "settle_event (identity_of e) (refusal_verdict ap err s) (s_dedupe s) = (k, d)" by fastforce
  from settle_in_flight [OF _ _ d] assms(2)
  have "we_event_id e \<noteq> [] \<longrightarrow> settled_outcome d (we_client_instance_id e) (we_event_id e) = Some (refusal_verdict ap err s)"
    by (simp add: identity_of_def)
  with d mark_terminal_ok [OF assms(1)] mark_terminal_burns show thesis
    by (intro that [of k]) (auto simp: edit_refused_def reject_reserved_def settle_rejected_event_def refusal_verdict_def Let_def)
qed

text \<open>The current generation of the stream of an edit.\<close>

definition stream_generation :: "session \<Rightarrow> wire_event \<Rightarrow> node_id \<Rightarrow> u64" where
  "stream_generation s e n = (case generation_of (si_text_edits (s_inner s)) (we_client_instance_id e) n of Some g \<Rightarrow> g | None \<Rightarrow> 0)"

definition decision_published ::
  "wire_event \<Rightarrow> text_edit_request \<Rightarrow> text_edit_decision \<Rightarrow> session \<Rightarrow> (dispatch_error, text_edit_commit) result \<Rightarrow> session \<Rightarrow> bool" where
  "decision_published e rq decision s r t \<longleftrightarrow>
     (\<exists>v st acc reason tx. decided decision rq (current_editor_value s (rq_node_id rq)) = (v, st, acc, reason) \<and>
        length v \<le> max_string_length (limits (si_store (s_inner s))) \<and> edit_published s (rq_node_id rq) v st tx t \<and>
        edit_answered e acc (bound_diagnostic_string reason (max_string_length (limits (si_store (s_inner s))))) tx r s t \<and>
        (find_stream (si_text_edits (s_inner s)) (we_client_instance_id e) (rq_node_id rq) \<noteq> None \<longrightarrow>
           number_burnt (we_client_instance_id e) (rq_node_id rq) (rq_edit_seq rq) (si_text_edits (s_inner t))))"

lemma commit_decision_cases:
  assumes run: "commit_text_edit_decision ap e rq g decision s = (r, t)" and ok: "tracker_ok (si_text_edits (s_inner s))"
    and fl: "is_in_flight (s_dedupe s) (we_client_instance_id e) (we_event_id e)"
  obtains (stopped) "r = Inl Panic \<or> r = Inl Diverge" "t = s"
    | (refused) err where "r = Ok (SettledEdit (fst (reject_reserved ap e rq err s)))" "t = snd (reject_reserved ap e rq err s)"
    | (published) "stream_generation s e (rq_node_id rq) = g" "revalidate_editor_for_commit s (rq_node_id rq) = Ok ()"
        "decision_published e rq decision s r t"
proof -
  let ?st = "si_store (s_inner s)" and ?n = "rq_node_id rq"
  let ?closed = "(r = Inl Panic \<or> r = Inl Diverge) \<and> t = s \<or>
    (\<exists>err. r = Ok (SettledEdit (fst (reject_reserved ap e rq err s))) \<and> t = snd (reject_reserved ap e rq err s))"
  obtain v vst acc reason where dec: "decided decision rq (current_editor_value s ?n) = (v, vst, acc, reason)" by (metis prod_cases4)
  obtain q ui1 where s1: "ui_set_property ?n VALUE (VString v) (ui_new ?st (max_transaction_operations (limits ?st))) = (q, ui1)" by fastforce
  obtain q2 ui2 where s2: "ui_set_property ?n VALIDATION_STATE (validation_token vst) ui1 = (q2, ui2)" by fastforce
  let ?granted = "\<exists>a b commit permit. q = Inr a \<and> q2 = Inr b \<and> commit_new (revision ?st) (ui_operations ui2) = Inr commit \<and>
    journal_prepare (si_journal (s_inner s)) commit = Inr permit"
  have gen: "(case generation_of (si_text_edits (s_inner s)) (we_client_instance_id e) ?n of Some g \<Rightarrow> g | None \<Rightarrow> 0) = stream_generation s e ?n"
    by (simp add: stream_generation_def)
  note unf = commit_text_edit_decision_def gen settled_edit_def reject_reserved_store_def Let_def
  consider (invalid) f where "revalidate_editor_for_commit s ?n = Inl f"
    | (bad) "revalidate_editor_for_commit s ?n = Ok ()" "\<not> (stream_generation s e ?n = g \<and> length v \<le> max_string_length (limits ?st))"
    | (held) "revalidate_editor_for_commit s ?n = Ok ()" "stream_generation s e ?n = g" "length v \<le> max_string_length (limits ?st)" "\<not> ?granted"
    | (good) "revalidate_editor_for_commit s ?n = Ok ()" "stream_generation s e ?n = g" "length v \<le> max_string_length (limits ?st)" "?granted"
    by (cases "revalidate_editor_for_commit s ?n") auto
  then show thesis
  proof cases
    case invalid
    then have ?closed using run fl by (cases f) (auto simp: unf)
    then show thesis using stopped refused by blast
  next
    case bad
    then have ?closed using run fl dec by (auto simp: unf split: if_splits)
    then show thesis using stopped refused by blast
  next
    case held
    then have ?closed using run fl dec s1 s2 by (auto simp: unf split: sum.splits fault.splits)
    then show thesis using stopped refused by blast
  next
    case good
    then obtain a b commit permit where all: "q = Inr a" "q2 = Inr b" "commit_new (revision ?st) (ui_operations ui2) = Inr commit"
      "journal_prepare (si_journal (s_inner s)) commit = Inr permit" by blast
    then have "publish_edit ap e rq (ui_staged ui2) commit permit acc (bound_diagnostic_string reason (max_string_length (limits ?st))) s = (r, t)"
      using run fl dec good s1 s2 by (simp add: unf)
    from publish_edit_published [OF s1 [unfolded all(1)] s2 [unfolded all(2)] all(3,4) this ok]
    have "decision_published e rq decision s r t" unfolding decision_published_def using dec good(3) by blast
    then show thesis using published good by blast
  qed
qed

section \<open>Settlement\<close>

text \<open>An event that this thread has admitted and not yet answered.\<close>

definition admitted :: "event \<Rightarrow> session \<Rightarrow> bool" where
  "admitted i s \<longleftrightarrow> ev_event_id i \<noteq> [] \<and> (\<exists>w. fmlookup (clients (s_dedupe s)) (ev_client_instance_id i) = Some w \<and>
     fmlookup (seen_ids w) (ev_event_id i) = Some (InFlight (ev_event_seq i) (ev_event_type i)))"

lemma admitted_in_flight: "admitted i s \<Longrightarrow> is_in_flight (s_dedupe s) (ev_client_instance_id i) (ev_event_id i)"
  by (auto simp: admitted_def is_in_flight_def)

text \<open>The answer of a deduplicator to another copy of the event.\<close>

definition answer_to_copy :: "event \<Rightarrow> event_deduplicator \<Rightarrow> (event_sequence_error, record_outcome) result" where
  "answer_to_copy i d = fst (admit_event i d)"

lemma settle_admitted:
  assumes "admitted i s" "settle_event i out (s_dedupe s) = (n, d)"
  shows "answer_to_copy i d = Ok (Duplicate out n) \<and> \<not> is_in_flight d (ev_client_instance_id i) (ev_event_id i)"
proof -
  from assms(1) obtain w where i: "ev_event_id i \<noteq> []" and w: "fmlookup (clients (s_dedupe s)) (ev_client_instance_id i) = Some w"
    "fmlookup (seen_ids w) (ev_event_id i) = Some (InFlight (ev_event_seq i) (ev_event_type i))" by (auto simp: admitted_def)
  obtain w' where s: "settle (ev_event_id i) out w = (n, w')" "fmlookup (clients d) (ev_client_instance_id i) = Some w'"
    using assms(2) i w(1) by (auto simp: settle_event_def Let_def split: prod.splits)
  from s(1) w(2) have "fmlookup (seen_ids w') (ev_event_id i) = Some (Settled (ev_event_seq i) (ev_event_type i) out)"
    "n = last_contiguous_processed_seq w'" by (auto simp: settle_def Let_def)
  with i s(2) show ?thesis by (simp add: answer_to_copy_def is_in_flight_def admit_event_def admit_def Let_def split: prod.splits)
qed

lemma abandon_admitted:
  assumes "ev_event_id i \<noteq> []"
  shows "\<not> is_in_flight (abandon_event i d) (ev_client_instance_id i) (ev_event_id i)"
  using assms by (auto simp: is_in_flight_def abandon_event_def abandon_def Let_def split: option.splits event_record.splits)

lemma admit_again:
  assumes "admit_event i d = (Ok r, d')" "\<forall>k. r \<noteq> Fresh k"
  shows "answer_to_copy i d' = Ok r"
proof -
  from assms(1) have i: "ev_event_id i \<noteq> []" by (auto simp: admit_event_def)
  show ?thesis
  proof (cases "fmlookup (clients d) (ev_client_instance_id i)")
    case (Some w)
    obtain q w' where q: "admit (ev_event_id i) (ev_event_seq i) (ev_event_type i) (max_entries_per_client d) w = (q, w')" by fastforce
    have m: "max_entries_per_client (touch_client c x) = max_entries_per_client x" for c x by (simp add: touch_client_def split: option.splits)
    then have "q = Ok r" "d' = (touch_client (ev_client_instance_id i) d)\<lparr>clients := fmupd (ev_client_instance_id i) w' (clients (touch_client (ev_client_instance_id i) d))\<rparr>"
      using assms(1) i Some q by (auto simp: admit_event_def Let_def split: prod.splits)
    moreover from this q assms(2) have "w' = w" by (auto simp: admit_def Let_def split: option.splits if_splits event_record.splits prod.splits bool.splits)
    ultimately show ?thesis using i q m by (simp add: answer_to_copy_def admit_event_def Let_def)
  next
    case None
    then show ?thesis using assms i
      by (auto simp: admit_event_def admit_def window_for_new_client_def window_new_def Let_def result_simps
          split: if_splits option.splits prod.splits sum.splits bool.splits)
  qed
qed

section \<open>Callbacks\<close>

text \<open>
  While a callback runs, it and the other threads move the session by its operations.  Only the thread that
  has admitted an event settles it.
\<close>

definition undisturbed :: "event \<Rightarrow> app_session \<Rightarrow> app_session \<Rightarrow> bool" where
  "undisturbed i s t \<longleftrightarrow> moved (as_session s) (as_session t) \<and> (admitted i (as_session s) \<longrightarrow> admitted i (as_session t))"

definition callbacks_ok :: "application \<Rightarrow> event \<Rightarrow> bool" where
  "callbacks_ok ap i \<longleftrightarrow> (\<forall>k e w rq s. undisturbed i s (snd (ap_infallible ap k e s)) \<and> undisturbed i s (snd (ap_fallible ap k e s)) \<and>
     undisturbed i s (snd (ap_transaction_aware ap k e w s)) \<and> undisturbed i s (snd (ap_policy ap k rq s)) \<and> undisturbed i s (ap_others ap k s))"

lemma callbacks_okD:
  assumes "callbacks_ok ap i"
  shows "undisturbed i s (snd (ap_infallible ap k e s))" "undisturbed i s (snd (ap_fallible ap k e s))"
    "undisturbed i s (snd (ap_transaction_aware ap k e w s))" "undisturbed i s (snd (ap_policy ap k rq s))"
    "undisturbed i s (ap_others ap k s)"
  using assms by (simp_all add: callbacks_ok_def)

lemma undisturbed_refl: "undisturbed i s s"
  by (simp add: undisturbed_def moved_refl)

lemma undisturbed_trans: "undisturbed i s t \<Longrightarrow> undisturbed i t u \<Longrightarrow> undisturbed i s u"
  by (auto simp: undisturbed_def intro: moved_trans)

lemma call_handler_undisturbed: "callbacks_ok ap i \<Longrightarrow> undisturbed i s (snd (call_handler ap x e w s))"
  using callbacks_okD [of ap i s] by (cases x) (simp_all add: call_handler_def split_beta)

lemma call_handlers_undisturbed: "callbacks_ok ap i \<Longrightarrow> undisturbed i s (snd (call_handlers ap xs e w s))"
proof (induction xs arbitrary: s)
  case (Cons x xs)
  obtain r t where r: "call_handler ap x e w s = (r, t)" by fastforce
  then have "undisturbed i s t" using call_handler_undisturbed [OF Cons.prems, of s x e w] by simp
  then show ?case using Cons.IH [OF Cons.prems, of t] undisturbed_trans r by (cases r) auto
qed (simp add: undisturbed_refl)

lemma moved_edits:
  assumes "tracker_ok tr"
  shows "moved s (s\<lparr>s_inner := (s_inner s)\<lparr>si_text_edits := tr\<rparr>, s_dedupe := d\<rparr>)"
    "moved s (s\<lparr>s_dedupe := d, s_inner := (s_inner s)\<lparr>si_text_edits := tr\<rparr>\<rparr>)"
  using assms by (auto simp: moved_def intro: session_moves.intros)

lemma moved_dedupe: "moved s (s\<lparr>s_dedupe := d\<rparr>)"
  by (simp add: moved_def session_moves.rests)

lemma moved_tracker: "moved s t \<Longrightarrow> session_ok (s_inner s) \<Longrightarrow> tracker_ok (si_text_edits (s_inner t))"
  using moved_ok [of s t] by (simp add: session_ok_def)

lemma edit_published_moved: "edit_published s n v st tx t \<Longrightarrow> moved s t"
  by (auto simp: edit_published_def moved_def intro!: session_moves.edits intro: session_moves.commits [OF session_moves.rests])

lemma edit_refused_moved: "edit_refused ap e rq err k s t \<Longrightarrow> moved s t"
  unfolding edit_refused_def Let_def using moved_edits(1) by metis

lemma commit_decision_moved:
  assumes "commit_text_edit_decision ap e rq g decision s = (r, t)" "tracker_ok (si_text_edits (s_inner s))"
  shows "moved s t"
proof (cases "is_in_flight (s_dedupe s) (we_client_instance_id e) (we_event_id e)")
  case False
  then show ?thesis using assms moved_refl by (auto simp: commit_text_edit_decision_def Let_def)
next
  case True
  show ?thesis
  proof (rule commit_decision_cases [OF assms True])
    fix err
    assume "t = snd (reject_reserved ap e rq err s)"
    then show ?thesis using reject_reserved_refused [OF assms(2) True] edit_refused_moved by metis
  next
    assume "decision_published e rq decision s r t"
    then show ?thesis using edit_published_moved by (auto simp: decision_published_def)
  qed (simp_all add: moved_refl)
qed

section \<open>Answers\<close>

text \<open>
  An answer stands: a copy of the event is answered from memory with the same outcome and frontier.  After a panic of
  the application the event is at least not in flight any more.
\<close>

definition answer_recorded :: "event \<Rightarrow> dispatch_result \<Rightarrow> bool" where
  "answer_recorded i res \<longleftrightarrow> (let t = as_session (snd res); rv' = revision (si_store (s_inner t)); copy = answer_to_copy i (s_dedupe t) in
    case fst res of
      Inr (Processed rv n) \<Rightarrow> rv = rv' \<and> copy = Ok (Duplicate \<lparr>accepted = True, revision_after_effect = rv, reject_reason = []\<rparr> n)
    | Inr (RejectedEvent err rv n) \<Rightarrow> rv = rv' \<and>
        (\<exists>reason. copy = Ok (Duplicate \<lparr>accepted = False, revision_after_effect = rv, reject_reason = reason\<rparr> n))
    | Inr (DuplicateEvent acc rv n reason) \<Rightarrow> copy = Ok (Duplicate \<lparr>accepted = acc, revision_after_effect = rv, reject_reason = reason\<rparr> n)
    | Inr (PendingEvent n) \<Rightarrow> copy = Ok (Pending n)
    | Inl (Err (HandlerError _)) \<Rightarrow> (\<exists>n. copy = Ok (Duplicate \<lparr>accepted = True, revision_after_effect = rv', reject_reason = []\<rparr> n))
    | Inl (Err DispatchPanicked) \<Rightarrow> \<not> is_in_flight (s_dedupe t) (ev_client_instance_id i) (ev_event_id i)
    | Inl _ \<Rightarrow> True)"

lemma reject_spec:
  assumes "admitted i (as_session s)"
  shows "moved (as_session s) (as_session (snd (reject ap i err s))) \<and> answer_recorded i (reject ap i err s)"
proof -
  let ?st = "si_store (s_inner (as_session s))"
  obtain n d where d: "settle_event i \<lparr>accepted = False, revision_after_effect = revision ?st,
      reject_reason = bound_diagnostic_string (ap_display ap err) (max_string_length (limits ?st))\<rparr> (s_dedupe (as_session s)) = (n, d)" by fastforce
  then show ?thesis using settle_admitted [OF assms d] moved_dedupe
    by (simp add: reject_def settle_rejected_event_def answer_recorded_def Let_def)
qed

lemma dispatch_admitted_spec:
  assumes cb: "callbacks_ok ap (identity_of e)" and ad: "admitted (identity_of e) (as_session s)" and ok: "session_ok (s_inner (as_session s))"
  shows "moved (as_session s) (as_session (snd (dispatch_admitted_event ap e hs kind txn s))) \<and>
    answer_recorded (identity_of e) (dispatch_admitted_event ap e hs kind txn s)"
proof -
  let ?i = "identity_of e"
  obtain r t where r: "call_handlers ap hs e txn (ap_others ap (Suc 0) s) = (r, t)" by fastforce
  then have "undisturbed ?i s t"
    using call_handlers_undisturbed [OF cb, of "ap_others ap (Suc 0) s" hs e txn] undisturbed_trans [OF callbacks_okD(5) [OF cb]] by (metis snd_conv)
  with ad have t: "moved (as_session s) (as_session t)" "admitted ?i (as_session t)" by (simp_all add: undisturbed_def)
  let ?rv = "revision (si_store (s_inner (as_session t)))"
  obtain n d where d: "settle_event ?i \<lparr>accepted = True, revision_after_effect = ?rv, reject_reason = []\<rparr> (s_dedupe (as_session t)) = (n, d)" by fastforce
  note st = settle_admitted [OF t(2) d]
  have tr: "tracker_ok (finish_committed_handler_dispatch c x (si_text_edits (s_inner (as_session t))))" for c x
    using finish_dispatch_ok moved_tracker [OF t(1) ok] by blast
  note mv = moved_trans [OF t(1) moved_dedupe] moved_trans [OF t(1) moved_edits(2) [OF tr]]
  note unf = dispatch_admitted_event_def r answer_recorded_def Let_def
  consider (panic) "kind = Ordinary" "r = Unwound" | (fails) err where "kind = Ordinary" "r = Failed err"
    | (settles) "kind = Ordinary \<and> r = Returned \<or> kind = CommittedTextEdit" by (cases kind; cases r) auto
  then show ?thesis
  proof cases
    case panic
    then show ?thesis using abandon_admitted [of ?i "s_dedupe (as_session t)"] t(2) mv by (simp add: unf admitted_def)
  next
    case fails
    then show ?thesis using reject_spec [OF t(2), of ap "PolicyRejected (HandlerFailed err)"] moved_trans [OF t(1)]
      by (simp add: dispatch_admitted_event_def r)
  next
    case settles
    then show ?thesis using d st mv
      by (cases r) (auto simp: unf)
  qed
qed

lemma answer_recorded_settled:
  assumes "admitted (identity_of e) u" "settle_event (identity_of e) \<lparr>accepted = False, revision_after_effect = rv, reject_reason = reason\<rparr> (s_dedupe u) = (n, s_dedupe t)"
    and "rv = revision (si_store (s_inner t))"
  shows "answer_recorded (identity_of e) (Ok (RejectedEvent err rv n), s\<lparr>as_session := t\<rparr>)"
  using settle_admitted [OF assms(1,2)] assms(3) by (simp add: answer_recorded_def Let_def)

lemma commit_decision_recorded:
  assumes run: "commit_text_edit_decision ap e rq g decision u = (r, t)" and ad: "admitted (identity_of e) u" and ok: "tracker_ok (si_text_edits (s_inner u))"
  shows "(case r of
      Inr (SettledEdit out) \<Rightarrow> answer_recorded (identity_of e) (Ok out, s\<lparr>as_session := t\<rparr>)
    | Inr (DispatchAccepted tx) \<Rightarrow> s_dedupe t = s_dedupe u
    | Inl f \<Rightarrow> f = Panic \<or> f = Diverge)"
proof -
  have fl: "is_in_flight (s_dedupe u) (we_client_instance_id e) (we_event_id e)" using admitted_in_flight [OF ad] by (simp add: identity_of_def)
  show ?thesis
  proof (rule commit_decision_cases [OF run ok fl])
    fix err
    assume r: "r = Ok (SettledEdit (fst (reject_reserved ap e rq err u)))" "t = snd (reject_reserved ap e rq err u)"
    let ?u = "with_tracker (mark_terminal (we_client_instance_id e) (rq_node_id rq) (rq_edit_seq rq)) u"
    have "admitted (identity_of e) ?u" using ad by (simp add: admitted_def)
    from reject_spec [of "identity_of e" "s\<lparr>as_session := ?u\<rparr>" ap err] this r show ?thesis
      by (simp add: reject_def reject_reserved_def split_beta)
  next
    assume "decision_published e rq decision u r t"
    then obtain acc reason tx where "edit_answered e acc reason tx r u t" unfolding decision_published_def by blast
    then show ?thesis using answer_recorded_settled [OF ad] by (auto simp: edit_answered_def)
  qed (auto)
qed

lemma stopped_recorded: "answer_recorded i (Inl Panic, s)" "answer_recorded i (Inl Diverge, s)"
  by (simp_all add: answer_recorded_def)

lemma reclaim_if_full_ok:
  assumes "tracker_ok (si_text_edits (s_inner s))"
  obtains tr where "reclaim_if_full s = (Ok (), tr)" "tracker_ok tr"
proof -
  obtain tr where "reclaim_departed_clients (has_event_sequence_history (s_dedupe s)) (si_text_edits (s_inner s)) = (Ok (), tr)" "tracker_ok tr"
    using reclaim_departed_clients_ok [OF assms] by blast
  with assms that show thesis by (cases "stream_count (si_text_edits (s_inner s)) \<ge> max_streams (si_text_edits (s_inner s))")
      (simp_all add: reclaim_if_full_def Let_def)
qed

text \<open>The second half of a text edit, from the decision on.\<close>

lemma decision_dispatched:
  assumes cb: "callbacks_ok ap (identity_of e)" and ad: "admitted (identity_of e) (as_session s)" and ok: "session_ok (s_inner (as_session s))"
    and run: "commit_text_edit_decision ap e rq g decision (as_session s) = (r, t)"
    and res: "res = (case r of
      Inl f \<Rightarrow> (Inl f, s\<lparr>as_session := t\<rparr>)
    | Inr (SettledEdit out) \<Rightarrow> (Ok out, s\<lparr>as_session := t\<rparr>)
    | Inr (DispatchAccepted tx) \<Rightarrow> dispatch_admitted_event ap e hs CommittedTextEdit (Some tx) (s\<lparr>as_session := t\<rparr>))"
  shows "moved (as_session s) (as_session (snd res)) \<and> answer_recorded (identity_of e) res"
proof -
  have tr: "tracker_ok (si_text_edits (s_inner (as_session s)))" using ok by (simp add: session_ok_def)
  note mv = commit_decision_moved [OF run tr] and rec = commit_decision_recorded [OF run ad tr, of s]
  show ?thesis
  proof (cases r)
    case (Inl f)
    then show ?thesis using mv rec stopped_recorded by (auto simp: res)
  next
    case (Inr x)
    show ?thesis
    proof (cases x)
      case (SettledEdit out)
      then show ?thesis using Inr mv rec by (simp add: res)
    next
      case (DispatchAccepted tx)
      have "admitted (identity_of e) t" using ad rec Inr DispatchAccepted by (simp add: admitted_def)
      moreover have "session_ok (s_inner t)" using moved_ok [OF mv ok] by simp
      ultimately show ?thesis using dispatch_admitted_spec [OF cb, of "s\<lparr>as_session := t\<rparr>" hs CommittedTextEdit "Some tx"] moved_trans [OF mv]
        by (simp add: res Inr DispatchAccepted)
    qed
  qed
qed

lemma abandon_edit_spec:
  assumes "admitted (identity_of e) (as_session s)" "session_ok (s_inner (as_session s))"
  shows "moved (as_session s) (as_session (snd (abandon_text_edit_after_panic e rq s))) \<and>
    answer_recorded (identity_of e) (abandon_text_edit_after_panic e rq s)"
  using abandon_admitted [of "identity_of e" "s_dedupe (as_session s)"] assms moved_edits(1) [OF abandon_reservation_ok]
  by (simp add: abandon_text_edit_after_panic_def answer_recorded_def admitted_def session_ok_def)

lemma process_text_edit_spec:
  assumes cb: "callbacks_ok ap (identity_of e)" and ad: "admitted (identity_of e) (as_session s)" and ok: "session_ok (s_inner (as_session s))"
  shows "moved (as_session s) (as_session (snd (process_admitted_text_edit ap e d s))) \<and>
    answer_recorded (identity_of e) (process_admitted_text_edit ap e d s)"
proof (cases "validate_text_edit (as_session s) d")
  case (Inl f)
  then show ?thesis using reject_spec [OF ad] stopped_recorded moved_refl by (cases f) (simp_all add: process_admitted_text_edit_def Let_def)
next
  case (Inr n)
  have "tracker_ok (si_text_edits (s_inner (as_session s)))" using ok by (simp add: session_ok_def)
  then obtain tr0 where tr0: "reclaim_if_full (as_session s) = (Ok (), tr0)" "tracker_ok tr0" by (rule reclaim_if_full_ok)
  obtain r tr where tr: "reserve (we_client_instance_id e) (se_node_id d) n tr0 = (r, tr)" by fastforce
  let ?s = "with_session (with_tracker (\<lambda>_. tr)) s"
  have trok: "tracker_ok tr" using reserve_ok [OF tr tr0(2)] .
  then have mv: "moved (as_session s) (as_session ?s)" using moved_edits(1) [of tr "as_session s" "s_dedupe (as_session s)"] by simp
  have ad': "admitted (identity_of e) (as_session ?s)" using ad by (simp add: admitted_def)
  note unf = process_admitted_text_edit_def Inr tr0(1) tr Let_def
  show ?thesis
  proof (cases r)
    case (Inl f)
    then show ?thesis using reject_spec [OF ad'] stopped_recorded mv moved_trans [OF mv] by (cases f) (simp_all add: unf)
  next
    case g: (Inr g)
    define rq where "rq = \<lparr>rq_client_instance_id = (case se_client_instance_id d of Some x \<Rightarrow> x | None \<Rightarrow> we_client_instance_id e),
      rq_event_id = se_event_id d, rq_event_seq = se_event_seq d, rq_edit_seq = n, rq_node_id = se_node_id d,
      rq_value = (case text_arg d of Some x \<Rightarrow> x | None \<Rightarrow> []), rq_observed_revision = se_observed_revision d\<rparr>"
    obtain dec u where dec: "(case as_text_edit_policy ?s of None \<Rightarrow> (Some AcceptEdit, ap_others ap 0 ?s) | Some k \<Rightarrow> ap_policy ap k rq ?s) = (dec, u)" by fastforce
    have "undisturbed (identity_of e) ?s u" using dec callbacks_okD(4) [OF cb, of ?s _ rq] callbacks_okD(5) [OF cb, of ?s 0]
      by (metis (no_types, lifting) option.case_eq_if snd_conv)
    with ad' mv have u: "moved (as_session s) (as_session u)" "admitted (identity_of e) (as_session u)"
      by (auto simp: undisturbed_def intro: moved_trans)
    note uok = moved_ok [OF u(1) ok, THEN conjunct1]
    obtain c t where c: "commit_text_edit_decision ap e rq g (the dec) (as_session u) = (c, t)" by fastforce
    let ?hs = "matching_handlers (se_node_id d) (se_event_type d) ?s"
    show ?thesis using abandon_edit_spec [OF u(2) uok, of rq] decision_dispatched [OF cb u(2) uok c refl, of ?hs] moved_trans [OF u(1)] dec c
      by (cases dec) (simp_all add: unf g rq_def [symmetric] split: sum.splits text_edit_commit.splits)
  qed
qed

lemma session_admit_spec:
  assumes "session_admit_event i u = (r, t)"
  shows "t = u\<lparr>s_dedupe := s_dedupe t\<rparr>" "r = Ok None \<Longrightarrow> admitted i t"
    "r = Ok (Some out) \<Longrightarrow> answer_recorded i (Ok out, s\<lparr>as_session := t\<rparr>)"
    "r = Inl f \<Longrightarrow> answer_recorded i (Inl f, s\<lparr>as_session := t\<rparr>)"
proof -
  obtain q d where q: "admit_event i (s_dedupe u) = (q, d)" by fastforce
  note unf = session_admit_event_def q answer_recorded_def admitted_def
  have again: "answer_to_copy i d = Ok x" if "q = Ok x" "\<forall>k. x \<noteq> Fresh k" for x using admit_again that q by blast
  show "t = u\<lparr>s_dedupe := s_dedupe t\<rparr>" using assms by (auto simp: unf split: sum.splits record_outcome.splits)
  show "r = Ok None \<Longrightarrow> admitted i t" using assms q fresh_entry [of i "s_dedupe u" _ d]
    by (auto simp: unf result_simps split: sum.splits record_outcome.splits)
  show "r = Ok (Some out) \<Longrightarrow> answer_recorded i (Ok out, s\<lparr>as_session := t\<rparr>)" using assms again
    by (cases q; cases "projl q") (auto simp: unf Let_def split: record_outcome.splits)
  show "r = Inl f \<Longrightarrow> answer_recorded i (Inl f, s\<lparr>as_session := t\<rparr>)" using assms
    by (cases q; cases "projl q") (auto simp: unf split: record_outcome.splits)
qed

lemma process_event_spec:
  assumes cb: "callbacks_ok ap (identity_of e)" and ok: "session_ok (s_inner (as_session s))"
  shows "moved (as_session s) (as_session (snd (process_event ap e s))) \<and> answer_recorded (admission_identity ap e) (process_event ap e s)"
proof -
  obtain r t where r: "session_admit_event (admission_identity ap e) (as_session s) = (r, t)" by fastforce
  note ad = session_admit_spec [OF r]
  have mv: "moved (as_session s) t" and inner: "s_inner t = s_inner (as_session s)" using ad(1) moved_dedupe by (metis, metis session.surjective session.update_convs session.select_convs)
  show ?thesis
  proof (cases r)
    case (Inl f)
    then show ?thesis using ad(4) [of f s] mv by (simp add: process_event_def r)
  next
    case (Inr x)
    show ?thesis
    proof (cases x)
      case (Some out)
      then show ?thesis using Inr ad(3) [of out s] mv by (simp add: process_event_def r)
    next
      case None
      have adm: "admitted (admission_identity ap e) (as_session (s\<lparr>as_session := t\<rparr>))" using ad(2) Inr None by simp
      have sok: "session_ok (s_inner (as_session (s\<lparr>as_session := t\<rparr>)))" using ok inner by simp
      note unf = process_event_def r Inr None Let_def
      show ?thesis
      proof (cases "event_from_wire e")
        case (Inl f)
        then show ?thesis using reject_spec [OF adm] moved_trans [OF mv] stopped_recorded mv by (cases f) (simp_all add: unf)
      next
        case dec: (Inr d)
        then have i: "admission_identity ap e = identity_of e" by (simp add: admission_identity_def)
        note adm' = adm [unfolded i]
        show ?thesis using process_text_edit_spec [OF cb adm' sok, of d] dispatch_admitted_spec [OF cb adm' sok] reject_spec [OF adm']
            moved_trans [OF mv] stopped_recorded mv
          by (auto simp: process_event_def i r [unfolded i] Inr None Let_def dec split: sum.splits fault.splits)
      qed
    qed
  qed
qed

lemma copy_answered:
  assumes "answer_to_copy (admission_identity ap e) (s_dedupe (as_session s)) = Ok x"
  shows "\<And>out n. x = Duplicate out n \<Longrightarrow> process_event ap e s =
      (Ok (DuplicateEvent (accepted out) (revision_after_effect out) n (reject_reason out)),
       with_session (\<lambda>t. t\<lparr>s_dedupe := snd (admit_event (admission_identity ap e) (s_dedupe t))\<rparr>) s)"
    "\<And>n. x = Pending n \<Longrightarrow> process_event ap e s =
      (Ok (PendingEvent n), with_session (\<lambda>t. t\<lparr>s_dedupe := snd (admit_event (admission_identity ap e) (s_dedupe t))\<rparr>) s)"
  using assms by (auto simp: process_event_def session_admit_event_def answer_to_copy_def split: prod.splits)

section \<open>Properties\<close>

text \<open>
  Processing an event adds only operations of the session to what the callbacks do: if the handlers, the policy and
  the other threads move the session by its operations, so does the processing as a whole.
\<close>

lemma process_event_keeps_session:
  assumes "callbacks_ok ap (identity_of e)" "session_ok (s_inner (as_session s))" "process_event ap e s = (r, s')"
  shows "session_moves (s_inner (as_session s)) (s_inner (as_session s')) \<and> session_ok (s_inner (as_session s')) \<and>
    session_id (as_session s') = session_id (as_session s)"
  using process_event_spec [OF assms(1,2)] moved_ok [of "as_session s" "as_session s'"] assms(2,3) by (simp add: moved_def)

text \<open>
  C7: Every answer to an event stands.  The handlers, the policy and the other threads use the session by its operations
  (commits by closures a replica can follow included) and leave this event, while it is in flight, to the thread
  that has admitted it.  Then, after a processed, rejected or duplicate event, a copy is answered as a
  duplicate with the same verdict, revision and frontier, so the application runs once; the revision of a new
  verdict is the current one.  An event whose handler panicked is released and not stuck in flight; a
  text edit whose handler failed after its commit stays accepted.
\<close>

theorem event_answer_stands:
  assumes "callbacks_ok ap (identity_of e)" "session_ok (s_inner (as_session s))" "process_event ap e s = (r, s')"
  shows "let d = s_dedupe (as_session s'); i = admission_identity ap e; now = revision (si_store (s_inner (as_session s'))) in
    case r of
      Inr (Processed rv n) \<Rightarrow> rv = now \<and>
        process_event ap e s' = (Ok (DuplicateEvent True rv n []), with_session (\<lambda>t. t\<lparr>s_dedupe := snd (admit_event i d)\<rparr>) s')
    | Inr (RejectedEvent err rv n) \<Rightarrow> rv = now \<and> (\<exists>reason.
        process_event ap e s' = (Ok (DuplicateEvent False rv n reason), with_session (\<lambda>t. t\<lparr>s_dedupe := snd (admit_event i d)\<rparr>) s'))
    | Inr out \<Rightarrow> process_event ap e s' = (Ok out, with_session (\<lambda>t. t\<lparr>s_dedupe := snd (admit_event i d)\<rparr>) s')
    | Inl (Err (HandlerError _)) \<Rightarrow> (\<exists>n.
        process_event ap e s' = (Ok (DuplicateEvent True now n []), with_session (\<lambda>t. t\<lparr>s_dedupe := snd (admit_event i d)\<rparr>) s'))
    | Inl (Err DispatchPanicked) \<Rightarrow> \<not> is_in_flight d (ev_client_instance_id i) (ev_event_id i)
    | Inl _ \<Rightarrow> True"
proof -
  have rec: "answer_recorded (admission_identity ap e) (r, s')" using process_event_spec [OF assms(1,2)] assms(3) by simp
  show ?thesis
  proof (cases r)
    case (Inl f)
    show ?thesis
    proof (cases f)
      case (Err x)
      then show ?thesis using rec Inl by (cases x) (auto simp: answer_recorded_def Let_def copy_answered)
    qed (simp_all add: Inl)
  next
    case (Inr out)
    then show ?thesis using rec by (cases out) (auto simp: answer_recorded_def Let_def copy_answered)
  qed
qed


section \<open>Example\<close>

definition quiet_app :: application where
  "quiet_app = \<lparr>ap_display = \<lambda>_. [], ap_infallible = \<lambda>_ _ s. (True, s), ap_fallible = \<lambda>_ _ s. (Returned, s),
     ap_transaction_aware = \<lambda>_ _ _ s. (Returned, s), ap_policy = \<lambda>_ _ s. (Some AcceptEdit, s), ap_others = \<lambda>_ s. s, ap_framed_len = \<lambda>_. 10,
     ap_gone = \<lambda>_. False, ap_sha256 = \<lambda>_. replicate 32 0\<rparr>"

definition editor_store :: semantic_store where
  "editor_store = snd (create_node 1 TEXT_INPUT None None [] store_new)"

definition editor_session :: app_session where
  "editor_session = \<lparr>as_session = plain_session\<lparr>s_inner := session_a\<lparr>si_store := editor_store\<rparr>, s_dedupe := dedup_with_limits 2 2\<rparr>,
     as_handlers = fmempty, as_text_edit_policy = None\<rparr>"

lemma quiet_callbacks: "callbacks_ok quiet_app i"
  by (simp add: callbacks_ok_def quiet_app_def undisturbed_refl)

lemma quiet_app_others [simp]: "ap_others quiet_app k s = s"
  by (simp add: quiet_app_def)

lemma editor_store_eval: "revision editor_store = 0" "limits editor_store = default_limits"
  "fmlookup (nodes editor_store) 1 = Some \<lparr>n_id = 1, node_type = TEXT_INPUT, parent_id = None, ordered_children = [], properties = fmempty\<rparr>"
  by (simp_all add: editor_store_def create_eval)

lemma editor_session_ok: "session_ok (s_inner (as_session editor_session))"
proof -
  have "store_ok editor_store" using create_node_ok [OF store_new_ok(1)] by (simp add: editor_store_def)
  then show ?thesis using session_a_ok editor_store_eval session_a_store by (simp add: session_ok_def editor_session_def)
qed

definition edit_event :: wire_event where
  "edit_event = event_to_wire sample_edit"

lemma edit_event_eval: "identity_of edit_event = \<lparr>ev_client_instance_id = [1], ev_event_id = [9], ev_event_seq = 1, ev_event_type = Some (0, 5)\<rparr>"
  "we_client_instance_id edit_event = [1]" "we_event_id edit_event = [9]"
  by (simp_all add: edit_event_def sample_edit_def event_to_wire_def identity_of_def TEXT_EDIT_def standard_type_def)

definition edit_window :: client_dedupe_window where
  "edit_window = \<lparr>seen_ids = fmupd [9] (InFlight 1 (Some (0, 5))) fmempty, ids_by_seq = fmupd 1 [9] fmempty, win_order = [[9]],
     last_contiguous_processed_seq = 0, settled_out_of_order = {||}\<rparr>"

definition edit_dedupe :: event_deduplicator where
  "edit_dedupe = sample_dedup\<lparr>clients := fmupd [1] edit_window fmempty\<rparr>"

lemma edit_admitted: "admit_event (identity_of edit_event) (dedup_with_limits 2 2) = (Ok (Fresh 0), edit_dedupe)"
proof -
  have "in_window 2 0 1" by (simp add: in_window_def)
  moreover have "make_room 2 window_new = (True, window_new)" by (subst make_room.simps) (simp add: window_new_def fcard.rep_eq)
  ultimately have "admit [9] 1 (Some (0, 5)) 2 window_new = (Ok (Fresh 0), edit_window)"
    by (subst admit_new) (simp_all add: window_new_def edit_window_def)
  then show ?thesis
    by (simp add: admit_event_def edit_event_eval dedup_with_limits_def edit_dedupe_def sample_dedup_def window_for_new_client_def
      make_room_for_new_client.simps fcard.rep_eq numeral_2_eq_2 Let_def)
qed

definition edit_request :: text_edit_request where
  "edit_request = \<lparr>rq_client_instance_id = [1], rq_event_id = [9], rq_event_seq = 1, rq_edit_seq = 1, rq_node_id = 1, rq_value = [104], rq_observed_revision = 0\<rparr>"

definition edit_tracker :: text_edit_tracker where
  "edit_tracker = snd (reserve [1] 1 1 (tracker_new MAX_TEXT_EDIT_STREAMS))"

lemma edit_tracker_eval: "find_stream edit_tracker [1] 1 = Some (client_default\<lparr>editor_streams := fmupd 1
      \<lparr>last_terminal_edit_seq = 0, in_flight_edit_seqs = {|1|}, generation = 1\<rparr> fmempty\<rparr>,
    \<lparr>last_terminal_edit_seq = 0, in_flight_edit_seqs = {|1|}, generation = 1\<rparr>)" "tracker_ok edit_tracker"
proof -
  show "find_stream edit_tracker [1] 1 = Some (client_default\<lparr>editor_streams := fmupd 1
      \<lparr>last_terminal_edit_seq = 0, in_flight_edit_seqs = {|1|}, generation = 1\<rparr> fmempty\<rparr>,
    \<lparr>last_terminal_edit_seq = 0, in_flight_edit_seqs = {|1|}, generation = 1\<rparr>)"
    by (simp add: edit_tracker_def reserve_def find_stream_def tracker_new_def MAX_TEXT_EDIT_STREAMS_def put_stream_def client_default_def Let_def)
  show "tracker_ok edit_tracker" unfolding edit_tracker_def using reserve_ok [OF _ tracker_new_ok] by (metis prod.collapse)
qed

definition deciding_session :: session where
  "deciding_session = (as_session editor_session)\<lparr>s_inner := (s_inner (as_session editor_session))\<lparr>si_text_edits := edit_tracker\<rparr>, s_dedupe := edit_dedupe\<rparr>"

lemma deciding_eval: "si_store (s_inner deciding_session) = editor_store" "si_journal (s_inner deciding_session) = journal_new 4"
  "si_text_edits (s_inner deciding_session) = edit_tracker"  "outbound_hub deciding_session = hub_new" "s_dedupe deciding_session = edit_dedupe"
  by (simp_all add: deciding_session_def editor_session_def session_a_def plain_session_def)

lemma deciding_valid: "revalidate_editor_for_commit deciding_session 1 = Ok ()"
  by (simp add: revalidate_editor_for_commit_def deciding_eval editor_store_eval is_editor_type_def)

lemma deciding_in_flight: "is_in_flight (s_dedupe deciding_session) [1] [9]"
  by (simp add: deciding_eval edit_dedupe_def edit_window_def is_in_flight_def)

lemma editor_sets:
  obtains ui1 ui2 a b where "ui_set_property 1 VALUE (VString [104]) (ui_new editor_store 10000) = (Inr a, ui1)"
    "ui_set_property 1 VALIDATION_STATE (validation_token ValidState) ui1 = (Inr b, ui2)"
proof -
  note eval = ui_set_property_def recorded_def record_op_def set_property_def editor_store_eval limits_eval MODEL_REF_def standard_property_def
    VALUE_def VALIDATION_STATE_def default_limits_def validate_property_references_def validate_value_def validate_value_inner.simps Let_def
  obtain a ui1 where 1: "ui_set_property 1 VALUE (VString [104]) (ui_new editor_store 10000) = (Inr a, ui1)"
    "limits (ui_staged ui1) = default_limits" "\<exists>n. fmlookup (nodes (ui_staged ui1)) 1 = Some n" "ui_op_count ui1 = 1" "ui_max_ops ui1 = 10000"
    by (simp add: eval ui_new_def)
  then obtain b ui2 where "ui_set_property 1 VALIDATION_STATE (validation_token ValidState) ui1 = (Inr b, ui2)"
    by (auto simp: eval)
  with 1(1) that show thesis by blast
qed

lemma deciding_commits:
  "\<exists>tx t. commit_text_edit_decision quiet_app edit_event edit_request 1 AcceptEdit deciding_session = (Inr (DispatchAccepted tx), t)"
proof -
  obtain ui1 ui2 a b where set: "ui_set_property 1 VALUE (VString [104]) (ui_new editor_store 10000) = (Inr a, ui1)"
    "ui_set_property 1 VALIDATION_STATE (validation_token ValidState) ui1 = (Inr b, ui2)" by (rule editor_sets)
  have ops: "ui_operations ui2 = [SetProperty 1 VALUE (VString [104]), SetProperty 1 VALIDATION_STATE (validation_token ValidState)]"
    using ui_set_property_ops [OF set(1)] ui_set_property_ops [OF set(2)] by (simp add: ui_new_def)
  obtain commit where c: "commit_new 0 (ui_operations ui2) = Inr commit" by (simp add: commit_new_def ops transaction_new_def revision_next_def checked_add_def expect_def)
  have p: "journal_prepare (journal_new 4) commit = Inr (JournalPermit (transaction_to_wire (commit_transaction commit)))"
    by (simp add: journal_prepare_Ok journal_new_def)
  obtain j where j: "journal_append (JournalPermit (transaction_to_wire (commit_transaction commit))) (journal_new 4) = (Inr (), j)"
    using journal_append_total [OF p] by blast
  show ?thesis
    using deciding_in_flight
    by (simp add: commit_text_edit_decision_def edit_event_eval edit_request_def deciding_eval editor_store_eval deciding_valid generation_of_def edit_tracker_eval
     decided_def limits_eval default_limits_def set(1) set(2) [unfolded validation_token.simps] c p clone_staging_def publish_edit_def j mark_terminal_def begin_committed_handler_dispatch_def put_stream_def publish_def hub_new_def client_default_def Let_def)
qed


lemma editor_processes: "\<exists>rv n s'. process_event quiet_app edit_event editor_session = (Ok (Processed rv n), s')"
proof -
  have dec: "event_from_wire edit_event = Ok sample_edit" using event_decodes [OF sample_edit_wf] by (simp add: edit_event_def)
  then have i: "admission_identity quiet_app edit_event = identity_of edit_event" by (simp add: admission_identity_def)
  let ?a = "(as_session editor_session)\<lparr>s_dedupe := edit_dedupe\<rparr>"
  let ?s = "editor_session\<lparr>as_session := ?a\<rparr>"
  have adm: "session_admit_event (identity_of edit_event) (as_session editor_session) = (Ok None, ?a)"
    using edit_admitted by (simp add: session_admit_event_def editor_session_def plain_session_def)
  have val: "validate_text_edit ?a sample_edit = Ok 1"
    by (simp add: validate_text_edit_def editor_session_def sample_edit_def validate_observed_revision_def validate_node_interactive_def
     validate_node_exists_def editor_store_eval is_editor_type_def text_arg_def get_argument_def as_string_def default_limits_def limits_eval Let_def)
  have rec: "reclaim_if_full ?a = (Ok (), tracker_new MAX_TEXT_EDIT_STREAMS)"
    by (simp add: reclaim_if_full_def editor_session_def session_a_def tracker_new_def MAX_TEXT_EDIT_STREAMS_def)
  have res: "reserve [1] 1 1 (tracker_new MAX_TEXT_EDIT_STREAMS) = (Ok 1, edit_tracker)"
    by (simp add: edit_tracker_def reserve_def find_stream_def tracker_new_def MAX_TEXT_EDIT_STREAMS_def Let_def)
  let ?t = "editor_session\<lparr>as_session := deciding_session\<rparr>"
  have t: "with_tracker (\<lambda>_. edit_tracker) ?a = deciding_session" "as_text_edit_policy editor_session = None"
    by (simp_all add: deciding_session_def editor_session_def)
  have hs: "matching_handlers n ty ?t = []" for n ty by (simp add: matching_handlers_def editor_session_def)
  have ev: "se_node_id sample_edit = 1" "se_event_type sample_edit = TEXT_EDIT" "se_event_seq sample_edit = 1" "se_event_id sample_edit = [9]"
    "se_client_instance_id sample_edit = Some [1]" "text_arg sample_edit = Some [104]" "se_observed_revision sample_edit = 0"
    by (simp_all add: sample_edit_def text_arg_def get_argument_def as_string_def)
  obtain tx u where c: "commit_text_edit_decision quiet_app edit_event edit_request 1 AcceptEdit deciding_session = (Inr (DispatchAccepted tx), u)"
    using deciding_commits by blast
  have "process_admitted_text_edit quiet_app edit_event sample_edit ?s =
      dispatch_admitted_event quiet_app edit_event [] CommittedTextEdit (Some tx) (?t\<lparr>as_session := u\<rparr>)"
    using t hs c by (simp add: process_admitted_text_edit_def val rec res ev edit_event_eval edit_request_def [symmetric] Let_def)
  then have "process_event quiet_app edit_event editor_session =
      dispatch_admitted_event quiet_app edit_event [] CommittedTextEdit (Some tx) (?t\<lparr>as_session := u\<rparr>)"
    unfolding process_event_def i adm by (simp add: dec ev Let_def)
  then show ?thesis by (simp add: dispatch_admitted_event_def Let_def split: prod.splits)
qed

theorem event_answer_stands_witness:
  "\<exists>rv n s'. process_event quiet_app edit_event editor_session = (Ok (Processed rv n), s') \<and>
     fst (process_event quiet_app edit_event s') = Ok (DuplicateEvent True rv n [])"
proof -
  obtain rv n s' where run: "process_event quiet_app edit_event editor_session = (Ok (Processed rv n), s')" using editor_processes by blast
  from event_answer_stands [OF quiet_callbacks editor_session_ok run] run show ?thesis by (auto simp: Let_def)
qed

end
