(* ===== verification/Model_Range.thy ===== *)
theory Model_Range
  imports Dispatch_Properties
begin

text \<open>
  Windows of collection models, \<^verbatim>\<open>sessiond/src/session/model_range.rs\<close>: a request of a client is validated against
  the store, materialised by a provider of the application and committed as a reset of the range; pending
  requests of a connection wait in an inbox that merges nearby windows.  A provider runs without the mutex; like the
  callbacks of events it is a function of the session that covers what happens meanwhile.
\<close>

section \<open>Requests\<close>

record range_request =
  mr_node_id :: u64
  mr_model_id :: u64
  mr_start_index :: u64
  mr_count :: u64
  mr_observed_revision :: u64

datatype range_fulfillment = RangeCommitted u64 | AlreadyCached | StaleRange | NoProvider

datatype range_error =
    InvalidNodeId u64
  | InvalidModelId u64
  | CountZero
  | IndexOverflow u64 u64
  | RangeNodeNotFound node_id
  | NotACollectionNode node_id
  | ModelRefMismatch node_id model_id "model_id option"
  | RangeModelNotFound model_id
  | RangeOutOfBounds u64 u64 u64
  | CountExceedsLimit u64 usize
  | RangeStaleRevision u64 u64
  | ProviderItemCountMismatch u64 usize
  | ProviderFailed "u8 list"
  | RangeSession session_error

definition is_collection_type :: "type_ref \<Rightarrow> bool" where
  "is_collection_type ty \<longleftrightarrow> ty = standard_type 17 \<or> ty = standard_type 18 \<or> ty = standard_type 19"

definition range_is_cached :: "model \<Rightarrow> u64 \<Rightarrow> u64 \<Rightarrow> bool" where
  "range_is_cached m start n \<longleftrightarrow> list_all (\<lambda>offset. contains_index m (start + of_nat offset)) [0..<unat n]"

definition validate_request :: "semantic_store \<Rightarrow> range_request \<Rightarrow> (range_error, range_request) result" where
  "validate_request st rq =
     (if mr_node_id rq = 0 then Error (InvalidNodeId (mr_node_id rq))
      else if mr_model_id rq = 0 then Error (InvalidModelId (mr_model_id rq))
      else if mr_count rq = 0 then Error CountZero
      else and_then (ok_or (IndexOverflow (mr_start_index rq) (mr_count rq)) (checked_add (mr_start_index rq) (mr_count rq))) (\<lambda>range_end.
      and_then (ok_or (RangeNodeNotFound (mr_node_id rq)) (fmlookup (nodes st) (mr_node_id rq))) (\<lambda>n.
      if \<not> is_collection_type (node_type n) then Error (NotACollectionNode (mr_node_id rq))
      else if node_model_ref n \<noteq> Some (mr_model_id rq)
      then Error (ModelRefMismatch (mr_node_id rq) (mr_model_id rq) (node_model_ref n))
      else and_then (ok_or (RangeModelNotFound (mr_model_id rq)) (fmlookup (models st) (mr_model_id rq))) (\<lambda>m.
      if range_end > item_count m then Error (RangeOutOfBounds (mr_start_index rq) range_end (item_count m))
      else if unat (mr_count rq) > max_items_per_model_operation (limits st)
      then Error (CountExceedsLimit (mr_count rq) (max_items_per_model_operation (limits st)))
      else if mr_observed_revision rq > revision st then Error (RangeStaleRevision (mr_observed_revision rq) (revision st))
      else Ok rq))))"

section \<open>Fulfilment\<close>

record range_session =
  rs_session :: session
  rs_providers :: "(model_id, nat) fmap"

record range_host =
  rg_provider :: "nat \<Rightarrow> range_request \<Rightarrow> range_session \<Rightarrow> (range_error, model_item list) result \<times> range_session"
  rg_framed_len :: "wire_transaction \<Rightarrow> usize"
  rg_gone :: "nat \<Rightarrow> bool"

definition register_model_range_provider :: "model_id \<Rightarrow> nat \<Rightarrow> range_session \<Rightarrow> range_session" where
  "register_model_range_provider i k s = s\<lparr>rs_providers := fmupd i k (rs_providers s)\<rparr>"

fun apply_ops :: "operation list \<Rightarrow> ui_transaction \<Rightarrow> unit ui_result" where
  "apply_ops [] ui = (Ok (), ui)"
| "apply_ops (op # ops) ui = and_then_st (ui_apply_op op ui) (\<lambda>_. apply_ops ops)"

definition commit_ops_locked :: "range_host \<Rightarrow> operation list \<Rightarrow> session \<Rightarrow> (range_error, unit) result \<times> session" where
  "commit_ops_locked h ops s =
     (let st = si_store (s_inner s)
      in case apply_ops ops (ui_new (clone_staging st) (max_transaction_operations (limits st))) of
           (Inl (Err err), _) \<Rightarrow> (Error (RangeSession (SessionStore err)), s)
         | (Inl Panic, _) \<Rightarrow> (Inl Panic, s)
         | (Inl Diverge, _) \<Rightarrow> (Inl Diverge, s)
         | (Inr _, ui) \<Rightarrow>
             (case commit_new (revision st) (ui_operations ui) of
                Inl _ \<Rightarrow> (Inl Panic, s)
              | Inr commit \<Rightarrow>
                  (case journal_prepare (si_journal (s_inner s)) commit of
                     Inl (Err err) \<Rightarrow> (Error (RangeSession (SessionJournal err)), s)
                   | Inl _ \<Rightarrow> (Inl Panic, s)
                   | Inr permit \<Rightarrow>
                       (let i = (s_inner s)\<lparr>si_store := commit_staging (ui_staged ui) (new_revision (commit_transaction commit)) st\<rparr>
                        in case journal_append permit (si_journal i) of
                             (Inl _, j) \<Rightarrow> (Inl Panic, s\<lparr>s_inner := i\<lparr>si_journal := j\<rparr>\<rparr>)
                           | (Inr _, j) \<Rightarrow>
                               (case publish (rg_framed_len h) (rg_gone h) (permit_tx permit) (outbound_hub s) of
                                  (Inl _, hub) \<Rightarrow> (Inl Panic, s\<lparr>s_inner := i\<lparr>si_journal := j\<rparr>, outbound_hub := hub\<rparr>)
                                | (Inr _, hub) \<Rightarrow> (Ok (), s\<lparr>s_inner := i\<lparr>si_journal := j\<rparr>, outbound_hub := hub\<rparr>))))))"

text \<open>Whether every requested position of the model is in the cache.\<close>

definition window_is_cached :: "semantic_store \<Rightarrow> range_request \<Rightarrow> bool" where
  "window_is_cached st q =
     (case fmlookup (models st) (mr_model_id q) of
        Some m \<Rightarrow> range_is_cached m (mr_start_index q) (mr_count q) | None \<Rightarrow> False)"

fun became_stale :: "range_error \<Rightarrow> bool" where
  "became_stale (RangeStaleRevision _ _) = True"
| "became_stale (RangeOutOfBounds _ _ _) = True"
| "became_stale (RangeNodeNotFound _) = True"
| "became_stale (RangeModelNotFound _) = True"
| "became_stale (ModelRefMismatch _ _ _) = True"
| "became_stale _ = False"

definition commit_reset_if_current ::
  "range_host \<Rightarrow> range_request \<Rightarrow> model_item list \<Rightarrow> session \<Rightarrow> (range_error, range_fulfillment) result \<times> session" where
  "commit_reset_if_current h q its s =
     (case validate_request (si_store (s_inner s)) q of
        Inl (Err err) \<Rightarrow> (if became_stale err then Ok StaleRange else Error err, s)
      | Inl Panic \<Rightarrow> (Inl Panic, s)
      | Inl Diverge \<Rightarrow> (Inl Diverge, s)
      | Inr _ \<Rightarrow>
          if window_is_cached (si_store (s_inner s)) q then (Ok AlreadyCached, s)
          else (case commit_ops_locked h [ModelResetRange (mr_model_id q) (mr_start_index q) its None] s of
              (Inl f, s) \<Rightarrow> (Inl f, s)
            | (Inr _, s) \<Rightarrow> (Ok (RangeCommitted (revision (si_store (s_inner s)))), s)))"

definition fulfill_model_range_request ::
  "range_host \<Rightarrow> range_request \<Rightarrow> range_session \<Rightarrow> (range_error, range_fulfillment) result \<times> range_session" where
  "fulfill_model_range_request h rq s =
     (case validate_request (si_store (s_inner (rs_session s))) rq of
        Inl f \<Rightarrow> (Inl f, s)
      | Inr q \<Rightarrow>
          if window_is_cached (si_store (s_inner (rs_session s))) q then (Ok AlreadyCached, s)
          else (case fmlookup (rs_providers s) (mr_model_id q) of
              None \<Rightarrow> (Ok NoProvider, s)
            | Some k \<Rightarrow>
                (case rg_provider h k q s of
                   (Inl f, s) \<Rightarrow> (Inl f, s)
                 | (Inr its, s) \<Rightarrow>
                     if of_nat (length its) \<noteq> mr_count q
                     then (Error (ProviderItemCountMismatch (mr_count q) (length its)), s)
                     else (case commit_reset_if_current h q its (rs_session s) of (r, t) \<Rightarrow> (r, s\<lparr>rs_session := t\<rparr>)))))"

definition push_visible_model_range ::
  "range_host \<Rightarrow> node_id \<Rightarrow> model_id \<Rightarrow> u64 \<Rightarrow> u64 \<Rightarrow> range_session \<Rightarrow> (range_error, range_fulfillment) result \<times> range_session" where
  "push_visible_model_range h n i start cnt s =
     fulfill_model_range_request h \<lparr>mr_node_id = n, mr_model_id = i, mr_start_index = start, mr_count = cnt,
       mr_observed_revision = revision (si_store (s_inner (rs_session s)))\<rparr> s"

section \<open>The inbox\<close>

definition MAX_PENDING_RANGES_PER_MODEL :: usize where
  "MAX_PENDING_RANGES_PER_MODEL = 8"

definition MAX_INFLIGHT_MODELS :: usize where
  "MAX_INFLIGHT_MODELS = 32"

definition COALESCE_SPAN :: u64 where
  "COALESCE_SPAN = 256"

definition MAX_MERGED_COUNT :: u64 where
  "MAX_MERGED_COUNT = 10000"

record coalescing_state =
  in_order :: "model_id list"
  in_pending :: "(model_id, range_request list) fmap"
  in_closed :: bool

definition inbox_new :: coalescing_state where
  "inbox_new = \<lparr>in_order = [], in_pending = fmempty, in_closed = False\<rparr>"

function evict_oldest_models_over_cap :: "coalescing_state \<Rightarrow> coalescing_state" where
  "evict_oldest_models_over_cap s =
     (if len_map (in_pending s) > MAX_INFLIGHT_MODELS
      then (case in_order s of
          [] \<Rightarrow> s
        | oldest # rest \<Rightarrow>
            if fmlookup (in_pending s) oldest = None then evict_oldest_models_over_cap (s\<lparr>in_order := rest\<rparr>)
            else evict_oldest_models_over_cap
                   (s\<lparr>in_pending := fmdrop oldest (in_pending s), in_order := filter (\<lambda>i. i \<noteq> oldest) rest\<rparr>))
      else s)"
  by auto
termination by (relation "measure (\<lambda>s. length (in_order s))") (auto simp: less_Suc_eq_le)

declare evict_oldest_models_over_cap.simps [simp del]

definition request_end :: "range_request \<Rightarrow> u64 option" where
  "request_end r = checked_add (mr_start_index r) (mr_count r)"

definition bounding_range :: "range_request \<Rightarrow> range_request \<Rightarrow> range_request option" where
  "bounding_range left right =
     (case (request_end left, request_end right) of
        (Some left_end, Some right_end) \<Rightarrow>
          (case checked_sub (max left_end right_end) (min (mr_start_index left) (mr_start_index right)) of
             None \<Rightarrow> None
           | Some n \<Rightarrow>
               if n = 0 \<or> n > MAX_MERGED_COUNT then None
               else Some \<lparr>mr_node_id = mr_node_id right, mr_model_id = mr_model_id right,
                 mr_start_index = min (mr_start_index left) (mr_start_index right), mr_count = n,
                 mr_observed_revision = max (mr_observed_revision left) (mr_observed_revision right)\<rparr>)
      | _ \<Rightarrow> None)"

definition ranges_are_close :: "range_request \<Rightarrow> range_request \<Rightarrow> bool" where
  "ranges_are_close left right =
     (case (request_end left, request_end right) of
        (Some left_end, Some right_end) \<Rightarrow>
          saturating_sub (max left_end right_end) (min (mr_start_index left) (mr_start_index right)) \<le> COALESCE_SPAN
      | _ \<Rightarrow> False)"

text \<open>The first pass over the pending windows: what stays, the merged window and whether it absorbed one.\<close>

fun absorb_close :: "range_request list \<Rightarrow> range_request \<Rightarrow> bool \<Rightarrow> range_request list \<times> range_request \<times> bool" where
  "absorb_close [] merged merged_any = ([], merged, merged_any)"
| "absorb_close (x # xs) merged merged_any =
     (let keep = (case absorb_close xs merged merged_any of (ys, m, b) \<Rightarrow> (x # ys, m, b))
      in if mr_node_id x \<noteq> mr_node_id merged \<or> mr_model_id x \<noteq> mr_model_id merged then keep
         else if ranges_are_close x merged
         then (case bounding_range x merged of Some bound \<Rightarrow> absorb_close xs bound True | None \<Rightarrow> keep)
         else keep)"

definition position :: "('a \<Rightarrow> bool) \<Rightarrow> 'a list \<Rightarrow> nat option" where
  "position P xs = (let k = length (takeWhile (\<lambda>x. \<not> P x) xs) in if k < length xs then Some k else None)"

lemma position_less: "position P xs = Some k \<Longrightarrow> k < length xs \<and> P (xs ! k)"
  using nth_length_takeWhile [of "\<lambda>x. \<not> P x" xs] by (auto simp: position_def Let_def split: if_splits)

function trim_pending_to_cap :: "range_request list \<Rightarrow> u64 \<Rightarrow> range_request list" where
  "trim_pending_to_cap xs incoming_node =
     (if length xs > MAX_PENDING_RANGES_PER_MODEL
      then (let drop_at = (case position (\<lambda>x. mr_node_id x = incoming_node) (take (length xs - 1) xs) of Some k \<Rightarrow> k | None \<Rightarrow> 0)
            in trim_pending_to_cap (take drop_at xs @ drop (Suc drop_at) xs) incoming_node)
      else xs)"
  by auto
termination
  by (relation "measure (\<lambda>(xs, _). length xs)") (auto split: option.splits dest!: position_less)

declare trim_pending_to_cap.simps [simp del]

definition integrate_pending :: "range_request list \<Rightarrow> range_request \<Rightarrow> range_request list" where
  "integrate_pending xs incoming =
     (case absorb_close xs incoming False of
        (ys, merged, merged_any) \<Rightarrow>
          trim_pending_to_cap
            ((if merged_any then ys else filter (\<lambda>x. mr_node_id x \<noteq> mr_node_id merged) ys) @ [merged]) (mr_node_id merged))"

definition submit :: "range_request \<Rightarrow> coalescing_state \<Rightarrow> coalescing_state" where
  "submit r s =
     (if mr_node_id r = 0 \<or> mr_model_id r = 0 \<or> mr_count r = 0 then s
      else if in_closed s then s
      else let old = (case fmlookup (in_pending s) (mr_model_id r) of Some xs \<Rightarrow> xs | None \<Rightarrow> []);
               new = integrate_pending old r;
               s = s\<lparr>in_pending := fmupd (mr_model_id r) new (in_pending s)\<rparr>
           in evict_oldest_models_over_cap
                (if old = [] \<and> new \<noteq> [] then s\<lparr>in_order := in_order s @ [mr_model_id r]\<rparr> else s))"

definition inbox_close :: "coalescing_state \<Rightarrow> coalescing_state" where
  "inbox_close s = s\<lparr>in_closed := True\<rparr>"

function try_pop :: "coalescing_state \<Rightarrow> range_request option \<times> coalescing_state" where
  "try_pop s =
     (case in_order s of
        [] \<Rightarrow> (None, s)
      | i # rest \<Rightarrow>
          (case fmlookup (in_pending s) i of
             None \<Rightarrow> try_pop (s\<lparr>in_order := rest\<rparr>)
           | Some [] \<Rightarrow> try_pop (s\<lparr>in_order := rest, in_pending := fmdrop i (in_pending s)\<rparr>)
           | Some (r # rs) \<Rightarrow>
               (Some r,
                if rs = [] then s\<lparr>in_order := rest, in_pending := fmdrop i (in_pending s)\<rparr>
                else s\<lparr>in_order := rest @ [i], in_pending := fmupd i rs (in_pending s)\<rparr>)))"
  by auto
termination by (relation "measure (\<lambda>s. length (in_order s))") auto

declare try_pop.simps [simp del]

end
