(* ===== verification/Range_Properties.thy ===== *)
theory Range_Properties
  imports Model_Range
begin

text \<open>
  What the fulfilment of range requests and the inbox guarantee.
\<close>

section \<open>The commit of a window\<close>

fun ops_program :: "operation list \<Rightarrow> unit ui_prog" where
  "ops_program [] = Return ()"
| "ops_program (op # ops) = Invoke (UiApply op) (\<lambda>(r, _). case r of
     Inl (Err e) \<Rightarrow> Raise e | Inl _ \<Rightarrow> Unwind | Inr _ \<Rightarrow> ops_program ops)"

lemma ops_program_disciplined: "list_all wire_faithful ops \<Longrightarrow> disciplined (ops_program ops)"
  by (induction ops) (auto intro!: disciplined.intros)

lemma ops_program_runs: "apply_ops ops ui = (Inr u, ui') \<Longrightarrow> run_ui (ops_program ops) ui = (Inr (), ui')"
  by (induction ops arbitrary: ui) (auto simp: reply_with_def result_simps split: prod.splits)

lemma apply_ops_recorded: "apply_ops ops ui = (Inr u, ui') \<Longrightarrow> ui_operations ui' = ui_operations ui @ ops"
  by (induction ops arbitrary: ui)
    (fastforce simp: ui_apply_op_def recorded_def record_op_def Let_def result_simps split: if_splits prod.splits)+

lemma apply_one: "apply_ops [op] ui = (Inr u, ui') \<Longrightarrow> operation_apply op (ui_staged ui) = (Inr (), ui_staged ui')"
  by (cases "operation_apply op (ui_staged ui)")
    (auto simp: ui_apply_op_def recorded_def record_op_def Let_def result_simps split: if_splits)

text \<open>What a commit under the mutex leaves: nothing, or one commit of the session.\<close>

lemma commit_ops_spec:
  assumes run: "commit_ops_locked h ops s = (r, t)" and wf: "list_all wire_faithful ops" and del: "\<not> list_ex is_delete_node ops"
  shows "t = s \<and> r \<noteq> Ok () \<or>
    (\<exists>tx ui rv. (r = Ok () \<or> r = Inl Panic) \<and> session_commits (s_inner s) tx (s_inner t) \<and> session_id t = session_id s \<and> s_limits t = s_limits s \<and>
       apply_ops ops (ui_new (si_store (s_inner s)) (max_transaction_operations (limits (si_store (s_inner s))))) = (Inr (), ui) \<and>
       si_store (s_inner t) = commit_staging (ui_staged ui) rv (si_store (s_inner s)))"
proof -
  let ?st = "si_store (s_inner s)"
  obtain q ui where ui: "apply_ops ops (ui_new ?st (max_transaction_operations (limits ?st))) = (q, ui)" by fastforce
  show ?thesis
  proof (cases "\<exists>u commit permit. q = Inr u \<and> commit_new (revision ?st) (ui_operations ui) = Inr commit \<and>
      journal_prepare (si_journal (s_inner s)) commit = Inr permit")
    case False
    then show ?thesis using run ui by (auto simp: commit_ops_locked_def Let_def split: sum.splits fault.splits)
  next
    case True
    then obtain commit permit where all: "q = Inr ()" "commit_new (revision ?st) (ui_operations ui) = Inr commit"
      "journal_prepare (si_journal (s_inner s)) commit = Inr permit" by auto
    note ran = ui [unfolded all(1)]
    obtain j where j: "journal_append permit (si_journal (s_inner s)) = (Inr (), j)" using journal_append_total [OF all(3)] by blast
    obtain w hub where hub: "publish (rg_framed_len h) (rg_gone h) (permit_tx permit) (outbound_hub s) = (w, hub)" by fastforce
    have "ui_operations ui = ops" using apply_ops_recorded [OF ran] by (simp add: ui_new_def)
    then have "session_commits (s_inner s) (permit_tx permit)
        ((s_inner s)\<lparr>si_store := commit_staging (ui_staged ui) (new_revision (commit_transaction commit)) ?st, si_journal := j\<rparr>)"
      using locked_commit_commits [OF ops_program_runs [OF ran] ops_program_disciplined [OF wf] _ all(2,3) j] del by simp
    moreover have "s_inner t = (s_inner s)\<lparr>si_store := commit_staging (ui_staged ui) (new_revision (commit_transaction commit)) ?st, si_journal := j\<rparr>"
      "session_id t = session_id s" "s_limits t = s_limits s" "r = Ok () \<or> r = Inl Panic"
      using run ran all(2,3) j hub by (auto simp: commit_ops_locked_def Let_def split: sum.splits)
    ultimately show ?thesis using ran by auto
  qed
qed

section \<open>The window in the store\<close>

text \<open>
  The items of a model after its window from \<open>start\<close> has been filled: the window holds the given items; every other position
  is as it was, except that positions may have been dropped from a cache that was too full for the window.
\<close>

definition window_put :: "u64 \<Rightarrow> model_item list \<Rightarrow> usize \<Rightarrow> model \<Rightarrow> model \<Rightarrow> bool" where
  "window_put start its bound m m' \<longleftrightarrow>
     m_id m' = m_id m \<and> model_type m' = model_type m \<and> item_count m' = item_count m \<and>
     (\<forall>j. let k = unat j; a = unat start in
        if a \<le> k \<and> k < a + length its then fmlookup (model.items m') j = Some (its ! (k - a))
        else fmlookup (model.items m') j = fmlookup (model.items m) j \<or>
          fmlookup (model.items m') j = None \<and> bound < cached_item_count m + length its)"

lemma cached_reset_put:
  assumes run: "cached_reset l start its None m = (Inr u, m')" and ok: "model_ok m" and len: "length its < 2 ^ 63"
  shows "window_put start its (max_cached_items_per_model l) m m'"
proof -
  define e where "e = saturating_add start (of_nat (length its))"
  obtain m1 where m1: "model_ok m1" "reset_range start its None m1 = (Inr u, m')" "m_id m1 = m_id m" "model_type m1 = model_type m"
    "item_count m1 = item_count m" "\<And>j. fmlookup (model.items m1) j = fmlookup (model.items m) j \<or>
      fmlookup (model.items m1) j = None \<and> max_cached_items_per_model l < cached_item_count m + length its"
  proof (cases "projected start e (length its) m > max_cached_items_per_model l")
    case True
    let ?n = "projected start e (length its) m - max_cached_items_per_model l"
    let ?m1 = "evict_farthest_outside start e ?n m"
    have "fmlookup (model.items ?m1) j = fmlookup (model.items m) j \<or> fmlookup (model.items ?m1) j = None" for j
      using evict_spec(4) [where m = m and ks = start and ke = e and n = ?n and i = j] by (cases "fmlookup (model.items ?m1) j") (auto simp: fmlookup_dom'_iff)
    moreover have "max_cached_items_per_model l < cached_item_count m + length its" using True by (simp add: projected_def)
    moreover have "reset_range start its None ?m1 = (Inr u, m')" using run True by (auto simp: cached_reset_def e_def Let_def split: if_splits)
    ultimately show thesis using evict_ok [OF ok] by (intro that [of ?m1]) auto
  next
    case False
    then show thesis using run ok by (intro that [of m]) (auto simp: cached_reset_def e_def Let_def split: if_splits)
  qed
  note r = reset_range_Ok [OF m1(2,1) len]
  have c: "unat (item_count m') = unat (item_count m1)" "cache m' = snd (sparse_put (unat start) its (unat (item_count m1), cache m1))"
    using r by (simp_all add: sparse_of_def sparse_put_def hinted_count_def)
  have "fmlookup (model.items m') j = (if unat start \<le> unat j \<and> unat j < unat start + length its then Some (its ! (unat j - unat start))
      else fmlookup (model.items m1) j)" for j
    using fun_cong [OF c(2), of "unat j"] by (simp add: sparse_put_def)
  then show ?thesis using r c(1) m1(3-6) by (auto simp: window_put_def Let_def word_unat_eq_iff)
qed

text \<open>A store in which exactly the window of a request has been filled; nodes and other models are as they were.\<close>

definition window_filled :: "semantic_store \<Rightarrow> range_request \<Rightarrow> model_item list \<Rightarrow> semantic_store \<Rightarrow> bool" where
  "window_filled st q its st' \<longleftrightarrow> length its = unat (mr_count q) \<and> nodes st' = nodes st \<and> roots st' = roots st \<and>
     (\<exists>m m'. fmlookup (models st) (mr_model_id q) = Some m \<and> models st' = fmupd (mr_model_id q) m' (models st) \<and>
        window_put (mr_start_index q) its (max_cached_items_per_model (limits st)) m m')"

lemma reset_window:
  assumes run: "model_reset_range (mr_model_id q) (mr_start_index q) its None st = (Inr u, st')" and ok: "store_ok st"
    and len: "length its < 2 ^ 63" "length its = unat (mr_count q)"
  shows "window_filled st q its (commit_staging st' rv st)"
proof -
  obtain m m' where m: "fmlookup (models st) (mr_model_id q) = Some m" "cached_reset (limits st) (mr_start_index q) its None m = (Inr u, m')"
    "st' = st\<lparr>models := fmupd (mr_model_id q) m' (models st)\<rparr>"
    using run by (auto simp: model_reset_range_def with_model_def result_simps split: option.splits prod.splits)
  have "model_ok m" using ok m(1) by (auto simp: store_ok_def models_ok_def)
  from cached_reset_put [OF m(2) this len(1)] m(1,3) len(2) show ?thesis by (auto simp: window_filled_def commit_staging_def)
qed

lemma validate_request_Ok:
  assumes "validate_request st rq = Inr q"
  shows "q = rq" "mr_node_id rq \<noteq> 0" "mr_model_id rq \<noteq> 0" "mr_count rq \<noteq> 0" "unat (mr_start_index rq) + unat (mr_count rq) < 2 ^ 64"
    "unat (mr_count rq) \<le> max_items_per_model_operation (limits st)" "mr_observed_revision rq \<le> revision st"
    "\<exists>m. fmlookup (models st) (mr_model_id rq) = Some m \<and> unat (mr_start_index rq) + unat (mr_count rq) \<le> unat (item_count m)"
proof -
  obtain e n m where *: "q = rq" "mr_node_id rq \<noteq> 0" "mr_model_id rq \<noteq> 0" "mr_count rq \<noteq> 0" "checked_add (mr_start_index rq) (mr_count rq) = Some e"
    "fmlookup (models st) (mr_model_id rq) = Some m" "e \<le> item_count m" "unat (mr_count rq) \<le> max_items_per_model_operation (limits st)"
    "mr_observed_revision rq \<le> revision st"
    using assms by (auto simp: validate_request_def result_simps ok_or_def not_less split: if_splits option.splits)
  show "q = rq" "mr_node_id rq \<noteq> 0" "mr_model_id rq \<noteq> 0" "mr_count rq \<noteq> 0" "unat (mr_count rq) \<le> max_items_per_model_operation (limits st)"
    "mr_observed_revision rq \<le> revision st" by (fact *)+
  have e: "unat e = unat (mr_start_index rq) + unat (mr_count rq)" using *(5) by (simp add: checked_add_Some unat_plus_no_overflow)
  then show "unat (mr_start_index rq) + unat (mr_count rq) < 2 ^ 64" using unat_u64_bound [of e] by simp
  show "\<exists>m. fmlookup (models st) (mr_model_id rq) = Some m \<and> unat (mr_start_index rq) + unat (mr_count rq) \<le> unat (item_count m)"
    using *(6,7) e by (simp add: word_le_nat_alt)
qed

section \<open>Requests\<close>

text \<open>
  While a provider runs, the session moves by its operations; it returns items whose resource hashes have the length of
  the type, and a vector has fewer than \<open>2 ^ 63\<close> elements.
\<close>

definition provider_ok :: "range_host \<Rightarrow> bool" where
  "provider_ok h \<longleftrightarrow> (\<forall>k q s. moved (rs_session s) (rs_session (snd (rg_provider h k q s))) \<and>
     (\<forall>its. fst (rg_provider h k q s) = Ok its \<longrightarrow> length its < 2 ^ 63 \<and> (\<forall>it \<in> set its. item_hashes_wf it)))"

lemma commit_reset_spec:
  assumes run: "commit_reset_if_current h q its s = (r, t)" and ok: "session_ok (s_inner s)"
    and its: "length its < 2 ^ 63" "\<forall>it \<in> set its. item_hashes_wf it" "of_nat (length its) = mr_count q"
  shows "moved s t \<and> (case r of
      Inr (RangeCommitted rv) \<Rightarrow> rv = revision (si_store (s_inner t)) \<and> (\<exists>tx. session_commits (s_inner s) tx (s_inner t)) \<and>
        window_filled (si_store (s_inner s)) q its (si_store (s_inner t))
    | Inr AlreadyCached \<Rightarrow> t = s \<and> window_is_cached (si_store (s_inner t)) q
    | Inr StaleRange \<Rightarrow> t = s
    | Inr NoProvider \<Rightarrow> False
    | Inl (Err _) \<Rightarrow> t = s
    | Inl _ \<Rightarrow> True)"
proof -
  let ?op = "ModelResetRange (mr_model_id q) (mr_start_index q) its None"
  consider (invalid) f where "validate_request (si_store (s_inner s)) q = Inl f" | (cached) x where "validate_request (si_store (s_inner s)) q = Inr x" "window_is_cached (si_store (s_inner s)) q"
    | (absent) x where "validate_request (si_store (s_inner s)) q = Inr x" "\<not> window_is_cached (si_store (s_inner s)) q"
    by (cases "validate_request (si_store (s_inner s)) q") auto
  then show ?thesis
  proof cases
    case invalid
    then show ?thesis using run moved_refl by (cases f) (auto simp: commit_reset_if_current_def split: if_splits)
  next
    case cached
    then show ?thesis using run moved_refl by (auto simp: commit_reset_if_current_def)
  next
    case absent
    obtain r' where r': "commit_ops_locked h [?op] s = (r', t)" "r = (case r' of Inl f \<Rightarrow> Inl f | Inr _ \<Rightarrow> Ok (RangeCommitted (revision (si_store (s_inner t)))))"
      using run absent by (auto simp: commit_reset_if_current_def split: prod.splits sum.splits)
    have len: "length its = unat (mr_count q)" using its(1,3) unat_of_nat_u64 [of "length its"] by auto
    have "list_all wire_faithful [?op]" "\<not> list_ex is_delete_node [?op]" using its(2) by (simp_all add: is_delete_node_def)
    from commit_ops_spec [OF r'(1) this] show ?thesis
    proof
      assume "t = s \<and> r' \<noteq> Ok ()"
      then show ?thesis using r'(2) moved_refl by (cases r') (auto split: fault.splits)
    next
      assume "\<exists>tx ui rv. (r' = Ok () \<or> r' = Inl Panic) \<and> session_commits (s_inner s) tx (s_inner t) \<and> session_id t = session_id s \<and> s_limits t = s_limits s \<and>
       apply_ops [?op] (ui_new (si_store (s_inner s)) (max_transaction_operations (limits (si_store (s_inner s))))) = (Inr (), ui) \<and>
       si_store (s_inner t) = commit_staging (ui_staged ui) rv (si_store (s_inner s))"
      then obtain tx ui rv where c: "session_commits (s_inner s) tx (s_inner t)" "session_id t = session_id s" "s_limits t = s_limits s"
        "apply_ops [?op] (ui_new (si_store (s_inner s)) (max_transaction_operations (limits (si_store (s_inner s))))) = (Inr (), ui)"
        "si_store (s_inner t) = commit_staging (ui_staged ui) rv (si_store (s_inner s))" "r' = Ok () \<or> r' = Inl Panic" by blast
      have reset: "model_reset_range (mr_model_id q) (mr_start_index q) its None (si_store (s_inner s)) = (Inr (), ui_staged ui)"
        using apply_one [OF c(4)] by (simp add: ui_new_def)
      have "store_ok (si_store (s_inner s))" using ok by (simp add: session_ok_def)
      from reset_window [OF reset this its(1) len] have "window_filled (si_store (s_inner s)) q its (si_store (s_inner t))" by (simp add: c(5))
      moreover have "moved s t" using c(1-3) session_moves.commits [OF session_moves.rests] by (simp add: moved_def)
      ultimately show ?thesis using r'(2) c(1,6) by auto
    qed
  qed
qed

text \<open>The state that the registered provider leaves, and what it returns.\<close>

definition asked :: "range_host \<Rightarrow> range_request \<Rightarrow> range_session \<Rightarrow> (range_error, model_item list) result \<Rightarrow> range_session \<Rightarrow> bool" where
  "asked h rq s p u \<longleftrightarrow> (\<exists>k. fmlookup (rs_providers s) (mr_model_id rq) = Some k \<and> rg_provider h k rq s = (p, u))"

definition range_answered :: "range_host \<Rightarrow> range_request \<Rightarrow> range_session \<Rightarrow> (range_error, range_fulfillment) result \<Rightarrow> range_session \<Rightarrow> bool" where
  "range_answered h rq s r s' \<longleftrightarrow> (case r of
      Inr (RangeCommitted rv) \<Rightarrow> rv = revision (si_store (s_inner (rs_session s'))) \<and>
        (\<exists>its u tx. asked h rq s (Ok its) u \<and> rs_providers s' = rs_providers u \<and>
           session_commits (s_inner (rs_session u)) tx (s_inner (rs_session s')) \<and>
           window_filled (si_store (s_inner (rs_session u))) rq its (si_store (s_inner (rs_session s'))))
    | Inr AlreadyCached \<Rightarrow> window_is_cached (si_store (s_inner (rs_session s'))) rq \<and> (s' = s \<or> (\<exists>p. asked h rq s p s'))
    | Inr NoProvider \<Rightarrow> s' = s \<and> fmlookup (rs_providers s) (mr_model_id rq) = None
    | Inr StaleRange \<Rightarrow> (\<exists>its. asked h rq s (Ok its) s')
    | Inl (Err _) \<Rightarrow> s' = s \<or> (\<exists>p. asked h rq s p s')
    | Inl _ \<Rightarrow> True)"

lemma fulfil_spec:
  assumes h: "provider_ok h" and ok: "session_ok (s_inner (rs_session s))" and run: "fulfill_model_range_request h rq s = (r, s')"
  shows "moved (rs_session s) (rs_session s') \<and> range_answered h rq s r s'"
proof (cases "validate_request (si_store (s_inner (rs_session s))) rq")
  case (Inl f)
  then show ?thesis using run moved_refl by (cases f) (auto simp: fulfill_model_range_request_def range_answered_def)
next
  case (Inr q)
  then have [simp]: "q = rq" by (rule validate_request_Ok(1))
  note unf = fulfill_model_range_request_def Inr range_answered_def
  show ?thesis
  proof (cases "window_is_cached (si_store (s_inner (rs_session s))) rq \<or> fmlookup (rs_providers s) (mr_model_id rq) = None")
    case True
    then show ?thesis using run moved_refl by (auto simp: unf split: if_splits option.splits)
  next
    case False
    then obtain k where k: "\<not> window_is_cached (si_store (s_inner (rs_session s))) rq" "fmlookup (rs_providers s) (mr_model_id rq) = Some k" by auto
    obtain p u where p: "rg_provider h k rq s = (p, u)" by fastforce
    with h have mv: "moved (rs_session s) (rs_session u)" and its: "\<And>its. p = Ok its \<Longrightarrow> length its < 2 ^ 63 \<and> (\<forall>it \<in> set its. item_hashes_wf it)"
      unfolding provider_ok_def by (metis snd_conv, metis fst_conv)
    have su: "asked h rq s p u" using p k(2) by (simp add: asked_def)
    have uok: "session_ok (s_inner (rs_session u))" using moved_ok [OF mv ok] by simp
    show ?thesis
    proof (cases p)
      case (Inl f)
      then show ?thesis using run k p mv su by (cases f) (auto simp: unf)
    next
      case provided: (Inr its)
      show ?thesis
      proof (cases "of_nat (length its) = mr_count rq")
        case False
        then show ?thesis using run k p provided mv su by (auto simp: unf)
      next
        case True
        obtain q' t where c: "commit_reset_if_current h rq its (rs_session u) = (q', t)" by fastforce
        have res: "r = q'" "s' = u\<lparr>rs_session := t\<rparr>" using run k p provided True c by (auto simp: unf)
        have "u\<lparr>rs_session := rs_session u\<rparr> = u" by simp
        with commit_reset_spec [OF c uok] its [OF provided] True su [unfolded provided] show ?thesis
          using moved_trans [OF mv, of t] unfolding res
          by (cases q') (fastforce simp: range_answered_def split: range_fulfillment.splits fault.splits)+
      qed
    qed
  qed
qed

section \<open>Merging windows\<close>

definition request_ok :: "range_request \<Rightarrow> bool" where
  "request_ok r \<longleftrightarrow> mr_node_id r \<noteq> 0 \<and> mr_model_id r \<noteq> 0 \<and> mr_count r \<noteq> 0"

definition covers :: "range_request \<Rightarrow> range_request \<Rightarrow> bool" where
  "covers b r \<longleftrightarrow> mr_node_id b = mr_node_id r \<and> mr_model_id b = mr_model_id r \<and> mr_observed_revision r \<le> mr_observed_revision b \<and>
     mr_start_index b \<le> mr_start_index r \<and> unat (mr_start_index r) + unat (mr_count r) \<le> unat (mr_start_index b) + unat (mr_count b)"

lemma covers_refl: "covers r r"
  by (simp add: covers_def)

lemma covers_trans: "covers a b \<Longrightarrow> covers b c \<Longrightarrow> covers a c"
  unfolding covers_def by (metis order.trans)

lemma bounding_range_covers:
  assumes "bounding_range x m = Some b" "mr_node_id x = mr_node_id m" "mr_model_id x = mr_model_id m"
  shows "covers b x \<and> covers b m \<and> mr_count b \<noteq> 0"
proof -
  obtain xe me n where e: "request_end x = Some xe" "request_end m = Some me"
    "checked_sub (max xe me) (min (mr_start_index x) (mr_start_index m)) = Some n" "n \<noteq> 0"
    "b = \<lparr>mr_node_id = mr_node_id m, mr_model_id = mr_model_id m, mr_start_index = min (mr_start_index x) (mr_start_index m), mr_count = n,
       mr_observed_revision = max (mr_observed_revision x) (mr_observed_revision m)\<rparr>"
    using assms(1) by (auto simp: bounding_range_def split: option.splits if_splits)
  have ends: "unat xe = unat (mr_start_index x) + unat (mr_count x)" "unat me = unat (mr_start_index m) + unat (mr_count m)"
    using e(1,2) by (simp_all add: request_end_def checked_add_Some unat_plus_no_overflow)
  have "n = max xe me - min (mr_start_index x) (mr_start_index m)" "min (mr_start_index x) (mr_start_index m) \<le> max xe me"
    using e(3) by (simp_all add: checked_sub_Some)
  then have "unat (min (mr_start_index x) (mr_start_index m)) + unat n = unat (max xe me)" by (simp add: unat_sub word_le_nat_alt)
  moreover have "unat xe \<le> unat (max xe me)" "unat me \<le> unat (max xe me)" by (simp_all add: word_le_nat_alt [symmetric])
  ultimately show ?thesis using assms(2,3) e(4,5) ends by (simp add: covers_def)
qed

lemma absorb_close_spec:
  "absorb_close xs m b = (ys, m', b') \<Longrightarrow> set ys \<subseteq> set xs \<and> covers m' m \<and> (\<forall>x \<in> set xs - set ys. covers m' x) \<and>
     (request_ok m \<longrightarrow> request_ok m')"
proof (induction xs m b arbitrary: ys m' b' rule: absorb_close.induct)
  case (2 x xs m b)
  show ?case
  proof (cases "mr_node_id x = mr_node_id m \<and> mr_model_id x = mr_model_id m \<and> ranges_are_close x m \<and> bounding_range x m \<noteq> None")
    case True
    then obtain bound where bd: "bounding_range x m = Some bound" by blast
    with True 2 have ih: "set ys \<subseteq> set xs \<and> covers m' bound \<and> (\<forall>x \<in> set xs - set ys. covers m' x) \<and> (request_ok bound \<longrightarrow> request_ok m')"
      by (simp add: Let_def)
    note bc = bounding_range_covers [OF bd]
    have bound: "covers bound x" "covers bound m" "mr_count bound \<noteq> 0" using bc True by blast+
    have "covers m' x" "covers m' m" using ih bound(1,2) covers_trans [of m' bound] by simp_all
    moreover have "request_ok m \<longrightarrow> request_ok bound" using bound(2,3) by (simp add: request_ok_def covers_def)
    ultimately show ?thesis using ih by auto
  next
    case False
    then have "absorb_close (x # xs) m b = (case absorb_close xs m b of (zs, m, b) \<Rightarrow> (x # zs, m, b))"
      by (cases "bounding_range x m") (simp_all add: Let_def)
    then obtain zs where z: "absorb_close xs m b = (zs, m', b')" "ys = x # zs"
      using 2(3) by (cases "absorb_close xs m b") simp
    have "set zs \<subseteq> set xs \<and> covers m' m \<and> (\<forall>x \<in> set xs - set zs. covers m' x) \<and> (request_ok m \<longrightarrow> request_ok m')"
      using 2(1) [OF z(1)] .
    then show ?thesis using z(2) by auto
  qed
qed (simp add: covers_refl)

lemma drop_at_less:
  assumes "length xs > MAX_PENDING_RANGES_PER_MODEL"
  shows "(case position P (take (length xs - 1) xs) of Some k \<Rightarrow> k | None \<Rightarrow> 0) < length xs - 1"
  using assms by (auto simp: MAX_PENDING_RANGES_PER_MODEL_def split: option.splits dest!: position_less)

lemma trim_pending_spec:
  "xs \<noteq> [] \<Longrightarrow> let ys = trim_pending_to_cap xs n in length ys \<le> MAX_PENDING_RANGES_PER_MODEL \<and> set ys \<subseteq> set xs \<and> ys \<noteq> [] \<and> last ys = last xs"
proof (induction xs n rule: trim_pending_to_cap.induct)
  case (1 xs n)
  show ?case
  proof (cases "length xs > MAX_PENDING_RANGES_PER_MODEL")
    case True
    let ?k = "case position (\<lambda>x. mr_node_id x = n) (take (length xs - 1) xs) of Some k \<Rightarrow> k | None \<Rightarrow> 0"
    let ?zs = "take ?k xs @ drop (Suc ?k) xs"
    have k: "?k < length xs - 1" by (rule drop_at_less [OF True])
    then have zs: "?zs \<noteq> []" "last ?zs = last xs" "set ?zs \<subseteq> set xs" by (auto simp: last_append dest: in_set_takeD in_set_dropD)
    have "trim_pending_to_cap xs n = trim_pending_to_cap ?zs n" using True by (subst trim_pending_to_cap.simps) (simp add: Let_def)
    then show ?thesis using 1(1) [OF True refl zs(1)] zs unfolding Let_def by auto
  next
    case False
    then show ?thesis using 1(2) by (subst (1) trim_pending_to_cap.simps) (simp add: trim_pending_to_cap.simps)
  qed
qed

lemma integrate_spec:
  assumes "request_ok r" "\<forall>x \<in> set xs. request_ok x \<and> mr_model_id x = mr_model_id r"
  shows "length (integrate_pending xs r) \<le> MAX_PENDING_RANGES_PER_MODEL \<and> integrate_pending xs r \<noteq> [] \<and>
    (\<forall>x \<in> set (integrate_pending xs r). request_ok x \<and> mr_model_id x = mr_model_id r) \<and> covers (last (integrate_pending xs r)) r"
proof -
  obtain ys m b where a: "absorb_close xs r False = (ys, m, b)" by (metis prod_cases3)
  note s = absorb_close_spec [OF a]
  let ?l = "(if b then ys else filter (\<lambda>x. mr_node_id x \<noteq> mr_node_id m) ys) @ [m]"
  have l: "integrate_pending xs r = trim_pending_to_cap ?l (mr_node_id m)" by (simp add: integrate_pending_def a)
  have "last ?l = m" "set ?l \<subseteq> insert m (set xs)" using s by auto
  moreover have "request_ok m" "mr_model_id m = mr_model_id r" using s assms(1) by (auto simp: covers_def)
  moreover have "length (integrate_pending xs r) \<le> MAX_PENDING_RANGES_PER_MODEL" "set (integrate_pending xs r) \<subseteq> set ?l"
    "integrate_pending xs r \<noteq> []" "last (integrate_pending xs r) = last ?l" using trim_pending_spec [of ?l "mr_node_id m"] unfolding l Let_def by simp_all
  ultimately show ?thesis using s assms(2) by auto
qed

section \<open>The inbox\<close>

definition inbox_linked :: "coalescing_state \<Rightarrow> bool" where
  "inbox_linked s \<longleftrightarrow> distinct (in_order s) \<and> set (in_order s) = fmdom' (in_pending s) \<and>
     (\<forall>i xs. fmlookup (in_pending s) i = Some xs \<longrightarrow> xs \<noteq> [] \<and> length xs \<le> MAX_PENDING_RANGES_PER_MODEL \<and>
        (\<forall>x \<in> set xs. request_ok x \<and> mr_model_id x = i))"

definition inbox_ok :: "coalescing_state \<Rightarrow> bool" where
  "inbox_ok s \<longleftrightarrow> inbox_linked s \<and> length (in_order s) \<le> MAX_INFLIGHT_MODELS"

lemma linked_len: "inbox_linked s \<Longrightarrow> len_map (in_pending s) = length (in_order s)"
  unfolding inbox_linked_def by (metis distinct_card fcard.rep_eq fmdom'_alt_def)

lemma evict_once:
  assumes "inbox_linked s" "length (in_order s) \<le> Suc MAX_INFLIGHT_MODELS"
  shows "evict_oldest_models_over_cap s = (if length (in_order s) \<le> MAX_INFLIGHT_MODELS then s
    else s\<lparr>in_pending := fmdrop (hd (in_order s)) (in_pending s), in_order := tl (in_order s)\<rparr>)"
proof (cases "in_order s")
  case Nil
  then show ?thesis using linked_len [OF assms(1)] by (simp add: evict_oldest_models_over_cap.simps)
next
  case (Cons i rest)
  let ?t = "s\<lparr>in_pending := fmdrop i (in_pending s), in_order := rest\<rparr>"
  have "fmlookup (in_pending s) i \<noteq> None" "filter (\<lambda>j. j \<noteq> i) rest = rest" "inbox_linked ?t"
    using assms(1) Cons by (auto simp: inbox_linked_def filter_id_conv fmlookup_dom'_iff split: if_splits)
  then show ?thesis using linked_len [OF assms(1)] linked_len [of ?t] assms(2) Cons
    by (subst evict_oldest_models_over_cap.simps) (auto simp: evict_oldest_models_over_cap.simps)
qed

lemma submit_spec:
  assumes ok: "inbox_ok s" and r: "request_ok r" "\<not> in_closed s"
  shows "inbox_ok (submit r s) \<and> (\<exists>xs x. fmlookup (in_pending (submit r s)) (mr_model_id r) = Some xs \<and> x \<in> set xs \<and> covers x r)"
proof -
  let ?i = "mr_model_id r"
  define old where "old = (case fmlookup (in_pending s) ?i of Some xs \<Rightarrow> xs | None \<Rightarrow> [])"
  define new where "new = integrate_pending old r"
  define t where "t = (let s = s\<lparr>in_pending := fmupd ?i new (in_pending s)\<rparr> in if old = [] \<and> new \<noteq> [] then s\<lparr>in_order := in_order s @ [?i]\<rparr> else s)"
  have link: "inbox_linked s" "length (in_order s) \<le> MAX_INFLIGHT_MODELS" using ok by (simp_all add: inbox_ok_def)
  have "\<forall>x \<in> set old. request_ok x \<and> mr_model_id x = ?i" using link(1) by (cases "fmlookup (in_pending s) ?i") (simp_all add: old_def inbox_linked_def)
  note new = integrate_spec [OF r(1) this, folded new_def]
  have known: "old = [] \<longleftrightarrow> ?i \<notin> set (in_order s)" using link(1) by (auto simp: old_def inbox_linked_def fmlookup_dom'_iff split: option.splits)
  have tl: "inbox_linked t" using link(1) new known by (auto simp: t_def inbox_linked_def Let_def split: if_splits)
  have ord: "in_order t = (if old = [] then in_order s @ [?i] else in_order s)" "fmlookup (in_pending t) ?i = Some new" using new by (simp_all add: t_def Let_def)
  have sub: "submit r s = evict_oldest_models_over_cap t"
    using r by (simp add: submit_def request_ok_def t_def new_def old_def Let_def)
  have len: "length (in_order t) \<le> Suc MAX_INFLIGHT_MODELS" using ord link(2) by simp
  show ?thesis
  proof (cases "length (in_order t) \<le> MAX_INFLIGHT_MODELS")
    case True
    then show ?thesis using evict_once [OF tl len] tl sub ord(2) new last_in_set by (auto simp: inbox_ok_def)
  next
    case False
    then obtain i rest where i: "in_order t = i # rest" "rest \<noteq> []" "old = []" using ord link(2)
      by (cases "in_order s") (auto simp: MAX_INFLIGHT_MODELS_def split: if_splits)
    have "i \<noteq> ?i" using i ord known by (cases "in_order s") auto
    moreover have "submit r s = t\<lparr>in_pending := fmdrop i (in_pending t), in_order := rest\<rparr>" using False evict_once [OF tl len] sub i by simp
    moreover have "inbox_linked (t\<lparr>in_pending := fmdrop i (in_pending t), in_order := rest\<rparr>)"
      using tl i by (auto simp: inbox_linked_def split: if_splits)
    ultimately show ?thesis using len i ord(2) new last_in_set by (auto simp: inbox_ok_def)
  qed
qed

text \<open>The requests that wait, and the answers of successive pops.\<close>

definition requests_for :: "(model_id, range_request list) fmap \<Rightarrow> model_id \<Rightarrow> range_request list" where
  "requests_for m i = (case fmlookup m i of Some xs \<Rightarrow> xs | None \<Rightarrow> [])"

definition waiting :: "coalescing_state \<Rightarrow> range_request multiset" where
  "waiting s = mset (concat (map (requests_for (in_pending s)) (in_order s)))"

fun pops :: "nat \<Rightarrow> coalescing_state \<Rightarrow> range_request list \<times> coalescing_state" where
  "pops 0 s = ([], s)"
| "pops (Suc n) s = (case try_pop s of (None, s) \<Rightarrow> ([], s) | (Some r, s) \<Rightarrow> (case pops n s of (rs, s) \<Rightarrow> (r # rs, s)))"

lemma try_pop_spec:
  assumes "inbox_ok s"
  shows "case in_order s of [] \<Rightarrow> try_pop s = (None, s)
    | _ # _ \<Rightarrow> (\<exists>r s'. try_pop s = (Some r, s') \<and> inbox_ok s' \<and> waiting s = add_mset r (waiting s'))"
proof (cases "in_order s")
  case Nil
  then show ?thesis by (simp add: try_pop.simps)
next
  case (Cons i rest)
  have link: "inbox_linked s" "length (in_order s) \<le> MAX_INFLIGHT_MODELS" using assms by (simp_all add: inbox_ok_def)
  then obtain r rs where p: "fmlookup (in_pending s) i = Some (r # rs)"
    using Cons unfolding inbox_linked_def by (metis fmlookup_dom'_iff list.exhaust list.set_intros(1))
  have fresh: "i \<notin> set rest" using link(1) Cons by (simp add: inbox_linked_def)
  let ?t = "if rs = [] then s\<lparr>in_order := rest, in_pending := fmdrop i (in_pending s)\<rparr> else s\<lparr>in_order := rest @ [i], in_pending := fmupd i rs (in_pending s)\<rparr>"
  have "try_pop s = (Some r, ?t)" using Cons p by (subst try_pop.simps) simp
  moreover have "inbox_linked ?t"
  proof -
    have "length (r # rs) \<le> MAX_PENDING_RANGES_PER_MODEL" "\<forall>x \<in> set (r # rs). request_ok x \<and> mr_model_id x = i"
      using link(1) p unfolding inbox_linked_def by blast+
    then show ?thesis using link(1) Cons by (auto simp: inbox_linked_def split: if_splits)
  qed
  moreover have "waiting s = add_mset r (waiting ?t)"
  proof -
    have "map (requests_for m') rest = map (requests_for (in_pending s)) rest"
      if "\<And>j. j \<noteq> i \<Longrightarrow> fmlookup m' j = fmlookup (in_pending s) j" for m'
      using that fresh by (intro map_cong refl) (metis requests_for_def)
    from this [of "fmdrop i (in_pending s)"] this [of "fmupd i rs (in_pending s)"]
    have "map (requests_for (fmdrop i (in_pending s))) rest = map (requests_for (in_pending s)) rest"
      "map (requests_for (fmupd i rs (in_pending s))) rest = map (requests_for (in_pending s)) rest" by (simp_all add: fmlookup_drop)
    moreover have "requests_for (in_pending s) i = r # rs" "requests_for (fmupd i rs (in_pending s)) i = rs" using p by (simp_all add: requests_for_def)
    ultimately show ?thesis using Cons by (simp add: waiting_def cong: map_cong)
  qed
  ultimately show ?thesis using Cons link(2) by (auto simp: inbox_ok_def)
qed

lemma waiting_empty: "inbox_ok s \<Longrightarrow> waiting s = {#} \<longleftrightarrow> in_order s = []"
proof (cases "in_order s")
  case (Cons i rest)
  assume "inbox_ok s"
  then obtain r s' where "waiting s = add_mset r (waiting s')" using try_pop_spec [of s] Cons by auto
  then show ?thesis using Cons by simp
qed (simp add: waiting_def)

lemma pops_all: "inbox_ok s \<Longrightarrow> size (waiting s) = n \<Longrightarrow> \<exists>rs s'. pops n s = (rs, s') \<and> mset rs = waiting s \<and> inbox_ok s' \<and> waiting s' = {#}"
proof (induction n arbitrary: s)
  case (Suc n)
  then have "in_order s \<noteq> []" using waiting_empty [of s] by auto
  then obtain r t where t: "try_pop s = (Some r, t)" "inbox_ok t" "waiting s = add_mset r (waiting t)"
    using try_pop_spec [OF Suc.prems(1)] by (cases "in_order s") auto
  with Suc.IH [OF t(2)] Suc.prems(2) show ?case by fastforce
qed simp

section \<open>Properties\<close>

text \<open>
  C9: A range request fills exactly its window, or nothing.  The provider, and the threads that run meanwhile, use the
  session by its operations, and the items it returns have resource hashes of 32 bytes.  For every answer, errors
  included, the session has moved only by its operations and is consistent.  When the answer is a committed range, it names the current
  revision, and after the provider registered for the model has returned items, one commit has put just these
  at the requested positions: the rest of the store is as the provider left it, the length of the model included, except
  that other positions of the model may be dropped when its cache has no room.  When the
  window is answered as cached, it is cached.  Answers other than a committed range, errors included (a panic excepted), leave the session as it was
  or, if the registered provider has been asked, as that left it; a missing provider is answered only if none is registered.
\<close>

theorem range_request_fulfilled:
  assumes "provider_ok h" "session_ok (s_inner (rs_session s))" "fulfill_model_range_request h rq s = (r, s')"
  shows "session_moves (s_inner (rs_session s)) (s_inner (rs_session s')) \<and> session_ok (s_inner (rs_session s')) \<and> range_answered h rq s r s'"
  using fulfil_spec [OF assms] moved_ok [of "rs_session s" "rs_session s'"] assms(2) by (simp add: moved_def)

text \<open>
  C30: The inbox of range requests stays within its bounds: at most 32 models wait, each with at most 8 windows,
  every waiting window is well-formed, and the order of service names every model with a waiting window exactly once.
\<close>

theorem inbox_invariant:
  assumes "inbox_ok s"
  shows "inbox_ok inbox_new \<and> inbox_ok (submit r s) \<and> inbox_ok (inbox_close s) \<and> inbox_ok (snd (try_pop s))"
proof -
  have "inbox_ok inbox_new" by (simp add: inbox_ok_def inbox_linked_def inbox_new_def)
  moreover have "inbox_ok (submit r s)"
    using assms submit_spec [OF assms, of r] by (cases "request_ok r \<and> \<not> in_closed s") (auto simp: submit_def request_ok_def)
  moreover have "inbox_ok (inbox_close s)" using assms by (simp add: inbox_ok_def inbox_linked_def inbox_close_def)
  moreover have "inbox_ok (snd (try_pop s))" using assms try_pop_spec [OF assms] by (auto split: list.splits)
  ultimately show ?thesis by blast
qed

theorem inbox_invariant_witness:
  "inbox_ok (submit \<lparr>mr_node_id = 1, mr_model_id = 2, mr_start_index = 0, mr_count = 10, mr_observed_revision = 0\<rparr> inbox_new)"
  by (rule inbox_invariant [THEN conjunct2, THEN conjunct1]) (simp add: inbox_ok_def inbox_linked_def inbox_new_def)

text \<open>
  C10: A submitted window is served.  Whatever waits already, repeated pops return every waiting request once and then the
  inbox is empty; among them is one that covers the submitted window for the same node and model, whether it was
  merged with others or not.
\<close>

theorem submitted_window_served:
  assumes "inbox_ok s" "request_ok r" "\<not> in_closed s"
  shows "\<exists>rs s'. pops (size (waiting (submit r s))) (submit r s) = (rs, s') \<and> mset rs = waiting (submit r s) \<and> waiting s' = {#} \<and>
    (\<exists>x \<in> set rs. covers x r)"
proof -
  obtain xs x where ok: "inbox_ok (submit r s)" "fmlookup (in_pending (submit r s)) (mr_model_id r) = Some xs" "x \<in> set xs" "covers x r"
    using submit_spec [OF assms] by blast
  obtain rs s' where p: "pops (size (waiting (submit r s))) (submit r s) = (rs, s')" "mset rs = waiting (submit r s)" "waiting s' = {#}"
    using pops_all [OF ok(1) refl] by blast
  have "mr_model_id r \<in> set (in_order (submit r s))" using ok(1,2) by (auto simp: inbox_ok_def inbox_linked_def fmlookup_dom'_iff)
  then have "x \<in># waiting (submit r s)" using ok(2,3) by (auto simp: waiting_def requests_for_def intro!: bexI [of _ "mr_model_id r"])
  with p ok(4) show ?thesis by (metis set_mset_mset)
qed

section \<open>Examples\<close>

definition page :: "u64 \<Rightarrow> u64 \<Rightarrow> range_request" where
  "page start n = \<lparr>mr_node_id = 1, mr_model_id = 2, mr_start_index = start, mr_count = n, mr_observed_revision = 0\<rparr>"

theorem submitted_window_served_witness:
  "\<exists>rs s'. pops (size (waiting (submit (page 0 10) inbox_new))) (submit (page 0 10) inbox_new) = (rs, s') \<and> (\<exists>x \<in> set rs. covers x (page 0 10))"
proof -
  have "inbox_ok inbox_new" "request_ok (page 0 10)" "\<not> in_closed inbox_new"
    by (simp_all add: inbox_ok_def inbox_linked_def inbox_new_def request_ok_def page_def)
  from submitted_window_served [OF this] show ?thesis by blast
qed

definition list_store :: semantic_store where
  "list_store = snd (create_node 1 (standard_type 17) None None [(MODEL_REF, VUnsignedInt 2)] (snd (create_model 2 (standard_type 17) 150 store_new)))"

lemma list_store_eval: "revision list_store = 0" "limits list_store = default_limits"
  "fmlookup (nodes list_store) 1 = Some (node_new 1 (standard_type 17) None [(MODEL_REF, VUnsignedInt 2)])"
  "fmlookup (models list_store) 2 = Some (model_new 2 (standard_type 17) 150)"
  by (simp_all add: list_store_def create_eval)

lemma page_validates: "validate_request list_store (page start n) =
    (if n = 0 then Error CountZero
     else case checked_add start n of None \<Rightarrow> Error (IndexOverflow start n)
       | Some e \<Rightarrow> if e > 150 then Error (RangeOutOfBounds start e 150)
           else if unat n > 10000 then Error (CountExceedsLimit n 10000) else Ok (page start n))"
  by (simp add: validate_request_def page_def list_store_eval is_collection_type_def node_new_def node_model_ref_def collect_properties_def
      model_ref_value_def model_new_def default_limits_def limits_eval ok_or_def split: option.splits)

text \<open>
  A window that is valid on its own is lost when a later request beyond the end of the model comes close to it: both become
  one window, and that one is refused.
\<close>

lemma merge_spoils_window:
  "validate_request list_store (page 0 100) = Ok (page 0 100)" "integrate_pending [page 0 100] (page 100 100) = [page 0 200]"
  "validate_request list_store (page 0 200) = Error (RangeOutOfBounds 0 200 150)"
proof -
  show "integrate_pending [page 0 100] (page 100 100) = [page 0 200]"
    by (simp add: integrate_pending_def ranges_are_close_def bounding_range_def request_end_def page_def checked_add_def checked_sub_def saturating_sub_def
        COALESCE_SPAN_def MAX_MERGED_COUNT_def trim_pending_to_cap.simps MAX_PENDING_RANGES_PER_MODEL_def)
qed (simp_all add: page_validates checked_add_def)

definition list_session :: range_session where
  "list_session = \<lparr>rs_session = plain_session\<lparr>s_inner := session_a\<lparr>si_store := list_store\<rparr>\<rparr>, rs_providers = fmupd 2 0 fmempty\<rparr>"

definition one_item_host :: range_host where
  "one_item_host = \<lparr>rg_provider = \<lambda>_ _ s. (Ok [item_b], s), rg_framed_len = \<lambda>_. 10, rg_gone = \<lambda>_. False\<rparr>"

lemma list_session_ok: "session_ok (s_inner (rs_session list_session))"
proof -
  have "store_ok list_store"
    unfolding list_store_def using create_model_keeps [OF prod.collapse [symmetric] store_new_ok(1)] by (intro create_node_ok) (auto simp: keeps_def)
  then show ?thesis using session_a_ok list_store_eval session_a_store by (simp add: session_ok_def list_session_def)
qed

lemma one_item_host_ok: "provider_ok one_item_host"
  by (simp add: provider_ok_def one_item_host_def moved_refl item_b_def item_hashes_wf_def hashes_wf_def)

lemma one_item_resets: "\<exists>st. model_reset_range 2 0 [item_b] None list_store = (Ok (), st)"
proof -
  have "validate_items (limits list_store) [item_b] = Ok ()"
    by (simp add: validate_items_def validate_model_items_batch_def validate_item_def list_store_eval default_limits_def limits_eval item_b_def
        validate_value_def validate_value_inner.simps)
  moreover have "\<exists>m. cached_reset default_limits 0 [item_b] None (model_new 2 (standard_type 17) 150) = (Ok (), m)"
    by (simp add: cached_reset_def model_new_def item_b_def projected_def reset_range_def checked_add_def reset_clash_def Let_def word_le_nat_alt default_limits_def limits_eval
      cached_item_count_def overlap_def fcard_fempty)
  ultimately show ?thesis by (auto simp: model_reset_range_def with_model_def list_store_eval)
qed

lemma one_item_commits: "\<exists>rv s'. fulfill_model_range_request one_item_host (page 0 1) list_session = (Ok (RangeCommitted rv), s')"
proof -
  let ?s = "plain_session\<lparr>s_inner := session_a\<lparr>si_store := list_store\<rparr>\<rparr>"
  let ?op = "ModelResetRange 2 0 [item_b] None"
  have val: "validate_request list_store (page 0 1) = Ok (page 0 1)" by (simp add: page_validates checked_add_def)
  have nc: "\<not> window_is_cached list_store (page 0 1)"
    by (simp add: window_is_cached_def page_def list_store_eval range_is_cached_def contains_index_def model_new_def)
  obtain st where st: "model_reset_range 2 0 [item_b] None list_store = (Ok (), st)" using one_item_resets by blast
  then obtain ui where ui: "apply_ops [?op] (ui_new list_store 10000) = (Ok (), ui)" "ui_operations ui = [?op]"
    by (simp add: ui_apply_op_def recorded_def record_op_def ui_new_def Let_def)
  obtain commit where c: "commit_new 0 [?op] = Inr commit"
    by (simp add: commit_new_def transaction_new_def revision_next_def checked_add_def expect_def)
  have p: "journal_prepare (journal_new 4) commit = Inr (JournalPermit (transaction_to_wire (commit_transaction commit)))"
    by (simp add: journal_prepare_Ok journal_new_def)
  obtain j where j: "journal_append (JournalPermit (transaction_to_wire (commit_transaction commit))) (journal_new 4) = (Inr (), j)"
    using journal_append_total [OF p] by blast
  have s: "si_store (s_inner ?s) = list_store" "si_journal (s_inner ?s) = journal_new 4" "outbound_hub ?s = hub_new"
    by (simp_all add: session_a_def plain_session_def)
  have "\<exists>t. commit_ops_locked one_item_host [?op] u = (Ok (), t)"
    if "si_store (s_inner u) = list_store" "si_journal (s_inner u) = journal_new 4" "outbound_hub u = hub_new" for u
    using ui c p j that by (simp add: commit_ops_locked_def list_store_eval default_limits_def limits_eval clone_staging_def publish_def hub_new_def Let_def
        del: apply_ops.simps)
  from this [OF s] obtain t where t: "commit_ops_locked one_item_host [?op] ?s = (Ok (), t)" by blast
  then have "commit_reset_if_current one_item_host (page 0 1) [item_b] ?s = (Ok (RangeCommitted (revision (si_store (s_inner t)))), t)"
    using val nc by (simp add: commit_reset_if_current_def s) (simp add: page_def)
  then show ?thesis using val nc
    by (simp add: fulfill_model_range_request_def list_session_def s one_item_host_def) (simp add: page_def)
qed

theorem range_request_fulfilled_witness:
  "\<exists>rv s'. fulfill_model_range_request one_item_host (page 0 1) list_session = (Ok (RangeCommitted rv), s') \<and>
     rv = revision (si_store (s_inner (rs_session s'))) \<and> window_filled list_store (page 0 1) [item_b] (si_store (s_inner (rs_session s')))"
proof -
  obtain rv s' where run: "fulfill_model_range_request one_item_host (page 0 1) list_session = (Ok (RangeCommitted rv), s')"
    using one_item_commits by blast
  from range_request_fulfilled [OF one_item_host_ok list_session_ok run]
  obtain its u where "rv = revision (si_store (s_inner (rs_session s')))" "asked one_item_host (page 0 1) list_session (Ok its) u"
    "window_filled (si_store (s_inner (rs_session u))) (page 0 1) its (si_store (s_inner (rs_session s')))" by (auto simp: range_answered_def)
  then show ?thesis using run by (auto simp: asked_def one_item_host_def list_session_def)
qed

end
