(* ===== verification/Spec2Isabelle.thy ===== *)
theory Spec2Isabelle
  imports Text_Edit_Tracker Outbound Output_Ring Event_Dedupe Snapshot_Restore Range_Properties
begin

text \<open>
  A verification development of the SRUI session server.

  \<^bold>\<open>The program.\<close>  SRUI keeps the user interface of an application as a tree of semantic nodes with
  typed properties and with collection models that cache windows of long lists.  The server owns
  the authoritative tree.  Every change is a transaction: a batch of operations from one revision
  to the next, applied to a staged copy and committed whole.  A committed transaction is appended
  to a bounded journal, from which a client that reconnects catches up, and it is published to a
  hub that keeps a bounded queue per connected client.  Slow clients get scalar updates
  coalesced; a client whose queue overflows is cut off and has to resynchronise.  A weighted
  scheduler shares one connection between control, user interface, terminal and resource
  traffic; resources live in a bounded content-addressed store and travel in chunks.

  \<^bold>\<open>The theories\<close>, bottom up, each with the sources under \<^verbatim>\<open>src/server-rust/\<close> that it models:

  \<^item> \<open>Prelude\<close>: machine integers, results, maps; the collections \<open>result_simps\<close>, \<open>word_nat\<close>
    and \<open>fmap_card\<close>.
  \<^item> \<open>Values\<close> (\<^verbatim>\<open>semantic-tree/src/ids\<close>, \<^verbatim>\<open>value\<close>): ids, references, values, the text form of
    resource hashes.
  \<^item> \<open>Store_Limits\<close> (\<^verbatim>\<open>store/limits.rs\<close>, \<^verbatim>\<open>store/error.rs\<close>): limits, errors and the validation
    of values, shown equal to a bound on depth and sizes.
  \<^item> \<open>Collection_Model\<close> (\<^verbatim>\<open>model.rs\<close>): sparse windowed lists with 64-bit indices.  The
    operations refine operations on a sparse list; eviction keeps the entries nearest to the
    window; the cached ranges are the maximal runs.
  \<^item> \<open>Store\<close>, \<open>Node_Graph\<close>, \<open>Model_Contract\<close>, \<open>Store_Invariant\<close> (\<^verbatim>\<open>store/mod.rs\<close>,
    \<^verbatim>\<open>store/node.rs\<close>): the record \<open>semantic_store\<close> has the fields of \<open>SemanticStore\<close>, each method
    is one definition.  The invariant \<open>store_ok\<close>: parent and child links agree, the graph is a
    forest within the depth limit, values respect the limits, models are well-formed.
    \<open>Model_Contract\<close> states what the store relies on in its models as the locale
    \<open>model_operation\<close>, interpreted for insertion, deletion, update and reset.
  \<^item> \<open>Transaction\<close> (\<^verbatim>\<open>transaction/\<close>): operations, the forms of a transaction, application on a
    staged copy, snapshots and the two-phase commit.  The locale \<open>store_operation\<close> carries the
    lemmas on loops of operations for the borrowed and the owned path.
  \<^item> \<open>Wire\<close> (\<^verbatim>\<open>value/wire.rs\<close>, \<^verbatim>\<open>transaction/wire.rs\<close>): the protobuf messages and both directions
    of conversion.
  \<^item> \<open>Journal\<close> (\<^verbatim>\<open>journal/src/lib.rs\<close>): the bounded window of committed transactions.
  \<^item> \<open>Text_Edit_Tracker\<close> (\<^verbatim>\<open>sessiond/src/session/text_edit.rs\<close>): sequence numbers of text edits.
  \<^item> \<open>Ui_Transaction\<close> (\<^verbatim>\<open>sdk/src/session.rs\<close>): transactions opened by a closure.  A closure is a
    tree of calls and continuations (\<open>ui_prog\<close>); \<open>disciplined\<close> says that it leaves at its first
    error.
  \<^item> \<open>Session_Commit\<close> (\<^verbatim>\<open>sessiond/src/session.rs\<close>): the session under its mutex, lifecycle, both
    commit paths with their effects, replay.
  \<^item> \<open>Coalesce\<close>, \<open>Scheduler\<close>, \<open>Resources\<close>, \<open>Resource_Transfer\<close>, \<open>Outbound\<close>
    (\<^verbatim>\<open>sessiond/src/outbound/\<close>, \<^verbatim>\<open>resources/src/\<close>): delivery to the clients.
  \<^item> \<open>Snapshot_Framing\<close> (\<^verbatim>\<open>protocol/src/snapshot_framing.rs\<close>): the division of a snapshot into envelopes and
    its assembly by the replica; greedy packing is shown to use the fewest envelopes.
  \<^item> \<open>Codec\<close> (\<^verbatim>\<open>protocol/src/framing.rs\<close>, \<^verbatim>\<open>codec.rs\<close>): length-delimited frames over a byte stream.
  \<^item> \<open>Snapshot_Export\<close>, \<open>Snapshot_Restore\<close> (\<^verbatim>\<open>sessiond/src/session/snapshot.rs\<close>): the export of the store;
    the second theory follows the exported operations into the replica.
  \<^item> \<open>Event_Dedupe\<close> (\<^verbatim>\<open>event-dedupe/src/lib.rs\<close>): receive windows of client events.
  \<^item> \<open>Capability\<close> (\<^verbatim>\<open>semantic-tree/src/capability.rs\<close>): profiles, their text form and the negotiation.
  \<^item> \<open>Extensions\<close> (\<^verbatim>\<open>sessiond/src/session/extensions.rs\<close>, \<^verbatim>\<open>handshake.rs\<close>, \<^verbatim>\<open>terminal.rs\<close>): the whole record of a
    session and the contract between advertised profiles and namespaces.
  \<^item> \<open>Pending_Edits\<close> (\<^verbatim>\<open>session.rs\<close>, \<^verbatim>\<open>text_edit.rs\<close>): bounded event identities and the cancellation of pending edits.
  \<^item> \<open>Handshake\<close> (\<^verbatim>\<open>sessiond/src/session/handshake.rs\<close>, \<^verbatim>\<open>terminal.rs\<close>): the fresh and the resuming handshake with their
    optimistic retries; \<open>Handshake_Properties\<close> shows them free of gaps under the steps \<open>session_moves\<close> of other threads.
  \<^item> \<open>Replica\<close>: a replica that starts from a snapshot follows the server, a simulation of all operations.
  \<^item> \<open>Event_Wire\<close> (\<^verbatim>\<open>semantic-tree/src/event.rs\<close>, \<^verbatim>\<open>wire.rs\<close>): events of clients, their arguments and validation, node
    records, and the conversions from and to the messages.
  \<^item> \<open>Event_Dispatch\<close>, \<open>Dispatch_Properties\<close> (\<^verbatim>\<open>sessiond/src/session.rs\<close>, \<^verbatim>\<open>session/text_edit.rs\<close>): the way of an event
    through admission, validation, handlers or text-edit policy, commit and settlement.
  \<^item> \<open>Model_Range\<close>, \<open>Range_Properties\<close> (\<^verbatim>\<open>session/model_range.rs\<close>): requests for windows of collection models, their
    fulfilment by a provider of the application, and the inbox that merges waiting requests.
  \<^item> \<open>Output_Ring\<close> (\<^verbatim>\<open>pty/src/ring.rs\<close>): the bounded buffer of terminal output.

  \<^bold>\<open>What is shown.\<close>  Inside the store: every operation keeps the invariant, does what it says on
  every branch and ends; transactions are atomic and histories of commits keep the invariant.
  Between server and client: a committed transaction has the same effect after the trip over the
  wire; as long as the closures of the application ask only for operations the wire can carry and leave at their first
  error (\<open>disciplined\<close>; \<open>swallowed_error_poisons_journal\<close> shows why), the journal replays exactly the missing transactions,
  so a client that reconnects inside the window ends with the server's store; the merge of coalescing is equivalent to the
  transactions it stands for; and \<open>client_converges\<close> puts these together: for every interleaving of
  such commits and sends, what a connected client has received plus what is queued for it leads from
  the store it subscribed with to the current store of the server.  A client that is too far behind gets a snapshot:
  \<open>snapshot_resync\<close> shows that what is exported, divided, assembled and applied gives the server's store, if that is
  \<open>exportable\<close>, a condition stronger than \<open>store_ok\<close> that a reachable store can fail (\<open>shortened_snapshot_refused\<close>); that the export
  itself returns is shown for well-formed stores.
  \<open>snapshot_client_converges\<close> goes on from there to every later commit, and the handshake theorems show that a
  fresh or resuming client is subscribed at exactly the store that its answer leads to, whatever is committed while the snapshot
  is exported outside the mutex.
  Delivery: queues, journal, stale-client table and resource store stay within their bounds, no lane
  starves, resources are delivered complete and in order, frames are recognised whatever way the
  stream is cut, and the ring returns the bytes of the terminal's stream.  In the other direction an event
  is handed to the application at most once, and a replay is answered with the recorded outcome: \<open>event_answer_stands\<close> shows
  it for the whole path through the session.  A text edit is published completely or not at all, with its number burnt in both cases, and its commit is one by a disciplined closure,
  so all that is said of commits holds for edits too.
  A requested window of a model is filled by one such commit with exactly the items of the provider, and a submitted request is
  served in a bounded number of steps.

  \<^bold>\<open>Bounds and fuel.\<close>  The walks over the node graph take fuel, one more than the number of nodes;
  on a well-formed store this is enough (\<open>graph_walks_terminate\<close>), and \<open>Diverge\<close>, the result
  without fuel, never occurs.  \<open>usize\<close> is \<^typ>\<open>nat\<close>; 64-bit quantities are words, and an
  addition the source does not check is a panic where it overflows, as in a checked build.

  \<^bold>\<open>Parameters.\<close>  The length of an encoded frame (\<open>framed_len\<close>), SHA-256 (\<open>sha256\<close>), the ids of the live
  terminals (\<open>live\<close>), the encoded lengths of operations and items (\<open>oplen\<close>, \<open>item_len\<close>) and the state of the
  wake-up channels (\<open>gone\<close>) are arguments about which nothing is assumed.  The length of a varint (\<open>vlen\<close>) is
  assumed monotone where that matters; of the protobuf library \<open>Codec\<close> assumes \<open>prost_ok\<close>, and a small
  instance with the varints of the format satisfies it.  A handshake has a record \<open>host\<close> of such arguments; of
  what other threads do meanwhile \<open>others_ok\<close> assumes that they use the operations of the session, with disciplined closures.  Handlers and policies are
  functions of a record \<open>application\<close>; \<open>callbacks_ok\<close> assumes the same of them, and of other threads while they run, and that they leave the event that is
  being processed in flight; \<open>provider_ok\<close> says the same of the providers of windows.

  \<^bold>\<open>Not modelled.\<close>  Sockets, the asynchronous runtime, processes and terminals of the operating
  system, the application \<^verbatim>\<open>srtop\<close>, the benchmarks and the Swift client.
\<close>

end
